(* ===== verification/Zmq_Prelude.thy ===== *)
theory Zmq_Prelude
  imports Main "HOL-Library.Word" "HOL-Library.Monad_Syntax"
begin

text \<open>
  Shared vocabulary of the development: the names of the machine types the code uses, the
  error numbers its functions report, the collections of rewrite rules the component
  theories fill, and generic facts on lists, options and list segments.

  Failure conventions. A C++ function of the library can leave by returning, by returning
  an error number, or by a failed \<open>zmq_assert\<close> (which aborts the process), or it can run
  into undefined behaviour (a null or dangling pointer, memory that was never written).
  Operations that can abort or be undefined are functions into \<open>option\<close>, where \<open>None\<close> is
  that failure; error numbers are values of \<open>errno_t\<close>.
\<close>

type_synonym byte = "8 word"
type_synonym blob_t = "byte list"
type_synonym uint32 = "32 word"
type_synonym uint64 = "64 word"
type_synonym addr = nat

text \<open>The error numbers that the modelled functions store in \<open>errno\<close>.\<close>

datatype errno_t =
    EAGAIN | EINVAL | EFAULT | ENOMEM | EMSGSIZE | EPROTO | EFSM | ETERM | ENOTSUP
  | EHOSTUNREACH | EADDRINUSE | ECONNREFUSED | EMFILE | ENOTSOCK | EINTR | ENOENT
  | EPROTONOSUPPORT | ENOCOMPATPROTO | EMTHREAD | EACCES | ENOTCONN | ENODEV | ECONNRESET

named_theorems zmq_defs \<open>definitions of small operations, unfolded on demand\<close>
named_theorems zmq_inv \<open>preservation lemmas of component invariants\<close>

definition zmq_assert :: "bool \<Rightarrow> unit option" where
  "zmq_assert b = (if b then Some () else None)"

lemma zmq_assert_simps [simp]:
  "zmq_assert True = Some ()"
  "zmq_assert False = None"
  "(zmq_assert b = Some u) \<longleftrightarrow> b"
  "(zmq_assert b = None) \<longleftrightarrow> \<not> b"
  by (auto simp: zmq_assert_def)

subsection \<open>List segments\<close>

lemma drop_take_last_snoc:
  assumes "b \<le> n" and "n < length xs"
  shows "drop b (take (Suc n) xs) = drop b (take n xs) @ [xs ! n]"
  using assms by (simp add: take_Suc_conv_app_nth)

lemma hd_drop_take:
  assumes "b < n" and "n \<le> length xs"
  shows "hd (drop b (take n xs)) = xs ! b"
  using assms by (simp add: hd_drop_conv_nth)

lemma last_drop_take:
  assumes "b < n" and "n \<le> length xs"
  shows "last (drop b (take n xs)) = xs ! (n - 1)"
proof -
  obtain m where n: "n = Suc m" using assms(1) by (cases n) auto
  then show ?thesis
    using assms drop_take_last_snoc [of b m xs] by simp
qed

lemma tl_drop_take: "tl (drop b (take n xs)) = drop (Suc b) (take n xs)"
  by (simp add: drop_Suc tl_drop)

lemma butlast_drop_take:
  assumes "b < n" and "n \<le> length xs"
  shows "butlast (drop b (take n xs)) = drop b (take (n - 1) xs)"
proof -
  obtain m where n: "n = Suc m" using assms(1) by (cases n) auto
  then show ?thesis
    using assms drop_take_last_snoc [of b m xs] by simp
qed

text \<open>A loop that looks for the first index with a property and breaks.\<close>

lemma find_upt:
  assumes "a \<le> m" and "m < b" and "P m"
  shows "\<exists>i. find P [a..<b] = Some i \<and> a \<le> i \<and> i < b \<and> P i \<and> (\<forall>j. a \<le> j \<longrightarrow> j < i \<longrightarrow> \<not> P j)"
proof -
  obtain i where i: "find P [a..<b] = Some i"
    using assms by (cases "find P [a..<b]") (auto simp: find_None_iff)
  then obtain n where n: "n < b - a" "P (a + n)" "i = a + n" "\<forall>j < n. \<not> P (a + j)"
    by (auto simp: find_Some_iff)
  then have "\<not> P j" if "a \<le> j" "j < i" for j using that by (metis add_less_cancel_left le_Suc_ex)
  with i n show ?thesis by auto
qed

end
