(* ===== verification/Yqueue.thy ===== *)
theory Yqueue
  imports Zmq_Prelude
begin

text \<open>
  The chunked queue \<open>yqueue_t\<close> of \<^verbatim>\<open>src/yqueue.hpp\<close>: a doubly linked list of chunks of
  \<open>N\<close> slots, with a begin, a back and an end position and one spare chunk kept for
  reuse. The model keeps the chunks in an explicit heap, so that every dereference of a
  chunk that is not allocated is a failure (\<open>None\<close>), and reading a slot that was never
  written is one too. \<open>malloc\<close> is a bump allocator: it returns an address that was never
  used before.

  The invariant \<open>yq_inv N q cs\<close> says that the chunks from begin to end are the distinct
  addresses \<open>cs\<close>, linked both ways, and that nothing but them and the spare is allocated.
  \<open>yq_live N q cs\<close> is the list of the slots between begin and end; each operation is
  shown to change it the way a queue should, to keep the invariant and not to fail.
\<close>

record 'a chunk_t =
  chunk_values :: "'a option list"
  chunk_prev :: "addr option"
  chunk_next :: "addr option"

type_synonym slot = "addr \<times> nat"

record 'a yqueue_t =
  heap :: "addr \<Rightarrow> 'a chunk_t option"
  brk :: addr
  begin_chunk :: addr
  begin_pos :: nat
  back_chunk :: "addr option"
  back_pos :: nat
  end_chunk :: addr
  end_pos :: nat
  spare_chunk :: "addr option"

subsection \<open>Operations\<close>

definition fresh_chunk :: "nat \<Rightarrow> 'a chunk_t" where
  "fresh_chunk N = \<lparr>chunk_values = replicate N None, chunk_prev = None, chunk_next = None\<rparr>"

definition yq_new :: "nat \<Rightarrow> 'a yqueue_t" where
  "yq_new N = \<lparr>heap = [0 \<mapsto> fresh_chunk N], brk = 1, begin_chunk = 0, begin_pos = 0,
     back_chunk = None, back_pos = 0, end_chunk = 0, end_pos = 0, spare_chunk = None\<rparr>"

text \<open>A slot is the address of an element: \<open>&chunk->values [pos]\<close>.\<close>

definition yq_front_slot :: "'a yqueue_t \<Rightarrow> slot" where
  "yq_front_slot q = (begin_chunk q, begin_pos q)"

definition yq_back_slot :: "'a yqueue_t \<Rightarrow> slot option" where
  "yq_back_slot q = map_option (\<lambda>a. (a, back_pos q)) (back_chunk q)"

definition slot_load :: "'a yqueue_t \<Rightarrow> slot \<Rightarrow> 'a option" where
  "slot_load q s = (case heap q (fst s) of
      None \<Rightarrow> None
    | Some ch \<Rightarrow> if snd s < length (chunk_values ch) then chunk_values ch ! snd s else None)"

definition slot_store :: "'a yqueue_t \<Rightarrow> slot \<Rightarrow> 'a \<Rightarrow> 'a yqueue_t option" where
  "slot_store q s v = (case heap q (fst s) of
      None \<Rightarrow> None
    | Some ch \<Rightarrow>
        if snd s < length (chunk_values ch)
        then Some (q\<lparr>heap := (heap q)(fst s \<mapsto>
               ch\<lparr>chunk_values := (chunk_values ch)[snd s := Some v]\<rparr>)\<rparr>)
        else None)"

definition yq_front :: "'a yqueue_t \<Rightarrow> 'a option" where
  "yq_front q = slot_load q (yq_front_slot q)"

definition yq_back :: "'a yqueue_t \<Rightarrow> 'a option" where
  "yq_back q = Option.bind (yq_back_slot q) (slot_load q)"

definition yq_set_back :: "'a \<Rightarrow> 'a yqueue_t \<Rightarrow> 'a yqueue_t option" where
  "yq_set_back v q = Option.bind (yq_back_slot q) (\<lambda>s. slot_store q s v)"

text \<open>\<open>link_chunks q a b\<close> is \<open>a->next = b; b->prev = a\<close>.\<close>

definition link_chunks :: "'a yqueue_t \<Rightarrow> addr \<Rightarrow> addr \<Rightarrow> 'a yqueue_t option" where
  "link_chunks q a b = do {
     ca \<leftarrow> heap q a;
     let h = (heap q)(a \<mapsto> ca\<lparr>chunk_next := Some b\<rparr>);
     cb \<leftarrow> h b;
     Some (q\<lparr>heap := h(b \<mapsto> cb\<lparr>chunk_prev := Some a\<rparr>)\<rparr>)
   }"

text \<open>The next chunk to use: the spare one if there is one, a new one otherwise.\<close>

definition yq_take_chunk :: "nat \<Rightarrow> 'a yqueue_t \<Rightarrow> 'a yqueue_t \<times> addr" where
  "yq_take_chunk N q = (case spare_chunk q of
      Some s \<Rightarrow> (q\<lparr>spare_chunk := None\<rparr>, s)
    | None \<Rightarrow> (q\<lparr>heap := (heap q)(brk q \<mapsto> fresh_chunk N), brk := Suc (brk q)\<rparr>, brk q))"

definition yq_push :: "nat \<Rightarrow> 'a yqueue_t \<Rightarrow> 'a yqueue_t option" where
  "yq_push N q0 =
     (let q = q0\<lparr>back_chunk := Some (end_chunk q0), back_pos := end_pos q0,
                 end_pos := Suc (end_pos q0)\<rparr>
      in if end_pos q \<noteq> N then Some q
         else do {
           let (q, n) = yq_take_chunk N q;
           q \<leftarrow> link_chunks q (end_chunk q) n;
           Some (q\<lparr>end_chunk := n, end_pos := 0\<rparr>)
         })"

text \<open>First half of \<open>unpush\<close>: move the back position one slot backwards.\<close>

definition yq_step_back :: "nat \<Rightarrow> 'a yqueue_t \<Rightarrow> 'a yqueue_t option" where
  "yq_step_back N q =
     (if back_pos q \<noteq> 0 then Some (q\<lparr>back_pos := back_pos q - 1\<rparr>)
      else do {
        b \<leftarrow> back_chunk q;
        cb \<leftarrow> heap q b;
        Some (q\<lparr>back_pos := N - 1, back_chunk := chunk_prev cb\<rparr>)
      })"

definition yq_unpush :: "nat \<Rightarrow> 'a yqueue_t \<Rightarrow> 'a yqueue_t option" where
  "yq_unpush N q0 = do {
     q \<leftarrow> yq_step_back N q0;
     if end_pos q \<noteq> 0 then Some (q\<lparr>end_pos := end_pos q - 1\<rparr>)
     else do {
       ce \<leftarrow> heap q (end_chunk q);
       p \<leftarrow> chunk_prev ce;
       cp \<leftarrow> heap q p;
       n \<leftarrow> chunk_next cp;
       Some (q\<lparr>end_pos := N - 1, end_chunk := p,
               heap := ((heap q)(n := None))(p \<mapsto> cp\<lparr>chunk_next := None\<rparr>)\<rparr>)
     }
   }"

definition yq_pop :: "nat \<Rightarrow> 'a yqueue_t \<Rightarrow> 'a yqueue_t option" where
  "yq_pop N q0 =
     (let q = q0\<lparr>begin_pos := Suc (begin_pos q0)\<rparr>
      in if begin_pos q \<noteq> N then Some q
         else do {
           let old = begin_chunk q;
           cold \<leftarrow> heap q old;
           n \<leftarrow> chunk_next cold;
           cn \<leftarrow> heap q n;
           let h = (heap q)(n \<mapsto> cn\<lparr>chunk_prev := None\<rparr>);
           let h = (case spare_chunk q of None \<Rightarrow> h | Some cs \<Rightarrow> h(cs := None));
           Some (q\<lparr>begin_chunk := n, begin_pos := 0, spare_chunk := Some old, heap := h\<rparr>)
         })"

text \<open>
  The destructor walks from the begin chunk to the end chunk and frees both and all in
  between, then the spare. It is a loop over pointers, so it may in principle not return;
  \<open>yq_destroy_frees_all\<close> below shows that it does and that no chunk is left.
\<close>

partial_function (option) yq_free_chunks :: "'a yqueue_t \<Rightarrow> 'a yqueue_t option" where
  "yq_free_chunks q =
     (case heap q (begin_chunk q) of
        None \<Rightarrow> None
      | Some ch \<Rightarrow>
          if begin_chunk q = end_chunk q then Some (q\<lparr>heap := (heap q)(begin_chunk q := None)\<rparr>)
          else (case chunk_next ch of
                  None \<Rightarrow> None
                | Some n \<Rightarrow> yq_free_chunks (q\<lparr>begin_chunk := n, heap := (heap q)(begin_chunk q := None)\<rparr>)))"

definition yq_destroy :: "'a yqueue_t \<Rightarrow> 'a yqueue_t option" where
  "yq_destroy q0 = do {
     q \<leftarrow> yq_free_chunks q0;
     let q' = q\<lparr>spare_chunk := None\<rparr>;
     Some (case spare_chunk q of None \<Rightarrow> q' | Some sc \<Rightarrow> q'\<lparr>heap := (heap q')(sc := None)\<rparr>)
   }"

subsection \<open>The invariant and the live slots\<close>

definition nxt :: "(addr \<Rightarrow> 'a chunk_t option) \<Rightarrow> addr \<Rightarrow> addr option" where
  "nxt h a = Option.bind (h a) chunk_next"

definition prv :: "(addr \<Rightarrow> 'a chunk_t option) \<Rightarrow> addr \<Rightarrow> addr option" where
  "prv h a = Option.bind (h a) chunk_prev"

fun linked :: "(addr \<Rightarrow> 'a chunk_t option) \<Rightarrow> addr list \<Rightarrow> bool" where
  "linked h (a # b # cs) \<longleftrightarrow> nxt h a = Some b \<and> prv h b = Some a \<and> linked h (b # cs)"
| "linked h _ \<longleftrightarrow> True"

definition slots :: "nat \<Rightarrow> addr list \<Rightarrow> slot list" where
  "slots N cs = concat (map (\<lambda>a. map (Pair a) [0..<N]) cs)"

definition end_index :: "nat \<Rightarrow> 'a yqueue_t \<Rightarrow> addr list \<Rightarrow> nat" where
  "end_index N q cs = (length cs - 1) * N + end_pos q"

definition yq_live :: "nat \<Rightarrow> 'a yqueue_t \<Rightarrow> addr list \<Rightarrow> slot list" where
  "yq_live N q cs = drop (begin_pos q) (take (end_index N q cs) (slots N cs))"

definition chunks_ok :: "nat \<Rightarrow> 'a yqueue_t \<Rightarrow> addr list \<Rightarrow> bool" where
  "chunks_ok N q cs \<longleftrightarrow>
     cs \<noteq> [] \<and> distinct cs \<and> hd cs = begin_chunk q \<and> last cs = end_chunk q \<and>
     linked (heap q) cs \<and>
     (\<forall>a ch. heap q a = Some ch \<longrightarrow> length (chunk_values ch) = N \<and> a < brk q) \<and>
     dom (heap q) = set cs \<union> set_option (spare_chunk q) \<and>
     set_option (spare_chunk q) \<inter> set cs = {}"

definition yq_inv :: "nat \<Rightarrow> 'a yqueue_t \<Rightarrow> addr list \<Rightarrow> bool" where
  "yq_inv N q cs \<longleftrightarrow>
     0 < N \<and> chunks_ok N q cs \<and> begin_pos q < N \<and> end_pos q < N \<and>
     begin_pos q \<le> end_index N q cs \<and>
     (begin_pos q < end_index N q cs \<longrightarrow>
        yq_back_slot q = Some (slots N cs ! (end_index N q cs - 1)))"

definition yq_rep :: "nat \<Rightarrow> 'a yqueue_t \<Rightarrow> slot list \<Rightarrow> bool" where
  "yq_rep N q ss \<longleftrightarrow> (\<exists>cs. yq_inv N q cs \<and> ss = yq_live N q cs)"

subsection \<open>Slots and links\<close>

lemma length_slots [simp]: "length (slots N cs) = length cs * N"
  by (induction cs) (auto simp: slots_def)

lemma slots_Cons: "slots N (a # cs) = map (Pair a) [0..<N] @ slots N cs"
  by (simp add: slots_def)

lemma slots_snoc: "slots N (cs @ [a]) = slots N cs @ map (Pair a) [0..<N]"
  by (simp add: slots_def)

lemma set_slots: "set (slots N cs) = set cs \<times> {0..<N}"
  by (induction cs) (auto simp: slots_def)

lemma distinct_slots: "distinct cs \<Longrightarrow> distinct (slots N cs)"
  by (induction cs) (auto simp: slots_Cons set_slots distinct_map inj_on_def, simp add: slots_def)

lemma nth_slots_last:
  "cs \<noteq> [] \<Longrightarrow> j < N \<Longrightarrow> slots N cs ! ((length cs - 1) * N + j) = (last cs, j)"
  by (cases cs rule: rev_cases) (auto simp: slots_snoc nth_append)

lemma nth_slots_hd: "cs \<noteq> [] \<Longrightarrow> j < N \<Longrightarrow> slots N cs ! j = (hd cs, j)"
  by (cases cs) (auto simp: slots_Cons nth_append)

lemma linked_cong:
  assumes "\<And>a. a \<in> set (butlast cs) \<Longrightarrow> nxt h a = nxt h' a"
    and "\<And>a. a \<in> set (tl cs) \<Longrightarrow> prv h a = prv h' a"
  shows "linked h cs = linked h' cs"
  using assms by (induction h cs rule: linked.induct) auto

lemma linked_snoc2:
  "linked h (cs @ [a, b]) \<longleftrightarrow> linked h (cs @ [a]) \<and> nxt h a = Some b \<and> prv h b = Some a"
  by (induction h cs rule: linked.induct) auto

lemma linked_snoc:
  "cs \<noteq> [] \<Longrightarrow>
   linked h (cs @ [b]) \<longleftrightarrow> linked h cs \<and> nxt h (last cs) = Some b \<and> prv h b = Some (last cs)"
  by (cases cs rule: rev_cases) (auto simp: linked_snoc2)

lemma linked_tl: "linked h (a # cs) \<Longrightarrow> linked h cs"
  by (cases cs) auto

subsection \<open>Each operation on the live slots\<close>

lemma slot_load_cong:
  "heap q' = heap q \<Longrightarrow> slot_load q' s = slot_load q s"
  by (simp add: slot_load_def)

lemma slot_load_links:
  assumes "map_option chunk_values (heap q' (fst s)) = map_option chunk_values (heap q (fst s))"
  shows "slot_load q' s = slot_load q s"
  using assms by (auto simp: slot_load_def split: option.splits)

lemma link_chunks_ok:
  assumes ok: "cs \<noteq> []" "distinct cs" "hd cs = begin_chunk q" "last cs = end_chunk q"
      "linked (heap q) cs"
    and vals: "\<And>a ch. heap q a = Some ch \<Longrightarrow> length (chunk_values ch) = N \<and> a < brk q"
    and dom: "dom (heap q) = insert n (set cs)" and n: "n \<notin> set cs"
    and sp: "spare_chunk q = None"
  obtains q' where "link_chunks q (end_chunk q) n = Some q'"
    and "chunks_ok N (q'\<lparr>end_chunk := n, end_pos := e\<rparr>) (cs @ [n])"
    and "\<And>s. slot_load q' s = slot_load q s"
    and "\<exists>h. q' = q\<lparr>heap := h\<rparr>"
proof -
  let ?e = "end_chunk q"
  have ein: "?e \<in> set cs" and ne: "n \<noteq> ?e"
    using ok n by (metis last_in_set)+
  obtain ca where ca: "heap q ?e = Some ca" using dom ein by blast
  obtain cb where cb: "heap q n = Some cb" using dom by blast
  define h where "h = (heap q)(?e \<mapsto> ca\<lparr>chunk_next := Some n\<rparr>, n \<mapsto> cb\<lparr>chunk_prev := Some ?e\<rparr>)"
  define q' where "q' = q\<lparr>heap := h\<rparr>"
  have link: "link_chunks q ?e n = Some q'"
    using ca cb ne by (simp add: link_chunks_def q'_def h_def Let_def)
  have load: "slot_load q' s = slot_load q s" for s
    by (rule slot_load_links) (use ca cb in \<open>auto simp: q'_def h_def\<close>)
  have bl: "last cs \<notin> set (butlast cs)"
    using ok(1,2) by (metis append_butlast_last_id distinct_butlast not_distinct_conv_prefix)
  have "linked h cs"
    unfolding linked_cong [of cs h "heap q"]
  proof (rule linked_cong [THEN iffD2, OF _ _ ok(5)])
    fix a assume a: "a \<in> set (butlast cs)"
    with bl ok(4) have "a \<noteq> ?e" by auto
    moreover from a n have "a \<noteq> n" by (auto dest: in_set_butlastD)
    ultimately show "nxt h a = nxt (heap q) a" by (simp add: nxt_def h_def)
  next
    fix a assume "a \<in> set (tl cs)"
    with n ok(1) have "a \<noteq> n" by (auto dest: list.set_sel(2))
    with ca show "prv h a = prv (heap q) a" by (simp add: prv_def h_def)
  qed
  moreover have "nxt h ?e = Some n" and "prv h n = Some ?e"
    using ne by (simp_all add: nxt_def prv_def h_def)
  ultimately have "linked h (cs @ [n])"
    using ok(1,4) by (simp add: linked_snoc)
  moreover have "length (chunk_values ch) = N \<and> a < brk q" if "h a = Some ch" for a ch
    using that vals ca cb by (auto simp: h_def split: if_splits)
  moreover have "dom h = insert n (set cs)"
    using dom ein by (auto simp: h_def)
  ultimately have "chunks_ok N (q'\<lparr>end_chunk := n, end_pos := e\<rparr>) (cs @ [n])"
    using ok n sp by (auto simp: chunks_ok_def q'_def)
  with link load that show thesis unfolding q'_def by blast
qed

lemma end_index_le: "yq_inv N q cs \<Longrightarrow> end_index N q cs < length cs * N"
  by (cases cs) (auto simp: yq_inv_def chunks_ok_def end_index_def)

lemma yq_live_distinct: "yq_inv N q cs \<Longrightarrow> distinct (yq_live N q cs)"
  by (auto simp: yq_live_def yq_inv_def chunks_ok_def intro!: distinct_drop distinct_take distinct_slots)

lemma slot_in_chunks: "t \<in> set (yq_live N q cs) \<Longrightarrow> fst t \<in> set cs"
  using set_slots [of N cs] by (auto simp: yq_live_def dest!: in_set_dropD in_set_takeD)

lemma brk_fresh: "chunks_ok N q cs \<Longrightarrow> brk q \<notin> dom (heap q)"
  unfolding chunks_ok_def by (metis domD less_irrefl)

lemma linked_frame:
  assumes "\<And>a. a \<in> set cs \<Longrightarrow> h' a = h a"
  shows "linked h' cs = linked h cs"
proof (rule linked_cong)
  show "nxt h' a = nxt h a" if "a \<in> set (butlast cs)" for a
    using assms [of a] that by (simp add: nxt_def in_set_butlastD)
  show "prv h' a = prv h a" if "a \<in> set (tl cs)" for a
    using assms [of a] that by (cases cs) (auto simp: prv_def)
qed

text \<open>Taking a chunk and linking it behind the end chunk extends the chunk list.\<close>

lemma yq_grow:
  assumes ok: "chunks_ok N q cs" and tk: "yq_take_chunk N q = (q2, n)"
  obtains q3 where "link_chunks q2 (end_chunk q2) n = Some q3"
    and "chunks_ok N (q3\<lparr>end_chunk := n, end_pos := 0\<rparr>) (cs @ [n])"
    and "\<And>s. fst s \<in> set cs \<Longrightarrow> slot_load q3 s = slot_load q s"
    and "\<exists>h b. q3 = q\<lparr>heap := h, brk := b, spare_chunk := None\<rparr>"
proof -
  note fresh = brk_fresh [OF ok]
  have ne: "cs \<noteq> []" using ok by (simp add: chunks_ok_def)
  have same: "heap q2 a = heap q a" if "a \<in> set cs" for a
    using that fresh ok tk by (auto simp: yq_take_chunk_def chunks_ok_def split: option.splits)
  have "n \<notin> set cs"
    using ok fresh tk by (auto simp: chunks_ok_def yq_take_chunk_def split: option.splits)
  moreover have "dom (heap q2) = insert n (set cs)"
    using ok tk by (force simp: chunks_ok_def yq_take_chunk_def simp del: domIff
        split: option.splits)
  moreover have "length (chunk_values ch) = N \<and> a < brk q2" if "heap q2 a = Some ch" for a ch
    using that ok tk
    by (auto simp: chunks_ok_def yq_take_chunk_def fresh_chunk_def less_Suc_eq
        split: option.splits if_splits)
  moreover have "linked (heap q2) cs"
    using linked_frame [of cs "heap q2" "heap q"] same ok by (simp add: chunks_ok_def)
  moreover have "hd cs = begin_chunk q2" "last cs = end_chunk q2" "spare_chunk q2 = None" "distinct cs"
    using ok tk by (auto simp: yq_take_chunk_def chunks_ok_def split: option.splits)
  ultimately obtain q3 where "link_chunks q2 (end_chunk q2) n = Some q3"
    and "chunks_ok N (q3\<lparr>end_chunk := n, end_pos := 0\<rparr>) (cs @ [n])"
    and load3: "\<And>s. slot_load q3 s = slot_load q2 s" and h3: "\<exists>h. q3 = q2\<lparr>heap := h\<rparr>"
    using link_chunks_ok [OF ne, of q2 N n 0] by metis
  moreover have "slot_load q3 s = slot_load q s" if "fst s \<in> set cs" for s
    using load3 [of s] same [OF that] by (simp add: slot_load_def)
  moreover have "\<exists>h b. q3 = q\<lparr>heap := h, brk := b, spare_chunk := None\<rparr>"
  proof -
    from h3 obtain h where "q3 = q2\<lparr>heap := h\<rparr>" by blast
    then have "q3 = q\<lparr>heap := h, brk := brk q2, spare_chunk := None\<rparr>"
      using tk by (cases "spare_chunk q") (auto simp: yq_take_chunk_def)
    then show ?thesis by blast
  qed
  ultimately show thesis using that by blast
qed

lemma yq_live_snoc:
  assumes inv: "yq_inv N q cs"
  shows "slots N cs ! end_index N q cs = (end_chunk q, end_pos q)"
    and "drop (begin_pos q) (take (Suc (end_index N q cs)) (slots N cs)) =
           yq_live N q cs @ [(end_chunk q, end_pos q)]"
proof -
  have ne: "cs \<noteq> []" and lst: "last cs = end_chunk q" and ep: "end_pos q < N"
    using inv by (auto simp: yq_inv_def chunks_ok_def)
  show nth: "slots N cs ! end_index N q cs = (end_chunk q, end_pos q)"
    using nth_slots_last [OF ne ep] lst by (simp add: end_index_def)
  show "drop (begin_pos q) (take (Suc (end_index N q cs)) (slots N cs)) =
      yq_live N q cs @ [(end_chunk q, end_pos q)]"
    using drop_take_last_snoc [of "begin_pos q" "end_index N q cs" "slots N cs"]
      end_index_le [OF inv] nth inv by (simp add: yq_live_def yq_inv_def)
qed

lemma yq_push_grow:
  assumes inv: "yq_inv N q cs" and full: "Suc (end_pos q) = N"
  shows "\<exists>q' cs'. yq_push N q = Some q' \<and> yq_inv N q' cs' \<and>
    yq_live N q' cs' = yq_live N q cs @ [(end_chunk q, end_pos q)] \<and>
    yq_back_slot q' = Some (end_chunk q, end_pos q) \<and>
    (\<forall>t \<in> set (yq_live N q cs). slot_load q' t = slot_load q t)"
proof -
  let ?s = "(end_chunk q, end_pos q)"
  define q1 where "q1 = q\<lparr>back_chunk := Some (end_chunk q), back_pos := end_pos q, end_pos := N\<rparr>"
  have ok: "chunks_ok N q cs" and bp: "begin_pos q < N" "begin_pos q \<le> end_index N q cs"
    and ne: "cs \<noteq> []" using inv by (auto simp: yq_inv_def chunks_ok_def)
  then have ok1: "chunks_ok N q1 cs" by (simp add: chunks_ok_def q1_def)
  obtain q2 n where tk: "yq_take_chunk N q1 = (q2, n)" by fastforce
  obtain q3 where q3: "link_chunks q2 (end_chunk q2) n = Some q3"
    and ok3: "chunks_ok N (q3\<lparr>end_chunk := n, end_pos := 0\<rparr>) (cs @ [n])"
    and load3: "\<And>s. fst s \<in> set cs \<Longrightarrow> slot_load q3 s = slot_load q1 s"
    and h3: "\<exists>h b. q3 = q1\<lparr>heap := h, brk := b, spare_chunk := None\<rparr>"
    using yq_grow [OF ok1 tk] by metis
  let ?q = "q3\<lparr>end_chunk := n, end_pos := 0\<rparr>"
  have push: "yq_push N q = Some ?q"
    using full tk q3 by (simp add: yq_push_def q1_def)
  have fields: "begin_pos ?q = begin_pos q" "yq_back_slot ?q = Some ?s"
    using h3 by (auto simp: q1_def yq_back_slot_def)
  have ei: "end_index N ?q (cs @ [n]) = Suc (end_index N q cs)"
    using ne full by (cases cs) (auto simp: end_index_def)
  then have tk: "take (Suc (end_index N q cs)) (slots N (cs @ [n])) =
      take (Suc (end_index N q cs)) (slots N cs)"
    by (simp add: slots_snoc end_index_def)
  have "slots N (cs @ [n]) ! end_index N q cs = ?s"
    using yq_live_snoc(1) [OF inv] end_index_le [OF inv] by (simp add: slots_snoc nth_append)
  then have "yq_inv N ?q (cs @ [n])"
    using ok3 inv bp fields by (simp add: yq_inv_def ei)
  moreover have "yq_live N ?q (cs @ [n]) = yq_live N q cs @ [?s]"
    using yq_live_snoc(2) [OF inv] by (simp add: yq_live_def ei fields tk)
  moreover have "slot_load ?q t = slot_load q t" if "t \<in> set (yq_live N q cs)" for t
    using load3 [OF slot_in_chunks [OF that]] by (simp add: slot_load_def q1_def)
  ultimately show ?thesis using push fields by blast
qed

lemma yq_push_step:
  assumes inv: "yq_inv N q cs"
  shows "\<exists>q' cs'. yq_push N q = Some q' \<and> yq_inv N q' cs' \<and>
    yq_live N q' cs' = yq_live N q cs @ [(end_chunk q, end_pos q)] \<and>
    yq_back_slot q' = Some (end_chunk q, end_pos q) \<and>
    (\<forall>t \<in> set (yq_live N q cs). slot_load q' t = slot_load q t)"
proof (cases "Suc (end_pos q) = N")
  case True
  with inv show ?thesis by (rule yq_push_grow)
next
  case False
  let ?q = "q\<lparr>back_chunk := Some (end_chunk q), back_pos := end_pos q, end_pos := Suc (end_pos q)\<rparr>"
  have ei: "end_index N ?q cs = Suc (end_index N q cs)" by (simp add: end_index_def)
  have "yq_inv N ?q cs"
    using inv False yq_live_snoc(1) [OF inv]
    by (auto simp: yq_inv_def ei chunks_ok_def yq_back_slot_def)
  moreover have "yq_live N ?q cs = yq_live N q cs @ [(end_chunk q, end_pos q)]"
    using yq_live_snoc(2) [OF inv] by (simp add: yq_live_def ei)
  moreover have "yq_push N q = Some ?q" using False by (simp add: yq_push_def)
  ultimately show ?thesis
    by (intro exI [of _ ?q] exI [of _ cs]) (auto simp: yq_back_slot_def slot_load_def)
qed

lemma nth_slots:
  assumes "k < length cs * N"
  shows "slots N cs ! k = (cs ! (k div N), k mod N)"
  using assms
proof (induction cs arbitrary: k)
  case (Cons a cs)
  show ?case
  proof (cases "k < N")
    case True
    then show ?thesis by (simp add: slots_Cons nth_append)
  next
    case False
    then have "k div N = Suc ((k - N) div N)" and "k mod N = (k - N) mod N"
      using Cons.prems by (cases "N = 0"; simp add: le_div_geq le_mod_geq)+
    with False Cons show ?thesis by (simp add: slots_Cons nth_append)
  qed
qed simp

lemma linked_prv_nth: "linked h cs \<Longrightarrow> Suc i < length cs \<Longrightarrow> prv h (cs ! Suc i) = Some (cs ! i)"
  by (induction h cs arbitrary: i rule: linked.induct)
    (auto simp: nth_Cons' split: if_splits, (metis Suc_pred' nth_Cons_Suc)?)

text \<open>One slot backwards: within the chunk, or to the last slot of the previous chunk.\<close>

lemma slot_backwards:
  assumes lk: "linked h cs" and k: "0 < k" "k < length cs * N" and s: "slots N cs ! k = (a, p)"
  shows "p \<noteq> 0 \<Longrightarrow> slots N cs ! (k - 1) = (a, p - 1)"
    and "p = 0 \<Longrightarrow> \<exists>b. prv h a = Some b \<and> slots N cs ! (k - 1) = (b, N - 1)"
proof -
  have N: "0 < N" using k by (cases N) auto
  have ap: "a = cs ! (k div N)" "p = k mod N" using nth_slots [OF k(2)] s by auto
  have k1: "slots N cs ! (k - 1) = (cs ! ((k - 1) div N), (k - 1) mod N)"
    using k by (intro nth_slots) simp
  show "slots N cs ! (k - 1) = (a, p - 1)" if "p \<noteq> 0"
  proof -
    have "k - 1 = k div N * N + (p - 1)" and "p - 1 < N"
      using that ap N by (auto simp: Nat.add_diff_assoc mod_less_divisor less_imp_diff_less)
    then have "(k - 1) div N = k div N" "(k - 1) mod N = p - 1"
      using N by simp_all
    with k1 ap show ?thesis by simp
  qed
  show "\<exists>b. prv h a = Some b \<and> slots N cs ! (k - 1) = (b, N - 1)" if "p = 0"
  proof -
    from that ap obtain i where i: "k = N * i" by auto
    with k obtain j where j: "i = Suc j" by (cases i) auto
    have eq: "k - 1 = j * N + (N - 1)" using i j N by (simp add: algebra_simps)
    have gen: "(j * N + r) div N = j \<and> (j * N + r) mod N = r" if "r < N" for r
      using that by simp
    have "(k - 1) div N = j" "(k - 1) mod N = N - 1"
      using gen [of "N - 1"] N unfolding eq by auto
    moreover have "k div N = Suc j" using i j N by simp
    moreover have "Suc j < length cs" using k(2) i j by (metis mult.commute mult_less_cancel1)
    ultimately show ?thesis using k1 ap linked_prv_nth [OF lk, of j] by simp
  qed
qed

lemma yq_live_nonempty: "yq_inv N q cs \<Longrightarrow> yq_live N q cs \<noteq> [] \<longleftrightarrow> begin_pos q < end_index N q cs"
  using end_index_le [of N q cs] by (auto simp: yq_live_def)

lemma yq_front_live:
  assumes inv: "yq_inv N q cs" and ne: "yq_live N q cs \<noteq> []"
  shows "yq_front_slot q = hd (yq_live N q cs)"
proof -
  have b: "begin_pos q < end_index N q cs" using yq_live_nonempty [OF inv] ne by blast
  then have "hd (yq_live N q cs) = slots N cs ! begin_pos q"
    using hd_drop_take [OF b, of "slots N cs"] end_index_le [OF inv] by (simp add: yq_live_def)
  also have "\<dots> = yq_front_slot q"
    using inv nth_slots_hd [of cs "begin_pos q" N]
    by (simp add: yq_inv_def chunks_ok_def yq_front_slot_def)
  finally show ?thesis by simp
qed

lemma yq_back_live:
  assumes inv: "yq_inv N q cs" and ne: "yq_live N q cs \<noteq> []"
  shows "yq_back_slot q = Some (last (yq_live N q cs))"
proof -
  have b: "begin_pos q < end_index N q cs" using yq_live_nonempty [OF inv] ne by blast
  then have "last (yq_live N q cs) = slots N cs ! (end_index N q cs - 1)"
    using last_drop_take [OF b, of "slots N cs"] end_index_le [OF inv] by (simp add: yq_live_def del: last_drop)
  with b inv show ?thesis by (simp add: yq_inv_def)
qed

text \<open>Leaving the first chunk: it becomes the spare chunk and the old spare is freed.\<close>

lemma yq_shrink_front:
  assumes ok: "chunks_ok N q (c # n # cs)"
  obtains cold cn where "heap q c = Some cold" "chunk_next cold = Some n" "heap q n = Some cn"
    and "chunks_ok N (q\<lparr>begin_pos := b, begin_chunk := n, spare_chunk := Some c,
           heap := (case spare_chunk q of None \<Rightarrow> (heap q)(n \<mapsto> cn\<lparr>chunk_prev := None\<rparr>)
             | Some s \<Rightarrow> (heap q)(n \<mapsto> cn\<lparr>chunk_prev := None\<rparr>, s := None))\<rparr>) (n # cs)"
proof -
  from ok have "nxt (heap q) c = Some n" unfolding chunks_ok_def linked.simps by blast
  then obtain cold where cold: "heap q c = Some cold" "chunk_next cold = Some n"
    by (auto simp: nxt_def bind_eq_Some_conv)
  from ok have "n \<in> dom (heap q)" by (auto simp: chunks_ok_def simp del: domIff)
  then obtain cn where cn: "heap q n = Some cn" by blast
  let ?h = "case spare_chunk q of None \<Rightarrow> (heap q)(n \<mapsto> cn\<lparr>chunk_prev := None\<rparr>)
             | Some s \<Rightarrow> (heap q)(n \<mapsto> cn\<lparr>chunk_prev := None\<rparr>, s := None)"
  have "linked (heap q) (n # cs)" using ok by (auto simp: chunks_ok_def)
  then have "linked ?h (n # cs)"
  proof (rule linked_cong [THEN iffD1, rotated 2])
    show "nxt (heap q) a = nxt ?h a" if "a \<in> set (butlast (n # cs))" for a
      using that ok cn by (auto simp: nxt_def chunks_ok_def split: option.splits if_splits
          dest: in_set_butlastD)
    show "prv (heap q) a = prv ?h a" if "a \<in> set (tl (n # cs))" for a
      using that ok cn by (auto simp: prv_def chunks_ok_def split: option.splits)
  qed
  moreover have "dom ?h = insert c (insert n (set cs))"
    using ok by (auto simp: chunks_ok_def simp del: domIff split: option.splits)
  moreover have "length (chunk_values ch) = N \<and> a < brk q" if "?h a = Some ch" for a ch
    using that ok cn by (auto simp: chunks_ok_def split: option.splits if_splits)
  ultimately have "chunks_ok N (q\<lparr>begin_pos := b, begin_chunk := n, spare_chunk := Some c,
      heap := ?h\<rparr>) (n # cs)"
    using ok by (auto simp: chunks_ok_def)
  with cold cn that show thesis by blast
qed

lemma yq_pop_shrink:
  assumes inv: "yq_inv N q cs" and b: "begin_pos q < end_index N q cs" and last: "Suc (begin_pos q) = N"
  shows "\<exists>q' cs'. yq_pop N q = Some q' \<and> yq_inv N q' cs' \<and> yq_live N q' cs' = tl (yq_live N q cs) \<and>
    (\<forall>t \<in> set (tl (yq_live N q cs)). slot_load q' t = slot_load q t)"
proof -
  have ok: "chunks_ok N q cs" and N: "0 < N" and ep: "end_pos q < N"
    and bk: "yq_back_slot q = Some (slots N cs ! (end_index N q cs - 1))"
    using inv b by (auto simp: yq_inv_def)
  have "1 < length cs" using b last ep by (cases cs rule: remdups_adj.cases) (auto simp: end_index_def)
  then obtain c n cs' where cs: "cs = c # n # cs'" by (cases cs rule: remdups_adj.cases) auto
  obtain cold cn where h: "heap q c = Some cold" "chunk_next cold = Some n" "heap q n = Some cn"
    and ok': "chunks_ok N (q\<lparr>begin_pos := 0, begin_chunk := n, spare_chunk := Some c,
         heap := (case spare_chunk q of None \<Rightarrow> (heap q)(n \<mapsto> cn\<lparr>chunk_prev := None\<rparr>)
           | Some s \<Rightarrow> (heap q)(n \<mapsto> cn\<lparr>chunk_prev := None\<rparr>, s := None))\<rparr>) (n # cs')"
      (is "chunks_ok N ?q _")
    using yq_shrink_front [of N q c n cs' 0] ok cs by metis
  have bc: "begin_chunk q = c" using ok cs by (simp add: chunks_ok_def)
  have pop: "yq_pop N q = Some ?q"
    using h last bc by (simp add: yq_pop_def Let_def split: option.splits)
  let ?ei = "end_index N q cs - N"
  have eis: "end_index N q cs = ?ei + N" "end_index N ?q (n # cs') = ?ei"
    using cs by (simp_all add: end_index_def)
  have sl: "slots N cs = map (Pair c) [0..<N] @ slots N (n # cs')" by (simp add: cs slots_Cons)
  have "tl (yq_live N q cs) = drop N (take (end_index N q cs) (slots N cs))"
    using last by (simp add: yq_live_def tl_drop_take)
  then have live: "yq_live N ?q (n # cs') = tl (yq_live N q cs)"
    using eis by (simp add: yq_live_def sl)
  have "yq_inv N ?q (n # cs')"
    using ok' N ep bk eis by (auto simp: yq_inv_def sl nth_append yq_back_slot_def)
  moreover have "slot_load ?q t = slot_load q t" if "t \<in> set (tl (yq_live N q cs))" for t
  proof (rule slot_load_links)
    have "fst t \<in> set (n # cs')"
      using that live slot_in_chunks [of t N ?q "n # cs'"] by simp
    then show "map_option chunk_values (heap ?q (fst t)) = map_option chunk_values (heap q (fst t))"
      using h ok cs by (auto simp: chunks_ok_def split: option.splits)
  qed
  ultimately show ?thesis using pop live by blast
qed

lemma yq_pop_step:
  assumes inv: "yq_inv N q cs" and ne: "yq_live N q cs \<noteq> []"
  shows "\<exists>q' cs'. yq_pop N q = Some q' \<and> yq_inv N q' cs' \<and> yq_live N q' cs' = tl (yq_live N q cs) \<and>
    (\<forall>t \<in> set (tl (yq_live N q cs)). slot_load q' t = slot_load q t)"
proof -
  have b: "begin_pos q < end_index N q cs" using yq_live_nonempty [OF inv] ne by blast
  show ?thesis
  proof (cases "Suc (begin_pos q) = N")
    case True
    with inv b show ?thesis by (rule yq_pop_shrink)
  next
    case False
    let ?q = "q\<lparr>begin_pos := Suc (begin_pos q)\<rparr>"
    have ei: "end_index N ?q cs = end_index N q cs" by (simp add: end_index_def)
    have "yq_inv N ?q cs"
      using inv b False by (auto simp: yq_inv_def ei chunks_ok_def yq_back_slot_def)
    moreover have "yq_live N ?q cs = tl (yq_live N q cs)"
      by (simp add: yq_live_def ei tl_drop_take)
    moreover have "yq_pop N q = Some ?q" using False by (simp add: yq_pop_def)
    ultimately show ?thesis by (intro exI [of _ ?q] exI [of _ cs]) (simp add: slot_load_def)
  qed
qed

text \<open>Dropping the last chunk when the end position leaves it backwards.\<close>

lemma yq_shrink_back:
  assumes ok: "chunks_ok N q (cs @ [p, e])"
  obtains ce cp where "heap q e = Some ce" "chunk_prev ce = Some p" "heap q p = Some cp"
    "chunk_next cp = Some e"
    and "chunks_ok N (q\<lparr>end_pos := b, end_chunk := p,
           heap := (heap q)(e := None, p \<mapsto> cp\<lparr>chunk_next := None\<rparr>)\<rparr>) (cs @ [p])"
proof -
  from ok have "nxt (heap q) p = Some e" "prv (heap q) e = Some p"
    unfolding chunks_ok_def linked_snoc2 by blast+
  then obtain ce cp where c: "heap q e = Some ce" "chunk_prev ce = Some p" "heap q p = Some cp"
    "chunk_next cp = Some e"
    by (auto simp: nxt_def prv_def bind_eq_Some_conv)
  let ?h = "(heap q)(e := None, p \<mapsto> cp\<lparr>chunk_next := None\<rparr>)"
  have "linked (heap q) (cs @ [p])" using ok by (simp add: chunks_ok_def linked_snoc2)
  then have "linked ?h (cs @ [p])"
  proof (rule linked_cong [THEN iffD1, rotated 2])
    show "nxt (heap q) a = nxt ?h a" if "a \<in> set (butlast (cs @ [p]))" for a
      using that ok by (auto simp: nxt_def chunks_ok_def)
    show "prv (heap q) a = prv ?h a" if "a \<in> set (tl (cs @ [p]))" for a
    proof -
      have "a \<in> set (cs @ [p])" using that by (cases "cs @ [p]") auto
      then show ?thesis using ok c by (auto simp: prv_def chunks_ok_def)
    qed
  qed
  moreover have "dom ?h = set (cs @ [p]) \<union> set_option (spare_chunk q)"
    using ok by (auto simp: chunks_ok_def simp del: domIff)
  moreover have "\<forall>a ch. ?h a = Some ch \<longrightarrow> length (chunk_values ch) = N \<and> a < brk q"
    using ok c by (auto simp: chunks_ok_def)
  moreover have "hd (cs @ [p]) = begin_chunk q" using ok by (cases cs) (auto simp: chunks_ok_def)
  ultimately have "chunks_ok N (q\<lparr>end_pos := b, end_chunk := p, heap := ?h\<rparr>) (cs @ [p])"
    using ok by (simp add: chunks_ok_def del: dom_fun_upd fun_upd_apply hd_append2)
  with c that show thesis by blast
qed

lemma yq_step_back_step:
  assumes inv: "yq_inv N q cs" and b: "begin_pos q < end_index N q cs"
  shows "\<exists>c p. yq_step_back N q = Some (q\<lparr>back_chunk := c, back_pos := p\<rparr>) \<and>
    (begin_pos q < end_index N q cs - 1 \<longrightarrow>
      map_option (\<lambda>a. (a, p)) c = Some (slots N cs ! (end_index N q cs - 2)))"
proof -
  let ?k = "end_index N q cs - 1"
  have ok: "chunks_ok N q cs" and bk: "yq_back_slot q = Some (slots N cs ! ?k)"
    using inv b by (auto simp: yq_inv_def)
  have lk: "linked (heap q) cs" using ok by (simp add: chunks_ok_def)
  have k: "?k < length cs * N" using end_index_le [OF inv] by simp
  obtain a where a: "back_chunk q = Some a" "slots N cs ! ?k = (a, back_pos q)"
    using bk by (auto simp: yq_back_slot_def)
  have k2: "?k - 1 = end_index N q cs - 2" by simp
  show ?thesis
  proof (cases "back_pos q = 0")
    case False
    have "slots N cs ! (?k - 1) = (a, back_pos q - 1)" if "0 < ?k"
      using slot_backwards(1) [OF lk that k a(2) False] .
    with False a(1) show ?thesis
      unfolding k2 by (intro exI [of _ "Some a"] exI [of _ "back_pos q - 1"]) (simp add: yq_step_back_def)
  next
    case True
    have "a \<in> set cs"
      using nth_slots [OF k] a(2) k by (auto simp: less_mult_imp_div_less)
    then have "a \<in> dom (heap q)" using ok by (simp add: chunks_ok_def del: domIff)
    then obtain ca where ca: "heap q a = Some ca" by blast
    have "map_option (\<lambda>a. (a, N - 1)) (chunk_prev ca) = Some (slots N cs ! (?k - 1))" if "0 < ?k"
      using slot_backwards(2) [OF lk that k a(2) True] ca by (auto simp: prv_def)
    with True a(1) ca show ?thesis
      unfolding k2 by (intro exI [of _ "chunk_prev ca"] exI [of _ "N - 1"]) (simp add: yq_step_back_def)
  qed
qed

lemma yq_unpush_shrink:
  assumes inv: "yq_inv N q cs" and b: "begin_pos q < end_index N q cs" and ep: "end_pos q = 0"
    and sb: "yq_step_back N q = Some (q\<lparr>back_chunk := c, back_pos := k\<rparr>)"
    and bs: "begin_pos q < end_index N q cs - 1 \<longrightarrow>
      map_option (\<lambda>a. (a, k)) c = Some (slots N cs ! (end_index N q cs - 2))"
  shows "\<exists>q' cs'. yq_unpush N q = Some q' \<and> yq_inv N q' cs' \<and>
    yq_live N q' cs' = drop (begin_pos q) (take (end_index N q cs - 1) (slots N cs)) \<and>
    (\<forall>t. fst t \<in> set cs' \<longrightarrow> slot_load q' t = slot_load q t)"
proof -
  let ?q1 = "q\<lparr>back_chunk := c, back_pos := k\<rparr>"
  have ok: "chunks_ok N q cs" and N: "0 < N" and bp: "begin_pos q < N" using inv by (auto simp: yq_inv_def)
  have "1 < length cs" using b ep by (cases cs rule: remdups_adj.cases) (auto simp: end_index_def)
  then obtain cs' p e where cs: "cs = cs' @ [p, e]"
    by (cases cs rule: rev_cases; cases "butlast cs" rule: rev_cases) auto
  have "chunks_ok N ?q1 (cs' @ [p, e])" using ok cs by (auto simp: chunks_ok_def)
  from yq_shrink_back [OF this, of "N - 1"]
  obtain ce cp where h: "heap q e = Some ce" "chunk_prev ce = Some p" "heap q p = Some cp"
      "chunk_next cp = Some e"
    and ok': "chunks_ok N (?q1\<lparr>end_pos := N - 1, end_chunk := p,
         heap := (heap q)(e := None, p \<mapsto> cp\<lparr>chunk_next := None\<rparr>)\<rparr>) (cs' @ [p])"
      (is "chunks_ok N ?q _") by auto
  have ei: "end_index N ?q (cs' @ [p]) = end_index N q cs - 1"
    using ep N cs by (simp add: end_index_def)
  have "end_chunk q = e" using ok cs by (auto simp: chunks_ok_def)
  then have up: "yq_unpush N q = Some ?q" using sb h ep by (simp add: yq_unpush_def)
  have sl: "slots N cs = slots N (cs' @ [p]) @ map (Pair e) [0..<N]"
    using slots_snoc [of N "cs' @ [p]" e] by (simp add: cs)
  have le: "end_index N q cs - 1 < length (slots N (cs' @ [p]))"
    using ep N cs by (simp add: end_index_def)
  have "yq_inv N ?q (cs' @ [p])"
    using N bp ok' b bs le unfolding yq_inv_def ei
    by (auto simp: sl nth_append yq_back_slot_def numeral_2_eq_2)
  moreover have "yq_live N ?q (cs' @ [p]) =
      drop (begin_pos q) (take (end_index N q cs - 1) (slots N cs))"
    using le unfolding yq_live_def ei by (simp add: sl)
  moreover have "slot_load ?q t = slot_load q t" if "fst t \<in> set (cs' @ [p])" for t
    using that h ok cs by (intro slot_load_links) (auto simp: chunks_ok_def)
  ultimately show ?thesis using up by blast
qed

lemma yq_unpush_step:
  assumes inv: "yq_inv N q cs" and ne: "yq_live N q cs \<noteq> []"
  shows "\<exists>q' cs'. yq_unpush N q = Some q' \<and> yq_inv N q' cs' \<and>
    yq_live N q' cs' = butlast (yq_live N q cs) \<and>
    (\<forall>t \<in> set (butlast (yq_live N q cs)). slot_load q' t = slot_load q t)"
proof -
  have b: "begin_pos q < end_index N q cs" using yq_live_nonempty [OF inv] ne by blast
  obtain c k where sb: "yq_step_back N q = Some (q\<lparr>back_chunk := c, back_pos := k\<rparr>)"
    and bs: "begin_pos q < end_index N q cs - 1 \<longrightarrow>
      map_option (\<lambda>a. (a, k)) c = Some (slots N cs ! (end_index N q cs - 2))"
    using yq_step_back_step [OF inv b] by blast
  have live: "butlast (yq_live N q cs) = drop (begin_pos q) (take (end_index N q cs - 1) (slots N cs))"
    using butlast_drop_take [OF b, of "slots N cs"] end_index_le [OF inv] by (simp add: yq_live_def)
  show ?thesis
  proof (cases "end_pos q = 0")
    case True
    from yq_unpush_shrink [OF inv b True sb bs] show ?thesis
      unfolding live using slot_in_chunks by (metis (no_types, lifting))
  next
    case False
    let ?q = "q\<lparr>back_chunk := c, back_pos := k, end_pos := end_pos q - 1\<rparr>"
    have ei: "end_index N ?q cs = end_index N q cs - 1" using False by (simp add: end_index_def)
    have "yq_unpush N q = Some ?q" using sb False by (simp add: yq_unpush_def)
    moreover have "yq_inv N ?q cs"
      using inv b bs unfolding yq_inv_def ei
      by (auto simp: chunks_ok_def yq_back_slot_def numeral_2_eq_2)
    moreover have "yq_live N ?q cs = butlast (yq_live N q cs)"
      unfolding live unfolding yq_live_def ei by simp
    ultimately show ?thesis by (intro exI [of _ ?q] exI [of _ cs]) (simp add: slot_load_def)
  qed
qed

lemma chunk_values_length: "yq_inv N q cs \<Longrightarrow> heap q a = Some ch \<Longrightarrow> length (chunk_values ch) = N"
  by (auto simp: yq_inv_def chunks_ok_def)

lemma slot_store_step:
  assumes inv: "yq_inv N q cs" and s: "s \<in> set (yq_live N q cs)"
  shows "\<exists>q'. slot_store q s v = Some q' \<and> yq_inv N q' cs \<and> yq_live N q' cs = yq_live N q cs \<and>
    slot_load q' s = Some v \<and> (\<forall>t. t \<noteq> s \<longrightarrow> slot_load q' t = slot_load q t)"
proof -
  obtain a p where ap: "s = (a, p)" by fastforce
  have a: "a \<in> set cs" using slot_in_chunks [OF s] ap by simp
  have p: "p < N" using s set_slots [of N cs] ap
    by (auto simp: yq_live_def dest!: in_set_dropD in_set_takeD)
  have ok: "chunks_ok N q cs" using inv by (simp add: yq_inv_def)
  then have "a \<in> dom (heap q)" using a by (simp add: chunks_ok_def del: domIff)
  then obtain ch where ch: "heap q a = Some ch" by blast
  then have len: "length (chunk_values ch) = N" by (rule chunk_values_length [OF inv])
  let ?h = "(heap q)(a \<mapsto> ch\<lparr>chunk_values := (chunk_values ch)[p := Some v]\<rparr>)"
  let ?q = "q\<lparr>heap := ?h\<rparr>"
  have "linked ?h cs = linked (heap q) cs"
    by (rule linked_cong) (use ch in \<open>auto simp: nxt_def prv_def\<close>)
  then have "chunks_ok N ?q cs" using ok ch a by (auto simp: chunks_ok_def)
  then have "yq_inv N ?q cs" using inv by (auto simp: yq_inv_def end_index_def yq_back_slot_def)
  moreover have "slot_store q s v = Some ?q" using ch len p ap by (simp add: slot_store_def)
  moreover have "slot_load ?q s = Some v" using p len ap by (simp add: slot_load_def)
  moreover have "slot_load ?q t = slot_load q t" if "t \<noteq> s" for t
    using that ap ch by (cases t) (auto simp: slot_load_def)
  moreover have "yq_live N ?q cs = yq_live N q cs" by (simp add: yq_live_def end_index_def)
  ultimately show ?thesis by blast
qed

lemma yq_new_inv: "0 < N \<Longrightarrow> yq_inv N (yq_new N) [0]" "yq_live N (yq_new N) [0] = []"
  by (auto simp: yq_inv_def chunks_ok_def yq_new_def fresh_chunk_def end_index_def yq_live_def)

lemma yq_free_chunks_returns:
  assumes "linked (heap q) cs" "distinct cs" "cs \<noteq> []" "hd cs = begin_chunk q" "last cs = end_chunk q"
    "set cs \<subseteq> dom (heap q)"
  shows "\<exists>q'. yq_free_chunks q = Some q' \<and> heap q' = heap q |` (- set cs) \<and> spare_chunk q' = spare_chunk q"
  using assms
proof (induction cs arbitrary: q)
  case (Cons c cs)
  obtain ch where ch: "heap q c = Some ch" using Cons.prems(6) by auto
  have bc: "begin_chunk q = c" using Cons.prems(4) by simp
  show ?case
  proof (cases cs)
    case Nil
    then have "end_chunk q = c" using Cons.prems(5) by simp
    with Nil ch bc show ?thesis
      by (subst yq_free_chunks.simps) (auto simp: restrict_map_def fun_eq_iff)
  next
    case (Cons n cs')
    let ?q = "q\<lparr>begin_chunk := n, heap := (heap q)(c := None)\<rparr>"
    have nx: "chunk_next ch = Some n" and ne: "c \<noteq> end_chunk q"
      using Cons.prems ch Cons by (auto simp: nxt_def dest: last_in_set split: if_splits)
    have "linked (heap q) cs" using Cons.prems(1) by (rule linked_tl)
    moreover have "linked ((heap q)(c := None)) cs = linked (heap q) cs"
      using Cons.prems(2) by (intro linked_frame) auto
    ultimately have lk: "linked (heap ?q) cs" by simp
    have "c \<notin> set cs" using Cons.prems(2) by simp
    then have sub: "set cs \<subseteq> dom (heap ?q)" using Cons.prems(6) by auto
    have "\<exists>q'. yq_free_chunks ?q = Some q' \<and> heap q' = heap ?q |` (- set cs) \<and>
        spare_chunk q' = spare_chunk ?q"
      by (rule Cons.IH [of ?q, OF lk _ _ _ _ sub]) (use Cons.prems(2,5) Cons in simp_all)
    then obtain q' where "yq_free_chunks ?q = Some q'"
      "heap q' = (heap q)(c := None) |` (- set cs)" "spare_chunk q' = spare_chunk q" by auto
    moreover have "yq_free_chunks q = yq_free_chunks ?q"
      using ch nx ne bc by (subst yq_free_chunks.simps) simp
    ultimately show ?thesis by (auto simp: restrict_map_def fun_eq_iff)
  qed
qed simp

text \<open>The destructor returns and frees every chunk: none is freed twice, none is leaked.\<close>

lemma yq_destroy_frees_all:
  assumes inv: "yq_inv N q cs"
  shows "\<exists>q'. yq_destroy q = Some q' \<and> heap q' = Map.empty"
proof -
  have ok: "chunks_ok N q cs" using inv by (simp add: yq_inv_def)
  then have "\<exists>q'. yq_free_chunks q = Some q' \<and> heap q' = heap q |` (- set cs) \<and>
      spare_chunk q' = spare_chunk q"
    by (intro yq_free_chunks_returns) (auto simp: chunks_ok_def simp del: domIff)
  then obtain q' where q': "yq_free_chunks q = Some q'" "heap q' = heap q |` (- set cs)"
    "spare_chunk q' = spare_chunk q" by blast
  have "dom (heap q') = set_option (spare_chunk q)"
    using ok q'(2) by (auto simp: chunks_ok_def simp del: domIff)
  then have "dom (case spare_chunk q' of None \<Rightarrow> heap q' | Some sc \<Rightarrow> (heap q')(sc := None)) = {}"
    using q'(3) by (cases "spare_chunk q") (simp_all del: domIff)
  then show ?thesis using q' by (auto simp: yq_destroy_def split: option.splits)
qed

subsection \<open>The interface the pipe relies on\<close>

text \<open>
  What \<open>ypipe_t\<close> uses of its queue. \<open>rep q ss\<close> says that \<open>q\<close> is in a sound state whose
  slots, front to back, are \<open>ss\<close>. The three moving operations act on the two ends of this
  list, they never fail where the queue is not empty, and they leave the content of the
  slots that stay alone.
\<close>

locale slot_queue =
  fixes rep :: "'q \<Rightarrow> slot list \<Rightarrow> bool"
    and push pop unpush :: "'q \<Rightarrow> 'q option"
    and front_slot :: "'q \<Rightarrow> slot"
    and back_slot :: "'q \<Rightarrow> slot option"
    and load :: "'q \<Rightarrow> slot \<Rightarrow> 'a option"
    and store :: "'q \<Rightarrow> slot \<Rightarrow> 'a \<Rightarrow> 'q option"
  assumes rep_distinct: "rep q ss \<Longrightarrow> distinct ss"
    and front_rep: "rep q (s # ss) \<Longrightarrow> front_slot q = s"
    and back_rep: "rep q (ss @ [s]) \<Longrightarrow> back_slot q = Some s"
    and push_rep: "rep q ss \<Longrightarrow> \<exists>q' s. push q = Some q' \<and> rep q' (ss @ [s]) \<and>
          (\<forall>t \<in> set ss. load q' t = load q t)"
    and pop_rep: "rep q (s # ss) \<Longrightarrow> \<exists>q'. pop q = Some q' \<and> rep q' ss \<and>
          (\<forall>t \<in> set ss. load q' t = load q t)"
    and unpush_rep: "rep q (ss @ [s]) \<Longrightarrow> \<exists>q'. unpush q = Some q' \<and> rep q' ss \<and>
          (\<forall>t \<in> set ss. load q' t = load q t)"
    and store_rep: "rep q ss \<Longrightarrow> s \<in> set ss \<Longrightarrow> \<exists>q'. store q s v = Some q' \<and> rep q' ss \<and>
          load q' s = Some v \<and> (\<forall>t. t \<noteq> s \<longrightarrow> load q' t = load q t)"
begin

text \<open>Storing to the back slot and adding a new terminator: the queue part of \<open>write\<close>.\<close>

lemma store_push:
  assumes "rep q (ss @ [s])"
  shows "\<exists>q1 q2 t. store q s v = Some q1 \<and> push q1 = Some q2 \<and> rep q2 (ss @ [s, t]) \<and>
    load q2 s = Some v \<and> (\<forall>u \<in> set ss. load q2 u = load q u)"
proof -
  obtain q1 where q1: "store q s v = Some q1" "rep q1 (ss @ [s])" "load q1 s = Some v"
    and l1: "\<forall>t. t \<noteq> s \<longrightarrow> load q1 t = load q t"
    using store_rep [OF assms, of s v] by auto
  obtain q2 t where q2: "push q1 = Some q2" "rep q2 ((ss @ [s]) @ [t])"
    and l2: "\<forall>u \<in> set (ss @ [s]). load q2 u = load q1 u"
    using push_rep [OF q1(2)] by blast
  have "s \<notin> set ss" using rep_distinct [OF assms] by simp
  then have "\<forall>u \<in> set ss. load q2 u = load q u" using l1 l2 by auto
  with q1 q2 l2 show ?thesis
    by (intro exI [of _ q1] exI [of _ q2] exI [of _ t]) simp
qed

text \<open>Dropping the terminator exposes the slot before it, whose content is kept.\<close>

lemma unpush_back:
  assumes "rep q (ss @ [s, t])"
  shows "\<exists>q'. unpush q = Some q' \<and> rep q' (ss @ [s]) \<and> back_slot q' = Some s \<and>
    (\<forall>u \<in> set (ss @ [s]). load q' u = load q u)"
proof -
  have "rep q ((ss @ [s]) @ [t])" using assms by simp
  from unpush_rep [OF this] show ?thesis using back_rep by metis
qed

end

interpretation yq: slot_queue "yq_rep N" "yq_push N" "yq_pop N" "yq_unpush N"
  yq_front_slot yq_back_slot slot_load slot_store for N
proof (unfold_locales, goal_cases)
  case (1 q ss)
  then show ?case by (auto simp: yq_rep_def yq_live_distinct)
next
  case (2 q s ss)
  then show ?case unfolding yq_rep_def by (metis list.distinct(1) list.sel(1) yq_front_live)
next
  case (3 q ss s)
  then show ?case unfolding yq_rep_def by (metis append_is_Nil_conv last_snoc list.distinct(1) yq_back_live)
next
  case (4 q ss)
  then show ?case unfolding yq_rep_def by (metis yq_push_step)
next
  case (5 q s ss)
  then show ?case unfolding yq_rep_def by (metis list.distinct(1) list.sel(3) yq_pop_step)
next
  case (6 q ss s)
  then show ?case unfolding yq_rep_def
    by (metis append_is_Nil_conv butlast_snoc list.distinct(1) yq_unpush_step)
next
  case (7 q ss s v)
  then show ?case unfolding yq_rep_def by (metis slot_store_step)
qed

subsection \<open>Properties of the queue\<close>

lemma yq_new_rep: "0 < N \<Longrightarrow> yq_rep N (yq_new N) []"
  unfolding yq_rep_def using yq_new_inv(1) yq_new_inv(2) by metis

lemma yq_chunk_count:
  assumes "yq_inv N q cs"
  shows "length cs \<le> length (yq_live N q cs) div N + 2"
proof -
  have N: "0 < N" and b: "begin_pos q < N" "begin_pos q \<le> end_index N q cs"
    using assms by (auto simp: yq_inv_def)
  have "end_index N q cs = begin_pos q + length (yq_live N q cs)"
    using b end_index_le [OF assms] by (simp add: yq_live_def)
  then have "(length cs - 1) * N \<le> length (yq_live N q cs) + N"
    using b by (simp add: end_index_def)
  then have "length cs - 1 \<le> (length (yq_live N q cs) + N) div N"
    using N by (simp add: less_eq_div_iff_mult_less_eq)
  then have "length cs - 1 \<le> Suc (length (yq_live N q cs) div N)" using N by (simp add: div_add_self2)
  then show ?thesis by linarith
qed

text \<open>
  C1: in every sound state of the queue, \<open>push\<close>, \<open>pop\<close> and \<open>unpush\<close> return without touching
  memory that is not allocated, and act on the slots between begin and end as adding one at the
  back, dropping the first and dropping the last one; the elements in the other slots are kept,
  also when a chunk is added, recycled or freed on the way.
\<close>

theorem yqueue_ops_refine_list:
  assumes "yq_rep N q ss"
  shows "(\<exists>q' s. yq_push N q = Some q' \<and> yq_rep N q' (ss @ [s]) \<and> yq_back_slot q' = Some s \<and>
            (\<forall>t \<in> set ss. slot_load q' t = slot_load q t)) \<and>
         (ss \<noteq> [] \<longrightarrow> yq_front_slot q = hd ss \<and> yq_back_slot q = Some (last ss) \<and>
            (\<exists>q'. yq_pop N q = Some q' \<and> yq_rep N q' (tl ss) \<and>
               (\<forall>t \<in> set (tl ss). slot_load q' t = slot_load q t)) \<and>
            (\<exists>q'. yq_unpush N q = Some q' \<and> yq_rep N q' (butlast ss) \<and>
               (\<forall>t \<in> set (butlast ss). slot_load q' t = slot_load q t)))"
proof (intro conjI impI)
  show "\<exists>q' s. yq_push N q = Some q' \<and> yq_rep N q' (ss @ [s]) \<and> yq_back_slot q' = Some s \<and>
          (\<forall>t \<in> set ss. slot_load q' t = slot_load q t)"
    using yq.push_rep [OF assms] yq.back_rep by metis
next
  assume "ss \<noteq> []"
  then have hd: "ss = hd ss # tl ss" and last: "ss = butlast ss @ [last ss]" by auto
  show "yq_front_slot q = hd ss" using yq.front_rep assms hd by metis
  show "yq_back_slot q = Some (last ss)" using yq.back_rep assms last by metis
  show "\<exists>q'. yq_pop N q = Some q' \<and> yq_rep N q' (tl ss) \<and>
          (\<forall>t \<in> set (tl ss). slot_load q' t = slot_load q t)" using yq.pop_rep assms hd by metis
  show "\<exists>q'. yq_unpush N q = Some q' \<and> yq_rep N q' (butlast ss) \<and>
          (\<forall>t \<in> set (butlast ss). slot_load q' t = slot_load q t)" using yq.unpush_rep assms last by metis
qed

theorem yqueue_ops_refine_list_witness:
  "\<exists>q s. yq_push 1 (yq_new 1 :: nat yqueue_t) = Some q \<and> yq_rep 1 q [s] \<and> yq_front_slot q = s \<and>
     (\<exists>q'. yq_pop 1 q = Some q' \<and> yq_rep 1 q' [])"
proof -
  have "yq_rep 1 (yq_new 1 :: nat yqueue_t) []" by (rule yq_new_rep) simp
  from yqueue_ops_refine_list [OF this] obtain q s
    where q: "yq_push 1 (yq_new 1 :: nat yqueue_t) = Some q" "yq_rep 1 q [s]" by auto
  with yqueue_ops_refine_list [OF q(2)] show ?thesis
    by (intro exI [of _ q] exI [of _ s]) simp
qed

text \<open>
  the destructor returns from any sound state and leaves no chunk allocated: it frees every
  chunk between begin and end and the spare one, none of them twice.
\<close>

theorem yqueue_destroy_no_leak:
  assumes "yq_rep N q ss"
  shows "\<exists>q'. yq_destroy q = Some q' \<and> heap q' = Map.empty \<and> spare_chunk q' = None"
proof -
  obtain cs where inv: "yq_inv N q cs" using assms unfolding yq_rep_def by blast
  show ?thesis using yq_destroy_frees_all [OF inv]
    by (auto simp: yq_destroy_def Let_def split: Option.bind_splits option.splits)
qed

theorem yqueue_destroy_no_leak_witness:
  "\<exists>q'. yq_destroy (yq_new 256 :: nat yqueue_t) = Some q' \<and> heap q' = Map.empty \<and> spare_chunk q' = None"
proof -
  have "yq_rep 256 (yq_new 256 :: nat yqueue_t) []" by (rule yq_new_rep) simp
  from yqueue_destroy_no_leak [OF this] show ?thesis .
qed

text \<open>
  the memory the queue holds is bounded by what it stores: with \<open>n\<close> elements and chunks of
  \<open>N\<close>, at most \<open>n div N + 3\<close> chunks are allocated, the spare one included.
\<close>

theorem yqueue_memory_bound:
  assumes "yq_rep N q ss"
  shows "card (dom (heap q)) \<le> length ss div N + 3"
proof -
  obtain cs where inv: "yq_inv N q cs" and ss: "ss = yq_live N q cs"
    using assms unfolding yq_rep_def by blast
  then have "dom (heap q) = set cs \<union> set_option (spare_chunk q)"
    by (auto simp: yq_inv_def chunks_ok_def)
  then have "card (dom (heap q)) \<le> card (set cs) + card (set_option (spare_chunk q))"
    by (simp add: card_Un_le)
  also have "\<dots> \<le> length cs + 1"
    by (rule add_mono [OF card_length]) (cases "spare_chunk q", simp_all)
  finally show ?thesis using yq_chunk_count [OF inv] unfolding ss by linarith
qed

theorem yqueue_memory_bound_witness: "card (dom (heap (yq_new 4 :: nat yqueue_t))) \<le> 0 div 4 + 3"
  using yqueue_memory_bound [OF yq_new_rep [of 4]] by simp

end
