(* ===== verification/Ypipe.thy ===== *)
theory Ypipe
  imports Yqueue
begin

text \<open>
  The lock-free pipe \<open>ypipe_t\<close> of \<^verbatim>\<open>src/ypipe.hpp\<close>, over the chunked queue of theory
  Yqueue. The pipe keeps three private pointers (\<open>w\<close>, \<open>f\<close> of the writer, \<open>r\<close> of the
  reader) and one shared pointer \<open>c\<close>, the single point of contention, which is null while
  the reader is asleep. Pointers are slots of the queue; a null pointer is \<open>None\<close>.

  \<open>yp_rep N p fl un inc z\<close> relates a pipe to the contract it implements: \<open>fl\<close> are the items
  the reader may take, \<open>un\<close> the complete items not flushed yet, \<open>inc\<close> the parts of an
  incomplete item and \<open>z\<close> whether the reader is asleep. Each operation is shown to return
  and to act on this view as documented. The last part interleaves a writer thread and a
  reader thread at the granularity of the accesses to \<open>c\<close>.
\<close>

record 'a ypipe_t =
  queue :: "'a yqueue_t"
  yw :: slot
  yr :: "slot option"
  yf :: slot
  yc :: "slot option"

subsection \<open>Operations\<close>

text \<open>\<open>atomic_ptr_t::cas\<close> and \<open>xchg\<close> return the old value and leave the new one.\<close>

definition ptr_cas :: "'p option \<Rightarrow> 'p option \<Rightarrow> 'p option \<Rightarrow> 'p option \<times> 'p option" where
  "ptr_cas cur cmp val = (cur, if cur = cmp then val else cur)"

definition yp_new :: "nat \<Rightarrow> 'a ypipe_t option" where
  "yp_new N = do {
     q \<leftarrow> yq_push N (yq_new N);
     s \<leftarrow> yq_back_slot q;
     Some \<lparr>queue = q, yw = s, yr = Some s, yf = s, yc = Some s\<rparr>
   }"

definition yp_write :: "nat \<Rightarrow> 'a \<Rightarrow> bool \<Rightarrow> 'a ypipe_t \<Rightarrow> 'a ypipe_t option" where
  "yp_write N v incomplete p = do {
     q \<leftarrow> yq_set_back v (queue p);
     q \<leftarrow> yq_push N q;
     if incomplete then Some (p\<lparr>queue := q\<rparr>)
     else do {
       s \<leftarrow> yq_back_slot q;
       Some (p\<lparr>queue := q, yf := s\<rparr>)
     }
   }"

definition yp_unwrite :: "nat \<Rightarrow> 'a ypipe_t \<Rightarrow> ('a option \<times> 'a ypipe_t) option" where
  "yp_unwrite N p = do {
     b \<leftarrow> yq_back_slot (queue p);
     if yf p = b then Some (None, p)
     else do {
       q \<leftarrow> yq_unpush N (queue p);
       v \<leftarrow> yq_back q;
       Some (Some v, p\<lparr>queue := q\<rparr>)
     }
   }"

definition yp_flush :: "'a ypipe_t \<Rightarrow> bool \<times> 'a ypipe_t" where
  "yp_flush p =
     (if yw p = yf p then (True, p)
      else let (old, new) = ptr_cas (yc p) (Some (yw p)) (Some (yf p)); p = p\<lparr>yc := new\<rparr>
           in if old \<noteq> Some (yw p) then (False, p\<lparr>yc := Some (yf p), yw := yf p\<rparr>)
              else (True, p\<lparr>yw := yf p\<rparr>))"

definition yp_check_read :: "'a ypipe_t \<Rightarrow> bool \<times> 'a ypipe_t" where
  "yp_check_read p =
     (let front = yq_front_slot (queue p)
      in if Some front \<noteq> yr p \<and> yr p \<noteq> None then (True, p)
         else let (old, new) = ptr_cas (yc p) (Some front) None; p = p\<lparr>yr := old, yc := new\<rparr>
              in (\<not> (Some front = yr p \<or> yr p = None), p))"

definition yp_read :: "nat \<Rightarrow> 'a ypipe_t \<Rightarrow> ('a option \<times> 'a ypipe_t) option" where
  "yp_read N p0 =
     (let (ok, p) = yp_check_read p0
      in if \<not> ok then Some (None, p)
         else do {
           v \<leftarrow> yq_front (queue p);
           q \<leftarrow> yq_pop N (queue p);
           Some (Some v, p\<lparr>queue := q\<rparr>)
         })"

definition yp_probe :: "('a \<Rightarrow> bool) \<Rightarrow> 'a ypipe_t \<Rightarrow> (bool \<times> 'a ypipe_t) option" where
  "yp_probe fn p0 =
     (let (rc, p) = yp_check_read p0
      in do {
        zmq_assert rc;
        v \<leftarrow> yq_front (queue p);
        Some (fn v, p)
      })"

subsection \<open>The contract\<close>

definition holds :: "'a yqueue_t \<Rightarrow> slot list \<Rightarrow> 'a list \<Rightarrow> bool" where
  "holds q ss xs \<longleftrightarrow> map (slot_load q) ss = map Some xs"

text \<open>The slots of the three parts and of the terminator, and where the pointers are.\<close>

definition yp_layout ::
  "nat \<Rightarrow> 'a ypipe_t \<Rightarrow> slot list \<Rightarrow> slot list \<Rightarrow> slot list \<Rightarrow> slot \<Rightarrow> bool \<Rightarrow> bool" where
  "yp_layout N p s1 s2 s3 t z \<longleftrightarrow>
     yq_rep N (queue p) (s1 @ s2 @ s3 @ [t]) \<and>
     yw p = hd (s2 @ s3 @ [t]) \<and> yf p = hd (s3 @ [t]) \<and>
     yc p = (if z then None else Some (yw p)) \<and> (z \<longrightarrow> s1 = []) \<and>
     (\<forall>x. yr p = Some x \<longrightarrow> x \<in> set s1 \<or> x = yw p)"

definition yp_rep :: "nat \<Rightarrow> 'a ypipe_t \<Rightarrow> 'a list \<Rightarrow> 'a list \<Rightarrow> 'a list \<Rightarrow> bool \<Rightarrow> bool" where
  "yp_rep N p fl un inc z \<longleftrightarrow> (\<exists>s1 s2 s3 t. yp_layout N p s1 s2 s3 t z \<and>
     holds (queue p) s1 fl \<and> holds (queue p) s2 un \<and> holds (queue p) s3 inc)"

lemma yp_repI:
  "yp_layout N p s1 s2 s3 t z \<Longrightarrow> holds (queue p) s1 fl \<Longrightarrow> holds (queue p) s2 un \<Longrightarrow>
   holds (queue p) s3 inc \<Longrightarrow> yp_rep N p fl un inc z"
  unfolding yp_rep_def by blast

lemma yp_repE:
  assumes "yp_rep N p fl un inc z"
  obtains s1 s2 s3 t where "yp_layout N p s1 s2 s3 t z" "holds (queue p) s1 fl"
    "holds (queue p) s2 un" "holds (queue p) s3 inc"
  using assms unfolding yp_rep_def by blast

lemma holds_Nil [simp]: "holds q [] xs \<longleftrightarrow> xs = []" "holds q ss [] \<longleftrightarrow> ss = []"
  by (auto simp: holds_def)

lemma holds_append:
  "holds q ss xs \<Longrightarrow> holds q ts ys \<Longrightarrow> holds q (ss @ ts) (xs @ ys)"
  by (simp add: holds_def)

lemma holds_Cons [simp]: "holds q (s # ss) (x # xs) \<longleftrightarrow> slot_load q s = Some x \<and> holds q ss xs"
  by (simp add: holds_def)

lemma holds_frame:
  "\<forall>s \<in> set ss. slot_load q' s = slot_load q s \<Longrightarrow> holds q ss xs \<Longrightarrow> holds q' ss xs"
  by (auto simp: holds_def cong: map_cong)

lemma holds_snocE:
  assumes "holds q (ss @ [s]) xs"
  obtains ys y where "xs = ys @ [y]" "holds q ss ys" "slot_load q s = Some y"
  using assms by (cases xs rule: rev_cases) (auto simp: holds_def)

lemma holds_snoc_rightE:
  assumes "holds q ss (xs @ [x])"
  obtains ts t where "ss = ts @ [t]" "holds q ts xs" "slot_load q t = Some x"
  using assms by (cases ss rule: rev_cases) (auto simp: holds_def)

lemma holds_length: "holds q ss xs \<Longrightarrow> ss = [] \<longleftrightarrow> xs = []"
  by (auto simp: holds_def)

lemma hd_append_eq_hd: "distinct (xs @ ys) \<Longrightarrow> ys \<noteq> [] \<Longrightarrow> hd (xs @ ys) = hd ys \<longleftrightarrow> xs = []"
  by (cases xs; cases ys) auto

lemma yp_layout_distinct: "yp_layout N p s1 s2 s3 t z \<Longrightarrow> distinct (s1 @ s2 @ s3 @ [t])"
  unfolding yp_layout_def using yq.rep_distinct by blast

text \<open>Two of the pointers coincide exactly when the part between them is empty.\<close>

lemma yp_layout_pointers:
  assumes "yp_layout N p s1 s2 s3 t z"
  shows "yw p = yf p \<longleftrightarrow> s2 = []" and "yq_front_slot (queue p) = yw p \<longleftrightarrow> s1 = []"
proof -
  have d: "distinct (s1 @ s2 @ s3 @ [t])" using assms by (rule yp_layout_distinct)
  then show "yw p = yf p \<longleftrightarrow> s2 = []"
    using assms hd_append_eq_hd [of s2 "s3 @ [t]"] by (simp add: yp_layout_def)
  have "yq_rep N (queue p) (s1 @ s2 @ s3 @ [t])" using assms by (simp add: yp_layout_def)
  then have "yq_front_slot (queue p) = hd (s1 @ s2 @ s3 @ [t])"
    by (cases "s1 @ s2 @ s3 @ [t]") (simp_all add: yq.front_rep)
  then show "yq_front_slot (queue p) = yw p \<longleftrightarrow> s1 = []"
    using assms hd_append_eq_hd [OF d] by (simp add: yp_layout_def)
qed

subsection \<open>Each operation implements the contract\<close>

lemma yp_new_rep:
  assumes "0 < N"
  shows "\<exists>p. yp_new N = Some p \<and> yp_rep N p ([] :: 'a list) [] [] False"
proof -
  have "yq_rep N (yq_new N :: 'a yqueue_t) []"
    using yq_new_inv(1) [OF assms] yq_new_inv(2) unfolding yq_rep_def by metis
  from yq.push_rep [OF this] obtain q s where q: "yq_push N (yq_new N :: 'a yqueue_t) = Some q"
    "yq_rep N q ([] @ [s])" by blast
  have "yq_back_slot q = Some s" using yq.back_rep [OF q(2)] .
  then have "yp_new N = Some \<lparr>queue = q, yw = s, yr = Some s, yf = s, yc = Some s\<rparr>" (is "_ = Some ?p")
    using q by (simp add: yp_new_def)
  moreover have "yp_layout N ?p [] [] [] s False" using q(2) by (simp add: yp_layout_def)
  ultimately show ?thesis by (auto intro!: yp_repI)
qed

lemma hd_snoc2: "hd (xs @ [s, t]) = hd (xs @ [s])"
  by (cases xs) auto

lemma yp_write_rep:
  assumes "yp_rep N p fl un inc z"
  shows "\<exists>p'. yp_write N v incomplete p = Some p' \<and>
    (if incomplete then yp_rep N p' fl un (inc @ [v]) z
     else yp_rep N p' fl (un @ inc @ [v]) [] z)"
proof -
  obtain s1 s2 s3 t where lay: "yp_layout N p s1 s2 s3 t z" and h: "holds (queue p) s1 fl"
    "holds (queue p) s2 un" "holds (queue p) s3 inc" using assms by (rule yp_repE)
  have rep: "yq_rep N (queue p) ((s1 @ s2 @ s3) @ [t])" using lay by (simp add: yp_layout_def)
  obtain q1 q2 t' where q1: "slot_store (queue p) t v = Some q1" and q2: "yq_push N q1 = Some q2"
    and rep2: "yq_rep N q2 ((s1 @ s2 @ s3) @ [t, t'])" and lt: "slot_load q2 t = Some v"
    and same: "\<forall>u \<in> set (s1 @ s2 @ s3). slot_load q2 u = slot_load (queue p) u"
    using yq.store_push [OF rep, of v] by blast
  have h2: "holds q2 s1 fl" "holds q2 s2 un" "holds q2 (s3 @ [t]) (inc @ [v])"
    using h same lt by (auto intro!: holds_append intro: holds_frame)
  have bs: "yq_back_slot (queue p) = Some t" using yq.back_rep [OF rep] .
  have bs2: "yq_back_slot q2 = Some t'" using yq.back_rep [of N q2 "s1 @ s2 @ s3 @ [t]" t'] rep2 by simp
  show ?thesis
  proof (cases incomplete)
    case True
    have "yp_layout N (p\<lparr>queue := q2\<rparr>) s1 s2 (s3 @ [t]) t' z"
      using lay rep2 by (auto simp: yp_layout_def hd_append)
    then have "yp_rep N (p\<lparr>queue := q2\<rparr>) fl un (inc @ [v]) z" using h2 by (auto intro: yp_repI)
    with True q1 q2 bs show ?thesis by (simp add: yp_write_def yq_set_back_def)
  next
    case False
    have "yp_layout N (p\<lparr>queue := q2, yf := t'\<rparr>) s1 (s2 @ s3 @ [t]) [] t' z"
      using lay rep2 by (auto simp: yp_layout_def hd_append)
    then have "yp_rep N (p\<lparr>queue := q2, yf := t'\<rparr>) fl (un @ inc @ [v]) [] z"
      using h2(1) holds_append [OF h2(2,3)] by (auto intro: yp_repI)
    with False q1 q2 bs bs2 show ?thesis by (simp add: yp_write_def yq_set_back_def)
  qed
qed

lemma yp_unwrite_rep:
  assumes "yp_rep N p fl un inc z"
  shows "inc = [] \<Longrightarrow> yp_unwrite N p = Some (None, p)"
    and "inc = xs @ [x] \<Longrightarrow> \<exists>p'. yp_unwrite N p = Some (Some x, p') \<and> yp_rep N p' fl un xs z"
proof -
  obtain s1 s2 s3 t where lay: "yp_layout N p s1 s2 s3 t z" and h: "holds (queue p) s1 fl"
    "holds (queue p) s2 un" "holds (queue p) s3 inc" using assms by (rule yp_repE)
  have rep: "yq_rep N (queue p) ((s1 @ s2 @ s3) @ [t])" using lay by (simp add: yp_layout_def)
  have bs: "yq_back_slot (queue p) = Some t" using yq.back_rep [OF rep] .
  show "yp_unwrite N p = Some (None, p)" if "inc = []"
    using that h(3) lay bs by (simp add: yp_unwrite_def yp_layout_def)
  show "\<exists>p'. yp_unwrite N p = Some (Some x, p') \<and> yp_rep N p' fl un xs z" if "inc = xs @ [x]"
  proof -
    have "holds (queue p) s3 (xs @ [x])" using h(3) that by simp
    then obtain ts u where ts: "s3 = ts @ [u]" "holds (queue p) ts xs" "slot_load (queue p) u = Some x"
      by (rule holds_snoc_rightE)
    have "yq_rep N (queue p) ((s1 @ s2 @ ts) @ [u, t])" using rep ts by simp
    from yq.unpush_back [OF this] obtain q where q: "yq_unpush N (queue p) = Some q"
      "yq_rep N q ((s1 @ s2 @ ts) @ [u])" "yq_back_slot q = Some u"
      and same: "\<forall>v \<in> set ((s1 @ s2 @ ts) @ [u]). slot_load q v = slot_load (queue p) v" by blast
    have "distinct (s1 @ s2 @ s3 @ [t])" using yq.rep_distinct [OF rep] by simp
    then have "yf p \<noteq> t" using lay ts(1) by (cases ts) (auto simp: yp_layout_def)
    moreover have "yq_back q = Some x" using q(3) ts(3) same by (simp add: yq_back_def)
    ultimately have "yp_unwrite N p = Some (Some x, p\<lparr>queue := q\<rparr>)"
      using bs q(1) by (simp add: yp_unwrite_def)
    moreover have "yp_layout N (p\<lparr>queue := q\<rparr>) s1 s2 ts u z"
      using lay q(2) ts(1) by (auto simp: yp_layout_def hd_append)
    then have "yp_rep N (p\<lparr>queue := q\<rparr>) fl un xs z"
      using h ts same by (auto intro!: yp_repI intro: holds_frame)
    ultimately show ?thesis by blast
  qed
qed

text \<open>
  Flushing makes the complete items readable. It returns \<open>False\<close> exactly when there was
  something to flush and the reader was asleep; the reader counts as awake afterwards.
\<close>

lemma yp_flush_rep:
  assumes "yp_rep N p fl un inc z"
  shows "\<exists>p'. yp_flush p = (un = [] \<or> \<not> z, p') \<and> yp_rep N p' (fl @ un) [] inc (z \<and> un = [])"
proof -
  obtain s1 s2 s3 t where lay: "yp_layout N p s1 s2 s3 t z" and h: "holds (queue p) s1 fl"
    "holds (queue p) s2 un" "holds (queue p) s3 inc" using assms by (rule yp_repE)
  have eq: "yw p = yf p \<longleftrightarrow> un = []"
    using yp_layout_pointers(1) [OF lay] holds_length [OF h(2)] by simp
  show ?thesis
  proof (cases "un = []")
    case True
    with assms eq show ?thesis by (simp add: yp_flush_def)
  next
    case False
    let ?p = "p\<lparr>yc := Some (yf p), yw := yf p\<rparr>"
    have "yp_layout N ?p (s1 @ s2) [] s3 t False"
      using lay False h(2) by (cases s2) (auto simp: yp_layout_def)
    then have "yp_rep N ?p (fl @ un) [] inc False" using h by (auto intro!: yp_repI intro: holds_append)
    moreover have "yp_flush p = (\<not> z, ?p)"
      using False eq lay by (simp add: yp_flush_def ptr_cas_def yp_layout_def)
    ultimately show ?thesis using False by simp
  qed
qed

text \<open>Checking says whether an item is readable, and puts the reader to sleep if none is.\<close>

lemma yp_check_read_rep:
  assumes "yp_rep N p fl un inc z"
  shows "\<exists>p'. yp_check_read p = (fl \<noteq> [], p') \<and> yp_rep N p' fl un inc (z \<or> fl = []) \<and> queue p' = queue p"
proof -
  obtain s1 s2 s3 t where lay: "yp_layout N p s1 s2 s3 t z" and h: "holds (queue p) s1 fl"
    "holds (queue p) s2 un" "holds (queue p) s3 inc" using assms by (rule yp_repE)
  let ?fr = "yq_front_slot (queue p)"
  have weq: "?fr = yw p \<longleftrightarrow> fl = []" "yw p = ?fr \<longleftrightarrow> fl = []"
    using yp_layout_pointers(2) [OF lay] holds_length [OF h(1)] by auto
  have yc: "yc p = (if z then None else Some (yw p))" and zfl: "z \<longrightarrow> fl = []"
    using lay h(1) by (auto simp: yp_layout_def)
  have keep: "yp_layout N (p\<lparr>yr := r, yc := c\<rparr>) s1 s2 s3 t z'"
    if "c = (if z' then None else Some (yw p))" "z' \<longrightarrow> s1 = []"
      "\<forall>x. r = Some x \<longrightarrow> x \<in> set s1 \<or> x = yw p" for r c z'
    using lay that by (simp add: yp_layout_def)
  show ?thesis
  proof (cases "Some ?fr \<noteq> yr p \<and> yr p \<noteq> None")
    case True
    then obtain x where "yr p = Some x" "x \<noteq> ?fr" by auto
    moreover from this lay have "x \<in> set s1 \<or> x = yw p" unfolding yp_layout_def by blast
    ultimately have "fl \<noteq> []" using weq(2) holds_length [OF h(1)] by auto
    with True assms show ?thesis by (simp add: yp_check_read_def)
  next
    case False
    let ?p = "p\<lparr>yr := yc p, yc := (if yc p = Some ?fr then None else yc p)\<rparr>"
    have "yp_check_read p = (\<not> (Some ?fr = yc p \<or> yc p = None), ?p)"
      unfolding yp_check_read_def Let_def if_not_P [OF False] by (simp add: ptr_cas_def)
    moreover have "\<not> (Some ?fr = yc p \<or> yc p = None) \<longleftrightarrow> fl \<noteq> []" using weq yc zfl by (cases z) simp_all
    ultimately have "yp_check_read p = (fl \<noteq> [], ?p)" by simp
    moreover have "yp_layout N ?p s1 s2 s3 t (z \<or> fl = [])"
    proof (rule keep)
      show "(if yc p = Some ?fr then None else yc p) = (if z \<or> fl = [] then None else Some (yw p))"
        using weq(2) yc zfl by (cases z) simp_all
      show "z \<or> fl = [] \<longrightarrow> s1 = []" using zfl holds_length [OF h(1)] by blast
      show "\<forall>x. yc p = Some x \<longrightarrow> x \<in> set s1 \<or> x = yw p" using yc by simp
    qed
    ultimately show ?thesis using h by (auto intro!: yp_repI)
  qed
qed

lemma yp_front_rep:
  assumes "yp_rep N p (x # fl) un inc z"
  shows "yq_front (queue p) = Some x"
    and "yr p \<noteq> Some (yq_front_slot (queue p)) \<Longrightarrow>
      \<exists>q. yq_pop N (queue p) = Some q \<and> yp_rep N (p\<lparr>queue := q\<rparr>) fl un inc z"
proof -
  obtain s1 s2 s3 t where lay: "yp_layout N p s1 s2 s3 t z" and h: "holds (queue p) s1 (x # fl)"
    "holds (queue p) s2 un" "holds (queue p) s3 inc" using assms by (rule yp_repE)
  then obtain u s1' where s1: "s1 = u # s1'" by (cases s1) auto
  have rep: "yq_rep N (queue p) (u # (s1' @ s2 @ s3 @ [t]))" using lay s1 by (simp add: yp_layout_def)
  have fr: "yq_front_slot (queue p) = u" using yq.front_rep [OF rep] .
  then show "yq_front (queue p) = Some x" using h(1) s1 by (simp add: yq_front_def)
  show "\<exists>q. yq_pop N (queue p) = Some q \<and> yp_rep N (p\<lparr>queue := q\<rparr>) fl un inc z"
    if "yr p \<noteq> Some (yq_front_slot (queue p))"
  proof -
    obtain q where q: "yq_pop N (queue p) = Some q" "yq_rep N q (s1' @ s2 @ s3 @ [t])"
      and same: "\<forall>v \<in> set (s1' @ s2 @ s3 @ [t]). slot_load q v = slot_load (queue p) v"
      using yq.pop_rep [OF rep] by blast
    have "yp_layout N (p\<lparr>queue := q\<rparr>) s1' s2 s3 t z"
      using lay s1 q(2) that fr by (auto simp: yp_layout_def)
    moreover have "holds q s1' fl" "holds q s2 un" "holds q s3 inc"
      using h s1 same by (auto intro: holds_frame)
    ultimately show ?thesis using q(1) by (auto intro!: yp_repI)
  qed
qed

lemma yp_check_read_prefetched:
  "yp_check_read p = (True, p') \<Longrightarrow> yr p' \<noteq> Some (yq_front_slot (queue p'))"
  by (auto simp: yp_check_read_def ptr_cas_def Let_def split: if_splits)

lemma yp_read_rep:
  assumes "yp_rep N p fl un inc z"
  shows "fl = [] \<Longrightarrow> \<exists>p'. yp_read N p = Some (None, p') \<and> yp_rep N p' [] un inc True"
    and "fl = x # xs \<Longrightarrow> \<exists>p'. yp_read N p = Some (Some x, p') \<and> yp_rep N p' xs un inc z"
proof -
  obtain p1 where p1: "yp_check_read p = (fl \<noteq> [], p1)" "yp_rep N p1 fl un inc (z \<or> fl = [])"
    using yp_check_read_rep [OF assms] by blast
  show "\<exists>p'. yp_read N p = Some (None, p') \<and> yp_rep N p' [] un inc True" if "fl = []"
    using that p1 by (simp add: yp_read_def)
  show "\<exists>p'. yp_read N p = Some (Some x, p') \<and> yp_rep N p' xs un inc z" if fl: "fl = x # xs"
  proof -
    have rep1: "yp_rep N p1 (x # xs) un inc z" using p1(2) fl by simp
    have "yr p1 \<noteq> Some (yq_front_slot (queue p1))"
      using p1(1) fl by (intro yp_check_read_prefetched) simp
    then obtain q where "yq_pop N (queue p1) = Some q" "yp_rep N (p1\<lparr>queue := q\<rparr>) xs un inc z"
      using yp_front_rep(2) [OF rep1] by blast
    with p1(1) fl yp_front_rep(1) [OF rep1] show ?thesis by (simp add: yp_read_def)
  qed
qed

lemma yp_probe_rep:
  assumes "yp_rep N p (x # xs) un inc z"
  shows "\<exists>p'. yp_probe fn p = Some (fn x, p') \<and> yp_rep N p' (x # xs) un inc z"
proof -
  obtain p1 where p1: "yp_check_read p = (True, p1)" "yp_rep N p1 (x # xs) un inc z"
    using yp_check_read_rep [OF assms] by auto
  then show ?thesis using yp_front_rep(1) [OF p1(2)] by (simp add: yp_probe_def)
qed

subsection \<open>A writer and a reader thread\<close>

text \<open>
  Every operation touches the shared pointer \<open>c\<close> at most once, except a flush whose
  compare-and-swap fails: it then stores to \<open>c\<close> in a second, separate access. The step
  relation interleaves the two threads at these accesses; \<open>wake\<close> is the writer between
  them. The reader may poll the pipe at any moment, asleep or not. \<open>complete\<close>,
  \<open>partial\<close> and \<open>received\<close> record what was written and read.
\<close>

record 'a pipe_conf =
  conf_pipe :: "'a ypipe_t"
  wake :: bool
  complete :: "'a list"
  partial :: "'a list"
  received :: "'a list"

definition flush_cas :: "'a ypipe_t \<Rightarrow> bool \<times> 'a ypipe_t" where
  "flush_cas p =
     (if yw p = yf p then (True, p)
      else if yc p = Some (yw p) then (True, p\<lparr>yc := Some (yf p), yw := yf p\<rparr>)
      else (False, p))"

definition flush_set :: "'a ypipe_t \<Rightarrow> 'a ypipe_t" where
  "flush_set p = p\<lparr>yc := Some (yf p), yw := yf p\<rparr>"

lemma yp_flush_steps: "yp_flush p = (let (ok, p') = flush_cas p in (ok, if ok then p' else flush_set p'))"
  by (auto simp: yp_flush_def flush_cas_def flush_set_def ptr_cas_def Let_def)

inductive pipe_step :: "nat \<Rightarrow> 'a pipe_conf \<Rightarrow> 'a pipe_conf \<Rightarrow> bool" for N where
  write_part: "\<not> wake s \<Longrightarrow> yp_write N v True (conf_pipe s) = Some p \<Longrightarrow>
     pipe_step N s (s\<lparr>conf_pipe := p, partial := partial s @ [v]\<rparr>)"
| write_last: "\<not> wake s \<Longrightarrow> yp_write N v False (conf_pipe s) = Some p \<Longrightarrow>
     pipe_step N s (s\<lparr>conf_pipe := p, complete := complete s @ partial s @ [v], partial := []\<rparr>)"
| unwrite: "\<not> wake s \<Longrightarrow> yp_unwrite N (conf_pipe s) = Some (Some v, p) \<Longrightarrow>
     pipe_step N s (s\<lparr>conf_pipe := p, partial := butlast (partial s)\<rparr>)"
| flush1: "\<not> wake s \<Longrightarrow> flush_cas (conf_pipe s) = (ok, p) \<Longrightarrow>
     pipe_step N s (s\<lparr>conf_pipe := p, wake := \<not> ok\<rparr>)"
| flush2: "wake s \<Longrightarrow> pipe_step N s (s\<lparr>conf_pipe := flush_set (conf_pipe s), wake := False\<rparr>)"
| check: "yp_check_read (conf_pipe s) = (ok, p) \<Longrightarrow> pipe_step N s (s\<lparr>conf_pipe := p\<rparr>)"
| read: "yp_read N (conf_pipe s) = Some (Some v, p) \<Longrightarrow>
     pipe_step N s (s\<lparr>conf_pipe := p, received := received s @ [v]\<rparr>)"

inductive pipe_reach :: "nat \<Rightarrow> 'a pipe_conf \<Rightarrow> bool" for N where
  init: "yp_new N = Some p \<Longrightarrow>
     pipe_reach N \<lparr>conf_pipe = p, wake = False, complete = [], partial = [], received = []\<rparr>"
| step: "pipe_reach N s \<Longrightarrow> pipe_step N s s' \<Longrightarrow> pipe_reach N s'"

definition pipe_inv :: "nat \<Rightarrow> 'a pipe_conf \<Rightarrow> bool" where
  "pipe_inv N s \<longleftrightarrow> (\<exists>fl un z. yp_rep N (conf_pipe s) fl un (partial s) z \<and> (wake s \<longrightarrow> z \<and> un \<noteq> []) \<and>
     received s @ fl @ un = complete s)"

lemma pipe_invI:
  "yp_rep N (conf_pipe s) fl un (partial s) z \<Longrightarrow> (wake s \<longrightarrow> z \<and> un \<noteq> []) \<Longrightarrow>
   received s @ fl @ un = complete s \<Longrightarrow> pipe_inv N s"
  unfolding pipe_inv_def by blast

lemma yp_rep_asleep: "yp_rep N p fl un inc True \<Longrightarrow> fl = []"
  by (auto simp: yp_rep_def yp_layout_def)

lemma yp_rep_pending: "yp_rep N p fl un inc z \<Longrightarrow> yw p = yf p \<longleftrightarrow> un = []"
  by (metis holds_length yp_layout_pointers(1) yp_repE)

lemma yp_rep_cas: "yp_rep N p fl un inc z \<Longrightarrow> yc p = Some (yw p) \<longleftrightarrow> \<not> z"
  by (auto simp: yp_rep_def yp_layout_def)

lemma pipe_step_inv [zmq_inv]:
  assumes "pipe_step N s s'" and "pipe_inv N s"
  shows "pipe_inv N s'"
proof -
  obtain fl un z where rep: "yp_rep N (conf_pipe s) fl un (partial s) z" (is "yp_rep N ?p _ _ _ _")
    and wk: "wake s \<longrightarrow> z \<and> un \<noteq> []" and hist: "received s @ fl @ un = complete s"
    using assms(2) unfolding pipe_inv_def by blast
  note flush = yp_flush_rep [OF rep]
  from assms(1) show ?thesis
  proof cases
    case (write_part v p)
    then show ?thesis
      using yp_write_rep [OF rep, of v True] wk hist by (auto simp: pipe_inv_def)
  next
    case (write_last v p)
    then have "yp_rep N p fl (un @ partial s @ [v]) [] z"
      using yp_write_rep [OF rep, of v False] by auto
    with write_last hist show ?thesis
      by (intro pipe_invI [of N s' fl "un @ partial s @ [v]" z]) auto
  next
    case (unwrite v p)
    then obtain xs x where "partial s = xs @ [x]"
      using yp_unwrite_rep(1) [OF rep] by (cases "partial s" rule: rev_cases) auto
    with unwrite yp_unwrite_rep(2) [OF rep this] wk hist show ?thesis
      by (auto simp: pipe_inv_def)
  next
    case (flush1 ok p)
    show ?thesis
    proof (cases ok)
      case True
      then have "yp_flush ?p = (True, p)" using flush1 by (simp add: yp_flush_steps)
      with flush have "yp_rep N p (fl @ un) [] (partial s) (z \<and> un = [])" by auto
      with flush1 True hist show ?thesis
        by (intro pipe_invI [of N s' "fl @ un" "[]" "z \<and> un = []"]) auto
    next
      case False
      then have "p = ?p" "un \<noteq> []" "z"
        using flush1 yp_rep_pending [OF rep] yp_rep_cas [OF rep] by (auto simp: flush_cas_def split: if_splits)
      with flush1 rep hist show ?thesis by (auto simp: pipe_inv_def)
    qed
  next
    case flush2
    then have "yp_flush ?p = (False, flush_set ?p)"
      using wk yp_rep_pending [OF rep] yp_rep_cas [OF rep] by (simp add: yp_flush_steps flush_cas_def)
    with flush have "yp_rep N (flush_set ?p) (fl @ un) [] (partial s) (z \<and> un = [])" by auto
    with flush2 hist wk show ?thesis
      by (intro pipe_invI [of N s' "fl @ un" "[]" "z \<and> un = []"]) auto
  next
    case (check ok p)
    then have "yp_rep N p fl un (partial s) (z \<or> fl = [])" using yp_check_read_rep [OF rep] by auto
    with check hist wk show ?thesis by (auto simp: pipe_inv_def)
  next
    case (read v p)
    then obtain xs where fl: "fl = v # xs" and "yp_rep N p xs un (partial s) z"
      using yp_read_rep(1) [OF rep] yp_read_rep(2) [OF rep] by (cases fl) auto
    with read hist wk show ?thesis by (intro pipe_invI [of N s' xs un z]) auto
  qed
qed

lemma pipe_reach_inv:
  assumes "pipe_reach N s" and "0 < N"
  shows "pipe_inv N s"
  using assms(1)
proof (induction rule: pipe_reach.induct)
  case (init p)
  then have "yp_rep N p [] [] [] False" using yp_new_rep [OF assms(2), where 'a = 'a] by force
  then show ?case by (auto simp: pipe_inv_def)
next
  case (step s s')
  then show ?case by (auto intro: pipe_step_inv)
qed

subsection \<open>Properties of the pipe\<close>

lemma pipe_reach_view:
  assumes "pipe_reach N s" and "0 < N"
  shows "\<exists>fl un z. yp_rep N (conf_pipe s) fl un (partial s) z \<and> (wake s \<longrightarrow> z \<and> un \<noteq> []) \<and>
     received s @ fl @ un = complete s"
  using pipe_reach_inv [OF assms] by (simp add: pipe_inv_def)

lemma yp_rep_awake: "yp_rep N p fl un inc z \<Longrightarrow> yc p = None \<longleftrightarrow> z"
  by (cases z) (auto simp: yp_rep_def yp_layout_def)

text \<open>A first write by the writer and a first read by the reader, used to exercise the statements.\<close>

lemma pipe_reach_example:
  assumes "0 < N"
  shows "\<exists>s. pipe_reach N s \<and> \<not> wake s \<and> complete s = [v] \<and> partial s = [] \<and> received s = []"
proof -
  obtain p where p: "yp_new N = Some p" "yp_rep N p ([] :: 'a list) [] [] False"
    using yp_new_rep [OF assms] by blast
  obtain p' where w: "yp_write N v False p = Some p'" using yp_write_rep [OF p(2), of v False] by blast
  let ?s = "\<lparr>conf_pipe = p, wake = False, complete = [], partial = [], received = []\<rparr>"
  have "pipe_step N ?s (?s\<lparr>conf_pipe := p', complete := complete ?s @ partial ?s @ [v], partial := []\<rparr>)"
    by (rule write_last) (use w in simp_all)
  then have "pipe_reach N (?s\<lparr>conf_pipe := p', complete := complete ?s @ partial ?s @ [v], partial := []\<rparr>)"
    by (rule pipe_reach.step [OF pipe_reach.init [OF p(1)]])
  then show ?thesis by (intro exI conjI) auto
qed

text \<open>
  C2: with a writer and a reader thread interleaved at the accesses to the shared pointer, what
  the reader has received is at every moment a prefix of the items of completed writes, in the
  order they were written: nothing is lost, duplicated, reordered or seen before its write is
  complete, and no part of an item that is rolled back is ever seen.
\<close>

theorem ypipe_received_prefix:
  assumes "pipe_reach N s" and "0 < N"
  shows "received s = take (length (received s)) (complete s)"
  using pipe_reach_view [OF assms] by (metis append_eq_conv_conj)

theorem ypipe_received_prefix_witness:
  "\<exists>s. pipe_reach 2 s \<and> complete s = [7 :: nat] \<and> received s = take (length (received s)) [7]"
  using pipe_reach_example [of 2 "7 :: nat"] ypipe_received_prefix [of 2] by fastforce

text \<open>
  C3: no operation of either thread ever dereferences a dangling pointer, reads an element that
  was not written or runs off the queue, in any interleaving.
\<close>

theorem ypipe_never_fails:
  assumes "pipe_reach N s" and "0 < N"
  shows "yp_write N v incomplete (conf_pipe s) \<noteq> None \<and> yp_unwrite N (conf_pipe s) \<noteq> None \<and>
         yp_read N (conf_pipe s) \<noteq> None \<and>
         (fst (yp_check_read (conf_pipe s)) \<longrightarrow> yp_probe fn (conf_pipe s) \<noteq> None)"
proof -
  obtain fl un z where rep: "yp_rep N (conf_pipe s) fl un (partial s) z"
    using pipe_reach_view [OF assms] by blast
  have "yp_unwrite N (conf_pipe s) \<noteq> None"
    using yp_unwrite_rep [OF rep] by (cases "partial s" rule: rev_cases) auto
  moreover have "yp_read N (conf_pipe s) \<noteq> None" using yp_read_rep [OF rep] by (cases fl) auto
  moreover have "fst (yp_check_read (conf_pipe s)) \<Longrightarrow> yp_probe fn (conf_pipe s) \<noteq> None"
    using yp_check_read_rep [OF rep] yp_probe_rep [of N "conf_pipe s"] rep by (cases fl) fastforce+
  ultimately show ?thesis using yp_write_rep [OF rep, of v incomplete] by blast
qed

theorem ypipe_never_fails_witness:
  "\<exists>s. pipe_reach 2 s \<and> complete s = [7 :: nat] \<and> yp_read 2 (conf_pipe s) \<noteq> None \<and>
     yp_unwrite 2 (conf_pipe s) \<noteq> None"
  using pipe_reach_example [of 2 "7 :: nat"] ypipe_never_fails [of 2] by fastforce

text \<open>
  C4: no wake-up is lost. A flush by the writer returns \<open>False\<close>, which tells it to wake the reader
  up, exactly when the reader has gone to sleep (the shared pointer is null) and there is
  something new to flush; and after any flush every completed item is readable: the next read
  returns the oldest completed item that has not been received.
\<close>

theorem ypipe_flush_wakes_reader:
  assumes "pipe_reach N s" and "0 < N" and "\<not> wake s" and "yp_flush (conf_pipe s) = (ok, p)"
  shows "(\<not> ok \<longleftrightarrow> yc (conf_pipe s) = None \<and> yw (conf_pipe s) \<noteq> yf (conf_pipe s)) \<and>
         (received s \<noteq> complete s \<longrightarrow>
            (\<exists>p'. yp_read N p = Some (Some (complete s ! length (received s)), p')))"
proof -
  obtain fl un z where rep: "yp_rep N (conf_pipe s) fl un (partial s) z"
    and hist: "received s @ fl @ un = complete s" using pipe_reach_view [OF assms(1,2)] by blast
  have ok: "ok \<longleftrightarrow> un = [] \<or> \<not> z" and rep': "yp_rep N p (fl @ un) [] (partial s) (z \<and> un = [])"
    using yp_flush_rep [OF rep] assms(4) by auto
  have "\<exists>p'. yp_read N p = Some (Some (complete s ! length (received s)), p')"
    if ne: "received s \<noteq> complete s"
  proof -
    obtain x xs where x: "fl @ un = x # xs" using ne hist by (cases "fl @ un") auto
    then have "complete s ! length (received s) = x" using hist by (metis nth_append_length)
    then show ?thesis using yp_read_rep(2) [OF rep' x] by auto
  qed
  then show ?thesis using ok yp_rep_pending [OF rep] yp_rep_awake [OF rep] by auto
qed

theorem ypipe_flush_wakes_reader_witness:
  "\<exists>s p' p. pipe_reach 2 s \<and> complete s = [7 :: nat] \<and> yp_read 2 p = Some (Some 7, p') \<and>
     snd (yp_flush (conf_pipe s)) = p"
proof -
  obtain s :: "nat pipe_conf" where s: "pipe_reach 2 s" "\<not> wake s" "complete s = [7]" "received s = []"
    using pipe_reach_example [of 2 "7 :: nat"] by auto
  obtain ok p where f: "yp_flush (conf_pipe s) = (ok, p)" by (cases "yp_flush (conf_pipe s)")
  from ypipe_flush_wakes_reader [OF s(1) _ s(2) f] s f show ?thesis by force
qed

end
