(* ===== verification/Mailbox.thy ===== *)
theory Mailbox
  imports Ypipe
begin

text \<open>
  The mailbox through which threads send commands to an object of another thread (\<^verbatim>\<open>src/mailbox.cpp\<close>):
  a lock-free pipe with a mutex for its many senders, and a signaler (\<^verbatim>\<open>src/signaler.cpp\<close>) that wakes the
  receiver up. The signaler is the number of signals that are in it; on an \<open>eventfd\<close> a read takes all
  of them at once and one is put back.

  The step relation interleaves any number of senders and the receiver at the accesses to the
  pipe's shared pointer and to the signaler.
\<close>

datatype fdpair_kind = Eventfd | Socketpair

definition signaler_send :: "nat \<Rightarrow> nat" where
  "signaler_send n = n + 1"

definition signaler_recv :: "fdpair_kind \<Rightarrow> nat \<Rightarrow> nat option" where
  "signaler_recv k n = (case k of
       Eventfd \<Rightarrow> do {
         zmq_assert (n > 0);
         let (dummy, n) = (n, 0);
         if dummy = 2 then Some (n + 1) else do { zmq_assert (dummy = 1); Some n }
       }
     | Socketpair \<Rightarrow> do { zmq_assert (n > 0); Some (n - 1) })"

record 'c mailbox_t =
  cpipe :: "'c ypipe_t"
  signals :: nat
  mb_active :: bool

definition mailbox_new :: "nat \<Rightarrow> 'c mailbox_t option" where
  "mailbox_new N = do {
     p \<leftarrow> yp_new N;
     (c, p) \<leftarrow> yp_read N p;
     zmq_assert (c = None);
     Some \<lparr>cpipe = p, signals = 0, mb_active = False\<rparr>
   }"

definition mailbox_send :: "nat \<Rightarrow> 'c \<Rightarrow> 'c mailbox_t \<Rightarrow> 'c mailbox_t option" where
  "mailbox_send N cmd m = do {
     p \<leftarrow> yp_write N cmd False (cpipe m);
     let (ok, p) = yp_flush p;
     Some (m\<lparr>cpipe := p, signals := if \<not> ok then signaler_send (signals m) else signals m\<rparr>)
   }"

text \<open>The first half of \<open>recv\<close>: a command that is there, or the switch to the passive state.\<close>

definition mailbox_try :: "fdpair_kind \<Rightarrow> nat \<Rightarrow> 'c mailbox_t \<Rightarrow> ('c option \<times> 'c mailbox_t) option" where
  "mailbox_try k N m =
     (if mb_active m then do {
        (c, p) \<leftarrow> yp_read N (cpipe m);
        let m = m\<lparr>cpipe := p\<rparr>;
        if c \<noteq> None then Some (c, m)
        else do { n \<leftarrow> signaler_recv k (signals m); Some (None, m\<lparr>mb_active := False, signals := n\<rparr>) }
      }
      else Some (None, m))"

text \<open>The whole of it; \<open>rc\<close> is what \<open>signaler.wait\<close> reports.\<close>

definition mailbox_recv ::
  "fdpair_kind \<Rightarrow> nat \<Rightarrow> errno_t option \<Rightarrow> 'c mailbox_t \<Rightarrow> (errno_t option \<times> 'c option \<times> 'c mailbox_t) option" where
  "mailbox_recv k N rc m = do {
     (c, m) \<leftarrow> mailbox_try k N m;
     if c \<noteq> None then Some (None, c, m)
     else if rc = Some EAGAIN \<or> rc = Some EINTR then Some (rc, None, m)
     else do {
       let m = m\<lparr>mb_active := True\<rparr>;
       zmq_assert (rc = None);
       (c, p) \<leftarrow> yp_read N (cpipe m);
       zmq_assert (c \<noteq> None);
       Some (None, c, m\<lparr>cpipe := p\<rparr>)
     }
   }"

subsection \<open>Senders and the receiver\<close>

text \<open>
  Where the sender is that holds the mutex, and where the receiver is. \<open>owed\<close> is the number of
  senders that have left the mutex and not sent their signal yet.
\<close>

datatype sender_pc = Unlocked | Written | Waking

datatype receiver_pc = Idle | Found_empty | Waiting | Signalled

record 'c mailbox_conf =
  mb :: "'c mailbox_t"
  spc :: sender_pc
  rpc :: receiver_pc
  owed :: nat
  sent :: "'c list"
  got :: "'c list"

inductive mailbox_step :: "fdpair_kind \<Rightarrow> nat \<Rightarrow> 'c mailbox_conf \<Rightarrow> 'c mailbox_conf \<Rightarrow> bool" for k N where
  s_write: "\<lbrakk>spc s = Unlocked; yp_write N c False (cpipe (mb s)) = Some p\<rbrakk> \<Longrightarrow>
    mailbox_step k N s (s\<lparr>mb := mb s\<lparr>cpipe := p\<rparr>, spc := Written, sent := sent s @ [c]\<rparr>)"
| s_flush: "\<lbrakk>spc s = Written; flush_cas (cpipe (mb s)) = (ok, p)\<rbrakk> \<Longrightarrow>
    mailbox_step k N s (s\<lparr>mb := mb s\<lparr>cpipe := p\<rparr>, spc := if ok then Unlocked else Waking\<rparr>)"
| s_wake: "spc s = Waking \<Longrightarrow>
    mailbox_step k N s (s\<lparr>mb := mb s\<lparr>cpipe := flush_set (cpipe (mb s))\<rparr>, spc := Unlocked, owed := owed s + 1\<rparr>)"
| s_signal: "owed s = Suc n \<Longrightarrow>
    mailbox_step k N s (s\<lparr>mb := mb s\<lparr>signals := signaler_send (signals (mb s))\<rparr>, owed := n\<rparr>)"
| r_read: "\<lbrakk>rpc s = Idle; mb_active (mb s); yp_read N (cpipe (mb s)) = Some (Some c, p)\<rbrakk> \<Longrightarrow>
    mailbox_step k N s (s\<lparr>mb := mb s\<lparr>cpipe := p\<rparr>, got := got s @ [c]\<rparr>)"
| r_empty: "\<lbrakk>rpc s = Idle; mb_active (mb s); yp_read N (cpipe (mb s)) = Some (None, p)\<rbrakk> \<Longrightarrow>
    mailbox_step k N s (s\<lparr>mb := mb s\<lparr>cpipe := p\<rparr>, rpc := Found_empty\<rparr>)"
| r_passive: "\<lbrakk>rpc s = Found_empty; signaler_recv k (signals (mb s)) = Some n\<rbrakk> \<Longrightarrow>
    mailbox_step k N s (s\<lparr>mb := mb s\<lparr>mb_active := False, signals := n\<rparr>, rpc := Waiting\<rparr>)"
| r_start: "\<lbrakk>rpc s = Idle; \<not> mb_active (mb s)\<rbrakk> \<Longrightarrow> mailbox_step k N s (s\<lparr>rpc := Waiting\<rparr>)"
| r_timeout: "rpc s = Waiting \<Longrightarrow> mailbox_step k N s (s\<lparr>rpc := Idle\<rparr>)"
| r_wait: "\<lbrakk>rpc s = Waiting; signals (mb s) > 0\<rbrakk> \<Longrightarrow>
    mailbox_step k N s (s\<lparr>mb := mb s\<lparr>mb_active := True\<rparr>, rpc := Signalled\<rparr>)"
| r_first: "\<lbrakk>rpc s = Signalled; yp_read N (cpipe (mb s)) = Some (Some c, p)\<rbrakk> \<Longrightarrow>
    mailbox_step k N s (s\<lparr>mb := mb s\<lparr>cpipe := p\<rparr>, rpc := Idle, got := got s @ [c]\<rparr>)"

inductive mailbox_reach :: "fdpair_kind \<Rightarrow> nat \<Rightarrow> 'c mailbox_conf \<Rightarrow> bool" for k N where
  init: "mailbox_new N = Some m \<Longrightarrow>
    mailbox_reach k N \<lparr>mb = m, spc = Unlocked, rpc = Idle, owed = 0, sent = [], got = []\<rparr>"
| step: "mailbox_reach k N s \<Longrightarrow> mailbox_step k N s s' \<Longrightarrow> mailbox_reach k N s'"

text \<open>
  The signals, sent or owed, tell whether there is something to read: \<open>z\<close> says that the pipe's
  reader is asleep, \<open>fl\<close> are the readable commands.
\<close>

definition signals_ok :: "receiver_pc \<Rightarrow> bool \<Rightarrow> nat \<Rightarrow> nat \<Rightarrow> 'c list \<Rightarrow> bool \<Rightarrow> bool" where
  "signals_ok r a n d fl z \<longleftrightarrow> (case r of
       Signalled \<Rightarrow> a \<and> \<not> z \<and> n = 1 \<and> d = 0 \<and> fl \<noteq> []
     | Found_empty \<Rightarrow> a \<and> n \<ge> 1 \<and> n + d = (if z then 1 else 2) \<and> (\<not> z \<longrightarrow> fl \<noteq> [])
     | _ \<Rightarrow> if a then r = Idle \<and> \<not> z \<and> n = 1 \<and> d = 0
            else n + d = (if z then 0 else 1) \<and> (\<not> z \<longrightarrow> fl \<noteq> []))"

definition mailbox_inv :: "nat \<Rightarrow> 'c mailbox_conf \<Rightarrow> bool" where
  "mailbox_inv N s \<longleftrightarrow> (\<exists>fl un z. yp_rep N (cpipe (mb s)) fl un [] z \<and> got s @ fl @ un = sent s \<and>
     (case spc s of Unlocked \<Rightarrow> un = [] | Written \<Rightarrow> un \<noteq> [] | Waking \<Rightarrow> un \<noteq> [] \<and> z) \<and> signals_ok (rpc s) (mb_active (mb s)) (signals (mb s)) (owed s) fl z)"

lemma mailbox_new_ok:
  assumes "0 < N"
  shows "\<exists>m. mailbox_new N = Some m \<and> signals m = 0 \<and> \<not> mb_active m \<and> yp_rep N (cpipe m) [] [] [] True"
proof -
  obtain p where p: "yp_new N = Some p" "yp_rep N p ([] :: 'a list) [] [] False" using yp_new_rep [OF assms] by blast
  then obtain p' where "yp_read N p = Some (None, p')" "yp_rep N p' [] [] [] True" using yp_read_rep(1) by blast
  with p show ?thesis by (simp add: mailbox_new_def)
qed

lemma signaler_recv_ok: "n = 1 \<or> n = 2 \<Longrightarrow> signaler_recv k n = Some (n - 1)"
  by (cases k) (auto simp: signaler_recv_def)

lemma mailbox_invI:
  assumes "yp_rep N (cpipe (mb s)) fl un [] z" and "got s @ fl @ un = sent s"
    and "case spc s of Unlocked \<Rightarrow> un = [] | Written \<Rightarrow> un \<noteq> [] | Waking \<Rightarrow> un \<noteq> [] \<and> z" and "signals_ok (rpc s) (mb_active (mb s)) (signals (mb s)) (owed s) fl z"
  shows "mailbox_inv N s"
  using assms unfolding mailbox_inv_def by blast

lemma mailbox_step_inv:
  assumes "mailbox_step k N s s'" and "mailbox_inv N s"
  shows "mailbox_inv N s'"
proof -
  obtain fl un z where rep: "yp_rep N (cpipe (mb s)) fl un [] z" and hist: "got s @ fl @ un = sent s"
    and sp: "case spc s of Unlocked \<Rightarrow> un = [] | Written \<Rightarrow> un \<noteq> [] | Waking \<Rightarrow> un \<noteq> [] \<and> z"
    and sig: "signals_ok (rpc s) (mb_active (mb s)) (signals (mb s)) (owed s) fl z" using assms(2) unfolding mailbox_inv_def by blast
  have asleep: "z \<longrightarrow> fl = []" using rep yp_rep_asleep by (cases z) auto
  from assms(1) show ?thesis
  proof cases
    case (s_write c p)
    then have "yp_rep N p fl [c] [] z" using yp_write_rep [OF rep, of c False] sp by auto
    then show ?thesis using s_write hist sp sig by (intro mailbox_invI [of N s' fl "[c]" z]) simp_all
  next
    case (s_flush ok p)
    show ?thesis
    proof (cases ok)
      case True
      then have f: "yp_flush (cpipe (mb s)) = (True, p)" using s_flush by (simp add: yp_flush_steps)
      then have "\<not> z" using yp_flush_rep [OF rep] sp s_flush by auto
      then have "yp_rep N p (fl @ un) [] [] False" using yp_flush_rep [OF rep] f by auto
      then show ?thesis using s_flush hist sig True \<open>\<not> z\<close>
        by (intro mailbox_invI [of N s' "fl @ un" "[]" False]) (simp_all add: signals_ok_def split: receiver_pc.splits if_splits)
    next
      case False
      then have "p = cpipe (mb s)" "z" "un \<noteq> []" using s_flush sp yp_rep_cas [OF rep] by (auto simp: flush_cas_def split: if_splits)
      then show ?thesis using s_flush hist rep sig False by (intro mailbox_invI [of N s' fl un z]) simp_all
    qed
  next
    case s_wake
    then have z: "z" "un \<noteq> []" "fl = []" using sp asleep by simp_all
    then have "yp_flush (cpipe (mb s)) = (False, flush_set (cpipe (mb s)))"
      using yp_rep_pending [OF rep] yp_rep_cas [OF rep] by (simp add: yp_flush_steps flush_cas_def)
    then have "yp_rep N (flush_set (cpipe (mb s))) un [] [] False" using yp_flush_rep [OF rep] z by auto
    then show ?thesis using s_wake hist sig z
      by (intro mailbox_invI [of N s' un "[]" False]) (simp_all add: signals_ok_def split: receiver_pc.splits if_splits)
  next
    case (s_signal n)
    then show ?thesis using rep hist sp sig
      by (intro mailbox_invI [of N s' fl un z]) (auto simp: signals_ok_def signaler_send_def split: receiver_pc.splits if_splits)
  next
    case (r_read c p)
    then obtain xs where "fl = c # xs" "yp_rep N p xs un [] z"
      using yp_read_rep(1) [OF rep] yp_read_rep(2) [OF rep] by (cases fl) auto
    then show ?thesis using r_read hist sp sig by (intro mailbox_invI [of N s' xs un z]) (simp_all add: signals_ok_def)
  next
    case (r_empty p)
    then have "fl = []" "yp_rep N p [] un [] True" using yp_read_rep(1) [OF rep] yp_read_rep(2) [OF rep] by (cases fl; fastforce)+
    then show ?thesis using r_empty hist sp sig
      by (intro mailbox_invI [of N s' "[]" un True]) (auto simp: signals_ok_def split: sender_pc.splits)
  next
    case (r_passive n)
    have "signals (mb s) = 1 \<or> signals (mb s) = 2" using sig r_passive(2) by (auto simp: signals_ok_def split: if_splits)
    then have "n = signals (mb s) - 1" using r_passive(3) signaler_recv_ok by fastforce
    then show ?thesis using r_passive rep hist sp sig
      by (intro mailbox_invI [of N s' fl un z]) (auto simp: signals_ok_def split: if_splits)
  next
    case r_start
    then show ?thesis using rep hist sp sig by (intro mailbox_invI [of N s' fl un z]) (simp_all add: signals_ok_def)
  next
    case r_timeout
    then show ?thesis using rep hist sp sig by (intro mailbox_invI [of N s' fl un z]) (simp_all add: signals_ok_def split: if_splits)
  next
    case r_wait
    then show ?thesis using rep hist sp sig
      by (intro mailbox_invI [of N s' fl un z]) (auto simp: signals_ok_def split: if_splits)
  next
    case (r_first c p)
    then obtain xs where "fl = c # xs" "yp_rep N p xs un [] z"
      using yp_read_rep(1) [OF rep] yp_read_rep(2) [OF rep] by (cases fl) auto
    then show ?thesis using r_first hist sp sig by (intro mailbox_invI [of N s' xs un z]) (simp_all add: signals_ok_def)
  qed
qed

lemma mailbox_reach_inv:
  assumes "mailbox_reach k N s" and "0 < N"
  shows "mailbox_inv N s"
  using assms(1)
proof (induction rule: mailbox_reach.induct)
  case (init m)
  then have "signals m = 0" "\<not> mb_active m" "yp_rep N (cpipe m) [] [] [] True" using mailbox_new_ok [OF assms(2), where 'a = 'a] by auto
  then show ?case by (intro mailbox_invI [of N _ "[]" "[]" True]) (simp_all add: signals_ok_def)
qed (rule mailbox_step_inv)

text \<open>The functions of the code are what the steps of one thread make up when no other is in between.\<close>

lemma mailbox_send_steps:
  assumes "mailbox_reach k N s" and "spc s = Unlocked" and "mailbox_send N c (mb s) = Some m"
  shows "mailbox_reach k N (s\<lparr>mb := m, sent := sent s @ [c]\<rparr>)"
proof -
  obtain p where p: "yp_write N c False (cpipe (mb s)) = Some p" using assms(3) by (auto simp: mailbox_send_def split: Option.bind_splits)
  obtain ok p1 where f: "flush_cas p = (ok, p1)" by (cases "flush_cas p")
  let ?s1 = "s\<lparr>mb := mb s\<lparr>cpipe := p\<rparr>, spc := Written, sent := sent s @ [c]\<rparr>"
  have r1: "mailbox_reach k N ?s1" by (rule mailbox_reach.step [OF assms(1) mailbox_step.s_write [OF assms(2) p]])
  have r2: "mailbox_reach k N (?s1\<lparr>mb := mb ?s1\<lparr>cpipe := p1\<rparr>, spc := if ok then Unlocked else Waking\<rparr>)"
    by (rule mailbox_reach.step [OF r1 mailbox_step.s_flush]) (use f in simp_all)
  show ?thesis
  proof (cases ok)
    case True
    then have "m = mb s\<lparr>cpipe := p1\<rparr>" using assms(3) p f by (simp add: mailbox_send_def yp_flush_steps)
    then show ?thesis using r2 True assms(2) by (cases s) simp
  next
    case False
    let ?s2 = "?s1\<lparr>mb := mb ?s1\<lparr>cpipe := p1\<rparr>, spc := Waking\<rparr>"
    have r2: "mailbox_reach k N ?s2" using r2 False by simp
    let ?s3 = "?s2\<lparr>mb := mb ?s2\<lparr>cpipe := flush_set p1\<rparr>, spc := Unlocked, owed := owed s + 1\<rparr>"
    have r3: "mailbox_reach k N ?s3" using mailbox_reach.step [OF r2 mailbox_step.s_wake] by simp
    have "mailbox_reach k N (?s3\<lparr>mb := mb ?s3\<lparr>signals := signaler_send (signals (mb ?s3))\<rparr>, owed := owed s\<rparr>)"
      by (rule mailbox_reach.step [OF r3 mailbox_step.s_signal]) simp
    moreover have "m = mb s\<lparr>cpipe := flush_set p1, signals := signaler_send (signals (mb s))\<rparr>"
      using assms(3) p f False by (simp add: mailbox_send_def yp_flush_steps)
    ultimately show ?thesis using assms(2) by (cases s) simp
  qed
qed

lemma mailbox_recv_steps:
  assumes "mailbox_reach k N s" and "rpc s = Idle" and "mailbox_recv k N rc (mb s) = Some (rc', c, m)"
    and "\<forall>m'. mailbox_try k N (mb s) = Some (None, m') \<and> rc = None \<longrightarrow> signals m' > 0"
  shows "mailbox_reach k N (s\<lparr>mb := m, got := got s @ (case c of None \<Rightarrow> [] | Some c \<Rightarrow> [c])\<rparr>)"
proof -
  obtain c1 m1 where t: "mailbox_try k N (mb s) = Some (c1, m1)" using assms(3) by (auto simp: mailbox_recv_def split: Option.bind_splits)
  show ?thesis
  proof (cases c1)
    case (Some x)
    then obtain p where "mb_active (mb s)" "yp_read N (cpipe (mb s)) = Some (Some x, p)" "m1 = mb s\<lparr>cpipe := p\<rparr>"
      using t by (auto simp: mailbox_try_def Let_def split: if_splits Option.bind_splits prod.splits)
    moreover have "c = Some x" "m = m1" using assms(3) t Some by (simp_all add: mailbox_recv_def)
    ultimately show ?thesis using mailbox_reach.step [OF assms(1) mailbox_step.r_read [OF assms(2)]] by simp
  next
    case None
    have w: "mailbox_reach k N (s\<lparr>mb := m1, rpc := Waiting\<rparr>)"
    proof (cases "mb_active (mb s)")
      case True
      then obtain p n where p: "yp_read N (cpipe (mb s)) = Some (None, p)" "signaler_recv k (signals (mb s)) = Some n"
        "m1 = mb s\<lparr>cpipe := p, mb_active := False, signals := n\<rparr>"
        using t None by (auto simp: mailbox_try_def Let_def split: if_splits Option.bind_splits prod.splits)
      let ?s = "s\<lparr>mb := mb s\<lparr>cpipe := p\<rparr>, rpc := Found_empty\<rparr>"
      have r: "mailbox_reach k N ?s" by (rule mailbox_reach.step [OF assms(1) mailbox_step.r_empty [OF assms(2) True p(1)]])
      have "mailbox_reach k N (?s\<lparr>mb := mb ?s\<lparr>mb_active := False, signals := n\<rparr>, rpc := Waiting\<rparr>)"
        by (rule mailbox_reach.step [OF r mailbox_step.r_passive]) (use p in simp_all)
      then show ?thesis using p(3) by simp
    next
      case False
      then have "mb s = m1" using t by (simp add: mailbox_try_def)
      then show ?thesis using mailbox_reach.step [OF assms(1) mailbox_step.r_start [OF assms(2) False]] by (cases s) simp
    qed
    show ?thesis
    proof (cases "rc = Some EAGAIN \<or> rc = Some EINTR")
      case True
      then have "c = None" "m = m1" using assms(3) t None by (simp_all add: mailbox_recv_def)
      then show ?thesis using mailbox_reach.step [OF w mailbox_step.r_timeout] assms(2) by (cases s) simp
    next
      case False
      then obtain x p where x: "rc = None" "yp_read N (cpipe m1) = Some (Some x, p)" "c = Some x" "m = m1\<lparr>mb_active := True, cpipe := p\<rparr>"
        using assms(3) t None by (auto simp: mailbox_recv_def Let_def split: if_splits Option.bind_splits prod.splits)
      let ?s = "s\<lparr>mb := m1\<lparr>mb_active := True\<rparr>, rpc := Signalled\<rparr>"
      have "signals m1 > 0" using assms(4) t None x(1) by simp
      then have r: "mailbox_reach k N ?s" using mailbox_reach.step [OF w mailbox_step.r_wait] by simp
      have "mailbox_reach k N (?s\<lparr>mb := mb ?s\<lparr>cpipe := p\<rparr>, rpc := Idle, got := got ?s @ [x]\<rparr>)"
        by (rule mailbox_reach.step [OF r mailbox_step.r_first]) (use x in simp_all)
      then show ?thesis using x assms(2) by (cases s) simp
    qed
  qed
qed

text \<open>A command is sent and received, and the receiver waits for the next.\<close>

lemma mailbox_example:
  assumes "0 < N"
  shows "\<exists>s. mailbox_reach k N s \<and> sent s = [c] \<and> got s = [c] \<and> rpc s = Waiting \<and> signals (mb s) = 0 \<and> owed s = 0 \<and> spc s = Unlocked"
proof -
  obtain m where m: "mailbox_new N = Some m" "signals m = 0" "\<not> mb_active m" "yp_rep N (cpipe m) ([] :: 'a list) [] [] True"
    using mailbox_new_ok [OF assms] by blast
  obtain p where p: "yp_write N c False (cpipe m) = Some p" "yp_rep N p [] [c] [] True" using yp_write_rep [OF m(4), of c False] by auto
  obtain p1 where p1: "yp_flush p = (False, p1)" "yp_rep N p1 [c] [] [] False" using yp_flush_rep [OF p(2)] by auto
  obtain p2 where p2: "yp_read N p1 = Some (Some c, p2)" "yp_rep N p2 [] [] [] False" using yp_read_rep(2) [OF p1(2)] by auto
  obtain p3 where p3: "yp_read N p2 = Some (None, p3)" using yp_read_rep(1) [OF p2(2)] by auto
  let ?m1 = "m\<lparr>cpipe := p1, signals := 1\<rparr>"
  let ?s0 = "\<lparr>mb = m, spc = Unlocked, rpc = Idle, owed = 0, sent = [], got = []\<rparr>"
  have "mailbox_send N c m = Some ?m1" using p(1) p1(1) m(2) by (simp add: mailbox_send_def signaler_send_def)
  then have r1: "mailbox_reach k N (?s0\<lparr>mb := ?m1, sent := [c]\<rparr>)"
    using mailbox_send_steps [OF mailbox_reach.init [where k = k, OF m(1)], where c = c and m = ?m1] by simp
  let ?m2 = "?m1\<lparr>mb_active := True, cpipe := p2\<rparr>"
  have "mailbox_recv k N None ?m1 = Some (None, Some c, ?m2)" using p2(1) m(3) by (simp add: mailbox_recv_def mailbox_try_def)
  then have r2: "mailbox_reach k N (?s0\<lparr>mb := ?m2, sent := [c], got := [c]\<rparr>)"
    using mailbox_recv_steps [OF r1, where rc = None and rc' = None and c = "Some c" and m = ?m2] m(3) by (simp add: mailbox_try_def)
  let ?m3 = "?m2\<lparr>cpipe := p3, mb_active := False, signals := 0\<rparr>"
  have "mailbox_recv k N (Some EAGAIN) ?m2 = Some (Some EAGAIN, None, ?m3)"
    using p3 signaler_recv_ok [of 1 k] by (simp add: mailbox_recv_def mailbox_try_def)
  then have r3: "mailbox_reach k N (?s0\<lparr>mb := ?m3, sent := [c], got := [c]\<rparr>)"
    using mailbox_recv_steps [OF r2, where rc = "Some EAGAIN" and rc' = "Some EAGAIN" and c = None and m = ?m3] by simp
  have "mailbox_reach k N (?s0\<lparr>mb := ?m3, sent := [c], got := [c], rpc := Waiting\<rparr>)"
    using mailbox_reach.step [OF r3 mailbox_step.r_start] by simp
  then show ?thesis by (intro exI conjI) (assumption, simp_all)
qed

text \<open>
  In every interleaving of any number of senders and the receiver the commands received are the first
  of those that were sent, in order. No assertion of the mailbox or the signaler fails: a switch
  to the passive state finds the signal that woke the receiver, never more than two are there,
  and whoever was signalled finds a command.
\<close>
theorem mailbox_delivers_in_order:
  assumes "mailbox_reach k N s" and "0 < N"
  shows "got s = take (length (got s)) (sent s) \<and> signals (mb s) \<le> 2 \<and>
    (spc s = Unlocked \<longrightarrow> mailbox_send N c (mb s) \<noteq> None) \<and>
    (rpc s = Found_empty \<longrightarrow> signaler_recv k (signals (mb s)) \<noteq> None) \<and>
    (rpc s = Idle \<longrightarrow> mailbox_try k N (mb s) \<noteq> None) \<and>
    (rpc s = Waiting \<and> signals (mb s) > 0 \<or> rpc s = Signalled \<longrightarrow> (\<exists>c p. yp_read N (cpipe (mb s)) = Some (Some c, p)))"
proof -
  obtain fl un z where rep: "yp_rep N (cpipe (mb s)) fl un [] z" and hist: "got s @ fl @ un = sent s"
    and sig: "signals_ok (rpc s) (mb_active (mb s)) (signals (mb s)) (owed s) fl z" using mailbox_reach_inv [OF assms] unfolding mailbox_inv_def by blast
  have "got s = take (length (got s)) (sent s)" using hist by (metis append_eq_conv_conj)
  moreover have "signals (mb s) \<le> 2" using sig by (auto simp: signals_ok_def split: receiver_pc.splits if_splits)
  moreover have "mailbox_send N c (mb s) \<noteq> None" using yp_write_rep [OF rep, of c False] by (auto simp: mailbox_send_def split: prod.split)
  moreover have "signaler_recv k (signals (mb s)) \<noteq> None" if "rpc s = Found_empty"
  proof -
    have "signals (mb s) = 1 \<or> signals (mb s) = 2" using sig that by (auto simp: signals_ok_def split: if_splits)
    then show ?thesis using signaler_recv_ok by fastforce
  qed
  moreover have "mailbox_try k N (mb s) \<noteq> None" if "rpc s = Idle"
  proof -
    have "mb_active (mb s) \<longrightarrow> signaler_recv k (signals (mb s)) \<noteq> None"
      using sig that signaler_recv_ok [of "signals (mb s)" k] by (auto simp: signals_ok_def)
    moreover obtain c p where "yp_read N (cpipe (mb s)) = Some (c, p)" using yp_read_rep [OF rep] by (cases fl) auto
    ultimately show ?thesis by (auto simp: mailbox_try_def Let_def)
  qed
  moreover have "\<exists>c p. yp_read N (cpipe (mb s)) = Some (Some c, p)" if "rpc s = Waiting \<and> signals (mb s) > 0 \<or> rpc s = Signalled"
  proof -
    have "fl \<noteq> []" using sig that by (auto simp: signals_ok_def split: if_splits)
    then show ?thesis using yp_read_rep(2) [OF rep] by (cases fl) auto
  qed
  ultimately show ?thesis by blast
qed

theorem mailbox_delivers_in_order_witness:
  "\<exists>s. mailbox_reach Eventfd 2 s \<and> sent s = [7 :: nat] \<and> got s = take (length (got s)) [7] \<and> mailbox_send 2 8 (mb s) \<noteq> None"
proof -
  obtain s :: "nat mailbox_conf" where s: "mailbox_reach Eventfd 2 s" "sent s = [7]" "spc s = Unlocked" using mailbox_example [of 2 Eventfd 7] by auto
  then show ?thesis using mailbox_delivers_in_order [OF s(1), of 8] by auto
qed

text \<open>
  No command is left behind: when the receiver waits, no signal is there or owed, and no sender is
  between writing and waking, everything that was sent has been received.
\<close>
theorem mailbox_no_lost_command:
  assumes "mailbox_reach k N s" and "0 < N" and "rpc s = Waiting" and "signals (mb s) = 0" and "owed s = 0" and "spc s = Unlocked"
  shows "got s = sent s"
proof -
  obtain fl un z where rep: "yp_rep N (cpipe (mb s)) fl un [] z" and hist: "got s @ fl @ un = sent s"
    and sp: "un = []" and sig: "signals_ok (rpc s) (mb_active (mb s)) (signals (mb s)) (owed s) fl z" using mailbox_reach_inv [OF assms(1,2)] assms(6) unfolding mailbox_inv_def by auto
  have "z" using sig unfolding assms(3-5) by (simp add: signals_ok_def split: if_splits)
  then have "fl = []" using yp_rep_asleep [of N "cpipe (mb s)" fl un "[]"] rep by simp
  then show ?thesis using hist sp by simp
qed

theorem mailbox_no_lost_command_witness:
  "\<exists>s. mailbox_reach Socketpair 2 s \<and> rpc s = Waiting \<and> sent s = [7 :: nat] \<and> got s = [7]"
  using mailbox_example [of 2 Socketpair "7 :: nat"] mailbox_no_lost_command [of Socketpair 2] by fastforce

end
