(* ===== verification/Msg.thy ===== *)
theory Msg
  imports Zmq_Prelude "HOL-Library.Multiset"
begin

unbundle bit_operations_syntax

text \<open>
  Messages: \<open>msg_t\<close> of \<^verbatim>\<open>src/msg.hpp\<close> and \<^verbatim>\<open>src/msg.cpp\<close>. A message handle is a value that the
  code copies freely; only a long message (\<open>type_lmsg\<close>) owns memory, a \<open>content_t\<close> block
  that several handles may share through a reference count. The content blocks live in
  an explicit heap. A call through a dangling or null content pointer is undefined
  behaviour and is the failure \<open>None\<close>.

  The invariant \<open>refs_ok h ms\<close> relates the heap to the multiset of all live handles: a
  block is allocated exactly while some handle points to it, and its reference count is
  the number of those handles. Every operation that creates, copies or closes a handle is
  shown to keep it.
\<close>

record content_t =
  content_data :: blob_t
  content_ffn :: "(nat \<times> nat) option"
  content_refcnt :: uint32

datatype msg_body =
    Vsm blob_t
  | Lmsg "addr option"
  | Delimiter
  | Cmsg blob_t
  | Invalid

record msg_t =
  msg_u :: msg_body
  msg_flags :: byte

record msg_heap =
  contents :: "addr \<Rightarrow> content_t option"
  msg_brk :: addr
  ffn_calls :: "(nat \<times> nat) list"

subsection \<open>Flags\<close>

definition flag_more :: byte where "flag_more = 1"
definition flag_command :: byte where "flag_command = 2"
definition flag_identity :: byte where "flag_identity = 64"
definition flag_shared :: byte where "flag_shared = 128"

definition msg_set_flags :: "byte \<Rightarrow> msg_t \<Rightarrow> msg_t" where
  "msg_set_flags fl m = m\<lparr>msg_flags := msg_flags m OR fl\<rparr>"

definition msg_reset_flags :: "byte \<Rightarrow> msg_t \<Rightarrow> msg_t" where
  "msg_reset_flags fl m = m\<lparr>msg_flags := msg_flags m AND NOT fl\<rparr>"

definition msg_more :: "msg_t \<Rightarrow> bool" where
  "msg_more m \<longleftrightarrow> msg_flags m AND flag_more \<noteq> 0"

definition msg_shared :: "msg_t \<Rightarrow> bool" where
  "msg_shared m \<longleftrightarrow> msg_flags m AND flag_shared \<noteq> 0"

definition msg_is_identity :: "msg_t \<Rightarrow> bool" where
  "msg_is_identity m \<longleftrightarrow> msg_flags m AND flag_identity = flag_identity"

definition msg_is_delimiter :: "msg_t \<Rightarrow> bool" where
  "msg_is_delimiter m \<longleftrightarrow> msg_u m = Delimiter"

definition msg_is_vsm :: "msg_t \<Rightarrow> bool" where
  "msg_is_vsm m \<longleftrightarrow> (case msg_u m of Vsm _ \<Rightarrow> True | _ \<Rightarrow> False)"

definition msg_is_cmsg :: "msg_t \<Rightarrow> bool" where
  "msg_is_cmsg m \<longleftrightarrow> (case msg_u m of Cmsg _ \<Rightarrow> True | _ \<Rightarrow> False)"

definition msg_check :: "msg_t \<Rightarrow> bool" where
  "msg_check m \<longleftrightarrow> msg_u m \<noteq> Invalid"

subsection \<open>The reference counter\<close>

text \<open>
  \<open>atomic_counter_t\<close>: \<open>add\<close> returns the old value, \<open>sub\<close> whether the counter is still not
  zero; the second component is the new value.
\<close>

definition counter_add :: "uint32 \<Rightarrow> uint32 \<Rightarrow> uint32 \<times> uint32" where
  "counter_add v n = (v, v + n)"

definition counter_sub :: "uint32 \<Rightarrow> uint32 \<Rightarrow> bool \<times> uint32" where
  "counter_sub v n = (v - n \<noteq> 0, v - n)"

subsection \<open>Initialisation\<close>

definition max_vsm_size :: nat where "max_vsm_size = 29"

definition msg_init :: msg_t where
  "msg_init = \<lparr>msg_u = Vsm [], msg_flags = 0\<rparr>"

definition msg_alloc :: "content_t \<Rightarrow> msg_heap \<Rightarrow> addr \<times> msg_heap" where
  "msg_alloc c h = (msg_brk h, h\<lparr>contents := (contents h)(msg_brk h \<mapsto> c), msg_brk := Suc (msg_brk h)\<rparr>)"

text \<open>
  \<open>oom\<close> says whether the call of \<open>malloc\<close> fails. The buffer of a new message is not
  initialised; the model fills it with zeros and no statement depends on that.

  The argument of \<open>malloc\<close> is the sum of two values of \<open>size_t\<close> and is not checked: when it wraps
  around, the block is smaller than the \<open>content_t\<close> that is written to it. \<open>sizeof_content\<close> is
  the size of that structure on a 64-bit platform.
\<close>

definition size_t_max :: nat where "size_t_max = 2 ^ 64 - 1"

definition sizeof_content :: nat where "sizeof_content = 40"

definition alloc_wraps :: "nat \<Rightarrow> bool" where
  "alloc_wraps n \<longleftrightarrow> unat (of_nat sizeof_content + of_nat n :: uint64) < sizeof_content"

definition msg_init_size :: "bool \<Rightarrow> nat \<Rightarrow> msg_heap \<Rightarrow> (errno_t option \<times> msg_t \<times> msg_heap) option" where
  "msg_init_size oom n h =
     (if n \<le> max_vsm_size then Some (None, \<lparr>msg_u = Vsm (replicate n 0), msg_flags = 0\<rparr>, h)
      else if oom then Some (Some ENOMEM, \<lparr>msg_u = Lmsg None, msg_flags = 0\<rparr>, h)
      else if alloc_wraps n then None
      else let (a, h') = msg_alloc \<lparr>content_data = replicate n 0, content_ffn = None,
                                    content_refcnt = 0\<rparr> h
           in Some (None, \<lparr>msg_u = Lmsg (Some a), msg_flags = 0\<rparr>, h'))"

definition msg_init_data ::
  "bool \<Rightarrow> blob_t \<Rightarrow> (nat \<times> nat) option \<Rightarrow> msg_heap \<Rightarrow> (errno_t option \<times> msg_t \<times> msg_heap)" where
  "msg_init_data oom d ffn h = (case ffn of
      None \<Rightarrow> (None, \<lparr>msg_u = Cmsg d, msg_flags = 0\<rparr>, h)
    | Some fn \<Rightarrow>
        if oom then (Some ENOMEM, \<lparr>msg_u = Lmsg None, msg_flags = 0\<rparr>, h)
        else let (a, h') = msg_alloc \<lparr>content_data = d, content_ffn = Some fn, content_refcnt = 0\<rparr> h
             in (None, \<lparr>msg_u = Lmsg (Some a), msg_flags = 0\<rparr>, h'))"

definition msg_init_delimiter :: msg_t where
  "msg_init_delimiter = \<lparr>msg_u = Delimiter, msg_flags = 0\<rparr>"

subsection \<open>Closing, moving, copying\<close>

text \<open>Deallocation: the user's free function is called, if there is one, then the block is freed.\<close>

definition content_free :: "addr \<Rightarrow> content_t \<Rightarrow> msg_heap \<Rightarrow> msg_heap" where
  "content_free a c h = h\<lparr>contents := (contents h)(a := None),
     ffn_calls := ffn_calls h @ (case content_ffn c of None \<Rightarrow> [] | Some fn \<Rightarrow> [fn])\<rparr>"

text \<open>
  \<open>close\<close>: the error number if the handle is not valid, otherwise the handle made invalid.
\<close>

definition msg_close :: "msg_t \<Rightarrow> msg_heap \<Rightarrow> (errno_t option \<times> msg_t \<times> msg_heap) option" where
  "msg_close m h =
     (if \<not> msg_check m then Some (Some EFAULT, m, h)
      else do {
        h' \<leftarrow> (case msg_u m of
             Lmsg p \<Rightarrow> do {
               a \<leftarrow> p;
               c \<leftarrow> contents h a;
               if \<not> msg_shared m then Some (content_free a c h)
               else let (alive, v) = counter_sub (content_refcnt c) 1; c = c\<lparr>content_refcnt := v\<rparr>
                    in Some (if alive then h\<lparr>contents := (contents h)(a \<mapsto> c)\<rparr> else content_free a c h)
             }
           | _ \<Rightarrow> Some h);
        Some (None, m\<lparr>msg_u := Invalid\<rparr>, h')
      })"

text \<open>\<open>msg_move dst src h\<close> is \<open>dst.move (src)\<close>; it returns the new \<open>dst\<close> and \<open>src\<close>.\<close>

definition msg_move ::
  "msg_t \<Rightarrow> msg_t \<Rightarrow> msg_heap \<Rightarrow> (errno_t option \<times> msg_t \<times> msg_t \<times> msg_heap) option" where
  "msg_move dst src h =
     (if \<not> msg_check src then Some (Some EFAULT, dst, src, h)
      else do {
        (rc, dst', h') \<leftarrow> msg_close dst h;
        Some (if rc \<noteq> None then (rc, dst', src, h') else (None, src, msg_init, h'))
      })"

definition msg_copy ::
  "msg_t \<Rightarrow> msg_t \<Rightarrow> msg_heap \<Rightarrow> (errno_t option \<times> msg_t \<times> msg_t \<times> msg_heap) option" where
  "msg_copy dst src h =
     (if \<not> msg_check src then Some (Some EFAULT, dst, src, h)
      else do {
        (rc, dst', h1) \<leftarrow> msg_close dst h;
        if rc \<noteq> None then Some (rc, dst', src, h1)
        else (case msg_u src of
            Lmsg p \<Rightarrow> do {
              a \<leftarrow> p;
              c \<leftarrow> contents h1 a;
              if msg_shared src
              then Some (None, src, src, h1\<lparr>contents := (contents h1)(a \<mapsto>
                     c\<lparr>content_refcnt := snd (counter_add (content_refcnt c) 1)\<rparr>)\<rparr>)
              else let src' = msg_set_flags flag_shared src
                   in Some (None, src', src', h1\<lparr>contents := (contents h1)(a \<mapsto>
                        c\<lparr>content_refcnt := 2\<rparr>)\<rparr>)
            }
          | _ \<Rightarrow> Some (None, src, src, h1))
      })"

definition msg_data :: "msg_t \<Rightarrow> msg_heap \<Rightarrow> blob_t option" where
  "msg_data m h = (case msg_u m of
      Vsm d \<Rightarrow> Some d
    | Lmsg p \<Rightarrow> do { a \<leftarrow> p; c \<leftarrow> contents h a; Some (content_data c) }
    | Cmsg d \<Rightarrow> Some d
    | _ \<Rightarrow> None)"

definition msg_size :: "msg_t \<Rightarrow> msg_heap \<Rightarrow> nat option" where
  "msg_size m h = map_option length (msg_data m h)"

subsection \<open>References in bulk\<close>

definition msg_add_refs :: "nat \<Rightarrow> msg_t \<Rightarrow> msg_heap \<Rightarrow> (msg_t \<times> msg_heap) option" where
  "msg_add_refs n m h =
     (if n = 0 then Some (m, h)
      else (case msg_u m of
          Lmsg p \<Rightarrow> do {
            a \<leftarrow> p;
            c \<leftarrow> contents h a;
            if msg_shared m
            then Some (m, h\<lparr>contents := (contents h)(a \<mapsto>
                   c\<lparr>content_refcnt := snd (counter_add (content_refcnt c) (of_nat n))\<rparr>)\<rparr>)
            else Some (msg_set_flags flag_shared m,
                   h\<lparr>contents := (contents h)(a \<mapsto> c\<lparr>content_refcnt := of_nat (n + 1)\<rparr>)\<rparr>)
          }
        | _ \<Rightarrow> Some (m, h)))"

definition msg_rm_refs :: "nat \<Rightarrow> msg_t \<Rightarrow> msg_heap \<Rightarrow> (bool \<times> msg_t \<times> msg_heap) option" where
  "msg_rm_refs n m h =
     (if n = 0 then Some (True, m, h)
      else (case msg_u m of
          Lmsg p \<Rightarrow>
            if \<not> msg_shared m then do { (_, m', h') \<leftarrow> msg_close m h; Some (False, m', h') }
            else do {
              a \<leftarrow> p;
              c \<leftarrow> contents h a;
              let (alive, v) = counter_sub (content_refcnt c) (of_nat n);
              let c = c\<lparr>content_refcnt := v\<rparr>;
              Some (if alive then (True, m, h\<lparr>contents := (contents h)(a \<mapsto> c)\<rparr>)
                    else (False, m, content_free a c h))
            }
        | _ \<Rightarrow> do { (_, m', h') \<leftarrow> msg_close m h; Some (False, m', h') }))"

subsection \<open>Every handle is counted\<close>

definition points_to :: "addr \<Rightarrow> msg_t \<Rightarrow> bool" where
  "points_to a m \<longleftrightarrow> msg_u m = Lmsg (Some a)"

definition nrefs :: "addr \<Rightarrow> msg_t multiset \<Rightarrow> nat" where
  "nrefs a ms = size (filter_mset (points_to a) ms)"

definition counted :: "content_t \<Rightarrow> addr \<Rightarrow> msg_t multiset \<Rightarrow> bool" where
  "counted c a ms \<longleftrightarrow> 0 < nrefs a ms \<and>
     (\<forall>m \<in># ms. points_to a m \<longrightarrow>
        (if msg_shared m then unat (content_refcnt c) = nrefs a ms else nrefs a ms = 1))"

definition refs_ok :: "msg_heap \<Rightarrow> msg_t multiset \<Rightarrow> bool" where
  "refs_ok h ms \<longleftrightarrow>
     (\<forall>a. contents h a = None \<longrightarrow> nrefs a ms = 0) \<and>
     (\<forall>a c. contents h a = Some c \<longrightarrow> a < msg_brk h \<and> counted c a ms) \<and>
     (\<forall>m \<in># ms. msg_u m \<noteq> Lmsg None)"

lemma msg_data_cong:
  assumes "\<And>a. msg_u m = Lmsg (Some a) \<Longrightarrow>
    map_option content_data (contents h' a) = map_option content_data (contents h a)"
  shows "msg_data m h' = msg_data m h"
proof (cases "\<exists>a. msg_u m = Lmsg (Some a)")
  case True
  then obtain a where a: "msg_u m = Lmsg (Some a)" by blast
  with assms [OF a] show ?thesis
    by (cases "contents h a"; cases "contents h' a") (auto simp: msg_data_def)
next
  case False
  then show ?thesis
    by (cases "msg_u m") (auto simp: msg_data_def)
qed

lemma nrefs_simps [simp]:
  "nrefs a {#} = 0"
  "nrefs a (add_mset m ms) = (if points_to a m then Suc (nrefs a ms) else nrefs a ms)"
  "nrefs a (ms + ns) = nrefs a ms + nrefs a ns"
  by (simp_all add: nrefs_def)

lemma nrefs_replicate [simp]:
  "nrefs a (replicate_mset n m) = (if points_to a m then n else 0)"
  by (induction n) auto

lemma nrefs_0_iff: "nrefs a ms = 0 \<longleftrightarrow> (\<forall>m \<in># ms. \<not> points_to a m)"
  by (auto simp: nrefs_def filter_mset_eq_mempty_iff)

lemma points_to_simps [simp]:
  "points_to a \<lparr>msg_u = Vsm d, msg_flags = f\<rparr> \<longleftrightarrow> False"
  "points_to a \<lparr>msg_u = Cmsg d, msg_flags = f\<rparr> \<longleftrightarrow> False"
  "points_to a \<lparr>msg_u = Delimiter, msg_flags = f\<rparr> \<longleftrightarrow> False"
  "points_to a \<lparr>msg_u = Lmsg p, msg_flags = f\<rparr> \<longleftrightarrow> p = Some a"
  "points_to a (m\<lparr>msg_u := Invalid\<rparr>) \<longleftrightarrow> False"
  "points_to a (m\<lparr>msg_flags := f\<rparr>) = points_to a m"
  by (auto simp: points_to_def)

lemma msg_shared_set [simp]: "msg_shared (msg_set_flags flag_shared m)"
  by (simp add: msg_shared_def msg_set_flags_def flag_shared_def bit.conj_disj_distrib2)

lemma msg_set_flags_u [simp]: "msg_u (msg_set_flags f m) = msg_u m"
  by (simp add: msg_set_flags_def)

lemma points_to_set_flags [simp]: "points_to a (msg_set_flags f m) = points_to a m"
  by (simp add: points_to_def)

lemma msg_shared_new [simp]: "\<not> msg_shared \<lparr>msg_u = u, msg_flags = 0\<rparr>"
  by (simp add: msg_shared_def)

text \<open>A handle that points nowhere can be added or removed freely.\<close>

lemma refs_ok_none:
  assumes "\<And>a. \<not> points_to a m" and "msg_u m \<noteq> Lmsg None"
  shows "refs_ok h (add_mset m ms) \<longleftrightarrow> refs_ok h ms"
  using assms by (simp add: refs_ok_def counted_def)

lemma refs_ok_content:
  assumes "refs_ok h (add_mset m ms)" and "msg_u m = Lmsg p"
  obtains a c where "p = Some a" "points_to a m" "contents h a = Some c" "a < msg_brk h"
    "counted c a (add_mset m ms)"
proof -
  obtain a where a: "p = Some a" using assms by (cases p) (auto simp: refs_ok_def)
  then have pt: "points_to a m" using assms(2) by (simp add: points_to_def)
  then have "contents h a \<noteq> None"
    using assms(1) by (auto simp: refs_ok_def dest!: spec [of _ a])
  then obtain c where "contents h a = Some c" by blast
  moreover from this assms(1) have "a < msg_brk h" "counted c a (add_mset m ms)"
    by (auto simp: refs_ok_def dest!: spec [of _ a])
  ultimately show thesis using that a pt by blast
qed

text \<open>Replacing the block of one address leaves all others alone.\<close>

lemma refs_ok_update:
  assumes ok: "refs_ok h ms"
    and other: "\<And>b. b \<noteq> a \<Longrightarrow> nrefs b ns = nrefs b ms \<and> (\<forall>m \<in># ns. points_to b m \<longrightarrow> m \<in># ms)"
    and none: "oc = None \<Longrightarrow> nrefs a ns = 0"
    and some: "\<And>c. oc = Some c \<Longrightarrow> a < msg_brk h \<and> counted c a ns"
    and ns: "\<forall>m \<in># ns. msg_u m \<noteq> Lmsg None"
  shows "refs_ok (h\<lparr>contents := (contents h)(a := oc)\<rparr>) ns"
proof -
  have "nrefs b ns = 0" if "b \<noteq> a" "contents h b = None" for b
    using ok other [OF that(1)] that by (simp add: refs_ok_def)
  moreover have "b < msg_brk h \<and> counted c b ns" if "b \<noteq> a" "contents h b = Some c" for b c
  proof -
    have "b < msg_brk h" "counted c b ms" using ok that by (auto simp: refs_ok_def)
    with other [OF that(1)] show ?thesis by (fastforce simp: counted_def)
  qed
  ultimately show ?thesis using none some ns by (auto simp: refs_ok_def)
qed

lemma refs_ok_ffn [simp]: "refs_ok (h\<lparr>ffn_calls := l\<rparr>) ms = refs_ok h ms"
  by (simp add: refs_ok_def)

lemma content_free_refs:
  assumes "refs_ok h (add_mset m ms)" and "points_to a m" and "nrefs a ms = 0"
  shows "refs_ok (content_free a c h) ms"
proof -
  have "refs_ok (h\<lparr>contents := (contents h)(a := None)\<rparr>) ms"
    by (rule refs_ok_update [OF assms(1)]) (use assms in \<open>auto simp: refs_ok_def points_to_def\<close>)
  then show ?thesis by (simp add: content_free_def refs_ok_def)
qed

lemma counted_drop:
  assumes "counted c a (add_mset m ms)" and "points_to a m" and "msg_shared m" and "nrefs a ms \<noteq> 0"
  shows "counted (c\<lparr>content_refcnt := content_refcnt c - 1\<rparr>) a ms"
proof -
  have "unat (content_refcnt c) = Suc (nrefs a ms)" using assms by (auto simp: counted_def)
  then have "unat (content_refcnt c - 1) = nrefs a ms"
    by (metis diff_Suc_1 nat.distinct(1) unat_0 unat_minus_one)
  moreover have "msg_shared x" if "x \<in># ms" "points_to a x" for x
    using that assms by (auto simp: counted_def split: if_splits)
  ultimately show ?thesis using assms(4) by (simp add: counted_def)
qed

text \<open>
  Closing never fails on a counted handle; the block goes with its last handle and the
  other handles stay counted.
\<close>

lemma msg_close_refs:
  assumes ok: "refs_ok h (add_mset m ms)" and chk: "msg_check m"
  shows "\<exists>h'. msg_close m h = Some (None, m\<lparr>msg_u := Invalid\<rparr>, h') \<and> refs_ok h' ms \<and>
    (\<forall>x \<in># ms. msg_data x h' = msg_data x h)"
proof (cases "\<exists>p. msg_u m = Lmsg p")
  case False
  then have "refs_ok h ms"
    using ok refs_ok_none [of m h ms] by (auto simp: points_to_def)
  moreover have "msg_close m h = Some (None, m\<lparr>msg_u := Invalid\<rparr>, h)"
    using False chk by (cases "msg_u m") (auto simp: msg_close_def)
  ultimately show ?thesis by blast
next
  case True
  then obtain p where p: "msg_u m = Lmsg p" by blast
  obtain a c where a: "p = Some a" "points_to a m" "contents h a = Some c"
    "a < msg_brk h" "counted c a (add_mset m ms)" using refs_ok_content [OF ok p] .
  let ?c = "c\<lparr>content_refcnt := content_refcnt c - 1\<rparr>"
  show ?thesis
  proof (cases "nrefs a ms = 0")
    case True
    then have "msg_shared m \<Longrightarrow> content_refcnt c = 1"
      using a by (auto simp: counted_def word_unat_eq_iff)
    then have "\<exists>c'. msg_close m h = Some (None, m\<lparr>msg_u := Invalid\<rparr>, content_free a c' h)"
      using chk p a by (auto simp: msg_close_def counter_sub_def)
    moreover have "\<forall>x \<in># ms. msg_data x (content_free a c' h) = msg_data x h" for c'
      using True by (auto simp: nrefs_0_iff points_to_def content_free_def
          intro!: msg_data_cong)
    ultimately show ?thesis using content_free_refs [OF ok a(2) True] by blast
  next
    case False
    then have sh: "msg_shared m" and rc: "unat (content_refcnt c) = Suc (nrefs a ms)"
      using a by (auto simp: counted_def split: if_splits)
    then have "content_refcnt c \<noteq> 1" using False by auto
    then have "msg_close m h = Some (None, m\<lparr>msg_u := Invalid\<rparr>, h\<lparr>contents := (contents h)(a \<mapsto> ?c)\<rparr>)"
      using chk p a sh by (simp add: msg_close_def counter_sub_def)
    moreover have "refs_ok (h\<lparr>contents := (contents h)(a \<mapsto> ?c)\<rparr>) ms"
      using a(2,4) counted_drop [OF a(5,2) sh False] ok
      by (intro refs_ok_update [OF ok]) (auto simp: refs_ok_def points_to_def)
    moreover have "msg_data x (h\<lparr>contents := (contents h)(a \<mapsto> ?c)\<rparr>) = msg_data x h" for x
      using a(3) by (intro msg_data_cong) auto
    ultimately show ?thesis by blast
  qed
qed

text \<open>Adding \<open>n\<close> references makes the handle worth \<open>n + 1\<close> copies of itself.\<close>

lemma msg_add_refs_refs:
  assumes ok: "refs_ok h (add_mset m ms)"
    and room: "\<And>a. points_to a m \<Longrightarrow> Suc (nrefs a ms + n) < 2 ^ 32"
  shows "\<exists>m' h'. msg_add_refs n m h = Some (m', h') \<and> refs_ok h' (replicate_mset (Suc n) m' + ms) \<and>
    msg_u m' = msg_u m \<and> (\<forall>x. msg_data x h' = msg_data x h)"
proof (cases "n = 0 \<or> (\<forall>p. msg_u m \<noteq> Lmsg p)")
  case True
  have "refs_ok h (replicate_mset (Suc n) m + ms)"
  proof (cases "n = 0")
    case False
    then have np: "\<And>a. \<not> points_to a m" and "msg_u m \<noteq> Lmsg None" using True by (auto simp: points_to_def)
    then show ?thesis using ok by (induction n) (auto simp: refs_ok_none)
  qed (use ok in simp)
  moreover have "msg_add_refs n m h = Some (m, h)"
    using True by (cases "msg_u m") (auto simp: msg_add_refs_def)
  ultimately show ?thesis by blast
next
  case False
  then obtain p where p: "msg_u m = Lmsg p" and n: "n \<noteq> 0" by blast
  obtain a c where a: "p = Some a" "points_to a m" "contents h a = Some c"
    "a < msg_brk h" "counted c a (add_mset m ms)" using refs_ok_content [OF ok p] .
  define m' where "m' = (if msg_shared m then m else msg_set_flags flag_shared m)"
  define c' where "c' = c\<lparr>content_refcnt :=
      (if msg_shared m then content_refcnt c + of_nat n else of_nat (n + 1))\<rparr>"
  let ?h = "h\<lparr>contents := (contents h)(a \<mapsto> c')\<rparr>"
  have m': "msg_shared m'" "msg_u m' = msg_u m" "\<And>b. points_to b m' = points_to b m"
    by (auto simp: m'_def)
  have rest: "msg_shared m" if "nrefs a ms \<noteq> 0" using that a by (auto simp: counted_def split: if_splits)
  have rc: "unat (content_refcnt c') = Suc (nrefs a ms + n)"
  proof (cases "msg_shared m")
    case True
    then have "unat (content_refcnt c) = Suc (nrefs a ms)" using a by (simp add: counted_def)
    then have "content_refcnt c = of_nat (Suc (nrefs a ms))" by (metis of_nat_unat ucast_id)
    then have "content_refcnt c' = of_nat (Suc (nrefs a ms + n))" using True by (simp add: c'_def)
    then show ?thesis using room [OF a(2)] by (simp only: unat_of_nat) simp
  next
    case False
    then have "nrefs a ms = 0" using rest by auto
    then show ?thesis using room [OF a(2)] False by (simp add: c'_def unat_of_nat del: of_nat_Suc of_nat_add)
  qed
  have "\<forall>x \<in># ms. points_to a x \<longrightarrow> msg_shared x"
    using a by (auto simp: counted_def nrefs_0_iff split: if_splits)
  then have "counted c' a (replicate_mset (Suc n) m' + ms)"
    using m' a(2) rc by (auto simp: counted_def)
  then have "refs_ok ?h (replicate_mset (Suc n) m' + ms)"
    using a(2,4) m' ok
    by (intro refs_ok_update [OF ok]) (auto simp: refs_ok_def points_to_def)
  moreover have "msg_add_refs n m h = Some (m', ?h)"
    using p a n by (simp add: msg_add_refs_def m'_def c'_def counter_add_def)
  moreover have "msg_data x ?h = msg_data x h" for x
    using a(3) by (intro msg_data_cong) (auto simp: c'_def)
  ultimately show ?thesis using m'(2) by blast
qed

text \<open>Copying is closing the destination and adding one reference to the source.\<close>

lemma msg_copy_add_refs:
  assumes "msg_check src"
  shows "msg_copy dst src h = do {
     (rc, dst', h1) \<leftarrow> msg_close dst h;
     if rc \<noteq> None then Some (rc, dst', src, h1)
     else do { (m', h2) \<leftarrow> msg_add_refs 1 src h1; Some (None, m', m', h2) } }"
  using assms by (cases "msg_u src")
    (auto simp: msg_copy_def msg_add_refs_def counter_add_def Let_def split: Option.bind_splits)

lemma msg_copy_refs:
  assumes ok: "refs_ok h (add_mset dst (add_mset src ms))" and chk: "msg_check dst" "msg_check src"
    and room: "\<And>a. points_to a src \<Longrightarrow> Suc (Suc (nrefs a ms)) < 2 ^ 32"
  shows "\<exists>m' h'. msg_copy dst src h = Some (None, m', m', h') \<and> refs_ok h' (add_mset m' (add_mset m' ms)) \<and>
    msg_data m' h' = msg_data src h"
proof -
  obtain h1 where h1: "msg_close dst h = Some (None, dst\<lparr>msg_u := Invalid\<rparr>, h1)"
    "refs_ok h1 (add_mset src ms)" "msg_data src h1 = msg_data src h"
    using msg_close_refs [OF ok chk(1)] by auto
  obtain m' h' where m': "msg_add_refs 1 src h1 = Some (m', h')"
    "refs_ok h' (replicate_mset (Suc 1) m' + ms)" "msg_u m' = msg_u src"
    "\<And>x. msg_data x h' = msg_data x h1"
    using msg_add_refs_refs [OF h1(2), of 1] room by auto
  have "msg_copy dst src h = Some (None, m', m', h')"
    using msg_copy_add_refs [OF chk(2)] h1(1) m'(1) by simp
  moreover have "msg_data m' h' = msg_data src h"
    using m'(3,4) h1(3) by (simp add: msg_data_def)
  ultimately show ?thesis using m'(2) by (auto simp: numeral_2_eq_2)
qed

lemma msg_move_refs:
  assumes ok: "refs_ok h (add_mset dst (add_mset src ms))" and chk: "msg_check dst" "msg_check src"
  shows "\<exists>h'. msg_move dst src h = Some (None, src, msg_init, h') \<and>
    refs_ok h' (add_mset src (add_mset msg_init ms)) \<and> msg_data src h' = msg_data src h"
proof -
  obtain h1 where h1: "msg_close dst h = Some (None, dst\<lparr>msg_u := Invalid\<rparr>, h1)"
    "refs_ok h1 (add_mset src ms)" "msg_data src h1 = msg_data src h"
    using msg_close_refs [OF ok chk(1)] by auto
  have "refs_ok h1 (add_mset msg_init (add_mset src ms))"
    using h1(2) by (subst refs_ok_none) (auto simp: msg_init_def)
  then show ?thesis using h1 chk by (simp add: msg_move_def add_mset_commute)
qed

lemma alloc_wraps_iff: "n \<le> size_t_max \<Longrightarrow> alloc_wraps n \<longleftrightarrow> size_t_max < sizeof_content + n"
proof -
  assume n: "n \<le> size_t_max"
  have "unat (of_nat sizeof_content + of_nat n :: uint64) = (sizeof_content + n) mod 2 ^ 64"
    unfolding of_nat_add [symmetric] unat_of_nat by (simp add: take_bit_eq_mod)
  also have "\<dots> = (if sizeof_content + n < 2 ^ 64 then sizeof_content + n else sizeof_content + n - 2 ^ 64)"
    using n by (auto simp: size_t_max_def sizeof_content_def mod_if)
  finally show ?thesis using n by (auto simp: alloc_wraps_def size_t_max_def sizeof_content_def split: if_splits)
qed

lemma msg_init_size_refs:
  assumes "refs_ok h ms" and "msg_init_size False n h = Some (rc, m, h')"
  shows "rc = None \<and> refs_ok h' (add_mset m ms) \<and> msg_size m h' = Some n"
proof (cases "n \<le> max_vsm_size")
  case True
  then show ?thesis
    using assms by (auto simp: msg_init_size_def refs_ok_none msg_size_def msg_data_def)
next
  case False
  let ?c = "\<lparr>content_data = replicate n 0, content_ffn = None, content_refcnt = 0\<rparr>"
  have fresh: "contents h (msg_brk h) = None"
    using assms(1) by (cases "contents h (msg_brk h)") (auto simp: refs_ok_def)
  then have 0: "nrefs (msg_brk h) ms = 0" using assms(1) by (simp add: refs_ok_def)
  have m: "m = \<lparr>msg_u = Lmsg (Some (msg_brk h)), msg_flags = 0\<rparr>" and rc: "rc = None"
    and h': "h' = h\<lparr>contents := (contents h)(msg_brk h \<mapsto> ?c), msg_brk := Suc (msg_brk h)\<rparr>"
    using assms(2) False by (auto simp: msg_init_size_def msg_alloc_def split: if_splits)
  have "refs_ok (h\<lparr>msg_brk := Suc (msg_brk h)\<rparr>) ms"
    using assms(1) by (auto simp: refs_ok_def less_Suc_eq)
  then have "refs_ok ((h\<lparr>msg_brk := Suc (msg_brk h)\<rparr>)\<lparr>contents :=
      (contents (h\<lparr>msg_brk := Suc (msg_brk h)\<rparr>))(msg_brk h := Some ?c)\<rparr>) (add_mset m ms)"
    by (rule refs_ok_update) (use 0 assms(1) in \<open>auto simp: m counted_def nrefs_0_iff refs_ok_def\<close>)
  then have "refs_ok h' (add_mset m ms)" by (simp add: h' refs_ok_def)
  then show ?thesis using rc by (simp add: m h' msg_size_def msg_data_def)
qed

lemma of_nat_eq_zero_bounded:
  assumes "unat (of_nat k :: uint32) = k"
  shows "of_nat k = (0 :: uint32) \<longleftrightarrow> k = 0"
proof
  assume "of_nat k = (0 :: uint32)"
  then have "unat (of_nat k :: uint32) = 0" by simp
  with assms show "k = 0" by simp
qed simp

lemma refs_ok_content_free:
  "refs_ok (content_free a c h) ms = refs_ok (h\<lparr>contents := (contents h)(a := None)\<rparr>) ms"
  by (simp add: content_free_def refs_ok_def)

text \<open>
  Dropping \<open>n\<close> of the copies made after \<open>add_refs\<close>. The result says whether some handle is
  left; the block is freed exactly when none is.
\<close>

lemma msg_rm_refs_shared:
  assumes ok: "refs_ok h (replicate_mset n m + ms)" and n: "n \<noteq> 0"
    and m: "msg_u m = Lmsg p" "msg_shared m"
  shows "\<exists>a h'. p = Some a \<and> msg_rm_refs n m h = Some (nrefs a ms \<noteq> 0, m, h') \<and> refs_ok h' ms"
proof -
  obtain k where k: "n = Suc k" using n by (cases n) auto
  have ok1: "refs_ok h (add_mset m (replicate_mset k m + ms))" using ok k by simp
  obtain a c where a: "p = Some a" "points_to a m" "contents h a = Some c" "a < msg_brk h"
    "counted c a (add_mset m (replicate_mset k m + ms))" using refs_ok_content [OF ok1 m(1)] .
  have rc: "unat (content_refcnt c) = n + nrefs a ms" using a m k by (auto simp: counted_def)
  then have "content_refcnt c = of_nat n + of_nat (nrefs a ms)"
    by (metis of_nat_add of_nat_unat ucast_id)
  then have sub: "content_refcnt c - of_nat n = of_nat (nrefs a ms)" by simp
  let ?c = "c\<lparr>content_refcnt := of_nat (nrefs a ms)\<rparr>"
  have bound: "unat (of_nat (nrefs a ms) :: uint32) = nrefs a ms"
    using rc unsigned_less [of "content_refcnt c", where 'a = nat] by (simp add: unat_of_nat)
  note alive = of_nat_eq_zero_bounded [OF bound]
  have other: "\<And>b. b \<noteq> a \<Longrightarrow> \<not> points_to b m" using a(2) by (auto simp: points_to_def)
  have upd: "refs_ok (h\<lparr>contents := (contents h)(a := (if nrefs a ms = 0 then None else Some ?c))\<rparr>) ms"
    using a(4,5) ok other bound m(2)
    by (intro refs_ok_update [OF ok]) (auto simp: refs_ok_def counted_def split: if_splits)
  show ?thesis
  proof (cases "nrefs a ms = 0")
    case True
    then have "msg_rm_refs n m h = Some (False, m, content_free a ?c h)"
      using m a(1,3) n sub by (simp add: msg_rm_refs_def counter_sub_def Let_def)
    then show ?thesis using True upd a(1) by (auto simp: refs_ok_content_free)
  next
    case False
    then have "msg_rm_refs n m h = Some (True, m, h\<lparr>contents := (contents h)(a \<mapsto> ?c)\<rparr>)"
      using m a(1,3) n alive sub by (auto simp: msg_rm_refs_def counter_sub_def Let_def)
    then show ?thesis using False upd a(1) by auto
  qed
qed

lemma msg_rm_refs_unshared:
  assumes ok: "refs_ok h (replicate_mset n m + ms)" and n: "n \<noteq> 0" and chk: "msg_check m"
    and m: "\<not> (\<exists>p. msg_u m = Lmsg p \<and> msg_shared m)"
  shows "\<exists>m' h'. msg_rm_refs n m h = Some (False, m', h') \<and> refs_ok h' ms \<and>
    (\<forall>a. points_to a m \<longrightarrow> nrefs a ms = 0)"
proof -
  obtain k where k: "n = Suc k" using n by (cases n) auto
  have ok1: "refs_ok h (add_mset m (replicate_mset k m + ms))" using ok k by simp
  have one: "refs_ok h (add_mset m ms) \<and> (\<forall>a. points_to a m \<longrightarrow> nrefs a ms = 0)"
  proof (cases "\<exists>p. msg_u m = Lmsg p")
    case True
    then obtain p where p: "msg_u m = Lmsg p" by blast
    obtain a c where a: "p = Some a" "points_to a m" "counted c a (add_mset m (replicate_mset k m + ms))"
      using refs_ok_content [OF ok1 p] by metis
    then have "k + nrefs a ms = 0" using m p by (auto simp: counted_def split: if_splits)
    then show ?thesis using ok1 p a(1) by (auto simp: points_to_def)
  next
    case False
    then have np: "\<And>a. \<not> points_to a m" "msg_u m \<noteq> Lmsg None" by (auto simp: points_to_def)
    have "refs_ok h (add_mset m ms)"
      using ok k np by (induction k arbitrary: n) (auto simp: refs_ok_none)
    with np show ?thesis by blast
  qed
  then obtain h' where "msg_close m h = Some (None, m\<lparr>msg_u := Invalid\<rparr>, h')" "refs_ok h' ms"
    using msg_close_refs [OF _ chk] by blast
  moreover from this have "msg_rm_refs n m h = Some (False, m\<lparr>msg_u := Invalid\<rparr>, h')"
    using m n by (cases "msg_u m") (auto simp: msg_rm_refs_def)
  ultimately show ?thesis using one by auto
qed

lemma msg_rm_refs_refs:
  assumes ok: "refs_ok h (replicate_mset n m + ms)" and n: "n \<noteq> 0" and chk: "msg_check m"
  shows "\<exists>r m' h'. msg_rm_refs n m h = Some (r, m', h') \<and> refs_ok h' ms \<and>
    (\<forall>a. points_to a m \<longrightarrow> (r \<longleftrightarrow> nrefs a ms \<noteq> 0))"
proof (cases "\<exists>p. msg_u m = Lmsg p \<and> msg_shared m")
  case True
  then obtain p where p: "msg_u m = Lmsg p" "msg_shared m" by blast
  then show ?thesis using msg_rm_refs_shared [OF ok n p] by (auto simp: points_to_def)
next
  case False
  then show ?thesis using msg_rm_refs_unshared [OF ok n chk False] by auto
qed

subsection \<open>Properties of messages\<close>

lemma refs_ok_empty [simp]: "refs_ok \<lparr>contents = Map.empty, msg_brk = n, ffn_calls = l\<rparr> {#}"
  by (simp add: refs_ok_def)

text \<open>A heap with one long message of 40 bytes, used to exercise the statements below.\<close>

definition example_msg :: msg_t where
  "example_msg = \<lparr>msg_u = Lmsg (Some 0), msg_flags = 0\<rparr>"

definition example_heap :: msg_heap where
  "example_heap = \<lparr>contents = [0 \<mapsto> \<lparr>content_data = replicate 40 0, content_ffn = Some (3, 4),
     content_refcnt = 0\<rparr>], msg_brk = 1, ffn_calls = []\<rparr>"

lemma example_refs: "refs_ok example_heap {#example_msg#}" "refs_ok example_heap {#msg_init, example_msg#}"
  by (auto simp: refs_ok_def example_heap_def example_msg_def counted_def msg_init_def points_to_def)

lemma replicate_mset_add: "replicate_mset (j + k) m = replicate_mset j m + replicate_mset k m"
  by (induction j) auto

text \<open>
  C5: closing a message whose handle is accounted for succeeds, keeps the data of every other
  message, and frees the content block exactly when this was the last handle of it, calling the
  user's free function once; the other handles stay accounted for.
\<close>

theorem msg_close_frees_last:
  assumes "refs_ok h (add_mset m ms)" and "msg_check m"
  shows "\<exists>h'. msg_close m h = Some (None, m\<lparr>msg_u := Invalid\<rparr>, h') \<and> refs_ok h' ms \<and>
    (\<forall>x \<in># ms. msg_data x h' = msg_data x h) \<and>
    (\<forall>a c. points_to a m \<longrightarrow> contents h a = Some c \<longrightarrow>
       (contents h' a = None \<longleftrightarrow> nrefs a ms = 0) \<and>
       ffn_calls h' = ffn_calls h @ (if nrefs a ms = 0 then case_option [] (\<lambda>fn. [fn]) (content_ffn c) else []))"
proof -
  obtain h' where h': "msg_close m h = Some (None, m\<lparr>msg_u := Invalid\<rparr>, h')" "refs_ok h' ms"
    "\<forall>x \<in># ms. msg_data x h' = msg_data x h" using msg_close_refs [OF assms] by blast
  have "(contents h' a = None \<longleftrightarrow> nrefs a ms = 0) \<and>
      ffn_calls h' = ffn_calls h @ (if nrefs a ms = 0 then case_option [] (\<lambda>fn. [fn]) (content_ffn c) else [])"
    if "points_to a m" "contents h a = Some c" for a c
  proof -
    have nr: "contents h' a = None \<longleftrightarrow> nrefs a ms = 0"
      using h'(2) by (cases "contents h' a") (auto simp: refs_ok_def counted_def)
    have "contents h' a = None \<Longrightarrow> ffn_calls h' = ffn_calls h @ case_option [] (\<lambda>fn. [fn]) (content_ffn c)"
      using that h'(1) assms(2) by (auto simp: msg_close_def points_to_def content_free_def counter_sub_def Let_def
          split: if_splits option.splits)
    moreover have "contents h' a \<noteq> None \<Longrightarrow> ffn_calls h' = ffn_calls h"
      using that h'(1) assms(2) by (auto simp: msg_close_def points_to_def content_free_def counter_sub_def Let_def
          split: if_splits)
    ultimately show ?thesis using nr by auto
  qed
  with h' show ?thesis by blast
qed

theorem msg_close_frees_last_witness:
  "\<exists>h'. msg_close example_msg example_heap = Some (None, example_msg\<lparr>msg_u := Invalid\<rparr>, h') \<and>
     contents h' 0 = None \<and> ffn_calls h' = [(3, 4)]"
  using msg_close_frees_last [OF example_refs(1)]
  by (auto simp: example_msg_def example_heap_def msg_check_def points_to_def)

text \<open>
  \<open>copy\<close> closes the destination and makes both handles refer to the same data, counted
  twice: after it, two handles with the data of the source are accounted for.
\<close>

theorem msg_copy_shares:
  assumes "refs_ok h (add_mset dst (add_mset src ms))" and "msg_check dst" and "msg_check src"
    and "\<forall>a. points_to a src \<longrightarrow> Suc (Suc (nrefs a ms)) < 2 ^ 32"
  shows "\<exists>m' h'. msg_copy dst src h = Some (None, m', m', h') \<and> msg_u m' = msg_u src \<and>
    refs_ok h' (add_mset m' (add_mset m' ms)) \<and> msg_data m' h' = msg_data src h"
proof -
  obtain m' h' where "msg_copy dst src h = Some (None, m', m', h')"
    "refs_ok h' (add_mset m' (add_mset m' ms))" "msg_data m' h' = msg_data src h"
    using msg_copy_refs [OF assms(1-3)] assms(4) by blast
  moreover from this(1) assms(3) have "msg_u m' = msg_u src"
    by (auto simp: msg_copy_def Let_def split: Option.bind_splits msg_body.splits if_splits)
  ultimately show ?thesis by blast
qed

theorem msg_copy_shares_witness:
  "\<exists>m' h'. msg_copy msg_init example_msg example_heap = Some (None, m', m', h') \<and>
     refs_ok h' {#m', m'#} \<and> msg_data m' h' = Some (replicate 40 0)"
  using msg_copy_shares [OF example_refs(2)]
  by (auto simp: example_msg_def example_heap_def msg_check_def msg_init_def msg_data_def)

text \<open>
  \<open>add_refs n\<close> makes room for \<open>n\<close> further copies of a handle, which is how one message is
  distributed to many pipes without copying its data; \<open>rm_refs k\<close> on such a handle takes \<open>k\<close> of
  them back, reports whether a handle is left, and frees the block exactly when none is.
\<close>

theorem msg_refs_roundtrip:
  assumes "refs_ok h (add_mset m ms)" and "msg_check m" and "0 < k" and "k \<le> Suc n"
    and "\<forall>a. points_to a m \<longrightarrow> Suc (nrefs a ms + n) < 2 ^ 32"
  shows "\<exists>m1 h1 r m2 h2. msg_add_refs n m h = Some (m1, h1) \<and>
    refs_ok h1 (replicate_mset (Suc n) m1 + ms) \<and> (\<forall>x. msg_data x h1 = msg_data x h) \<and>
    msg_rm_refs k m1 h1 = Some (r, m2, h2) \<and> refs_ok h2 (replicate_mset (Suc n - k) m1 + ms) \<and>
    (\<forall>a. points_to a m \<longrightarrow> (r \<longleftrightarrow> (Suc n - k) + nrefs a ms \<noteq> 0) \<and> (contents h2 a = None \<longleftrightarrow> \<not> r))"
proof -
  obtain m1 h1 where m1: "msg_add_refs n m h = Some (m1, h1)" "refs_ok h1 (replicate_mset (Suc n) m1 + ms)"
    "msg_u m1 = msg_u m" "\<forall>x. msg_data x h1 = msg_data x h"
    using msg_add_refs_refs [OF assms(1), of n] assms(5) by blast
  have "replicate_mset (Suc n) m1 = replicate_mset k m1 + replicate_mset (Suc n - k) m1"
    using assms(4) by (metis le_add_diff_inverse replicate_mset_add)
  then have "refs_ok h1 (replicate_mset k m1 + (replicate_mset (Suc n - k) m1 + ms))"
    using m1(2) by (simp add: add.assoc)
  moreover have "msg_check m1" using m1(3) assms(2) by (simp add: msg_check_def)
  ultimately obtain r m2 h2 where r: "msg_rm_refs k m1 h1 = Some (r, m2, h2)"
    "refs_ok h2 (replicate_mset (Suc n - k) m1 + ms)"
    "\<forall>a. points_to a m1 \<longrightarrow> (r \<longleftrightarrow> nrefs a (replicate_mset (Suc n - k) m1 + ms) \<noteq> 0)"
    using msg_rm_refs_refs [of h1 k m1 "replicate_mset (Suc n - k) m1 + ms"] assms(3) by blast
  have "(r \<longleftrightarrow> (Suc n - k) + nrefs a ms \<noteq> 0) \<and> (contents h2 a = None \<longleftrightarrow> \<not> r)" if "points_to a m" for a
  proof -
    have "points_to a m1" using that m1(3) by (simp add: points_to_def)
    then have r': "r \<longleftrightarrow> (Suc n - k) + nrefs a ms \<noteq> 0" using r(3) by simp
    moreover have "contents h2 a = None \<longleftrightarrow> nrefs a (replicate_mset (Suc n - k) m1 + ms) = 0"
      using r(2) by (cases "contents h2 a") (auto simp: refs_ok_def counted_def)
    ultimately show ?thesis using \<open>points_to a m1\<close> by simp
  qed
  with m1 r show ?thesis by blast
qed

theorem msg_refs_roundtrip_witness:
  "\<exists>m1 h1 m2 h2. msg_add_refs 2 example_msg example_heap = Some (m1, h1) \<and>
     msg_rm_refs 3 m1 h1 = Some (False, m2, h2) \<and> contents h2 0 = None"
proof -
  have "points_to 0 example_msg" by (simp add: example_msg_def)
  with msg_refs_roundtrip [OF example_refs(1), of 3 2] show ?thesis
    by (fastforce simp: example_msg_def msg_check_def)
qed

end
