(* ===== verification/Pipe.thy ===== *)
theory Pipe
  imports Ypipe Msg
begin

text \<open>
  Pipes: \<open>pipe_t\<close> of \<^verbatim>\<open>src/pipe.cpp\<close>, with the underlying queues it can use: \<open>ypipe_t\<close>
  (theory Ypipe) and \<open>ypipe_conflate_t\<close> over the double buffer \<open>dbuffer_t\<close>
  (\<^verbatim>\<open>src/ypipe_conflate.hpp\<close>, \<^verbatim>\<open>src/dbuffer.hpp\<close>), which a pipe reaches through the virtual
  functions of \<open>ypipe_base_t\<close>. Two pipe objects are the two ends of a connection; each
  reads one queue and writes the other and they talk through commands.

  The objects live in a \<open>world\<close>: the message heap, the queues and the pipes by address, the
  commands sent so far and not processed, oldest first, with their destination, and the
  log of calls of the event sinks (the sockets and sessions that own the ends). A null or
  dangling pointer and a failed assertion are the failure \<open>None\<close>.
\<close>

subsection \<open>The double buffer and the conflating queue\<close>

text \<open>\<open>db_locked\<close> is the mutex: set while the other thread is inside \<open>read\<close>, \<open>check_read\<close> or \<open>probe\<close>.\<close>

record dbuffer_t =
  db_back :: msg_t
  db_front :: msg_t
  db_locked :: bool
  db_has_msg :: bool

definition db_new :: dbuffer_t where
  "db_new = \<lparr>db_back = msg_init, db_front = msg_init, db_locked = False, db_has_msg = False\<rparr>"

text \<open>\<open>write\<close> moves the message out of the caller's handle, which is returned too.\<close>

definition db_write :: "msg_t \<Rightarrow> dbuffer_t \<Rightarrow> msg_heap \<Rightarrow> (msg_t \<times> dbuffer_t \<times> msg_heap) option" where
  "db_write m d h = do {
     zmq_assert (msg_check m);
     (_, bk, m', h') \<leftarrow> msg_move (db_back d) m h;
     zmq_assert (msg_check bk);
     Some (m', if \<not> db_locked d
               then d\<lparr>db_back := db_front d, db_front := bk, db_has_msg := True\<rparr>
               else d\<lparr>db_back := bk\<rparr>, h')
   }"

definition db_read :: "dbuffer_t \<Rightarrow> (msg_t option \<times> dbuffer_t) option" where
  "db_read d =
     (if \<not> db_has_msg d then Some (None, d)
      else do {
        zmq_assert (msg_check (db_front d));
        Some (Some (db_front d), d\<lparr>db_front := msg_init, db_has_msg := False\<rparr>)
      })"

definition db_check_read :: "dbuffer_t \<Rightarrow> bool" where
  "db_check_read d = db_has_msg d"

definition db_probe :: "(msg_t \<Rightarrow> bool) \<Rightarrow> dbuffer_t \<Rightarrow> bool" where
  "db_probe fn d = fn (db_front d)"

definition db_destroy :: "dbuffer_t \<Rightarrow> msg_heap \<Rightarrow> msg_heap option" where
  "db_destroy d h = do {
     (_, _, h) \<leftarrow> msg_close (db_back d) h;
     (_, _, h) \<leftarrow> msg_close (db_front d) h;
     Some h
   }"

record ypipe_conflate_t =
  yc_dbuffer :: dbuffer_t
  yc_reader_awake :: bool

definition yc_new :: ypipe_conflate_t where
  "yc_new = \<lparr>yc_dbuffer = db_new, yc_reader_awake = False\<rparr>"

definition yc_write ::
  "msg_t \<Rightarrow> bool \<Rightarrow> ypipe_conflate_t \<Rightarrow> msg_heap \<Rightarrow> (msg_t \<times> ypipe_conflate_t \<times> msg_heap) option" where
  "yc_write m incomplete y h = do {
     (m', d, h') \<leftarrow> db_write m (yc_dbuffer y) h;
     Some (m', y\<lparr>yc_dbuffer := d\<rparr>, h')
   }"

definition yc_unwrite :: "ypipe_conflate_t \<Rightarrow> msg_t option \<times> ypipe_conflate_t" where
  "yc_unwrite y = (None, y)"

definition yc_flush :: "ypipe_conflate_t \<Rightarrow> bool \<times> ypipe_conflate_t" where
  "yc_flush y = (yc_reader_awake y, y)"

definition yc_check_read :: "ypipe_conflate_t \<Rightarrow> bool \<times> ypipe_conflate_t" where
  "yc_check_read y =
     (let res = db_check_read (yc_dbuffer y)
      in (res, if \<not> res then y\<lparr>yc_reader_awake := False\<rparr> else y))"

definition yc_read :: "ypipe_conflate_t \<Rightarrow> (msg_t option \<times> ypipe_conflate_t) option" where
  "yc_read y0 =
     (let (ok, y) = yc_check_read y0
      in if \<not> ok then Some (None, y)
         else do {
           (m, d) \<leftarrow> db_read (yc_dbuffer y);
           Some (m, y\<lparr>yc_dbuffer := d\<rparr>)
         })"

definition yc_probe :: "(msg_t \<Rightarrow> bool) \<Rightarrow> ypipe_conflate_t \<Rightarrow> bool" where
  "yc_probe fn y = db_probe fn (yc_dbuffer y)"

subsection \<open>The world of pipes\<close>

definition message_pipe_granularity :: nat where "message_pipe_granularity = 256"
definition max_wm_delta :: int where "max_wm_delta = 1024"

datatype upipe_t = Upipe_normal "msg_t ypipe_t" | Upipe_conflate ypipe_conflate_t

datatype pipe_state =
    active | delimiter_received | waiting_for_delimiter
  | term_ack_sent | term_req_sent1 | term_req_sent2

datatype pipe_cmd =
    Activate_read | Activate_write uint64 | Hiccup addr | Pipe_term | Pipe_term_ack

datatype pipe_event = Read_activated | Write_activated | Hiccuped | Pipe_terminated

record pipe_t =
  inpipe :: "addr option"
  outpipe :: "addr option"
  in_active :: bool
  out_active :: bool
  hwm :: int
  lwm :: int
  msgs_read :: uint64
  msgs_written :: uint64
  peers_msgs_read :: uint64
  peer :: "addr option"
  sink :: "nat option"
  state :: pipe_state
  delay :: bool
  identity :: blob_t
  conflate :: bool

record world =
  mheap :: msg_heap
  upipes :: "addr \<Rightarrow> upipe_t option"
  up_brk :: addr
  pipes :: "addr \<Rightarrow> pipe_t option"
  cmds :: "(addr \<times> pipe_cmd) list"
  events :: "(nat \<times> addr \<times> pipe_event) list"

text \<open>The virtual functions of \<open>ypipe_base_t\<close>, on the queue at an address.\<close>

definition set_upipe :: "addr \<Rightarrow> upipe_t \<Rightarrow> world \<Rightarrow> world" where
  "set_upipe a u w = w\<lparr>upipes := (upipes w)(a \<mapsto> u)\<rparr>"

definition up_write :: "addr \<Rightarrow> msg_t \<Rightarrow> bool \<Rightarrow> world \<Rightarrow> (msg_t \<times> world) option" where
  "up_write a m incomplete w = do {
     u \<leftarrow> upipes w a;
     (case u of
        Upipe_normal y \<Rightarrow> do {
          y' \<leftarrow> yp_write message_pipe_granularity m incomplete y;
          Some (m, set_upipe a (Upipe_normal y') w)
        }
      | Upipe_conflate y \<Rightarrow> do {
          (m', y', h') \<leftarrow> yc_write m incomplete y (mheap w);
          Some (m', set_upipe a (Upipe_conflate y') (w\<lparr>mheap := h'\<rparr>))
        })
   }"

definition up_unwrite :: "addr \<Rightarrow> world \<Rightarrow> (msg_t option \<times> world) option" where
  "up_unwrite a w = do {
     u \<leftarrow> upipes w a;
     (case u of
        Upipe_normal y \<Rightarrow> do {
          (m, y') \<leftarrow> yp_unwrite message_pipe_granularity y;
          Some (m, set_upipe a (Upipe_normal y') w)
        }
      | Upipe_conflate y \<Rightarrow>
          let (m, y') = yc_unwrite y in Some (m, set_upipe a (Upipe_conflate y') w))
   }"

definition up_flush :: "addr \<Rightarrow> world \<Rightarrow> (bool \<times> world) option" where
  "up_flush a w = do {
     u \<leftarrow> upipes w a;
     (case u of
        Upipe_normal y \<Rightarrow> let (ok, y') = yp_flush y in Some (ok, set_upipe a (Upipe_normal y') w)
      | Upipe_conflate y \<Rightarrow> let (ok, y') = yc_flush y in Some (ok, set_upipe a (Upipe_conflate y') w))
   }"

definition up_check_read :: "addr \<Rightarrow> world \<Rightarrow> (bool \<times> world) option" where
  "up_check_read a w = do {
     u \<leftarrow> upipes w a;
     (case u of
        Upipe_normal y \<Rightarrow> let (ok, y') = yp_check_read y in Some (ok, set_upipe a (Upipe_normal y') w)
      | Upipe_conflate y \<Rightarrow> let (ok, y') = yc_check_read y in Some (ok, set_upipe a (Upipe_conflate y') w))
   }"

definition up_read :: "addr \<Rightarrow> world \<Rightarrow> (msg_t option \<times> world) option" where
  "up_read a w = do {
     u \<leftarrow> upipes w a;
     (case u of
        Upipe_normal y \<Rightarrow> do {
          (m, y') \<leftarrow> yp_read message_pipe_granularity y;
          Some (m, set_upipe a (Upipe_normal y') w)
        }
      | Upipe_conflate y \<Rightarrow> do {
          (m, y') \<leftarrow> yc_read y;
          Some (m, set_upipe a (Upipe_conflate y') w)
        })
   }"

definition up_probe :: "(msg_t \<Rightarrow> bool) \<Rightarrow> addr \<Rightarrow> world \<Rightarrow> (bool \<times> world) option" where
  "up_probe fn a w = do {
     u \<leftarrow> upipes w a;
     (case u of
        Upipe_normal y \<Rightarrow> do {
          (r, y') \<leftarrow> yp_probe fn y;
          Some (r, set_upipe a (Upipe_normal y') w)
        }
      | Upipe_conflate y \<Rightarrow> Some (yc_probe fn y, w))
   }"

text \<open>\<open>delete\<close> of a queue: messages still in a \<open>ypipe_t\<close> are not closed, those of a double buffer are.\<close>

definition up_destroy :: "addr \<Rightarrow> world \<Rightarrow> world option" where
  "up_destroy a w = do {
     u \<leftarrow> upipes w a;
     let w' = w\<lparr>upipes := (upipes w)(a := None)\<rparr>;
     (case u of
        Upipe_normal y \<Rightarrow> do { _ \<leftarrow> yq_destroy (queue y); Some w' }
      | Upipe_conflate y \<Rightarrow> do {
          h \<leftarrow> db_destroy (yc_dbuffer y) (mheap w);
          Some (w'\<lparr>mheap := h\<rparr>)
        })
   }"

definition new_upipe :: "bool \<Rightarrow> world \<Rightarrow> (addr \<times> world) option" where
  "new_upipe confl w = do {
     u \<leftarrow> (if confl then Some (Upipe_conflate yc_new)
          else map_option Upipe_normal (yp_new message_pipe_granularity));
     Some (up_brk w, (set_upipe (up_brk w) u w)\<lparr>up_brk := Suc (up_brk w)\<rparr>)
   }"

text \<open>Sending a command (\<open>object_t::send_command\<close>) and calling the event sink.\<close>

definition set_pipe :: "addr \<Rightarrow> pipe_t \<Rightarrow> world \<Rightarrow> world" where
  "set_pipe i p w = w\<lparr>pipes := (pipes w)(i \<mapsto> p)\<rparr>"

definition send_cmd :: "addr option \<Rightarrow> pipe_cmd \<Rightarrow> world \<Rightarrow> world option" where
  "send_cmd dst c w = do { d \<leftarrow> dst; Some (w\<lparr>cmds := cmds w @ [(d, c)]\<rparr>) }"

definition call_sink :: "addr \<Rightarrow> pipe_t \<Rightarrow> pipe_event \<Rightarrow> world \<Rightarrow> world option" where
  "call_sink i p e w = do { s \<leftarrow> sink p; Some (w\<lparr>events := events w @ [(s, i, e)]\<rparr>) }"

subsection \<open>Construction\<close>

text \<open>C++ division truncates towards zero.\<close>

definition c_div :: "int \<Rightarrow> int \<Rightarrow> int" where
  "c_div a b = sgn a * sgn b * (\<bar>a\<bar> div \<bar>b\<bar>)"

definition compute_lwm :: "int \<Rightarrow> int" where
  "compute_lwm h = (if h > max_wm_delta * 2 then h - max_wm_delta else c_div (h + 1) 2)"

definition pipe_new :: "addr \<Rightarrow> addr \<Rightarrow> int \<Rightarrow> int \<Rightarrow> bool \<Rightarrow> pipe_t" where
  "pipe_new inp outp inhwm outhwm confl =
     \<lparr>inpipe = Some inp, outpipe = Some outp, in_active = True, out_active = True,
      hwm = outhwm, lwm = compute_lwm inhwm, msgs_read = 0, msgs_written = 0, peers_msgs_read = 0,
      peer = None, sink = None, state = active, delay = True, identity = [], conflate = confl\<rparr>"

definition pipe_set_peer :: "addr \<Rightarrow> addr \<Rightarrow> world \<Rightarrow> world option" where
  "pipe_set_peer i j w = do {
     p \<leftarrow> pipes w i;
     zmq_assert (peer p = None);
     Some (set_pipe i (p\<lparr>peer := Some j\<rparr>) w)
   }"

definition pipe_set_event_sink :: "addr \<Rightarrow> nat \<Rightarrow> world \<Rightarrow> world option" where
  "pipe_set_event_sink i s w = do {
     p \<leftarrow> pipes w i;
     zmq_assert (sink p = None);
     Some (set_pipe i (p\<lparr>sink := Some s\<rparr>) w)
   }"

text \<open>\<open>pipepair\<close>: the two ends get the addresses \<open>i\<close> and \<open>j\<close>.\<close>

definition pipepair :: "addr \<Rightarrow> addr \<Rightarrow> int \<times> int \<Rightarrow> bool \<times> bool \<Rightarrow> world \<Rightarrow> world option" where
  "pipepair i j hwms confl w = do {
     (u1, w) \<leftarrow> new_upipe (fst confl) w;
     (u2, w) \<leftarrow> new_upipe (snd confl) w;
     let w = set_pipe i (pipe_new u1 u2 (snd hwms) (fst hwms) (fst confl)) w;
     let w = set_pipe j (pipe_new u2 u1 (fst hwms) (snd hwms) (snd confl)) w;
     w \<leftarrow> pipe_set_peer i j w;
     pipe_set_peer j i w
   }"

definition pipe_set_identity :: "addr \<Rightarrow> blob_t \<Rightarrow> world \<Rightarrow> world option" where
  "pipe_set_identity i b w = do { p \<leftarrow> pipes w i; Some (set_pipe i (p\<lparr>identity := b\<rparr>) w) }"

definition pipe_get_identity :: "addr \<Rightarrow> world \<Rightarrow> blob_t option" where
  "pipe_get_identity i w = map_option identity (pipes w i)"

definition pipe_set_nodelay :: "addr \<Rightarrow> world \<Rightarrow> world option" where
  "pipe_set_nodelay i w = do { p \<leftarrow> pipes w i; Some (set_pipe i (p\<lparr>delay := False\<rparr>) w) }"

definition pipe_set_hwms :: "addr \<Rightarrow> int \<Rightarrow> int \<Rightarrow> world \<Rightarrow> world option" where
  "pipe_set_hwms i inhwm outhwm w = do {
     p \<leftarrow> pipes w i;
     Some (set_pipe i (p\<lparr>lwm := compute_lwm inhwm, hwm := outhwm\<rparr>) w)
   }"

subsection \<open>Reading and writing\<close>

definition pipe_process_delimiter :: "addr \<Rightarrow> world \<Rightarrow> world option" where
  "pipe_process_delimiter i w = do {
     p \<leftarrow> pipes w i;
     zmq_assert (state p = active \<or> state p = waiting_for_delimiter);
     if state p = active then Some (set_pipe i (p\<lparr>state := delimiter_received\<rparr>) w)
     else do {
       w \<leftarrow> send_cmd (peer p) Pipe_term_ack w;
       Some (set_pipe i (p\<lparr>outpipe := None, state := term_ack_sent\<rparr>) w)
     }
   }"

definition pipe_check_read :: "addr \<Rightarrow> world \<Rightarrow> (bool \<times> world) option" where
  "pipe_check_read i w = do {
     p \<leftarrow> pipes w i;
     if \<not> in_active p then Some (False, w)
     else if state p \<noteq> active \<and> state p \<noteq> waiting_for_delimiter then Some (False, w)
     else do {
       a \<leftarrow> inpipe p;
       (ok, w) \<leftarrow> up_check_read a w;
       if \<not> ok then Some (False, set_pipe i (p\<lparr>in_active := False\<rparr>) w)
       else do {
         (d, w) \<leftarrow> up_probe msg_is_delimiter a w;
         if d then do {
           (m, w) \<leftarrow> up_read a w;
           zmq_assert (m \<noteq> None);
           w \<leftarrow> pipe_process_delimiter i w;
           Some (False, w)
         }
         else Some (True, w)
       }
     }
   }"

text \<open>\<open>read\<close> returns the message where the code returns true.\<close>

definition pipe_read :: "addr \<Rightarrow> world \<Rightarrow> (msg_t option \<times> world) option" where
  "pipe_read i w = do {
     p \<leftarrow> pipes w i;
     if \<not> in_active p then Some (None, w)
     else if state p \<noteq> active \<and> state p \<noteq> waiting_for_delimiter then Some (None, w)
     else do {
       a \<leftarrow> inpipe p;
       (m, w) \<leftarrow> up_read a w;
       case m of
         None \<Rightarrow> Some (None, set_pipe i (p\<lparr>in_active := False\<rparr>) w)
       | Some msg \<Rightarrow>
           if msg_is_delimiter msg then do {
             w \<leftarrow> pipe_process_delimiter i w;
             Some (None, w)
           }
           else do {
             let n = (if \<not> msg_more msg \<and> \<not> msg_is_identity msg then msgs_read p + 1 else msgs_read p);
             let w = set_pipe i (p\<lparr>msgs_read := n\<rparr>) w;
             w \<leftarrow> (if lwm p > 0 \<and> unat n mod nat (lwm p) = 0
                  then send_cmd (peer p) (Activate_write n) w else Some w);
             Some (Some msg, w)
           }
     }
   }"

definition pipe_check_write :: "addr \<Rightarrow> world \<Rightarrow> (bool \<times> world) option" where
  "pipe_check_write i w = do {
     p \<leftarrow> pipes w i;
     if \<not> out_active p \<or> state p \<noteq> active then Some (False, w)
     else if hwm p > 0 \<and> msgs_written p - peers_msgs_read p = of_int (hwm p)
     then Some (False, set_pipe i (p\<lparr>out_active := False\<rparr>) w)
     else Some (True, w)
   }"

text \<open>\<open>write\<close> returns the caller's handle too, which a conflating queue empties.\<close>

definition pipe_write :: "addr \<Rightarrow> msg_t \<Rightarrow> world \<Rightarrow> (bool \<times> msg_t \<times> world) option" where
  "pipe_write i m w = do {
     (ok, w) \<leftarrow> pipe_check_write i w;
     if \<not> ok then Some (False, m, w)
     else do {
       p \<leftarrow> pipes w i;
       a \<leftarrow> outpipe p;
       (m', w) \<leftarrow> up_write a m (msg_more m) w;
       let w = (if \<not> msg_more m \<and> \<not> msg_is_identity m
                then set_pipe i (p\<lparr>msgs_written := msgs_written p + 1\<rparr>) w else w);
       Some (True, m', w)
     }
   }"

text \<open>The loops over a queue that close every message they take out.\<close>

definition close_in :: "msg_t \<Rightarrow> world \<Rightarrow> world option" where
  "close_in m w = do {
     (rc, _, h) \<leftarrow> msg_close m (mheap w);
     zmq_assert (rc = None);
     Some (w\<lparr>mheap := h\<rparr>)
   }"

partial_function (option) rollback_loop :: "addr \<Rightarrow> world \<Rightarrow> world option" where
  "rollback_loop a w = Option.bind (up_unwrite a w) (\<lambda>r.
     (case fst r of
        None \<Rightarrow> Some (snd r)
      | Some m \<Rightarrow> Option.bind (Option.bind (zmq_assert (msg_more m)) (\<lambda>_. close_in m (snd r)))
          (rollback_loop a)))"

definition pipe_rollback :: "addr \<Rightarrow> world \<Rightarrow> world option" where
  "pipe_rollback i w = do {
     p \<leftarrow> pipes w i;
     (case outpipe p of None \<Rightarrow> Some w | Some a \<Rightarrow> rollback_loop a w)
   }"

definition pipe_flush :: "addr \<Rightarrow> world \<Rightarrow> world option" where
  "pipe_flush i w = do {
     p \<leftarrow> pipes w i;
     if state p = term_ack_sent then Some w
     else (case outpipe p of
         None \<Rightarrow> Some w
       | Some a \<Rightarrow> do {
           (ok, w) \<leftarrow> up_flush a w;
           if ok then Some w else send_cmd (peer p) Activate_read w
         })
   }"

subsection \<open>Commands\<close>

definition pipe_process_activate_read :: "addr \<Rightarrow> world \<Rightarrow> world option" where
  "pipe_process_activate_read i w = do {
     p \<leftarrow> pipes w i;
     if \<not> in_active p \<and> (state p = active \<or> state p = waiting_for_delimiter)
     then call_sink i p Read_activated (set_pipe i (p\<lparr>in_active := True\<rparr>) w)
     else Some w
   }"

definition pipe_process_activate_write :: "addr \<Rightarrow> uint64 \<Rightarrow> world \<Rightarrow> world option" where
  "pipe_process_activate_write i n w = do {
     p0 \<leftarrow> pipes w i;
     let p = p0\<lparr>peers_msgs_read := n\<rparr>;
     if \<not> out_active p \<and> state p = active
     then call_sink i p Write_activated (set_pipe i (p\<lparr>out_active := True\<rparr>) w)
     else Some (set_pipe i p w)
   }"

text \<open>\<open>hiccup_loop\<close> counts down the messages that are lost with the old queue.\<close>

partial_function (option) hiccup_loop :: "addr \<Rightarrow> uint64 \<Rightarrow> world \<Rightarrow> (uint64 \<times> world) option" where
  "hiccup_loop a n w = Option.bind (up_read a w) (\<lambda>r.
     (case fst r of
        None \<Rightarrow> Some (n, snd r)
      | Some m \<Rightarrow> Option.bind (close_in m (snd r))
          (hiccup_loop a (if \<not> msg_more m then n - 1 else n))))"

definition pipe_process_hiccup :: "addr \<Rightarrow> addr option \<Rightarrow> world \<Rightarrow> world option" where
  "pipe_process_hiccup i new w = do {
     p \<leftarrow> pipes w i;
     a \<leftarrow> outpipe p;
     (_, w) \<leftarrow> up_flush a w;
     (n, w) \<leftarrow> hiccup_loop a (msgs_written p) w;
     w \<leftarrow> up_destroy a w;
     b \<leftarrow> new;
     let p = p\<lparr>msgs_written := n, outpipe := Some b, out_active := True\<rparr>;
     let w = set_pipe i p w;
     if state p = active then call_sink i p Hiccuped w else Some w
   }"

definition pipe_process_pipe_term :: "addr \<Rightarrow> world \<Rightarrow> world option" where
  "pipe_process_pipe_term i w = do {
     p \<leftarrow> pipes w i;
     (case state p of
        active \<Rightarrow>
          if \<not> delay p
          then send_cmd (peer p) Pipe_term_ack (set_pipe i (p\<lparr>state := term_ack_sent, outpipe := None\<rparr>) w)
          else Some (set_pipe i (p\<lparr>state := waiting_for_delimiter\<rparr>) w)
      | delimiter_received \<Rightarrow>
          send_cmd (peer p) Pipe_term_ack (set_pipe i (p\<lparr>state := term_ack_sent, outpipe := None\<rparr>) w)
      | term_req_sent1 \<Rightarrow>
          send_cmd (peer p) Pipe_term_ack (set_pipe i (p\<lparr>state := term_req_sent2, outpipe := None\<rparr>) w)
      | _ \<Rightarrow> None)
   }"

partial_function (option) drain_loop :: "addr \<Rightarrow> world \<Rightarrow> world option" where
  "drain_loop a w = Option.bind (up_read a w) (\<lambda>r.
     (case fst r of
        None \<Rightarrow> Some (snd r)
      | Some m \<Rightarrow> Option.bind (close_in m (snd r)) (drain_loop a)))"

definition pipe_process_pipe_term_ack :: "addr \<Rightarrow> world \<Rightarrow> world option" where
  "pipe_process_pipe_term_ack i w = do {
     p \<leftarrow> pipes w i;
     w \<leftarrow> call_sink i p Pipe_terminated w;
     w \<leftarrow> (if state p = term_req_sent1 then send_cmd (peer p) Pipe_term_ack w
          else do { zmq_assert (state p = term_ack_sent \<or> state p = term_req_sent2); Some w });
     a \<leftarrow> inpipe p;
     w \<leftarrow> (if \<not> conflate p then drain_loop a w else Some w);
     w \<leftarrow> up_destroy a w;
     Some (w\<lparr>pipes := (pipes w)(i := None)\<rparr>)
   }"

subsection \<open>Termination and hiccup\<close>

text \<open>The last part of \<open>terminate\<close>: drop unfinished messages and write the delimiter.\<close>

definition pipe_write_delimiter :: "addr \<Rightarrow> world \<Rightarrow> world option" where
  "pipe_write_delimiter i w = do {
     p \<leftarrow> pipes w i;
     (case outpipe p of
        None \<Rightarrow> Some w
      | Some a \<Rightarrow> do {
          w \<leftarrow> pipe_rollback i w;
          (_, w) \<leftarrow> up_write a msg_init_delimiter False w;
          pipe_flush i w
        })
   }"

definition pipe_terminate :: "addr \<Rightarrow> bool \<Rightarrow> world \<Rightarrow> world option" where
  "pipe_terminate i dly w = do {
     p0 \<leftarrow> pipes w i;
     let p = p0\<lparr>delay := dly\<rparr>;
     if state p = term_req_sent1 \<or> state p = term_req_sent2 then Some (set_pipe i p w)
     else if state p = term_ack_sent then Some (set_pipe i p w)
     else do {
       w \<leftarrow> (case state p of
            active \<Rightarrow> send_cmd (peer p) Pipe_term (set_pipe i (p\<lparr>state := term_req_sent1, out_active := False\<rparr>) w)
          | waiting_for_delimiter \<Rightarrow>
              if \<not> delay p
              then send_cmd (peer p) Pipe_term_ack
                     (set_pipe i (p\<lparr>outpipe := None, state := term_ack_sent, out_active := False\<rparr>) w)
              else Some (set_pipe i (p\<lparr>out_active := False\<rparr>) w)
          | delimiter_received \<Rightarrow>
              send_cmd (peer p) Pipe_term (set_pipe i (p\<lparr>state := term_req_sent1, out_active := False\<rparr>) w)
          | _ \<Rightarrow> None);
       pipe_write_delimiter i w
     }
   }"

definition pipe_hiccup :: "addr \<Rightarrow> world \<Rightarrow> world option" where
  "pipe_hiccup i w = do {
     p \<leftarrow> pipes w i;
     if state p \<noteq> active then Some w
     else do {
       (a, w) \<leftarrow> new_upipe (conflate p) w;
       let w = set_pipe i (p\<lparr>inpipe := Some a, in_active := True\<rparr>) w;
       send_cmd (peer p) (Hiccup a) w
     }
   }"

text \<open>\<open>object_t::process_command\<close>, the part for pipes: take the oldest command for a pipe.\<close>

definition pipe_process_command :: "addr \<Rightarrow> pipe_cmd \<Rightarrow> world \<Rightarrow> world option" where
  "pipe_process_command i c w = (case c of
      Activate_read \<Rightarrow> pipe_process_activate_read i w
    | Activate_write n \<Rightarrow> pipe_process_activate_write i n w
    | Hiccup a \<Rightarrow> pipe_process_hiccup i (Some a) w
    | Pipe_term \<Rightarrow> pipe_process_pipe_term i w
    | Pipe_term_ack \<Rightarrow> pipe_process_pipe_term_ack i w)"

subsection \<open>What the queue of a pipe holds\<close>

definition up_view ::
  "world \<Rightarrow> addr \<Rightarrow> msg_t list \<Rightarrow> msg_t list \<Rightarrow> msg_t list \<Rightarrow> bool \<Rightarrow> bool" where
  "up_view w a fl un inc z \<longleftrightarrow> (\<exists>y. upipes w a = Some (Upipe_normal y) \<and>
     yp_rep message_pipe_granularity y fl un inc z)"

lemma set_upipe_simps [simp]:
  "upipes (set_upipe a u w) = (upipes w)(a \<mapsto> u)" "pipes (set_upipe a u w) = pipes w"
  "cmds (set_upipe a u w) = cmds w" "events (set_upipe a u w) = events w"
  "mheap (set_upipe a u w) = mheap w" "up_brk (set_upipe a u w) = up_brk w"
  by (simp_all add: set_upipe_def)

lemma set_pipe_simps [simp]:
  "pipes (set_pipe i p w) = (pipes w)(i \<mapsto> p)" "upipes (set_pipe i p w) = upipes w"
  "cmds (set_pipe i p w) = cmds w" "events (set_pipe i p w) = events w"
  "mheap (set_pipe i p w) = mheap w" "up_brk (set_pipe i p w) = up_brk w"
  by (simp_all add: set_pipe_def)

lemma up_view_frame: "upipes w' a = upipes w a \<Longrightarrow> up_view w' a fl un inc z = up_view w a fl un inc z"
  by (simp add: up_view_def)

lemma up_write_view:
  assumes "up_view w a fl un inc z"
  shows "\<exists>u. up_write a m incomplete w = Some (m, set_upipe a u w) \<and>
    (if incomplete then up_view (set_upipe a u w) a fl un (inc @ [m]) z
     else up_view (set_upipe a u w) a fl (un @ inc @ [m]) [] z)"
proof -
  obtain y where y: "upipes w a = Some (Upipe_normal y)" "yp_rep message_pipe_granularity y fl un inc z"
    using assms by (auto simp: up_view_def)
  obtain y' where "yp_write message_pipe_granularity m incomplete y = Some y'"
    "if incomplete then yp_rep message_pipe_granularity y' fl un (inc @ [m]) z
     else yp_rep message_pipe_granularity y' fl (un @ inc @ [m]) [] z"
    using yp_write_rep [OF y(2), of m incomplete] by blast
  with y show ?thesis
    by (intro exI [of _ "Upipe_normal y'"]) (auto simp: up_write_def up_view_def)
qed

lemma up_unwrite_view:
  assumes "up_view w a fl un inc z"
  shows "inc = [] \<Longrightarrow> up_unwrite a w = Some (None, w)"
    and "inc = xs @ [x] \<Longrightarrow> \<exists>u. up_unwrite a w = Some (Some x, set_upipe a u w) \<and>
           up_view (set_upipe a u w) a fl un xs z"
proof -
  obtain y where y: "upipes w a = Some (Upipe_normal y)" "yp_rep message_pipe_granularity y fl un inc z"
    using assms by (auto simp: up_view_def)
  show "up_unwrite a w = Some (None, w)" if "inc = []"
    using y yp_unwrite_rep(1) [OF y(2) that] by (simp add: up_unwrite_def set_upipe_def fun_upd_idem)
  show "\<exists>u. up_unwrite a w = Some (Some x, set_upipe a u w) \<and> up_view (set_upipe a u w) a fl un xs z"
    if inc: "inc = xs @ [x]"
  proof -
    obtain y' where "yp_unwrite message_pipe_granularity y = Some (Some x, y')"
      "yp_rep message_pipe_granularity y' fl un xs z" using yp_unwrite_rep(2) [OF y(2) inc] by blast
    with y show ?thesis
      by (intro exI [of _ "Upipe_normal y'"]) (auto simp: up_unwrite_def up_view_def)
  qed
qed

lemma up_flush_view:
  assumes "up_view w a fl un inc z"
  shows "\<exists>u. up_flush a w = Some (un = [] \<or> \<not> z, set_upipe a u w) \<and>
    up_view (set_upipe a u w) a (fl @ un) [] inc (z \<and> un = [])"
proof -
  obtain y where y: "upipes w a = Some (Upipe_normal y)" "yp_rep message_pipe_granularity y fl un inc z"
    using assms by (auto simp: up_view_def)
  obtain y' where "yp_flush y = (un = [] \<or> \<not> z, y')"
    "yp_rep message_pipe_granularity y' (fl @ un) [] inc (z \<and> un = [])"
    using yp_flush_rep [OF y(2)] by blast
  with y show ?thesis
    by (intro exI [of _ "Upipe_normal y'"]) (auto simp: up_flush_def up_view_def)
qed

lemma up_check_read_view:
  assumes "up_view w a fl un inc z"
  shows "\<exists>u. up_check_read a w = Some (fl \<noteq> [], set_upipe a u w) \<and>
    up_view (set_upipe a u w) a fl un inc (z \<or> fl = [])"
proof -
  obtain y where y: "upipes w a = Some (Upipe_normal y)" "yp_rep message_pipe_granularity y fl un inc z"
    using assms by (auto simp: up_view_def)
  obtain y' where "yp_check_read y = (fl \<noteq> [], y')"
    "yp_rep message_pipe_granularity y' fl un inc (z \<or> fl = [])"
    using yp_check_read_rep [OF y(2)] by blast
  with y show ?thesis
    by (intro exI [of _ "Upipe_normal y'"]) (auto simp: up_check_read_def up_view_def)
qed

lemma up_read_view:
  assumes "up_view w a fl un inc z"
  shows "fl = [] \<Longrightarrow> \<exists>u. up_read a w = Some (None, set_upipe a u w) \<and>
           up_view (set_upipe a u w) a [] un inc True"
    and "fl = m # ms \<Longrightarrow> \<exists>u. up_read a w = Some (Some m, set_upipe a u w) \<and>
           up_view (set_upipe a u w) a ms un inc z"
proof -
  obtain y where y: "upipes w a = Some (Upipe_normal y)" "yp_rep message_pipe_granularity y fl un inc z"
    using assms by (auto simp: up_view_def)
  show "\<exists>u. up_read a w = Some (None, set_upipe a u w) \<and> up_view (set_upipe a u w) a [] un inc True"
    if fl: "fl = []"
  proof -
    obtain y' where "yp_read message_pipe_granularity y = Some (None, y')"
      "yp_rep message_pipe_granularity y' [] un inc True" using yp_read_rep(1) [OF y(2) fl] by blast
    with y show ?thesis
      by (intro exI [of _ "Upipe_normal y'"]) (auto simp: up_read_def up_view_def)
  qed
  show "\<exists>u. up_read a w = Some (Some m, set_upipe a u w) \<and> up_view (set_upipe a u w) a ms un inc z"
    if fl: "fl = m # ms"
  proof -
    obtain y' where "yp_read message_pipe_granularity y = Some (Some m, y')"
      "yp_rep message_pipe_granularity y' ms un inc z" using yp_read_rep(2) [OF y(2) fl] by blast
    with y show ?thesis
      by (intro exI [of _ "Upipe_normal y'"]) (auto simp: up_read_def up_view_def)
  qed
qed

lemma up_probe_view:
  assumes "up_view w a (m # ms) un inc z"
  shows "\<exists>u. up_probe fn a w = Some (fn m, set_upipe a u w) \<and>
    up_view (set_upipe a u w) a (m # ms) un inc z"
proof -
  obtain y where y: "upipes w a = Some (Upipe_normal y)" "yp_rep message_pipe_granularity y (m # ms) un inc z"
    using assms by (auto simp: up_view_def)
  obtain y' where "yp_probe fn y = Some (fn m, y')"
    "yp_rep message_pipe_granularity y' (m # ms) un inc z"
    using yp_probe_rep [OF y(2), of fn] by blast
  with y show ?thesis
    by (intro exI [of _ "Upipe_normal y'"]) (auto simp: up_probe_def up_view_def)
qed

lemma new_upipe_view:
  "\<exists>u. new_upipe False w = Some (up_brk w, (set_upipe (up_brk w) u w)\<lparr>up_brk := Suc (up_brk w)\<rparr>) \<and>
     up_view (set_upipe (up_brk w) u w) (up_brk w) [] [] [] False"
proof -
  have "0 < message_pipe_granularity" by (simp add: message_pipe_granularity_def)
  then obtain y :: "msg_t ypipe_t" where "yp_new message_pipe_granularity = Some y"
    "yp_rep message_pipe_granularity y [] [] [] False" using yp_new_rep by blast
  then show ?thesis
    by (intro exI [of _ "Upipe_normal y"]) (auto simp: new_upipe_def up_view_def)
qed

subsection \<open>Watermarks\<close>

lemma compute_lwm_bounds:
  assumes "0 < h"
  shows "0 < compute_lwm h" and "compute_lwm h \<le> h"
  using assms by (auto simp: compute_lwm_def max_wm_delta_def c_div_def)

text \<open>
  the low water mark of a positive high water mark is positive and at most the high water
  mark; it is smaller except for a high water mark of 1, and then equal to it; it is at most
  \<open>max_wm_delta\<close> below the high water mark for large marks.
\<close>

theorem pipe_low_water_mark:
  assumes "0 < h"
  shows "0 < compute_lwm h \<and> compute_lwm h \<le> h \<and> (compute_lwm h = h \<longleftrightarrow> h = 1) \<and> h - compute_lwm h \<le> max_wm_delta"
  using assms by (auto simp: compute_lwm_def max_wm_delta_def c_div_def)

theorem pipe_low_water_mark_witness: "compute_lwm 1 = 1 \<and> compute_lwm 1000 < 1000"
  using pipe_low_water_mark [of 1] pipe_low_water_mark [of 1000] by auto

end
