(* ===== verification/Pipe_Flow.thy ===== *)
theory Pipe_Flow
  imports Pipe
begin

text \<open>
  Flow control between the two ends of a connection: the ends write and read messages, flush
  and process the commands \<open>activate_read\<close> and \<open>activate_write\<close> that they send each other, in any
  order. The invariant \<open>flow_inv\<close> is stated for one direction, from the writing end \<open>i\<close> to the
  reading end \<open>j\<close> through the queue \<open>a\<close>, over ghost counters without wrap-around: messages written
  (\<open>nw\<close>), messages read (\<open>nr\<close>), the number the writer last heard of (\<open>np\<close>) and the reports still
  under way (\<open>ks\<close>). A connection is two such directions.
\<close>

subsection \<open>Counting messages\<close>

text \<open>The messages that the two counters count: not the parts before the last one, and not identities.\<close>

definition counts :: "msg_t \<Rightarrow> bool" where
  "counts m \<longleftrightarrow> \<not> msg_more m \<and> \<not> msg_is_identity m"

definition ncount :: "msg_t list \<Rightarrow> nat" where
  "ncount ms = length (filter counts ms)"

lemma ncount_simps [simp]:
  "ncount [] = 0" "ncount (m # ms) = (if counts m then Suc (ncount ms) else ncount ms)" "ncount (xs @ ys) = ncount xs + ncount ys"
  by (simp_all add: ncount_def)

lemma ncount_parts: "\<forall>m \<in> set ms. msg_more m \<Longrightarrow> ncount ms = 0"
  by (induction ms) (auto simp: counts_def)

definition report_to :: "addr \<Rightarrow> addr \<times> pipe_cmd \<Rightarrow> uint64 option" where
  "report_to i c = (case c of (d, Activate_write n) \<Rightarrow> if d = i then Some n else None | _ \<Rightarrow> None)"

definition reports :: "addr \<Rightarrow> (addr \<times> pipe_cmd) list \<Rightarrow> uint64 list" where
  "reports i cs = List.map_filter (report_to i) cs"

lemma reports_simps [simp]:
  "reports i [] = []" "reports i (c # cs) = (case report_to i c of None \<Rightarrow> reports i cs | Some n \<Rightarrow> n # reports i cs)"
  "reports i (xs @ ys) = reports i xs @ reports i ys"
  by (auto simp: reports_def List.map_filter_def split: option.splits)

lemma report_to_simps [simp]:
  "report_to i (d, Activate_write n) = (if d = i then Some n else None)" "report_to i (d, Activate_read) = None"
  by (simp_all add: report_to_def)

text \<open>
  Among any \<open>L\<close> consecutive values of the counter one is a multiple of \<open>L\<close>, also where the counter
  wraps around.
\<close>

lemma report_gap:
  assumes "0 < L" and "L < 2 ^ 64" and "\<forall>k. p < k \<and> k \<le> r \<longrightarrow> (k mod 2 ^ 64) mod L \<noteq> (0 :: nat)"
  shows "r < p + L"
proof (rule ccontr)
  assume "\<not> r < p + L"
  then have r: "p + L \<le> r" by simp
  define q where "q = p mod 2 ^ 64"
  have q: "q < 2 ^ 64" "\<exists>c. p = c * 2 ^ 64 + q" unfolding q_def by (simp, metis div_mult_mod_eq)
  then obtain c where c: "p = c * 2 ^ 64 + q" by blast
  show False
  proof (cases "q + L < 2 ^ 64")
    case True
    define k where "k = p + (L - q mod L)"
    have qL: "q mod L < L" using assms(1) by simp
    then have "p < k" "k \<le> r" using r by (auto simp: k_def)
    moreover have "q + (L - q mod L) = L * (q div L + 1)"
      using qL mult_div_mod_eq [of L q] by (simp only: distrib_left mult_1_right)
    moreover have "k mod 2 ^ 64 = q + (L - q mod L)" using True by (simp add: k_def c add.assoc)
    ultimately show False using assms(3) by fastforce
  next
    case False
    let ?k = "p + (2 ^ 64 - q)"
    have "?k = (c + 1) * 2 ^ 64" using q(1) by (simp add: c)
    then have "?k mod 2 ^ 64 = 0" by (simp only: mod_mult_self2_is_0)
    moreover have "p < ?k" "?k \<le> r" using False r q(1) by auto
    ultimately show False using assms(3) [rule_format, of ?k] by (simp only: mod_0) blast
  qed
qed


subsection \<open>One direction\<close>

definition flow_conn :: "addr \<Rightarrow> addr \<Rightarrow> addr \<Rightarrow> int \<Rightarrow> world \<Rightarrow> pipe_t \<Rightarrow> pipe_t \<Rightarrow> bool" where
  "flow_conn i j a h w pi pj \<longleftrightarrow> pipes w i = Some pi \<and> pipes w j = Some pj \<and> i \<noteq> j \<and>
     outpipe pi = Some a \<and> inpipe pj = Some a \<and> peer pi = Some j \<and> peer pj = Some i \<and>
     state pi = active \<and> state pj = active \<and> sink pi \<noteq> None \<and> sink pj \<noteq> None \<and>
     hwm pi = h \<and> lwm pj = compute_lwm h \<and> 0 < h \<and> h < 2 ^ 31"

text \<open>
  \<open>q\<close> are the messages that the reader can still get, \<open>inc\<close> the parts of an unfinished one.
  \<open>oa\<close> is the flag \<open>out_active\<close> of the writer.
\<close>

definition flow_nums :: "int \<Rightarrow> msg_t list \<Rightarrow> bool \<Rightarrow> nat \<Rightarrow> nat \<Rightarrow> nat \<Rightarrow> nat list \<Rightarrow> bool" where
  "flow_nums h q oa nw nr np ks \<longleftrightarrow> sorted (np # ks) \<and> last (np # ks) \<le> nr \<and>
     (\<forall>k. last (np # ks) < k \<and> k \<le> nr \<longrightarrow> (k mod 2 ^ 64) mod nat (compute_lwm h) \<noteq> 0) \<and>
     nw = nr + ncount q \<and> nw \<le> np + nat h \<and> (\<not> oa \<longrightarrow> nw = np + nat h)"

lemma nums_bounds:
  assumes "flow_nums h q oa nw nr np ks"
  shows "np \<le> nr" "nr \<le> nw" "nw \<le> np + nat h" "nw = nr + ncount q" "\<not> oa \<Longrightarrow> nw = np + nat h"
proof -
  have "np \<le> last (np # ks)" using assms by (simp add: flow_nums_def)
  then show "np \<le> nr" using assms unfolding flow_nums_def by linarith
qed (use assms in \<open>auto simp: flow_nums_def\<close>)

lemma nums_block: "flow_nums h q oa nw nr np ks \<Longrightarrow> nw = np + nat h \<Longrightarrow> flow_nums h q False nw nr np ks"
  by (simp add: flow_nums_def)

lemma nums_write:
  assumes "flow_nums h q True nw nr np ks" and "nw \<noteq> np + nat h" and "ncount q' = ncount q + n" and "n \<le> 1"
  shows "flow_nums h q' True (nw + n) nr np ks"
  using assms unfolding flow_nums_def by auto

lemma nums_report: "flow_nums h q oa nw nr np (k # ks) \<Longrightarrow> flow_nums h q True nw nr k ks"
  by (auto simp: flow_nums_def split: if_splits)

lemma nums_read:
  assumes "flow_nums h (m # q) oa nw nr np ks" and "nr' = (if counts m then nr + 1 else nr)"
    and "ks' = (if (nr' mod 2 ^ 64) mod nat (compute_lwm h) = 0 then ks @ [nr'] else ks)"
  shows "flow_nums h q oa nw nr' np ks'"
proof -
  have r: "sorted (np # ks)" "last (np # ks) \<le> nr" "nr' = nr \<or> nr' = Suc nr" "nr' + ncount q = nw"
    "\<forall>k. last (np # ks) < k \<and> k \<le> nr \<longrightarrow> (k mod 2 ^ 64) mod nat (compute_lwm h) \<noteq> 0"
    using assms(1,2) by (auto simp: flow_nums_def)
  have "np \<le> nr" using nums_bounds(1) [OF assms(1)] .
  moreover have "k \<le> nr" if "k \<in> set ks" for k
    using that r(1,2) by (cases ks rule: rev_cases) (auto simp: sorted_append)
  ultimately have "sorted (np # ks')" using r(1,3) by (auto simp: assms(3) sorted_append le_SucI)
  moreover have "last (np # ks') \<le> nr'" using r(2,3) by (auto simp: assms(3) split: if_splits)
  moreover have "\<forall>k. last (np # ks') < k \<and> k \<le> nr' \<longrightarrow> (k mod 2 ^ 64) mod nat (compute_lwm h) \<noteq> 0"
  proof (cases "(nr' mod 2 ^ 64) mod nat (compute_lwm h) = 0")
    case False
    then have "ks' = ks" by (simp add: assms(3))
    then show ?thesis using r(3,5) False by (metis le_SucE)
  qed (simp add: assms(3))
  moreover have "nw \<le> np + nat h" "\<not> oa \<longrightarrow> nw = np + nat h" using nums_bounds [OF assms(1)] by simp_all
  moreover have "nw = nr' + ncount q" using r(4) by simp
  ultimately show ?thesis unfolding flow_nums_def by (intro conjI)
qed

definition flow_count ::
  "addr \<Rightarrow> int \<Rightarrow> pipe_t \<Rightarrow> pipe_t \<Rightarrow> (addr \<times> pipe_cmd) list \<Rightarrow> msg_t list \<Rightarrow> msg_t list \<Rightarrow> nat \<Rightarrow> nat \<Rightarrow> nat \<Rightarrow> nat list \<Rightarrow> bool" where
  "flow_count i h pi pj cs q inc nw nr np ks \<longleftrightarrow>
     msgs_written pi = of_nat nw \<and> msgs_read pj = of_nat nr \<and> peers_msgs_read pi = of_nat np \<and>
     reports i cs = map of_nat ks \<and> flow_nums h q (out_active pi) nw nr np ks \<and>
     (\<forall>m \<in> set inc. msg_more m) \<and> (\<forall>m \<in> set (q @ inc). \<not> msg_is_delimiter m)"

text \<open>A reader that has gone to sleep has found the queue empty, or a wake-up is under way.\<close>

definition flow_wake :: "addr \<Rightarrow> pipe_t \<Rightarrow> (addr \<times> pipe_cmd) list \<Rightarrow> msg_t list \<Rightarrow> bool \<Rightarrow> bool" where
  "flow_wake j pj cs fl z \<longleftrightarrow> (z \<longrightarrow> fl = []) \<and> (\<not> in_active pj \<longrightarrow> z \<or> (j, Activate_read) \<in> set cs)"

definition flow_inv :: "addr \<Rightarrow> addr \<Rightarrow> addr \<Rightarrow> int \<Rightarrow> world \<Rightarrow> bool" where
  "flow_inv i j a h w \<longleftrightarrow> (\<exists>pi pj fl un inc z nw nr np ks. flow_conn i j a h w pi pj \<and> up_view w a fl un inc z \<and>
     flow_count i h pi pj (cmds w) (fl @ un) inc nw nr np ks \<and> flow_wake j pj (cmds w) fl z)"

lemma flow_invI:
  "flow_conn i j a h w pi pj \<Longrightarrow> up_view w a fl un inc z \<Longrightarrow> flow_count i h pi pj (cmds w) (fl @ un) inc nw nr np ks \<Longrightarrow>
   flow_wake j pj (cmds w) fl z \<Longrightarrow> flow_inv i j a h w"
  unfolding flow_inv_def by blast

lemma flow_invE:
  assumes "flow_inv i j a h w"
  obtains pi pj fl un inc z nw nr np ks where "flow_conn i j a h w pi pj" "up_view w a fl un inc z"
    "flow_count i h pi pj (cmds w) (fl @ un) inc nw nr np ks" "flow_wake j pj (cmds w) fl z"
  using assms unfolding flow_inv_def by blast

text \<open>What the other direction of the same connection leaves alone.\<close>

definition pipe_same_out :: "pipe_t \<Rightarrow> pipe_t \<Rightarrow> bool" where
  "pipe_same_out p p' \<longleftrightarrow> outpipe p' = outpipe p \<and> peer p' = peer p \<and> state p' = state p \<and> sink p' = sink p \<and> hwm p' = hwm p \<and>
     msgs_written p' = msgs_written p \<and> peers_msgs_read p' = peers_msgs_read p \<and> out_active p' = out_active p"

definition pipe_same_in :: "pipe_t \<Rightarrow> pipe_t \<Rightarrow> bool" where
  "pipe_same_in p p' \<longleftrightarrow> inpipe p' = inpipe p \<and> peer p' = peer p \<and> state p' = state p \<and> sink p' = sink p \<and> lwm p' = lwm p \<and>
     msgs_read p' = msgs_read p \<and> in_active p' = in_active p"

lemma flow_inv_frame:
  assumes "flow_inv i j a h w" and "pipes w i = Some pi" and "pipes w j = Some pj"
    and "pipes w' i = Some pi'" and "pipes w' j = Some pj'" and "pipe_same_out pi pi'" and "pipe_same_in pj pj'"
    and "upipes w' a = upipes w a" and "reports i (cmds w') = reports i (cmds w)"
    and "(j, Activate_read) \<in> set (cmds w) \<Longrightarrow> (j, Activate_read) \<in> set (cmds w')"
  shows "flow_inv i j a h w'"
proof -
  obtain qi qj fl un inc z nw nr np ks where f: "flow_conn i j a h w qi qj" "up_view w a fl un inc z"
    "flow_count i h qi qj (cmds w) (fl @ un) inc nw nr np ks" "flow_wake j qj (cmds w) fl z"
    using assms(1) by (rule flow_invE)
  have q: "qi = pi" "qj = pj" using f(1) assms(2,3) by (simp_all add: flow_conn_def)
  have "flow_conn i j a h w' pi' pj'" using f(1) assms(4-7) unfolding q by (simp add: flow_conn_def pipe_same_out_def pipe_same_in_def)
  moreover have "up_view w' a fl un inc z" using f(2) up_view_frame [OF assms(8)] by simp
  moreover have "flow_count i h pi' pj' (cmds w') (fl @ un) inc nw nr np ks"
    using f(3) assms(6,7,9) unfolding q by (simp add: flow_count_def pipe_same_out_def pipe_same_in_def)
  moreover have "flow_wake j pj' (cmds w') fl z" using f(4) assms(7,10) unfolding q by (auto simp: flow_wake_def pipe_same_in_def)
  ultimately show ?thesis by (rule flow_invI)
qed

lemma pipe_same_refl [simp]: "pipe_same_out p p" "pipe_same_in p p"
  by (simp_all add: pipe_same_out_def pipe_same_in_def)

text \<open>Writing, from the side of the writer.\<close>

lemma hwm_reached:
  assumes "flow_conn i j a h w pi pj" and "flow_count i h pi pj cs q inc nw nr np ks"
  shows "(msgs_written pi - peers_msgs_read pi = of_int (hwm pi)) \<longleftrightarrow> nw = np + nat h"
proof -
  have h: "0 < h" "h < 2 ^ 31" "hwm pi = h" using assms(1) by (simp_all add: flow_conn_def)
  have n: "np \<le> nw" "nw \<le> np + nat h" using assms(2) nums_bounds [of h q "out_active pi" nw nr np ks] by (auto simp: flow_count_def)
  then have "msgs_written pi - peers_msgs_read pi = of_nat (nw - np)" using assms(2) by (simp add: flow_count_def of_nat_diff)
  moreover have "(of_int (hwm pi) :: uint64) = of_nat (nat h)" using h by simp
  moreover have "(of_nat (nw - np) :: uint64) = of_nat (nat h) \<longleftrightarrow> nw - np = nat h"
    using n h by (simp only: word_of_nat_eq_iff) (simp add: take_bit_nat_eq_self)
  ultimately show ?thesis using n by auto
qed

lemma pipe_check_write_flow:
  assumes "flow_inv i j a h w" and "pipes w i = Some p"
  shows "\<exists>ok p'. pipe_check_write i w = Some (ok, set_pipe i p' w) \<and> flow_inv i j a h (set_pipe i p' w) \<and> pipe_same_in p p' \<and>
    (ok \<longrightarrow> p' = p \<and> out_active p \<and> msgs_written p - peers_msgs_read p \<noteq> of_int (hwm p))"
proof -
  obtain pi pj fl un inc z nw nr np ks where f: "flow_conn i j a h w pi pj" "up_view w a fl un inc z"
    "flow_count i h pi pj (cmds w) (fl @ un) inc nw nr np ks" "flow_wake j pj (cmds w) fl z"
    using assms(1) by (rule flow_invE)
  have p: "pi = p" using f(1) assms(2) by (simp add: flow_conn_def)
  have keep: "set_pipe i p w = w" using assms(2) by (cases w) (simp add: set_pipe_def fun_upd_idem)
  show ?thesis
  proof (cases "out_active p \<and> nw = np + nat h")
    case True
    let ?p = "p\<lparr>out_active := False\<rparr>"
    have "pipe_check_write i w = Some (False, set_pipe i ?p w)"
      using True f(1) hwm_reached [OF f(1,3)] p assms(2) by (simp add: pipe_check_write_def flow_conn_def)
    moreover have "flow_conn i j a h (set_pipe i ?p w) ?p pj" using f(1) p by (auto simp: flow_conn_def)
    moreover have "up_view (set_pipe i ?p w) a fl un inc z" using f(2) by (simp add: up_view_def)
    moreover have "flow_count i h ?p pj (cmds (set_pipe i ?p w)) (fl @ un) inc nw nr np ks"
      using f(3) True p nums_block by (auto simp: flow_count_def)
    moreover have "flow_wake j pj (cmds (set_pipe i ?p w)) fl z" using f(4) by simp
    ultimately show ?thesis using flow_invI [of i j a h "set_pipe i ?p w" ?p pj fl un inc z nw nr np ks]
      by (intro exI [of _ False] exI [of _ ?p]) (simp add: pipe_same_in_def)
  next
    case False
    have "pipe_check_write i w = Some (out_active p, w)"
      using False f(1) hwm_reached [OF f(1,3)] p assms(2) by (auto simp: pipe_check_write_def flow_conn_def)
    then show ?thesis using assms(1) keep False hwm_reached [OF f(1,3)] p by (intro exI [of _ "out_active p"] exI [of _ p]) auto
  qed
qed

text \<open>The commands of flow control.\<close>

fun flow_cmd :: "addr \<times> pipe_cmd \<Rightarrow> bool" where
  "flow_cmd (d, Activate_read) = True"
| "flow_cmd (d, Activate_write n) = True"
| "flow_cmd c = False"

text \<open>The opposite direction, from \<open>j\<close> to \<open>i\<close>, is kept by an operation on this one, and only commands
  of flow control are sent.\<close>

definition keeps_back :: "addr \<Rightarrow> addr \<Rightarrow> addr \<Rightarrow> world \<Rightarrow> world \<Rightarrow> bool" where
  "keeps_back i j a w w' \<longleftrightarrow> (\<forall>b h. b \<noteq> a \<longrightarrow> flow_inv j i b h w \<longrightarrow> flow_inv j i b h w') \<and>
     (\<forall>c \<in> set (cmds w') - set (cmds w). flow_cmd c)"

lemma keeps_back_writer:
  assumes "pipes w i = Some p" and "pipes w' = (pipes w)(i \<mapsto> p')" and "pipe_same_in p p'" and "\<And>b. b \<noteq> a \<Longrightarrow> upipes w' b = upipes w b"
    and "reports j (cmds w') = reports j (cmds w)" and "(i, Activate_read) \<in> set (cmds w) \<Longrightarrow> (i, Activate_read) \<in> set (cmds w')"
    and "\<forall>c \<in> set (cmds w') - set (cmds w). flow_cmd c"
  shows "keeps_back i j a w w'"
  unfolding keeps_back_def
proof (intro conjI allI impI)
  fix b h assume b: "b \<noteq> a" and f: "flow_inv j i b h w"
  then obtain q where "pipes w j = Some q" "i \<noteq> j" by (auto simp: flow_inv_def flow_conn_def)
  then show "flow_inv j i b h w'" using assms b by (intro flow_inv_frame [OF f, where pi = q and pi' = q and pj = p and pj' = p']) auto
qed (rule assms(7))

lemma keeps_back_reader:
  assumes "pipes w j = Some p" and "pipes w' = (pipes w)(j \<mapsto> p')" and "pipe_same_out p p'" and "\<And>b. b \<noteq> a \<Longrightarrow> upipes w' b = upipes w b"
    and "reports j (cmds w') = reports j (cmds w)" and "(i, Activate_read) \<in> set (cmds w) \<Longrightarrow> (i, Activate_read) \<in> set (cmds w')"
    and "\<forall>c \<in> set (cmds w') - set (cmds w). flow_cmd c"
  shows "keeps_back i j a w w'"
  unfolding keeps_back_def
proof (intro conjI allI impI)
  fix b h assume b: "b \<noteq> a" and f: "flow_inv j i b h w"
  then obtain q where "pipes w i = Some q" "i \<noteq> j" by (auto simp: flow_inv_def flow_conn_def)
  then show "flow_inv j i b h w'" using assms b by (intro flow_inv_frame [OF f, where pi = p and pi' = p' and pj = q and pj' = q]) auto
qed (rule assms(7))

lemma set_pipe_same: "pipes w i = Some p \<Longrightarrow> set_pipe i p w = w"
  by (cases w) (simp add: set_pipe_def fun_upd_idem)

lemma pipe_write_flow:
  assumes "flow_inv i j a h w" and "\<not> msg_is_delimiter m"
  shows "\<exists>ok m' w'. pipe_write i m w = Some (ok, m', w') \<and> flow_inv i j a h w' \<and> keeps_back i j a w w'"
proof -
  obtain p where p: "pipes w i = Some p" using assms(1) by (auto simp: flow_inv_def flow_conn_def)
  obtain ok p' where c: "pipe_check_write i w = Some (ok, set_pipe i p' w)" "flow_inv i j a h (set_pipe i p' w)" "pipe_same_in p p'"
    "ok \<longrightarrow> p' = p \<and> out_active p \<and> msgs_written p - peers_msgs_read p \<noteq> of_int (hwm p)"
    using pipe_check_write_flow [OF assms(1) p] by blast
  show ?thesis
  proof (cases ok)
    case False
    then show ?thesis using c p by (intro exI [of _ False] exI [of _ m] exI [of _ "set_pipe i p' w"])
        (auto simp: pipe_write_def intro: keeps_back_writer)
  next
    case True
    then have chk: "pipe_check_write i w = Some (True, w)" and oa: "out_active p" using c(1,4) set_pipe_same [OF p] by auto
    obtain pi pj fl un inc z nw nr np ks where f: "flow_conn i j a h w pi pj" "up_view w a fl un inc z"
      "flow_count i h pi pj (cmds w) (fl @ un) inc nw nr np ks" "flow_wake j pj (cmds w) fl z"
      using assms(1) by (rule flow_invE)
    have pi: "pi = p" using f(1) p by (simp add: flow_conn_def)
    have room: "nw \<noteq> np + nat h" using c(4) True hwm_reached [OF f(1,3)] pi by simp
    obtain u where u: "up_write a m (msg_more m) w = Some (m, set_upipe a u w)"
      "if msg_more m then up_view (set_upipe a u w) a fl un (inc @ [m]) z
       else up_view (set_upipe a u w) a fl (un @ inc @ [m]) [] z" using up_write_view [OF f(2)] by blast
    define p2 where "p2 = (if counts m then p\<lparr>msgs_written := msgs_written p + 1\<rparr> else p)"
    define w2 where "w2 = set_pipe i p2 (set_upipe a u w)"
    have out: "outpipe p = Some a" using f(1) pi by (simp add: flow_conn_def)
    have wr: "pipe_write i m w = Some (True, m, w2)"
      using chk p out u(1) set_pipe_same [of "set_upipe a u w" i p]
      by (simp add: pipe_write_def w2_def p2_def counts_def Let_def)
    have conn: "flow_conn i j a h w2 p2 pj" using f(1) pi by (auto simp: flow_conn_def w2_def p2_def)
    have wake: "flow_wake j pj (cmds w2) fl z" using f(4) by (simp add: w2_def)
    have view: "up_view w2 a x y v z' \<longleftrightarrow> up_view (set_upipe a u w) a x y v z'" for x y v z' by (rule up_view_frame) (simp add: w2_def)
    have nums: "flow_nums h (fl @ un) True nw nr np ks" using f(3) oa pi by (simp add: flow_count_def)
    have "flow_inv i j a h w2"
    proof (cases "msg_more m")
      case True
      then have p2: "p2 = p" by (simp add: p2_def counts_def)
      have "flow_count i h p2 pj (cmds w2) (fl @ un) (inc @ [m]) nw nr np ks"
        using f(3) True assms(2) unfolding p2 pi by (auto simp: flow_count_def w2_def)
      then show ?thesis using u(2) True view conn wake by (intro flow_invI) auto
    next
      case False
      let ?n = "if counts m then 1 else 0"
      have "ncount inc = 0" using f(3) by (intro ncount_parts) (simp add: flow_count_def)
      then have "flow_nums h (fl @ un @ inc @ [m]) True (nw + ?n) nr np ks" by (intro nums_write [OF nums room]) auto
      then have "flow_count i h p2 pj (cmds w2) (fl @ un @ inc @ [m]) [] (nw + ?n) nr np ks"
        using f(3) assms(2) oa unfolding pi by (auto simp: flow_count_def w2_def p2_def)
      then show ?thesis using u(2) False view conn wake by (intro flow_invI [of i j a h w2 p2 pj fl "un @ inc @ [m]"]) auto
    qed
    moreover have "keeps_back i j a w w2"
      by (rule keeps_back_writer [OF p, where p' = p2]) (auto simp: w2_def p2_def pipe_same_in_def)
    ultimately show ?thesis using wr by blast
  qed
qed

lemma pipe_flush_flow:
  assumes "flow_inv i j a h w"
  shows "\<exists>w'. pipe_flush i w = Some w' \<and> flow_inv i j a h w' \<and> keeps_back i j a w w'"
proof -
  obtain pi pj fl un inc z nw nr np ks where f: "flow_conn i j a h w pi pj" "up_view w a fl un inc z"
    "flow_count i h pi pj (cmds w) (fl @ un) inc nw nr np ks" "flow_wake j pj (cmds w) fl z"
    using assms(1) by (rule flow_invE)
  obtain u where u: "up_flush a w = Some (un = [] \<or> \<not> z, set_upipe a u w)"
    "up_view (set_upipe a u w) a (fl @ un) [] inc (z \<and> un = [])" using up_flush_view [OF f(2)] by blast
  define w2 where "w2 = (if un = [] \<or> \<not> z then set_upipe a u w else (set_upipe a u w)\<lparr>cmds := cmds w @ [(j, Activate_read)]\<rparr>)"
  have "pipe_flush i w = Some w2" using f(1) u(1) by (simp add: pipe_flush_def flow_conn_def send_cmd_def w2_def)
  moreover have "flow_inv i j a h w2"
  proof (rule flow_invI)
    show "flow_conn i j a h w2 pi pj" using f(1) by (simp add: flow_conn_def w2_def)
    show "up_view w2 a (fl @ un) [] inc (z \<and> un = [])" 
      by (subst up_view_frame [of _ _ "set_upipe a u w"]) (simp add: w2_def, rule u(2))
    show "flow_count i h pi pj (cmds w2) ((fl @ un) @ []) inc nw nr np ks" using f(3) by (simp add: flow_count_def w2_def)
    show "flow_wake j pj (cmds w2) (fl @ un) (z \<and> un = [])" using f(4) by (auto simp: flow_wake_def w2_def)
  qed
  moreover have "keeps_back i j a w w2"
    by (rule keeps_back_writer [where p = pi and p' = pi]) (use f(1) in \<open>auto simp: w2_def flow_conn_def fun_upd_idem\<close>)
  ultimately show ?thesis by blast
qed

text \<open>Reading, from the side of the reader.\<close>

lemma pipe_sleep_flow:
  assumes "flow_inv i j a h w" and "pipes w j = Some p" and "up_view (set_upipe a u w) a [] un inc True"
    and "flow_conn i j a h w pi p" and "flow_count i h pi p (cmds w) un inc nw nr np ks"
  shows "flow_inv i j a h (set_pipe j (p\<lparr>in_active := False\<rparr>) (set_upipe a u w)) \<and>
    keeps_back i j a w (set_pipe j (p\<lparr>in_active := False\<rparr>) (set_upipe a u w))" (is "flow_inv i j a h ?w \<and> _")
proof
  show "flow_inv i j a h ?w"
  proof (rule flow_invI)
    show "flow_conn i j a h ?w pi (p\<lparr>in_active := False\<rparr>)" using assms(4) by (auto simp: flow_conn_def)
    show "up_view ?w a [] un inc True" by (subst up_view_frame [of _ _ "set_upipe a u w"]) (simp, rule assms(3))
    show "flow_count i h pi (p\<lparr>in_active := False\<rparr>) (cmds ?w) ([] @ un) inc nw nr np ks" using assms(5) by (simp add: flow_count_def)
    show "flow_wake j (p\<lparr>in_active := False\<rparr>) (cmds ?w) [] True" by (simp add: flow_wake_def)
  qed
  show "keeps_back i j a w ?w"
    by (rule keeps_back_reader [OF assms(2), where p' = "p\<lparr>in_active := False\<rparr>"]) (auto simp: pipe_same_out_def)
qed

lemma pipe_read_flow:
  assumes "flow_inv i j a h w"
  shows "\<exists>m w'. pipe_read j w = Some (m, w') \<and> flow_inv i j a h w' \<and> keeps_back i j a w w'"
proof -
  obtain pi pj fl un inc z nw nr np ks where f: "flow_conn i j a h w pi pj" "up_view w a fl un inc z"
    "flow_count i h pi pj (cmds w) (fl @ un) inc nw nr np ks" "flow_wake j pj (cmds w) fl z"
    using assms(1) by (rule flow_invE)
  have pj: "pipes w j = Some pj" "inpipe pj = Some a" "state pj = active" "peer pj = Some i" "lwm pj = compute_lwm h" "0 < compute_lwm h"
    using f(1) compute_lwm_bounds(1) by (simp_all add: flow_conn_def)
  consider "\<not> in_active pj" | "in_active pj" "fl = []" | m ms where "in_active pj" "fl = m # ms" by (cases fl) auto
  then show ?thesis
  proof cases
    case 1
    then show ?thesis using assms pj by (auto simp: pipe_read_def keeps_back_def)
  next
    case 2
    obtain u where u: "up_read a w = Some (None, set_upipe a u w)" "up_view (set_upipe a u w) a [] un inc True"
      using up_read_view(1) [OF f(2) 2(2)] by blast
    then have "pipe_read j w = Some (None, set_pipe j (pj\<lparr>in_active := False\<rparr>) (set_upipe a u w))"
      using 2 pj by (simp add: pipe_read_def)
    then show ?thesis using pipe_sleep_flow [OF assms pj(1) u(2) f(1)] f(3) 2(2) by auto
  next
    case 3
    obtain u where u: "up_read a w = Some (Some m, set_upipe a u w)" "up_view (set_upipe a u w) a ms un inc z"
      using up_read_view(2) [OF f(2) 3(2)] by blast
    define nr' where "nr' = (if counts m then nr + 1 else nr)"
    define ks' where "ks' = (if (nr' mod 2 ^ 64) mod nat (compute_lwm h) = 0 then ks @ [nr'] else ks)"
    define p where "p = pj\<lparr>msgs_read := of_nat nr'\<rparr>"
    define w1 where "w1 = set_pipe j p (set_upipe a u w)"
    define w2 where "w2 = (if (nr' mod 2 ^ 64) mod nat (compute_lwm h) = 0 then w1\<lparr>cmds := cmds w @ [(i, Activate_write (of_nat nr'))]\<rparr> else w1)"
    have rd: "msgs_read pj = of_nat nr" and nod: "\<not> msg_is_delimiter m" using f(3) 3 by (simp_all add: flow_count_def)
    have cnt: "(if \<not> msg_more m \<and> \<not> msg_is_identity m then msgs_read pj + 1 else msgs_read pj) = of_nat nr'"
      by (simp add: nr'_def counts_def rd)
    have un: "unat (of_nat nr' :: uint64) = nr' mod 2 ^ 64" by (simp add: unat_of_nat take_bit_eq_mod)
    have "pipe_read j w = Some (Some m, w2)"
      using 3 pj u(1) nod unfolding pipe_read_def by (simp add: cnt un Let_def w2_def w1_def p_def send_cmd_def)
    moreover have "flow_inv i j a h w2"
    proof (rule flow_invI)
      show "flow_conn i j a h w2 pi p" using f(1) by (auto simp: flow_conn_def w2_def w1_def p_def)
      show "up_view w2 a ms un inc z" by (subst up_view_frame [of _ _ "set_upipe a u w"]) (simp add: w2_def w1_def, rule u(2))
      have "flow_nums h (ms @ un) (out_active pi) nw nr' np ks'"
        using f(3) 3 by (intro nums_read [OF _ nr'_def ks'_def]) (simp add: flow_count_def)
      then show "flow_count i h pi p (cmds w2) (ms @ un) inc nw nr' np ks'"
        using f(3) 3 by (auto simp: flow_count_def w2_def w1_def p_def ks'_def)
      show "flow_wake j p (cmds w2) ms z" using f(4) 3 by (simp add: flow_wake_def p_def)
    qed
    moreover have "keeps_back i j a w w2"
      using f(1) by (intro keeps_back_reader [OF pj(1), where p' = p]) (auto simp: w2_def w1_def p_def pipe_same_out_def flow_conn_def)
    ultimately show ?thesis by blast
  qed
qed

lemma pipe_check_read_flow:
  assumes "flow_inv i j a h w"
  shows "\<exists>ok w'. pipe_check_read j w = Some (ok, w') \<and> flow_inv i j a h w' \<and> keeps_back i j a w w'"
proof -
  obtain pi pj fl un inc z nw nr np ks where f: "flow_conn i j a h w pi pj" "up_view w a fl un inc z"
    "flow_count i h pi pj (cmds w) (fl @ un) inc nw nr np ks" "flow_wake j pj (cmds w) fl z"
    using assms(1) by (rule flow_invE)
  have pj: "pipes w j = Some pj" "inpipe pj = Some a" "state pj = active" using f(1) by (simp_all add: flow_conn_def)
  obtain u where u: "up_check_read a w = Some (fl \<noteq> [], set_upipe a u w)"
    "up_view (set_upipe a u w) a fl un inc (z \<or> fl = [])" using up_check_read_view [OF f(2)] by blast
  consider "\<not> in_active pj" | "in_active pj" "fl = []" | m ms where "in_active pj" "fl = m # ms" by (cases fl) auto
  then show ?thesis
  proof cases
    case 1
    then show ?thesis using assms pj by (auto simp: pipe_check_read_def keeps_back_def)
  next
    case 2
    then have "pipe_check_read j w = Some (False, set_pipe j (pj\<lparr>in_active := False\<rparr>) (set_upipe a u w))"
      using pj u(1) by (simp add: pipe_check_read_def)
    then show ?thesis using pipe_sleep_flow [OF assms pj(1) _ f(1), of u un inc nw nr np ks] u(2) f(3) 2(2) by auto
  next
    case 3
    then have v: "up_view (set_upipe a u w) a (m # ms) un inc z" using u(2) by simp
    obtain u' where u': "up_probe msg_is_delimiter a (set_upipe a u w) = Some (msg_is_delimiter m, set_upipe a u' (set_upipe a u w))"
      "up_view (set_upipe a u' (set_upipe a u w)) a (m # ms) un inc z" using up_probe_view [OF v] by blast
    let ?w = "set_upipe a u' (set_upipe a u w)"
    have "\<not> msg_is_delimiter m" using f(3) 3 by (simp add: flow_count_def)
    then have "pipe_check_read j w = Some (True, ?w)" using 3 pj u(1) u'(1) by (simp add: pipe_check_read_def)
    moreover have "flow_inv i j a h ?w"
    proof (rule flow_invI)
      show "flow_conn i j a h ?w pi pj" using f(1) by (simp add: flow_conn_def)
      show "up_view ?w a fl un inc z" using u'(2) 3 by simp
      show "flow_count i h pi pj (cmds ?w) (fl @ un) inc nw nr np ks" using f(3) by simp
      show "flow_wake j pj (cmds ?w) fl z" using f(4) by simp
    qed
    moreover have "keeps_back i j a w ?w"
      by (rule keeps_back_reader [OF pj(1), where p' = pj]) (auto simp: pj fun_upd_idem)
    ultimately show ?thesis by blast
  qed
qed

text \<open>Processing a command. The oldest command for its destination is taken, past those for others.\<close>

lemma reports_other: "i \<notin> fst ` set xs \<Longrightarrow> reports i xs = []"
  by (induction xs) (auto simp: report_to_def split: pipe_cmd.splits)

lemma activate_write_flow:
  assumes "flow_inv i j a h w" and "cmds w = xs @ (i, Activate_write n) # ys" and "i \<notin> fst ` set xs"
  shows "\<exists>w'. pipe_process_command i (Activate_write n) (w\<lparr>cmds := xs @ ys\<rparr>) = Some w' \<and> flow_inv i j a h w' \<and> keeps_back i j a w w'"
proof -
  obtain pi pj fl un inc z nw nr np ks where f: "flow_conn i j a h w pi pj" "up_view w a fl un inc z"
    "flow_count i h pi pj (cmds w) (fl @ un) inc nw nr np ks" "flow_wake j pj (cmds w) fl z"
    using assms(1) by (rule flow_invE)
  have "reports i (cmds w) = n # reports i ys" using assms(2) reports_other [OF assms(3)] by simp
  then obtain k ks' where ks: "ks = k # ks'" "n = of_nat k" "reports i ys = map of_nat ks'" using f(3) by (auto simp: flow_count_def)
  have pi: "pipes w i = Some pi" "state pi = active" "i \<noteq> j" using f(1) by (simp_all add: flow_conn_def)
  obtain s where s: "sink pi = Some s" using f(1) by (auto simp: flow_conn_def)
  define p where "p = pi\<lparr>peers_msgs_read := n, out_active := True\<rparr>"
  define w2 where "w2 = (if out_active pi then set_pipe i p (w\<lparr>cmds := xs @ ys\<rparr>)
    else (set_pipe i p (w\<lparr>cmds := xs @ ys\<rparr>))\<lparr>events := events w @ [(s, i, Write_activated)]\<rparr>)"
  have keep: "pi\<lparr>peers_msgs_read := n\<rparr> = p" if "out_active pi" using that by (simp add: p_def)
  have "pipe_process_command i (Activate_write n) (w\<lparr>cmds := xs @ ys\<rparr>) = Some w2"
    using pi s by (cases "out_active pi")
      (simp add: pipe_process_command_def pipe_process_activate_write_def w2_def keep,
       simp add: pipe_process_command_def pipe_process_activate_write_def call_sink_def w2_def p_def)
  moreover have "flow_inv i j a h w2"
  proof (rule flow_invI)
    show "flow_conn i j a h w2 p pj" using f(1) by (auto simp: flow_conn_def w2_def p_def)
    show "up_view w2 a fl un inc z" by (subst up_view_frame [of _ _ w]) (simp add: w2_def, rule f(2))
    have "flow_nums h (fl @ un) True nw nr k ks'" using f(3) ks(1) nums_report by (auto simp: flow_count_def)
    then show "flow_count i h p pj (cmds w2) (fl @ un) inc nw nr k ks'"
      using f(3) ks reports_other [OF assms(3)] by (simp add: flow_count_def w2_def p_def)
    show "flow_wake j pj (cmds w2) fl z" using f(4) assms(2) by (simp add: flow_wake_def w2_def)
  qed
  moreover have "keeps_back i j a w w2"
    using pi assms(2) by (intro keeps_back_writer [OF pi(1), where p' = p]) (auto simp: w2_def p_def pipe_same_in_def)
  ultimately show ?thesis by blast
qed

lemma activate_read_flow:
  assumes "flow_inv i j a h w" and "cmds w = xs @ (j, Activate_read) # ys" and "j \<notin> fst ` set xs"
  shows "\<exists>w'. pipe_process_command j Activate_read (w\<lparr>cmds := xs @ ys\<rparr>) = Some w' \<and> flow_inv i j a h w' \<and> keeps_back i j a w w'"
proof -
  obtain pi pj fl un inc z nw nr np ks where f: "flow_conn i j a h w pi pj" "up_view w a fl un inc z"
    "flow_count i h pi pj (cmds w) (fl @ un) inc nw nr np ks" "flow_wake j pj (cmds w) fl z"
    using assms(1) by (rule flow_invE)
  have pj: "pipes w j = Some pj" "state pj = active" "i \<noteq> j" using f(1) by (simp_all add: flow_conn_def)
  obtain s where s: "sink pj = Some s" using f(1) by (auto simp: flow_conn_def)
  define p where "p = pj\<lparr>in_active := True\<rparr>"
  define w2 where "w2 = (if in_active pj then w\<lparr>cmds := xs @ ys\<rparr>
    else (set_pipe j p (w\<lparr>cmds := xs @ ys\<rparr>))\<lparr>events := events w @ [(s, j, Read_activated)]\<rparr>)"
  have keep: "p = pj" if "in_active pj" using that by (simp add: p_def)
  have pw: "pipes w2 = (pipes w)(j \<mapsto> p)" using keep pj(1) by (auto simp: w2_def fun_upd_idem)
  have "pipe_process_command j Activate_read (w\<lparr>cmds := xs @ ys\<rparr>) = Some w2"
    using pj s by (cases "in_active pj") (simp_all add: pipe_process_command_def pipe_process_activate_read_def call_sink_def w2_def p_def)
  moreover have "flow_inv i j a h w2"
  proof (rule flow_invI)
    show "flow_conn i j a h w2 pi p" using f(1) pw by (auto simp: flow_conn_def p_def)
    show "up_view w2 a fl un inc z" by (subst up_view_frame [of _ _ w]) (simp add: w2_def, rule f(2))
    show "flow_count i h pi p (cmds w2) (fl @ un) inc nw nr np ks" using f(3) assms(2) by (simp add: flow_count_def w2_def p_def)
    show "flow_wake j p (cmds w2) fl z" using f(4) by (simp add: flow_wake_def p_def)
  qed
  moreover have "keeps_back i j a w w2"
    using pj assms(2) pw by (intro keeps_back_reader [OF pj(1), where p' = p]) (auto simp: w2_def p_def pipe_same_out_def)
  ultimately show ?thesis by blast
qed

text \<open>Rolling back an unfinished message: its parts were not counted.\<close>

lemma close_in_frame: "close_in m w = Some w' \<Longrightarrow> \<exists>h. w' = w\<lparr>mheap := h\<rparr>"
  by (auto simp: close_in_def zmq_assert_def split: if_splits Option.bind_splits)

lemma rollback_loop_view:
  "rollback_loop a w = Some w' \<Longrightarrow> up_view w a fl un inc z \<Longrightarrow>
    up_view w' a fl un [] z \<and> (\<exists>u h. w' = (set_upipe a u w)\<lparr>mheap := h\<rparr>)"
proof (induction inc arbitrary: w rule: rev_induct)
  case Nil
  then have "w' = w" using up_unwrite_view(1) [OF Nil(2)] by (subst (asm) rollback_loop.simps) simp
  moreover obtain u where "upipes w a = Some u" using Nil(2) by (auto simp: up_view_def)
  then have "w = (set_upipe a u w)\<lparr>mheap := mheap w\<rparr>" by (cases w) (simp add: set_upipe_def fun_upd_idem)
  ultimately show ?case using Nil(2) by blast
next
  case (snoc x xs)
  obtain u where u: "up_unwrite a w = Some (Some x, set_upipe a u w)" "up_view (set_upipe a u w) a fl un xs z"
    using up_unwrite_view(2) [OF snoc(3) refl] by blast
  obtain w1 where w1: "close_in x (set_upipe a u w) = Some w1" "rollback_loop a w1 = Some w'"
    using snoc(2) u(1) by (subst (asm) rollback_loop.simps) (auto simp: zmq_assert_def split: if_splits Option.bind_splits)
  obtain h where h: "w1 = (set_upipe a u w)\<lparr>mheap := h\<rparr>" using close_in_frame [OF w1(1)] by blast
  have "up_view w1 a fl un xs z" using u(2) by (subst up_view_frame [of _ _ "set_upipe a u w"]) (simp_all add: h)
  then obtain u' h' where "up_view w' a fl un [] z" "w' = (set_upipe a u' w1)\<lparr>mheap := h'\<rparr>"
    using snoc(1) [OF w1(2)] by blast
  then show ?case by (intro conjI exI [of _ u'] exI [of _ h']) (simp_all add: h set_upipe_def)
qed

lemma pipe_rollback_flow:
  assumes "flow_inv i j a h w" and "pipe_rollback i w = Some w'"
  shows "flow_inv i j a h w' \<and> keeps_back i j a w w'"
proof -
  obtain pi pj fl un inc z nw nr np ks where f: "flow_conn i j a h w pi pj" "up_view w a fl un inc z"
    "flow_count i h pi pj (cmds w) (fl @ un) inc nw nr np ks" "flow_wake j pj (cmds w) fl z"
    using assms(1) by (rule flow_invE)
  have "rollback_loop a w = Some w'" using assms(2) f(1) by (simp add: pipe_rollback_def flow_conn_def)
  then obtain u h' where w': "up_view w' a fl un [] z" "w' = (set_upipe a u w)\<lparr>mheap := h'\<rparr>"
    using rollback_loop_view [OF _ f(2)] by blast
  have "flow_inv i j a h w'"
  proof (rule flow_invI)
    show "flow_conn i j a h w' pi pj" using f(1) by (simp add: flow_conn_def w'(2))
    show "up_view w' a fl un [] z" by (rule w'(1))
    show "flow_count i h pi pj (cmds w') (fl @ un) [] nw nr np ks" using f(3) by (auto simp: flow_count_def w'(2))
    show "flow_wake j pj (cmds w') fl z" using f(4) by (simp add: w'(2))
  qed
  moreover have "keeps_back i j a w w'"
    using f(1) by (intro keeps_back_writer [where p = pi and p' = pi]) (auto simp: w'(2) flow_conn_def fun_upd_idem)
  ultimately show ?thesis by blast
qed

subsection \<open>A connection\<close>

text \<open>
  The steps of one end of an open connection: everything but \<open>terminate\<close>, which starts the
  protocol of theory Pipe_Term, and \<open>hiccup\<close>, which replaces a queue. Messages that are
  written are not delimiters, which only \<open>terminate\<close> writes. A connection takes steps of both ends.
\<close>

inductive end_step :: "addr \<Rightarrow> world \<Rightarrow> world \<Rightarrow> bool" for e where
  step_write: "\<not> msg_is_delimiter m \<Longrightarrow> pipe_write e m w = Some (ok, m', w') \<Longrightarrow> end_step e w w'"
| step_check_write: "pipe_check_write e w = Some (ok, w') \<Longrightarrow> end_step e w w'"
| step_flush: "pipe_flush e w = Some w' \<Longrightarrow> end_step e w w'"
| step_rollback: "pipe_rollback e w = Some w' \<Longrightarrow> end_step e w w'"
| step_read: "pipe_read e w = Some (m, w') \<Longrightarrow> end_step e w w'"
| step_check_read: "pipe_check_read e w = Some (ok, w') \<Longrightarrow> end_step e w w'"
| step_command: "cmds w = xs @ (e, c) # ys \<Longrightarrow> e \<notin> fst ` set xs \<Longrightarrow>
    pipe_process_command e c (w\<lparr>cmds := xs @ ys\<rparr>) = Some w' \<Longrightarrow> end_step e w w'"

definition conn_step :: "addr \<Rightarrow> addr \<Rightarrow> world \<Rightarrow> world \<Rightarrow> bool" where
  "conn_step i j w w' \<longleftrightarrow> end_step i w w' \<or> end_step j w w'"

text \<open>The two directions use different queues.\<close>

definition connected :: "addr \<Rightarrow> addr \<Rightarrow> addr \<Rightarrow> addr \<Rightarrow> int \<Rightarrow> int \<Rightarrow> world \<Rightarrow> bool" where
  "connected i j a b ha hb w \<longleftrightarrow> a \<noteq> b \<and> flow_inv i j a ha w \<and> flow_inv j i b hb w \<and> (\<forall>c \<in> set (cmds w). flow_cmd c)"

lemma connected_sym: "connected i j a b ha hb w \<Longrightarrow> connected j i b a hb ha w"
  by (auto simp: connected_def)

lemma connected_forward:
  assumes "connected i j a b ha hb w" and "flow_inv i j a ha w'" and "keeps_back i j a w w'"
  shows "connected i j a b ha hb w'"
  using assms by (auto simp: connected_def keeps_back_def)

lemma connected_backward:
  assumes "connected i j a b ha hb w" and "flow_inv j i b hb w'" and "keeps_back j i b w w'"
  shows "connected i j a b ha hb w'"
  using assms by (auto simp: connected_def keeps_back_def)

lemma pipe_check_write_flow':
  assumes "flow_inv i j a h w"
  shows "\<exists>ok w'. pipe_check_write i w = Some (ok, w') \<and> flow_inv i j a h w' \<and> keeps_back i j a w w'"
proof -
  obtain p where p: "pipes w i = Some p" using assms(1) by (auto simp: flow_inv_def flow_conn_def)
  obtain ok p' where "pipe_check_write i w = Some (ok, set_pipe i p' w)" "flow_inv i j a h (set_pipe i p' w)" "pipe_same_in p p'"
    using pipe_check_write_flow [OF assms p] by blast
  moreover have "keeps_back i j a w (set_pipe i p' w)" using calculation(3)
    by (intro keeps_back_writer [OF p, where p' = p']) auto
  ultimately show ?thesis by blast
qed

lemma connectedD:
  assumes "connected i j a b ha hb w"
  shows "flow_inv i j a ha w" "flow_inv j i b hb w" "\<And>c. c \<in> set (cmds w) \<Longrightarrow> flow_cmd c"
  using assms by (auto simp: connected_def)

text \<open>The operations of one end, which writes \<open>a\<close> and reads \<open>b\<close>.\<close>

lemma connected_end:
  assumes "connected i j a b ha hb w"
  shows "\<not> msg_is_delimiter m \<Longrightarrow> \<exists>ok m' w'. pipe_write i m w = Some (ok, m', w') \<and> connected i j a b ha hb w'"
    and "\<exists>ok w'. pipe_check_write i w = Some (ok, w') \<and> connected i j a b ha hb w'"
    and "\<exists>w'. pipe_flush i w = Some w' \<and> connected i j a b ha hb w'"
    and "\<exists>r w'. pipe_read i w = Some (r, w') \<and> connected i j a b ha hb w'"
    and "\<exists>ok w'. pipe_check_read i w = Some (ok, w') \<and> connected i j a b ha hb w'"
    and "cmds w = xs @ (i, c) # ys \<Longrightarrow> i \<notin> fst ` set xs \<Longrightarrow>
      \<exists>w'. pipe_process_command i c (w\<lparr>cmds := xs @ ys\<rparr>) = Some w' \<and> connected i j a b ha hb w'"
proof -
  note f = connectedD [OF assms] and fwd = connected_forward [OF assms] and bwd = connected_backward [OF assms]
  show "\<exists>ok m' w'. pipe_write i m w = Some (ok, m', w') \<and> connected i j a b ha hb w'" if "\<not> msg_is_delimiter m"
    using pipe_write_flow [OF f(1) that] fwd by blast
  show "\<exists>ok w'. pipe_check_write i w = Some (ok, w') \<and> connected i j a b ha hb w'" using pipe_check_write_flow' [OF f(1)] fwd by blast
  show "\<exists>w'. pipe_flush i w = Some w' \<and> connected i j a b ha hb w'" using pipe_flush_flow [OF f(1)] fwd by blast
  show "\<exists>r w'. pipe_read i w = Some (r, w') \<and> connected i j a b ha hb w'" using pipe_read_flow [OF f(2)] bwd by blast
  show "\<exists>ok w'. pipe_check_read i w = Some (ok, w') \<and> connected i j a b ha hb w'" using pipe_check_read_flow [OF f(2)] bwd by blast
  show "\<exists>w'. pipe_process_command i c (w\<lparr>cmds := xs @ ys\<rparr>) = Some w' \<and> connected i j a b ha hb w'"
    if c: "cmds w = xs @ (i, c) # ys" "i \<notin> fst ` set xs"
  proof -
    have "flow_cmd (i, c)" using f(3) c(1) by simp
    then consider "c = Activate_read" | n where "c = Activate_write n" by (cases c) auto
    then show ?thesis
    proof cases
      case 1
      then show ?thesis using activate_read_flow [OF f(2)] c bwd by blast
    next
      case 2
      then show ?thesis using activate_write_flow [OF f(1)] c fwd by blast
    qed
  qed
qed

lemma end_step_connected:
  assumes "end_step i w w'" and "connected i j a b ha hb w"
  shows "connected i j a b ha hb w'"
  using assms(1)
proof cases
  case (step_write m ok m')
  then show ?thesis using connected_end(1) [OF assms(2), of m] by auto
next
  case step_rollback
  then show ?thesis using pipe_rollback_flow [OF connectedD(1) [OF assms(2)]] connected_forward [OF assms(2)] by blast
next
  case step_command
  then show ?thesis using connected_end(6) [OF assms(2)] by fastforce
qed (use connected_end(2-5) [OF assms(2)] in auto)

lemma connected_step:
  assumes "conn_step i j w w'" and "connected i j a b ha hb w"
  shows "connected i j a b ha hb w'"
  using assms end_step_connected connected_sym unfolding conn_step_def by metis

lemma connected_reachable:
  assumes "(conn_step i j)\<^sup>*\<^sup>* w w'" and "connected i j a b ha hb w"
  shows "connected i j a b ha hb w'"
  using assms by (induction rule: rtranclp_induct) (auto intro: connected_step)

text \<open>Setting up a connection: a pair of pipes, each with its owner.\<close>

definition open_connection :: "addr \<Rightarrow> addr \<Rightarrow> int \<Rightarrow> int \<Rightarrow> nat \<Rightarrow> nat \<Rightarrow> world \<Rightarrow> world option" where
  "open_connection i j ha hb si sj w = do {
     w \<leftarrow> pipepair i j (ha, hb) (False, False) w;
     w \<leftarrow> pipe_set_event_sink i si w;
     pipe_set_event_sink j sj w
   }"


lemma open_connection_ok:
  assumes "i \<noteq> j" and "cmds w = []" and "0 < ha" and "ha < 2 ^ 31" and "0 < hb" and "hb < 2 ^ 31"
  shows "\<exists>w' a b. open_connection i j ha hb si sj w = Some w' \<and> connected i j a b ha hb w' \<and>
    pipes w' i = Some ((pipe_new b a hb ha False)\<lparr>peer := Some j, sink := Some si\<rparr>) \<and>
    pipes w' j = Some ((pipe_new a b ha hb False)\<lparr>peer := Some i, sink := Some sj\<rparr>) \<and> cmds w' = [] \<and> up_view w' a [] [] [] False"
proof -
  let ?b = "up_brk w" and ?a = "Suc (up_brk w)"
  obtain u1 where u1: "new_upipe False w = Some (?b, (set_upipe ?b u1 w)\<lparr>up_brk := ?a\<rparr>)"
    "up_view (set_upipe ?b u1 w) ?b [] [] [] False" using new_upipe_view [of w] by blast
  define w1 where "w1 = (set_upipe ?b u1 w)\<lparr>up_brk := ?a\<rparr>"
  have "up_brk w1 = ?a" by (simp add: w1_def)
  then obtain u2 where u2: "new_upipe False w1 = Some (?a, (set_upipe ?a u2 w1)\<lparr>up_brk := Suc ?a\<rparr>)"
    "up_view (set_upipe ?a u2 w1) ?a [] [] [] False" using new_upipe_view [of w1] by auto
  define w2 where "w2 = (set_upipe ?a u2 w1)\<lparr>up_brk := Suc ?a\<rparr>"
  define p where "p = (pipe_new ?b ?a hb ha False)\<lparr>peer := Some j, sink := Some si\<rparr>"
  define q where "q = (pipe_new ?a ?b ha hb False)\<lparr>peer := Some i, sink := Some sj\<rparr>"
  define w' where "w' = w2\<lparr>pipes := (pipes w2)(i \<mapsto> p, j \<mapsto> q)\<rparr>"
  have "open_connection i j ha hb si sj w = Some w'"
    using assms(1) u1(1) u2(1) unfolding open_connection_def pipepair_def
    by (simp add: w1_def [symmetric] w2_def [symmetric] pipe_set_peer_def pipe_set_event_sink_def set_pipe_def pipe_new_def
        w'_def p_def q_def fun_upd_twist)
  moreover have view: "up_view w' ?a [] [] [] False"
    by (subst up_view_frame [of _ _ "set_upipe ?a u2 w1"]) (simp add: w'_def w2_def, rule u2(2))
  moreover have "flow_inv i j ?a ha w'"
  proof (rule flow_invI)
    show "flow_conn i j ?a ha w' p q" using assms by (simp add: flow_conn_def w'_def p_def q_def pipe_new_def)
    show "up_view w' ?a [] [] [] False" by (rule view)
    show "flow_count i ha p q (cmds w') ([] @ []) [] 0 0 0 []"
      using assms by (auto simp: flow_count_def flow_nums_def p_def q_def pipe_new_def w'_def w2_def w1_def)
    show "flow_wake j q (cmds w') [] False" by (simp add: flow_wake_def q_def pipe_new_def)
  qed
  moreover have "flow_inv j i ?b hb w'"
  proof (rule flow_invI)
    show "flow_conn j i ?b hb w' q p" using assms by (simp add: flow_conn_def w'_def p_def q_def pipe_new_def)
    show "up_view w' ?b [] [] [] False"
      by (subst up_view_frame [of _ _ "set_upipe ?b u1 w"]) (simp add: w'_def w2_def w1_def, rule u1(2))
    show "flow_count j hb q p (cmds w') ([] @ []) [] 0 0 0 []"
      using assms by (auto simp: flow_count_def flow_nums_def p_def q_def pipe_new_def w'_def w2_def w1_def)
    show "flow_wake i p (cmds w') [] False" by (simp add: flow_wake_def p_def pipe_new_def)
  qed
  ultimately show ?thesis using assms(1,2)
    by (intro exI [of _ w'] exI [of _ ?a] exI [of _ ?b]) (simp add: connected_def, simp add: w'_def w2_def w1_def p_def q_def)
qed


definition hwm_ok :: "int \<Rightarrow> bool" where
  "hwm_ok h \<longleftrightarrow> 0 < h \<and> h < 2 ^ 31"

lemma reachable_connected:
  assumes "open_connection i j ha hb si sj w0 = Some w" and "(conn_step i j)\<^sup>*\<^sup>* w w'"
    and "i \<noteq> j" and "cmds w0 = []" and "hwm_ok ha" and "hwm_ok hb"
  shows "\<exists>a b. connected i j a b ha hb w'"
proof -
  obtain a b where "connected i j a b ha hb w"
    using open_connection_ok [OF assms(3,4), of ha hb si sj] assms(1,5,6) by (auto simp: hwm_ok_def)
  then show ?thesis using connected_reachable [OF assms(2)] by blast
qed

text \<open>A concrete connection, for the examples: marks of 1 and 1000, nothing written yet.\<close>

definition example_world :: world where
  "example_world = \<lparr>mheap = undefined, upipes = (\<lambda>_. None), up_brk = 0, pipes = (\<lambda>_. None), cmds = [], events = []\<rparr>"

lemma example_connection:
  "\<exists>w a b. open_connection 0 1 1 1000 7 8 example_world = Some w \<and> cmds w = [] \<and> up_view w a [] [] [] False \<and>
    pipes w 0 = Some ((pipe_new b a 1000 1 False)\<lparr>peer := Some 1, sink := Some 7\<rparr>) \<and>
    pipes w 1 = Some ((pipe_new a b 1 1000 False)\<lparr>peer := Some 0, sink := Some 8\<rparr>)"
  using open_connection_ok [of 0 1 example_world 1 1000 7 8] by (force simp: example_world_def)

lemma example_ok: "(0 :: addr) \<noteq> 1" "cmds example_world = []" "hwm_ok 1" "hwm_ok 1000"
  by (simp_all add: example_world_def hwm_ok_def)





text \<open>
  C7: the writer is not blocked for ever. When the other end has read everything and the
  writer has processed the commands for it, \<open>check_write\<close> reports that it can write again:
  the reader reports its progress at least once in every low water mark of messages, also
  where the counter wraps around, and the low water mark is at most the high one.
\<close>

theorem pipe_writer_not_stuck:
  assumes "open_connection i j ha hb si sj w0 = Some w" and "(conn_step i j)\<^sup>*\<^sup>* w w'"
    and "i \<noteq> j" and "cmds w0 = []" and "hwm_ok ha" and "hwm_ok hb"
    and "i \<notin> fst ` set (cmds w')" and "pipes w' i = Some p" and "pipes w' j = Some q" and "msgs_written p = msgs_read q"
  shows "pipe_check_write i w' = Some (True, w')"
proof -
  obtain a b where c: "connected i j a b ha hb w'" using reachable_connected [OF assms(1-6)] by blast
  obtain p' q' fl un inc z nw nr np ks where f: "flow_conn i j a ha w' p' q'"
    "flow_count i ha p' q' (cmds w') (fl @ un) inc nw nr np ks" using connectedD(1) [OF c] by (elim flow_invE)
  have pq: "p' = p" "q' = q" "0 < ha" using f(1) assms(8,9) by (simp_all add: flow_conn_def)
  have nums: "flow_nums ha (fl @ un) (out_active p) nw nr np ks" and ks: "ks = []"
    using f(2) reports_other [OF assms(7)] pq by (auto simp: flow_count_def)
  note n = nums_bounds [OF nums]
  have "(of_nat nw :: uint64) = of_nat nr" using f(2) assms(10) pq by (auto simp: flow_count_def)
  then have "(of_nat (nw - nr) :: uint64) = 0" using n(2) by (simp only: of_nat_diff) simp
  moreover have "nw - nr < 2 ^ 64" using n f(1) by (auto simp: flow_conn_def)
  ultimately have "nw - nr = 0" by (simp only: word_of_nat_eq_0_iff) (use nat_dvd_not_less in force)
  moreover have "nr < np + nat (compute_lwm ha)"
    using nums ks compute_lwm_bounds [OF pq(3)] f(1) by (intro report_gap) (auto simp: flow_nums_def flow_conn_def)
  ultimately have "nw < np + nat ha" using n compute_lwm_bounds [OF pq(3)] by linarith
  moreover from this have "out_active p" using n(5) by auto
  ultimately show ?thesis using hwm_reached [OF f] f(1) pq assms(8) by (auto simp: pipe_check_write_def flow_conn_def)
qed

theorem pipe_writer_not_stuck_witness:
  "\<exists>w. open_connection 0 1 1 1000 7 8 example_world = Some w \<and>
     pipe_check_write 0 w = Some (True, w)"
proof -
  obtain w a b where w: "open_connection 0 1 1 1000 7 8 example_world = Some w" "cmds w = []"
    "pipes w 0 = Some ((pipe_new b a 1000 1 False)\<lparr>peer := Some 1, sink := Some 7\<rparr>)"
    "pipes w 1 = Some ((pipe_new a b 1 1000 False)\<lparr>peer := Some 0, sink := Some 8\<rparr>)" using example_connection by blast
  show ?thesis using w pipe_writer_not_stuck [OF w(1) rtranclp.rtrancl_refl example_ok _ w(3,4)] by (simp add: pipe_new_def)
qed

text \<open>
  C8: no wake-up is lost. When the reading end has gone to sleep and no command for it is under
  way, there is nothing in the queue that was flushed and not read.
\<close>

theorem pipe_no_lost_wakeup:
  assumes "open_connection i j ha hb si sj w0 = Some w" and "(conn_step i j)\<^sup>*\<^sup>* w w'"
    and "i \<noteq> j" and "cmds w0 = []" and "hwm_ok ha" and "hwm_ok hb"
    and "pipes w' j = Some q" and "\<not> in_active q" and "(j, Activate_read) \<notin> set (cmds w')"
  shows "\<exists>a w''. inpipe q = Some a \<and> up_read a w' = Some (None, w'')"
proof -
  obtain a b where c: "connected i j a b ha hb w'" using reachable_connected [OF assms(1-6)] by blast
  obtain p q' fl un inc z nw nr np ks where f: "flow_conn i j a ha w' p q'" "up_view w' a fl un inc z"
    "flow_wake j q' (cmds w') fl z" using connectedD(1) [OF c] by (elim flow_invE)
  have "q' = q" using f(1) assms(7) by (simp add: flow_conn_def)
  then have "fl = []" using f(3) assms(8,9) by (auto simp: flow_wake_def)
  then show ?thesis using up_read_view(1) [OF f(2)] f(1) \<open>q' = q\<close> by (auto simp: flow_conn_def)
qed

theorem pipe_no_lost_wakeup_witness:
  "\<exists>w w' q a w''. open_connection 0 1 1 1000 7 8 example_world = Some w \<and> pipe_read 1 w = Some (None, w') \<and>
     pipes w' 1 = Some q \<and> \<not> in_active q \<and> inpipe q = Some a \<and> up_read a w' = Some (None, w'')"
proof -
  obtain w a b where w: "open_connection 0 1 1 1000 7 8 example_world = Some w" "cmds w = []" "up_view w a [] [] [] False"
    "pipes w 1 = Some ((pipe_new a b 1 1000 False)\<lparr>peer := Some 0, sink := Some 8\<rparr>)" using example_connection by blast
  let ?q = "(pipe_new a b 1 1000 False)\<lparr>peer := Some 0, sink := Some 8, in_active := False\<rparr>"
  obtain u where u: "up_read a w = Some (None, set_upipe a u w)" using up_read_view(1) [OF w(3)] by blast
  let ?w = "set_pipe 1 ?q (set_upipe a u w)"
  have r: "pipe_read 1 w = Some (None, ?w)" using w(4) u by (simp add: pipe_read_def pipe_new_def)
  then have s: "(conn_step 0 1)\<^sup>*\<^sup>* w ?w" by (intro r_into_rtranclp) (auto simp: conn_step_def intro: step_read)
  have "pipes ?w 1 = Some ?q" by simp
  moreover have "\<not> in_active ?q" "(1, Activate_read) \<notin> set (cmds ?w)" using w(2) by simp_all
  ultimately show ?thesis using pipe_no_lost_wakeup [OF w(1) s example_ok, of ?q] w(1) r by blast
qed

end
