(* ===== verification/Pipe_Array.thy ===== *)
theory Pipe_Array
  imports Zmq_Prelude
begin

text \<open>
  The array of pipes with constant-time access, insertion and removal (\<open>array_t\<close> and
  \<open>array_item_t\<close> of \<^verbatim>\<open>src/array.hpp\<close>), which the fair queue, the load balancer and the distributor
  use: a vector of pointers and, in each object, its index in the vector. Out-of-range
  accesses of the vector are the failure \<open>None\<close>. The items are pipes, which are never null.
\<close>

record arr_t =
  items :: "addr list"
  array_index :: "addr \<Rightarrow> nat"

definition set_array_index :: "addr \<Rightarrow> nat \<Rightarrow> arr_t \<Rightarrow> arr_t" where
  "set_array_index x k A = A\<lparr>array_index := (array_index A)(x := k)\<rparr>"

definition arr_index :: "addr \<Rightarrow> arr_t \<Rightarrow> nat" where
  "arr_index x A = array_index A x"

definition arr_get :: "nat \<Rightarrow> arr_t \<Rightarrow> addr option" where
  "arr_get k A = (if k < length (items A) then Some (items A ! k) else None)"

definition arr_push_back :: "addr \<Rightarrow> arr_t \<Rightarrow> arr_t" where
  "arr_push_back x A = (set_array_index x (length (items A)) A)\<lparr>items := items A @ [x]\<rparr>"

definition arr_erase_at :: "nat \<Rightarrow> arr_t \<Rightarrow> arr_t option" where
  "arr_erase_at k A =
     (if k < length (items A)
      then Some ((set_array_index (last (items A)) k A)\<lparr>items := butlast ((items A)[k := last (items A)])\<rparr>)
      else None)"

definition arr_erase :: "addr \<Rightarrow> arr_t \<Rightarrow> arr_t option" where
  "arr_erase x A = arr_erase_at (arr_index x A) A"

definition arr_swap :: "nat \<Rightarrow> nat \<Rightarrow> arr_t \<Rightarrow> arr_t option" where
  "arr_swap i j A =
     (if i < length (items A) \<and> j < length (items A)
      then let x = items A ! i; y = items A ! j
           in Some ((set_array_index y i (set_array_index x j A))\<lparr>items := (items A)[i := y, j := x]\<rparr>)
      else None)"

subsection \<open>The indices are right\<close>

definition arr_ok :: "arr_t \<Rightarrow> bool" where
  "arr_ok A \<longleftrightarrow> distinct (items A) \<and> (\<forall>k < length (items A). array_index A (items A ! k) = k)"

lemma arr_index_ok:
  assumes "arr_ok A" and "x \<in> set (items A)"
  shows "arr_index x A < length (items A)" and "items A ! arr_index x A = x"
  using assms by (auto simp: arr_ok_def arr_index_def in_set_conv_nth)

lemma arr_index_nth [simp]: "arr_ok A \<Longrightarrow> k < length (items A) \<Longrightarrow> arr_index (items A ! k) A = k"
  by (simp add: arr_ok_def arr_index_def)

lemma arr_push_back_ok:
  assumes "arr_ok A" and "x \<notin> set (items A)"
  shows "arr_ok (arr_push_back x A)" and "items (arr_push_back x A) = items A @ [x]"
  using assms by (auto simp: arr_ok_def arr_push_back_def set_array_index_def nth_append less_Suc_eq)

definition swapped :: "nat \<Rightarrow> nat \<Rightarrow> 'a list \<Rightarrow> 'a list" where
  "swapped i j xs = xs[i := xs ! j, j := xs ! i]"

lemma swapped_simps [simp]:
  "length (swapped i j xs) = length xs"
  "i < length xs \<Longrightarrow> j < length xs \<Longrightarrow> set (swapped i j xs) = set xs"
  "i < length xs \<Longrightarrow> j < length xs \<Longrightarrow> distinct (swapped i j xs) = distinct xs"
  by (simp_all add: swapped_def)

lemma swapped_nth:
  "i < length xs \<Longrightarrow> j < length xs \<Longrightarrow> k < length xs \<Longrightarrow>
   swapped i j xs ! k = (if k = j then xs ! i else if k = i then xs ! j else xs ! k)"
  by (auto simp: swapped_def nth_list_update)

lemma swapped_same [simp]: "swapped i i xs = xs"
  by (simp add: swapped_def)

lemma swapped_commute: "swapped i j xs = swapped j i xs"
  by (cases "i = j") (simp_all add: swapped_def list_update_swap)

lemma arr_swap_ok:
  assumes "arr_ok A" and "i < length (items A)" and "j < length (items A)"
  shows "\<exists>A'. arr_swap i j A = Some A' \<and> arr_ok A' \<and> items A' = swapped i j (items A)"
proof -
  let ?A = "(set_array_index (items A ! j) i (set_array_index (items A ! i) j A))\<lparr>items := swapped i j (items A)\<rparr>"
  have "arr_swap i j A = Some ?A" using assms(2,3) by (simp add: arr_swap_def swapped_def Let_def)
  moreover have "arr_ok ?A"
    using assms by (auto simp: arr_ok_def set_array_index_def swapped_nth nth_eq_iff_index_eq)
  ultimately show ?thesis by simp
qed

lemma arr_erase_ok:
  assumes "arr_ok A" and "x \<in> set (items A)"
  shows "\<exists>A'. arr_erase x A = Some A' \<and> arr_ok A' \<and> set (items A') = set (items A) - {x} \<and>
    items A' = butlast ((items A)[arr_index x A := last (items A)])"
proof -
  let ?k = "arr_index x A" and ?xs = "items A"
  have k: "?k < length ?xs" "?xs ! ?k = x" using arr_index_ok [OF assms] by simp_all
  obtain ys z where xs: "?xs = ys @ [z]" using k(1) by (cases ?xs rule: rev_cases) auto
  let ?A = "(set_array_index z ?k A)\<lparr>items := ys[?k := z]\<rparr>"
  have it: "butlast (?xs[?k := last ?xs]) = ys[?k := z]" using k(1) list_update_beyond [of ys ?k z]
    by (cases "?k < length ys") (simp_all add: xs list_update_append butlast_append not_less)
  have d: "distinct ys" "z \<notin> set ys" using assms(1) by (auto simp: arr_ok_def xs)
  have idx: "array_index A (ys ! n) = n" if "n < length ys" for n
    using assms(1) that by (simp add: arr_ok_def xs) (metis less_SucI nth_append)
  have upd: "ys[?k := z] ! n = (if ?k = n \<and> n < length ys then z else ys ! n)" for n
    by (cases "?k < length ys") (auto simp: nth_list_update list_update_beyond)
  have ok: "arr_ok ?A"
    using d idx by (auto simp: arr_ok_def set_array_index_def upd distinct_list_update dest: nth_mem)
  have st: "set (ys[?k := z]) = set ?xs - {x}"
  proof (cases "?k < length ys")
    case True
    then have "x = ys ! ?k" "x \<noteq> z" using k(2) d(2) nth_mem [of ?k ys] by (auto simp: xs nth_append)
    then show ?thesis using True d by (auto simp: xs set_update_distinct)
  next
    case False
    then have "x = z" using k by (auto simp: xs nth_append less_Suc_eq)
    then show ?thesis using False d(2) by (auto simp: xs list_update_beyond)
  qed
  have "arr_erase x A = Some ?A" using k(1) it by (simp add: arr_erase_def arr_erase_at_def) (simp add: xs)
  then show ?thesis using ok st it by (simp add: xs)
qed

text \<open>A prefix of the array is a set of pipes: how moving a pipe over its border changes it.\<close>

lemma take_swapped_within:
  assumes "i < n" and "j < n" and "n \<le> length xs"
  shows "take n (swapped i j xs) = swapped i j (take n xs)"
  using assms by (auto simp: swapped_def take_update_swap)

lemma set_take_swapped_within [simp]:
  "i < n \<Longrightarrow> j < n \<Longrightarrow> n \<le> length xs \<Longrightarrow> set (take n (swapped i j xs)) = set (take n xs)"
  by (simp add: take_swapped_within)

lemma take_swapped_beyond:
  assumes "n \<le> i" and "n \<le> j"
  shows "take n (swapped i j xs) = take n xs"
  using assms by (simp add: swapped_def)

lemma set_take_activate:
  assumes "n \<le> i" and "i < length xs"
  shows "set (take (Suc n) (swapped i n xs)) = insert (xs ! i) (set (take n xs))"
proof -
  have "take (Suc n) (swapped i n xs) = take n (swapped i n xs) @ [swapped i n xs ! n]"
    using assms by (intro take_Suc_conv_app_nth) simp
  then show ?thesis using assms by (simp add: take_swapped_beyond swapped_nth)
qed

lemma set_take_deactivate:
  assumes "i \<le> n" and "n < length xs" and "distinct xs"
  shows "set (take n (swapped i n xs)) = set (take (Suc n) xs) - {xs ! i}"
proof -
  let ?ys = "swapped i n xs"
  have "set (take (Suc n) ?ys) = set (take (Suc n) xs)" using assms by simp
  moreover have "take (Suc n) ?ys = take n ?ys @ [xs ! i]"
    using assms by (simp add: take_Suc_conv_app_nth swapped_nth)
  moreover have "distinct (take (Suc n) ?ys)" using assms by (intro distinct_take) simp
  ultimately show ?thesis by auto
qed

lemma take_butlast_update: "n \<le> k \<Longrightarrow> k < length xs \<Longrightarrow> take n (butlast (xs[k := z])) = take n xs"
  using le_less_trans [of n k "length xs"] by (cases "length xs") (simp_all add: butlast_conv_take min_absorb1)

end
