(* ===== verification/Pipe_Interface.thy ===== *)
theory Pipe_Interface
  imports Pipe
begin

text \<open>
  The interfaces through which the fair queue and the load balancer use pipes, as locales, and
  their implementation by the pipes of theory Pipe. A source delivers messages from several
  pipes; reading one pipe does not change what the others deliver, nor the heap of messages. A sink takes messages while
  a pipe has room.
\<close>

type_synonym 'w pipe_reader = "addr \<Rightarrow> 'w \<Rightarrow> (msg_t option \<times> 'w) option"

text \<open>\<open>has w p ms\<close>: in the state \<open>w\<close> the pipe \<open>p\<close> has the messages \<open>ms\<close> to deliver.\<close>

locale message_source =
  fixes rd :: "'w pipe_reader"
    and has :: "'w \<Rightarrow> addr \<Rightarrow> msg_t list \<Rightarrow> bool"
    and hp :: "'w \<Rightarrow> msg_heap"
  assumes rd_some: "has w p (m # ms) \<Longrightarrow>
      \<exists>w'. rd p w = Some (Some m, w') \<and> has w' p ms \<and> (\<forall>q xs. q \<noteq> p \<longrightarrow> has w q xs \<longrightarrow> has w' q xs) \<and> hp w' = hp w"
    and rd_none: "has w p [] \<Longrightarrow>
      \<exists>w'. rd p w = Some (None, w') \<and> has w' p [] \<and> (\<forall>q xs. q \<noteq> p \<longrightarrow> has w q xs \<longrightarrow> has w' q xs) \<and> hp w' = hp w"

subsection \<open>What a pipe delivers\<close>

definition sole_reader :: "world \<Rightarrow> addr \<Rightarrow> addr \<Rightarrow> bool" where
  "sole_reader w p a \<longleftrightarrow> (\<forall>p' q'. p' \<noteq> p \<longrightarrow> pipes w p' = Some q' \<longrightarrow> inpipe q' \<noteq> Some a)"

definition up_holds :: "world \<Rightarrow> addr \<Rightarrow> msg_t list \<Rightarrow> bool" where
  "up_holds w a ms \<longleftrightarrow> (\<exists>un inc z. up_view w a ms un inc z)"

definition delivers :: "world \<Rightarrow> addr \<Rightarrow> msg_t list \<Rightarrow> bool" where
  "delivers w p ms \<longleftrightarrow> (\<exists>q a pr. pipes w p = Some q \<and> state q = active \<and> inpipe q = Some a \<and> peer q = Some pr \<and>
     sole_reader w p a \<and> (\<forall>m \<in> set ms. \<not> msg_is_delimiter m) \<and> (in_active q \<longrightarrow> up_holds w a ms) \<and> (\<not> in_active q \<longrightarrow> ms = []))"

lemma sole_reader_upd: "sole_reader w p a \<Longrightarrow> pipes w' = (pipes w)(r \<mapsto> q) \<Longrightarrow> r = p \<or> inpipe q \<noteq> Some a \<Longrightarrow> sole_reader w' p a"
  by (auto simp: sole_reader_def)

lemma delivers_frame:
  assumes "delivers w q xs" and "q \<noteq> p" and "pipes w p = Some r" and "inpipe r = Some a"
    and "pipes w' = (pipes w)(p \<mapsto> r')" and "inpipe r' = Some a" and "\<And>b. b \<noteq> a \<Longrightarrow> upipes w' b = upipes w b"
  shows "delivers w' q xs"
proof -
  obtain s b pr where s: "pipes w q = Some s" "state s = active" "inpipe s = Some b" "peer s = Some pr"
    "sole_reader w q b" "\<forall>m \<in> set xs. \<not> msg_is_delimiter m" "in_active s \<longrightarrow> up_holds w b xs" "\<not> in_active s \<longrightarrow> xs = []"
    using assms(1) unfolding delivers_def by blast
  have b: "b \<noteq> a" using s(5) assms(2-4) unfolding sole_reader_def by metis
  have "up_holds w' b xs = up_holds w b xs"
    unfolding up_holds_def using up_view_frame [OF assms(7) [OF b]] by blast
  moreover have "sole_reader w' q b" using sole_reader_upd [OF s(5) assms(5)] assms(6) b by simp
  ultimately show ?thesis using s assms(2,5) unfolding delivers_def
    by (intro exI [of _ s] exI [of _ b] exI [of _ pr]) simp
qed

lemma pipe_read_delivers:
  assumes "delivers w p (m # ms)"
  shows "\<exists>w'. pipe_read p w = Some (Some m, w') \<and> delivers w' p ms \<and> (\<forall>q xs. q \<noteq> p \<longrightarrow> delivers w q xs \<longrightarrow> delivers w' q xs) \<and> mheap w' = mheap w"
proof -
  obtain q a un inc z pr where q: "pipes w p = Some q" "state q = active" "inpipe q = Some a" "peer q = Some pr"
    "sole_reader w p a" "\<forall>m \<in> set (m # ms). \<not> msg_is_delimiter m"
    "in_active q" "up_view w a (m # ms) un inc z" using assms unfolding delivers_def up_holds_def by blast
  obtain u where u: "up_read a w = Some (Some m, set_upipe a u w)" "up_view (set_upipe a u w) a ms un inc z"
    using up_read_view(2) [OF q(8)] by blast
  define n where "n = (if \<not> msg_more m \<and> \<not> msg_is_identity m then msgs_read q + 1 else msgs_read q)"
  define w1 where "w1 = set_pipe p (q\<lparr>msgs_read := n\<rparr>) (set_upipe a u w)"
  define w2 where "w2 = (if lwm q > 0 \<and> unat n mod nat (lwm q) = 0 then w1\<lparr>cmds := cmds w @ [(pr, Activate_write n)]\<rparr> else w1)"
  have rd: "pipe_read p w = Some (Some m, w2)"
    using q u(1) unfolding pipe_read_def by (simp add: n_def [symmetric] Let_def w2_def w1_def send_cmd_def)
  have "up_view w2 a ms un inc z"
    by (subst up_view_frame [of _ _ "set_upipe a u w"]) (simp add: w2_def w1_def, rule u(2))
  then have "up_holds w2 a ms" unfolding up_holds_def by blast
  moreover have pw: "pipes w2 = (pipes w)(p \<mapsto> q\<lparr>msgs_read := n\<rparr>)" by (simp add: w2_def w1_def)
  moreover have "sole_reader w2 p a" using sole_reader_upd [OF q(5) pw] by simp
  ultimately have "delivers w2 p ms" using q unfolding delivers_def
    by (intro exI [of _ "q\<lparr>msgs_read := n\<rparr>"] exI [of _ a] exI [of _ pr]) simp
  moreover have "delivers w2 q' xs" if "q' \<noteq> p" "delivers w q' xs" for q' xs
    by (rule delivers_frame [OF that(2,1) q(1,3), where r' = "q\<lparr>msgs_read := n\<rparr>"]) (auto simp: w2_def w1_def q(3))
  moreover have "mheap w2 = mheap w" by (simp add: w2_def w1_def)
  ultimately show ?thesis using rd by blast
qed

lemma pipe_read_delivers_nothing:
  assumes "delivers w p []"
  shows "\<exists>w'. pipe_read p w = Some (None, w') \<and> delivers w' p [] \<and> (\<forall>q xs. q \<noteq> p \<longrightarrow> delivers w q xs \<longrightarrow> delivers w' q xs) \<and> mheap w' = mheap w"
proof -
  obtain q a pr where q: "pipes w p = Some q" "state q = active" "inpipe q = Some a" "peer q = Some pr"
    "sole_reader w p a" "in_active q \<longrightarrow> (\<exists>un inc z. up_view w a [] un inc z)"
    using assms unfolding delivers_def up_holds_def by blast
  show ?thesis
  proof (cases "in_active q")
    case False
    then show ?thesis using assms q(1) by (auto simp: pipe_read_def)
  next
    case True
    then obtain u where u: "up_read a w = Some (None, set_upipe a u w)" using q(6) up_read_view(1) by blast
    let ?q = "q\<lparr>in_active := False\<rparr>"
    let ?w = "set_pipe p ?q (set_upipe a u w)"
    have "pipe_read p w = Some (None, ?w)" using True q u by (simp add: pipe_read_def)
    moreover have "sole_reader ?w p a" using sole_reader_upd [OF q(5), of ?w p ?q] by simp
    then have "delivers ?w p []" using q unfolding delivers_def by (intro exI [of _ ?q] exI [of _ a] exI [of _ pr]) simp
    moreover have "delivers ?w q' xs" if "q' \<noteq> p" "delivers w q' xs" for q' xs
      by (rule delivers_frame [OF that(2,1) q(1,3), where r' = ?q]) (auto simp: q(3))
    moreover have "mheap ?w = mheap w" by simp
    ultimately show ?thesis by blast
  qed
qed

interpretation pipe_source: message_source pipe_read delivers mheap
  by unfold_locales (fact pipe_read_delivers pipe_read_delivers_nothing)+

subsection \<open>What a pipe takes\<close>

type_synonym 'w pipe_writer = "addr \<Rightarrow> msg_t \<Rightarrow> 'w \<Rightarrow> (bool \<times> msg_t \<times> 'w) option"

text \<open>
  \<open>alive w p\<close>: the pipe can be written to and flushed without failing; \<open>room w p\<close>: it will take a
  message. Writing to one pipe does not change the room of another.
\<close>

locale message_sink =
  fixes wr :: "'w pipe_writer"
    and cw :: "addr \<Rightarrow> 'w \<Rightarrow> (bool \<times> 'w) option"
    and fl :: "addr \<Rightarrow> 'w \<Rightarrow> 'w option"
    and alive :: "'w \<Rightarrow> addr \<Rightarrow> bool"
    and room :: "'w \<Rightarrow> addr \<Rightarrow> bool"
  assumes wr_total: "alive w p \<Longrightarrow> \<exists>w'. wr p m w = Some (room w p, m, w') \<and> (\<forall>q. alive w q \<longrightarrow> alive w' q) \<and>
      (\<forall>q. q \<noteq> p \<longrightarrow> room w' q = room w q)"
    and cw_total: "alive w p \<Longrightarrow> \<exists>w'. cw p w = Some (room w p, w') \<and> (\<forall>q. alive w q \<longrightarrow> alive w' q) \<and> (\<forall>q. room w' q = room w q)"
    and fl_total: "alive w p \<Longrightarrow> \<exists>w'. fl p w = Some w' \<and> (\<forall>q. alive w q \<longrightarrow> alive w' q) \<and> (\<forall>q. room w' q = room w q)"

definition sole_writer :: "world \<Rightarrow> addr \<Rightarrow> addr \<Rightarrow> bool" where
  "sole_writer w p a \<longleftrightarrow> (\<forall>p' q'. p' \<noteq> p \<longrightarrow> pipes w p' = Some q' \<longrightarrow> outpipe q' \<noteq> Some a)"

definition writable :: "world \<Rightarrow> addr \<Rightarrow> bool" where
  "writable w p \<longleftrightarrow> (\<exists>q a pr. pipes w p = Some q \<and> outpipe q = Some a \<and> peer q = Some pr \<and> sole_writer w p a \<and>
     (\<exists>f un inc z. up_view w a f un inc z))"

definition has_room :: "world \<Rightarrow> addr \<Rightarrow> bool" where
  "has_room w p \<longleftrightarrow> (\<exists>q. pipes w p = Some q \<and> out_active q \<and> state q = active \<and>
     \<not> (hwm q > 0 \<and> msgs_written q - peers_msgs_read q = of_int (hwm q)))"

lemma writable_step:
  assumes "writable w q" and "pipes w p = Some r" and "outpipe r = Some a" and "pipes w' = (pipes w)(p \<mapsto> r')"
    and "outpipe r' = Some a" and "peer r' = peer r" and "\<And>b. b \<noteq> a \<Longrightarrow> upipes w' b = upipes w b"
    and "sole_writer w p a" and "\<exists>f un inc z. up_view w' a f un inc z"
  shows "writable w' q"
proof -
  obtain s b pr where s: "pipes w q = Some s" "outpipe s = Some b" "peer s = Some pr" "sole_writer w q b"
    "\<exists>f un inc z. up_view w b f un inc z" using assms(1) unfolding writable_def by blast
  show ?thesis
  proof (cases "q = p")
    case True
    have "sole_writer w' p a" using assms(4,8) by (auto simp: sole_writer_def)
    then show ?thesis using True s(1,3) assms(2-6,9) unfolding writable_def by (intro exI [of _ r'] exI [of _ a] exI [of _ pr]) auto
  next
    case False
    then have b: "b \<noteq> a" using s(4) assms(2,3) unfolding sole_writer_def by metis
    have "\<exists>f un inc z. up_view w' b f un inc z" using s(5) up_view_frame [OF assms(7) [OF b]] by blast
    moreover have "sole_writer w' q b" using s(4) assms(4,5) b False by (auto simp: sole_writer_def)
    ultimately show ?thesis using s False assms(4) unfolding writable_def by (intro exI [of _ s] exI [of _ b] exI [of _ pr]) simp
  qed
qed

lemma pipe_check_write_room:
  assumes "writable w p"
  shows "\<exists>w'. pipe_check_write p w = Some (has_room w p, w') \<and> (\<forall>q. writable w q \<longrightarrow> writable w' q) \<and>
    (\<forall>q. has_room w' q = has_room w q) \<and> (has_room w p \<longrightarrow> w' = w)"
proof -
  obtain q a where q: "pipes w p = Some q" "outpipe q = Some a" "sole_writer w p a" "\<exists>f un inc z. up_view w a f un inc z"
    using assms unfolding writable_def by blast
  let ?full = "hwm q > 0 \<and> msgs_written q - peers_msgs_read q = of_int (hwm q)"
  consider "\<not> out_active q \<or> state q \<noteq> active" | "out_active q" "state q = active" "?full"
    | "out_active q" "state q = active" "\<not> ?full" by blast
  then show ?thesis
  proof cases
    case 2
    let ?w = "set_pipe p (q\<lparr>out_active := False\<rparr>) w"
    have "pipe_check_write p w = Some (False, ?w)" "\<not> has_room w p" using 2 q(1) by (simp_all add: pipe_check_write_def has_room_def)
    moreover have "\<forall>q. has_room ?w q = has_room w q" using 2 q(1) by (auto simp: has_room_def)
    moreover have "up_view ?w a f un inc z = up_view w a f un inc z" for f un inc z by (rule up_view_frame) simp
    then have "\<forall>q'. writable w q' \<longrightarrow> writable ?w q'"
      using writable_step [OF _ q(1,2), of _ ?w "q\<lparr>out_active := False\<rparr>"] q by simp
    ultimately show ?thesis by simp
  qed (use q(1) in \<open>auto simp: pipe_check_write_def has_room_def\<close>)
qed

lemma pipe_write_room:
  assumes "writable w p"
  shows "\<exists>w'. pipe_write p m w = Some (has_room w p, m, w') \<and> (\<forall>q. writable w q \<longrightarrow> writable w' q) \<and>
    (\<forall>q. q \<noteq> p \<longrightarrow> has_room w' q = has_room w q)"
proof -
  obtain w1 where w1: "pipe_check_write p w = Some (has_room w p, w1)" "\<forall>q. writable w q \<longrightarrow> writable w1 q"
    "\<forall>q. has_room w1 q = has_room w q" "has_room w p \<longrightarrow> w1 = w" using pipe_check_write_room [OF assms] by blast
  show ?thesis
  proof (cases "has_room w p")
    case False
    then show ?thesis using w1 by (auto simp: pipe_write_def)
  next
    case True
    obtain q a f un inc z where q: "pipes w p = Some q" "outpipe q = Some a" "sole_writer w p a" "up_view w a f un inc z"
      using assms unfolding writable_def by blast
    obtain u where u: "up_write a m (msg_more m) w = Some (m, set_upipe a u w)"
      "if msg_more m then up_view (set_upipe a u w) a f un (inc @ [m]) z else up_view (set_upipe a u w) a f (un @ inc @ [m]) [] z"
      using up_write_view [OF q(4)] by blast
    define q' where "q' = (if \<not> msg_more m \<and> \<not> msg_is_identity m then q\<lparr>msgs_written := msgs_written q + 1\<rparr> else q)"
    let ?w = "set_pipe p q' (set_upipe a u w)"
    have same: "set_pipe p q (set_upipe a u w) = set_upipe a u w" using q(1) by (cases w) (simp add: set_pipe_def set_upipe_def fun_upd_idem)
    have "pipe_write p m w = Some (True, m, ?w)"
      using True w1(1,4) q(1,2) u(1) same by (simp add: pipe_write_def q'_def Let_def)
    moreover have "\<exists>f un inc z. up_view (set_upipe a u w) a f un inc z" using u(2) by (cases "msg_more m") auto
    then have "\<exists>f un inc z. up_view ?w a f un inc z" using up_view_frame [of ?w a "set_upipe a u w"] by simp
    then have "\<forall>r. writable w r \<longrightarrow> writable ?w r"
      using writable_step [OF _ q(1,2), of _ ?w q'] q(2,3) by (simp add: q'_def)
    moreover have "\<forall>r. r \<noteq> p \<longrightarrow> has_room ?w r = has_room w r" by (simp add: has_room_def)
    ultimately show ?thesis using True by auto
  qed
qed

lemma pipe_flush_room:
  assumes "writable w p"
  shows "\<exists>w'. pipe_flush p w = Some w' \<and> (\<forall>q. writable w q \<longrightarrow> writable w' q) \<and> (\<forall>q. has_room w' q = has_room w q)"
proof -
  obtain q a pr f un inc z where q: "pipes w p = Some q" "outpipe q = Some a" "peer q = Some pr" "sole_writer w p a" "up_view w a f un inc z"
    using assms unfolding writable_def by blast
  show ?thesis
  proof (cases "state q = term_ack_sent")
    case True
    then show ?thesis using q(1) by (simp add: pipe_flush_def)
  next
    case False
    obtain u ok where u: "up_flush a w = Some (ok, set_upipe a u w)" "\<exists>f un inc z. up_view (set_upipe a u w) a f un inc z"
      using up_flush_view [OF q(5)] by blast
    define w2 where "w2 = (if ok then set_upipe a u w else (set_upipe a u w)\<lparr>cmds := cmds w @ [(pr, Activate_read)]\<rparr>)"
    have "pipe_flush p w = Some w2" using False q(1-3) u(1) by (simp add: pipe_flush_def send_cmd_def w2_def)
    moreover have "upipes w2 a = upipes (set_upipe a u w) a" by (simp add: w2_def)
    from up_view_frame [OF this] have "\<exists>f un inc z. up_view w2 a f un inc z" using u(2) by simp
    moreover have "pipes w2 = (pipes w)(p \<mapsto> q)" "\<And>b. b \<noteq> a \<Longrightarrow> upipes w2 b = upipes w b" using q(1) by (auto simp: w2_def fun_upd_idem)
    ultimately have "\<forall>r. writable w r \<longrightarrow> writable w2 r" using writable_step [OF _ q(1,2), of _ w2 q] q(2,4) by simp
    moreover have "\<forall>r. has_room w2 r = has_room w r" by (simp add: has_room_def w2_def)
    ultimately show ?thesis using \<open>pipe_flush p w = Some w2\<close> by blast
  qed
qed

interpretation pipe_sink: message_sink pipe_write pipe_check_write pipe_flush writable has_room
proof
  show "\<exists>w'. pipe_write p m w = Some (has_room w p, m, w') \<and> (\<forall>q. writable w q \<longrightarrow> writable w' q) \<and>
    (\<forall>q. q \<noteq> p \<longrightarrow> has_room w' q = has_room w q)" if "writable w p" for w p m using pipe_write_room [OF that] .
  show "\<exists>w'. pipe_check_write p w = Some (has_room w p, w') \<and> (\<forall>q. writable w q \<longrightarrow> writable w' q) \<and>
    (\<forall>q. has_room w' q = has_room w q)" if "writable w p" for w p using pipe_check_write_room [OF that] by blast
  show "\<exists>w'. pipe_flush p w = Some w' \<and> (\<forall>q. writable w q \<longrightarrow> writable w' q) \<and> (\<forall>q. has_room w' q = has_room w q)"
    if "writable w p" for w p using pipe_flush_room [OF that] .
qed

subsection \<open>What was written\<close>

text \<open>
  A sink with a log: \<open>log w p ms\<close> says that \<open>ms\<close> are the messages written to \<open>p\<close> that were not read
  yet. A write that succeeds appends to the log of its pipe and nothing else changes; neither
  operation touches the heap of messages.
\<close>

locale message_log = message_sink +
  fixes log :: "'a \<Rightarrow> addr \<Rightarrow> msg_t list \<Rightarrow> bool"
    and heap :: "'a \<Rightarrow> msg_heap"
  assumes wr_log: "alive w p \<Longrightarrow> wr p m w = Some (ok, m', w') \<Longrightarrow>
      (\<forall>q xs. log w q xs \<longrightarrow> log w' q (if q = p \<and> ok then xs @ [m] else xs)) \<and> heap w' = heap w"
    and fl_log: "alive w p \<Longrightarrow> fl p w = Some w' \<Longrightarrow> (\<forall>q xs. log w q xs \<longrightarrow> log w' q xs) \<and> heap w' = heap w"

definition out_log :: "world \<Rightarrow> addr \<Rightarrow> msg_t list \<Rightarrow> bool" where
  "out_log w p xs \<longleftrightarrow> (\<exists>q a f un inc z. pipes w p = Some q \<and> outpipe q = Some a \<and> sole_writer w p a \<and>
     up_view w a f un inc z \<and> xs = f @ un @ inc)"

lemma out_log_step:
  assumes "out_log w q xs" and "pipes w p = Some r" and "outpipe r = Some a" and "pipes w' = (pipes w)(p \<mapsto> r')"
    and "outpipe r' = Some a" and "\<And>b. b \<noteq> a \<Longrightarrow> upipes w' b = upipes w b" and "q \<noteq> p"
  shows "out_log w' q xs"
proof -
  obtain s b f un inc z where s: "pipes w q = Some s" "outpipe s = Some b" "sole_writer w q b" "up_view w b f un inc z" "xs = f @ un @ inc"
    using assms(1) unfolding out_log_def by blast
  have b: "b \<noteq> a" using s(3) assms(2,3,7) unfolding sole_writer_def by metis
  then have "up_view w' b f un inc z" using s(4) up_view_frame [OF assms(6) [OF b]] by blast
  moreover have "sole_writer w' q b" using s(3) assms(4,5) b by (auto simp: sole_writer_def)
  ultimately show ?thesis using s assms(4,7) unfolding out_log_def
    by (intro exI [of _ s] exI [of _ b] exI [of _ f] exI [of _ un] exI [of _ inc] exI [of _ z]) simp
qed

lemma out_log_own:
  assumes "out_log w p xs" and "pipes w p = Some r" and "outpipe r = Some a" and "pipes w' = (pipes w)(p \<mapsto> r')"
    and "outpipe r' = Some a" and "\<And>f un inc z. up_view w a f un inc z \<Longrightarrow> \<exists>f' un' inc' z'. up_view w' a f' un' inc' z' \<and> f' @ un' @ inc' = (f @ un @ inc) @ ys"
  shows "out_log w' p (xs @ ys)"
proof -
  obtain f un inc z where s: "sole_writer w p a" "up_view w a f un inc z" "xs = f @ un @ inc"
    using assms(1-3) unfolding out_log_def by auto
  obtain f' un' inc' z' where v: "up_view w' a f' un' inc' z'" "f' @ un' @ inc' = (f @ un @ inc) @ ys" using assms(6) [OF s(2)] by blast
  have "sole_writer w' p a" using s(1) assms(4) by (auto simp: sole_writer_def)
  then show ?thesis using s(3) v assms(4,5) unfolding out_log_def
    by (intro exI [of _ r'] exI [of _ a] exI [of _ f'] exI [of _ un'] exI [of _ inc'] exI [of _ z']) simp
qed

lemma pipe_check_write_log:
  assumes "pipes w p = Some q" and "outpipe q = Some a" and "pipe_check_write p w = Some (ok, w')"
  shows "\<exists>q'. pipes w' = (pipes w)(p \<mapsto> q') \<and> outpipe q' = Some a \<and> upipes w' = upipes w \<and> mheap w' = mheap w"
  using assms by (auto simp: pipe_check_write_def split: if_splits) (metis fun_upd_triv)+

lemma pipe_write_log:
  assumes "writable w p" and "pipe_write p m w = Some (ok, m', w')"
  shows "(\<forall>q xs. out_log w q xs \<longrightarrow> out_log w' q (if q = p \<and> ok then xs @ [m] else xs)) \<and> mheap w' = mheap w"
proof -
  obtain q a where q: "pipes w p = Some q" "outpipe q = Some a" using assms(1) unfolding writable_def by blast
  obtain w1 where w1: "pipe_check_write p w = Some (ok, w1)" "has_room w p \<longrightarrow> w1 = w" "ok = has_room w p"
    using pipe_check_write_room [OF assms(1)] pipe_write_room [OF assms(1), of m] assms(2) by auto
  show ?thesis
  proof (cases ok)
    case False
    then have w': "w' = w1" using assms(2) w1(1) by (simp add: pipe_write_def)
    obtain q' where q': "pipes w1 = (pipes w)(p \<mapsto> q')" "outpipe q' = Some a" "upipes w1 = upipes w" "mheap w1 = mheap w"
      using pipe_check_write_log [OF q w1(1)] by blast
    have v: "up_view w1 a f un inc z = up_view w a f un inc z" for f un inc z using q'(3) by (simp add: up_view_def)
    have "out_log w1 r xs" if "out_log w r xs" for r xs
      using that out_log_step [OF that q q'(1,2)] out_log_own [of w p xs q a w1 q' "[]"] q q' v by (cases "r = p") auto
    then show ?thesis using w' q'(4) False by simp
  next
    case True
    then have chk: "pipe_check_write p w = Some (True, w)" using w1 by simp
    obtain u where u: "up_write a m (msg_more m) w = Some (m, set_upipe a u w)"
      using assms(1) q up_write_view unfolding writable_def by fastforce
    define q' where "q' = (if \<not> msg_more m \<and> \<not> msg_is_identity m then q\<lparr>msgs_written := msgs_written q + 1\<rparr> else q)"
    have same: "set_pipe p q (set_upipe a u w) = set_upipe a u w" using q(1) by (cases w) (simp add: set_pipe_def set_upipe_def fun_upd_idem)
    have w': "w' = set_pipe p q' (set_upipe a u w)" using assms(2) chk q u same by (auto simp: pipe_write_def q'_def Let_def)
    have own: "\<exists>f' un' inc' z'. up_view w' a f' un' inc' z' \<and> f' @ un' @ inc' = (f @ un @ inc) @ [m]" if "up_view w a f un inc z" for f un inc z
    proof -
      have "if msg_more m then up_view (set_upipe a u w) a f un (inc @ [m]) z else up_view (set_upipe a u w) a f (un @ inc @ [m]) [] z"
        using up_write_view [OF that, of m "msg_more m"] u by (auto simp: set_upipe_def split: if_splits)
      moreover have "up_view w' a x y v b = up_view (set_upipe a u w) a x y v b" for x y v b by (rule up_view_frame) (simp add: w')
      ultimately show ?thesis by (cases "msg_more m") force+
    qed
    have "out_log w' r (if r = p then xs @ [m] else xs)" if "out_log w r xs" for r xs
      using that out_log_step [OF that q, of w' q'] out_log_own [of w p xs q a w' q' "[m]"] q own
      by (cases "r = p") (auto simp: w' q'_def)
    then show ?thesis using True by (simp add: w')
  qed
qed

lemma pipe_flush_log:
  assumes "writable w p" and "pipe_flush p w = Some w'"
  shows "(\<forall>q xs. out_log w q xs \<longrightarrow> out_log w' q xs) \<and> mheap w' = mheap w"
proof -
  obtain q a pr where q: "pipes w p = Some q" "outpipe q = Some a" "peer q = Some pr" using assms(1) unfolding writable_def by blast
  show ?thesis
  proof (cases "state q = term_ack_sent")
    case True
    then show ?thesis using assms(2) q(1) by (simp add: pipe_flush_def)
  next
    case False
    obtain f un inc z where "up_view w a f un inc z" using assms(1) q(1,2) by (auto simp: writable_def)
    then obtain u ok where u: "up_flush a w = Some (ok, set_upipe a u w)" using up_flush_view by blast
    have w': "pipes w' = (pipes w)(p \<mapsto> q)" "upipes w' = (upipes w)(a \<mapsto> u)" "mheap w' = mheap w"
      using assms(2) False q u by (auto simp: pipe_flush_def send_cmd_def fun_upd_idem split: if_splits)
    have own: "\<exists>f' un' inc' z'. up_view w' a f' un' inc' z' \<and> f' @ un' @ inc' = (f @ un @ inc) @ []" if "up_view w a f un inc z" for f un inc z
    proof -
      have "up_view (set_upipe a u w) a (f @ un) [] inc (z \<and> un = [])"
        using up_flush_view [OF that] u by auto
      then have "up_view w' a (f @ un) [] inc (z \<and> un = [])" using w'(2) by (simp add: up_view_def)
      then show ?thesis by (intro exI [of _ "f @ un"] exI [of _ "[]"] exI [of _ inc] exI [of _ "z \<and> un = []"]) simp
    qed
    have "out_log w' r xs" if "out_log w r xs" for r xs
      using that out_log_step [OF that q(1,2) w'(1) q(2)] out_log_own [of w p xs q a w' q "[]"] q w' own by (cases "r = p") auto
    then show ?thesis using w'(3) by blast
  qed
qed

interpretation pipe_log: message_log pipe_write pipe_check_write pipe_flush writable has_room out_log mheap
  by unfold_locales (fact pipe_write_log pipe_flush_log)+

text \<open>
  A sink whose flush makes readable what was written: \<open>ready\<close> pipes are those that have not begun to
  terminate, \<open>flushed w p\<close> says that every whole message written to \<open>p\<close> can be read.
\<close>

locale message_port = message_log +
  fixes ready :: "'a \<Rightarrow> addr \<Rightarrow> bool"
    and flushed :: "'a \<Rightarrow> addr \<Rightarrow> bool"
  assumes room_ready: "room w p \<Longrightarrow> ready w p"
    and wr_ready: "alive w p \<Longrightarrow> wr p m w = Some (ok, m', w') \<Longrightarrow> ready w' q = ready w q"
    and fl_flushed: "alive w p \<Longrightarrow> ready w p \<Longrightarrow> fl p w = Some w' \<Longrightarrow> flushed w' p"

definition pipe_ready :: "world \<Rightarrow> addr \<Rightarrow> bool" where
  "pipe_ready w p \<longleftrightarrow> (\<exists>q. pipes w p = Some q \<and> state q = active)"

definition out_flushed :: "world \<Rightarrow> addr \<Rightarrow> bool" where
  "out_flushed w p \<longleftrightarrow> (\<exists>q a f inc z. pipes w p = Some q \<and> outpipe q = Some a \<and> up_view w a f [] inc z)"

lemma pipe_check_write_ready:
  assumes "pipe_check_write p w = Some (ok, w')"
  shows "pipe_ready w' q = pipe_ready w q"
  using assms by (auto simp: pipe_check_write_def pipe_ready_def split: if_splits Option.bind_splits)

lemma pipe_write_ready:
  assumes "writable w p" and "pipe_write p m w = Some (ok, m', w')"
  shows "pipe_ready w' q = pipe_ready w q"
proof -
  obtain x a where x: "pipes w p = Some x" "outpipe x = Some a" using assms(1) unfolding writable_def by blast
  obtain ok1 w1 where w1: "pipe_check_write p w = Some (ok1, w1)" using pipe_check_write_room [OF assms(1)] by blast
  obtain y where y: "pipes w1 = (pipes w)(p \<mapsto> y)" "outpipe y = Some a" "upipes w1 = upipes w" using pipe_check_write_log [OF x w1] by blast
  show ?thesis
  proof (cases ok1)
    case False
    then show ?thesis using assms(2) w1 pipe_check_write_ready [OF w1] by (simp add: pipe_write_def)
  next
    case True
    obtain f un inc z where "up_view w1 a f un inc z" using assms(1) x y(3) by (auto simp: writable_def up_view_def)
    then obtain u where "up_write a m (msg_more m) w1 = Some (m, set_upipe a u w1)" using up_write_view by blast
    then have "pipe_ready w' q = pipe_ready w1 q"
      using assms(2) w1 True y(1,2) by (auto simp: pipe_write_def Let_def pipe_ready_def split: if_splits)
    then show ?thesis using pipe_check_write_ready [OF w1] by simp
  qed
qed

lemma pipe_flush_flushed:
  assumes "writable w p" and "pipe_ready w p" and "pipe_flush p w = Some w'"
  shows "out_flushed w' p"
proof -
  obtain q a pr f un inc z where q: "pipes w p = Some q" "outpipe q = Some a" "peer q = Some pr" "up_view w a f un inc z"
    using assms(1) unfolding writable_def by blast
  have st: "state q = active" using assms(2) q(1) by (simp add: pipe_ready_def)
  obtain u where u: "up_flush a w = Some (un = [] \<or> \<not> z, set_upipe a u w)" "up_view (set_upipe a u w) a (f @ un) [] inc (z \<and> un = [])"
    using up_flush_view [OF q(4)] by blast
  have w': "pipes w' = pipes w" "upipes w' a = upipes (set_upipe a u w) a"
    using assms(3) st q u(1) by (auto simp: pipe_flush_def send_cmd_def split: if_splits)
  have "up_view w' a (f @ un) [] inc (z \<and> un = [])" using u(2) up_view_frame [OF w'(2)] by simp
  then show ?thesis unfolding out_flushed_def using q w'(1) by auto
qed

interpretation pipe_port: message_port pipe_write pipe_check_write pipe_flush writable has_room out_log mheap pipe_ready out_flushed
proof
  show "has_room w p \<Longrightarrow> pipe_ready w p" for w p by (auto simp: has_room_def pipe_ready_def)
qed (fact pipe_write_ready pipe_flush_flushed)+

subsection \<open>Two pipes for the examples\<close>

text \<open>Pipe 1 has room for messages, pipe 3 has reached its high-water mark.\<close>

definition open_pipe :: pipe_t where
  "open_pipe = (pipe_new 4 5 10 10 False)\<lparr>peer := Some 0, sink := Some 9\<rparr>"

definition full_pipe :: pipe_t where
  "full_pipe = (pipe_new 6 7 10 10 False)\<lparr>peer := Some 2, sink := Some 9, msgs_written := 10\<rparr>"

lemma yp_rep_exists: "\<exists>y. yp_rep message_pipe_granularity y ms [] [] False"
proof (induction ms rule: rev_induct)
  case Nil
  show ?case using yp_new_rep [of message_pipe_granularity] by (auto simp: message_pipe_granularity_def)
next
  case (snoc m ms)
  then obtain y where "yp_rep message_pipe_granularity y ms [] [] False" by blast
  from yp_write_rep [OF this, of m False] obtain y1 where "yp_rep message_pipe_granularity y1 ms [m] [] False" by auto
  from yp_flush_rep [OF this] show ?case by auto
qed

lemma pipes_example:
  assumes "\<forall>m \<in> set ms \<union> set ms'. \<not> msg_is_delimiter m"
  shows "\<exists>w. pipes w 1 = Some open_pipe \<and> pipes w 3 = Some full_pipe \<and> mheap w = h \<and> writable w 1 \<and> has_room w 1 \<and> out_log w 1 [] \<and>
    delivers w 1 ms \<and> writable w 3 \<and> \<not> has_room w 3 \<and> out_log w 3 [] \<and> delivers w 3 ms'"
proof -
  obtain y y1 y3 :: "msg_t ypipe_t" where y: "yp_rep message_pipe_granularity y [] [] [] False"
    "yp_rep message_pipe_granularity y1 ms [] [] False" "yp_rep message_pipe_granularity y3 ms' [] [] False" using yp_rep_exists by metis
  define w :: world where "w = \<lparr>mheap = h, upipes = (\<lambda>a. Some (Upipe_normal (if a = 4 then y1 else if a = 6 then y3 else y))), up_brk = 8,
    pipes = [1 \<mapsto> open_pipe, 3 \<mapsto> full_pipe], cmds = [], events = []\<rparr>"
  have v: "up_view w 5 [] [] [] False" "up_view w 7 [] [] [] False" "up_holds w 4 ms" "up_holds w 6 ms'"
    using y by (auto simp: up_view_def up_holds_def w_def)
  have p: "pipes w 1 = Some open_pipe" "pipes w 3 = Some full_pipe" "mheap w = h"
    "sole_writer w 1 5" "sole_writer w 3 7" "sole_reader w 1 4" "sole_reader w 3 6"
    by (auto simp: w_def open_pipe_def full_pipe_def pipe_new_def sole_writer_def sole_reader_def split: if_splits)
  have o: "outpipe open_pipe = Some 5" "peer open_pipe = Some 0" "inpipe open_pipe = Some 4" "state open_pipe = active" "in_active open_pipe"
    by (simp_all add: open_pipe_def pipe_new_def)
  have f: "outpipe full_pipe = Some 7" "peer full_pipe = Some 2" "inpipe full_pipe = Some 6" "state full_pipe = active" "in_active full_pipe"
    by (simp_all add: full_pipe_def pipe_new_def)
  have "writable w 1" "out_log w 1 []" unfolding writable_def out_log_def using p o v by blast+
  moreover have "writable w 3" "out_log w 3 []" unfolding writable_def out_log_def using p f v by blast+
  moreover have "delivers w 1 ms" "delivers w 3 ms'" unfolding delivers_def using p o f v assms by blast+
  moreover have "has_room w 1" "\<not> has_room w 3" unfolding has_room_def p(1,2) by (simp_all add: open_pipe_def full_pipe_def pipe_new_def)
  ultimately show ?thesis using p(1-3) by (intro exI [of _ w] conjI)
qed

lemma sinks_example:
  "\<exists>w. pipes w 1 = Some open_pipe \<and> mheap w = h \<and> writable w 1 \<and> has_room w 1 \<and> out_log w 1 [] \<and>
    writable w 3 \<and> \<not> has_room w 3 \<and> out_log w 3 []"
  using pipes_example [of "[]" "[]" h] by auto

end
