(* ===== verification/Dist.thy ===== *)
theory Dist
  imports Pipe_Array Pipe_Interface
begin

text \<open>
  The distributor \<open>dist_t\<close> (\<^verbatim>\<open>src/dist.cpp\<close>), which sends a message to all matching pipes. The
  array of pipes has three borders: the first \<open>matching\<close> pipes get the current message, the
  first \<open>active\<close> pipes can get messages, the first \<open>eligible\<close> pipes will be able to get the next
  message; the others are passive. A message is shared by the pipes that take it: the
  references are added before and those of the failed writes removed after the writes.
\<close>

record dist_t =
  dist_pipes :: arr_t
  matching :: nat
  dist_active :: nat
  eligible :: nat
  dist_more :: bool

definition dist_new :: dist_t where
  "dist_new = \<lparr>dist_pipes = \<lparr>items = [], array_index = (\<lambda>_. 0)\<rparr>, matching = 0, dist_active = 0, eligible = 0, dist_more = False\<rparr>"

definition dist_destroy :: "dist_t \<Rightarrow> unit option" where
  "dist_destroy d = zmq_assert (items (dist_pipes d) = [])"

text \<open>\<open>pipes.swap (i, j)\<close>\<close>

definition dist_swap :: "nat \<Rightarrow> nat \<Rightarrow> dist_t \<Rightarrow> dist_t option" where
  "dist_swap i j d = do { A \<leftarrow> arr_swap i j (dist_pipes d); Some (d\<lparr>dist_pipes := A\<rparr>) }"

definition dist_index :: "addr \<Rightarrow> dist_t \<Rightarrow> nat" where
  "dist_index p d = arr_index p (dist_pipes d)"

definition dist_attach :: "addr \<Rightarrow> dist_t \<Rightarrow> dist_t option" where
  "dist_attach p d = do {
     let d = d\<lparr>dist_pipes := arr_push_back p (dist_pipes d)\<rparr>;
     if dist_more d then do {
       d \<leftarrow> dist_swap (eligible d) (length (items (dist_pipes d)) - 1) d;
       Some (d\<lparr>eligible := eligible d + 1\<rparr>)
     }
     else do {
       d \<leftarrow> dist_swap (dist_active d) (length (items (dist_pipes d)) - 1) d;
       Some (d\<lparr>dist_active := dist_active d + 1, eligible := eligible d + 1\<rparr>)
     }
   }"

definition dist_match :: "addr \<Rightarrow> dist_t \<Rightarrow> dist_t option" where
  "dist_match p d =
     (if dist_index p d < matching d then Some d
      else if dist_index p d \<ge> eligible d then Some d
      else do {
        d \<leftarrow> dist_swap (dist_index p d) (matching d) d;
        Some (d\<lparr>matching := matching d + 1\<rparr>)
      })"

definition dist_unmatch :: "dist_t \<Rightarrow> dist_t" where
  "dist_unmatch d = d\<lparr>matching := 0\<rparr>"

definition dist_pipe_terminated :: "addr \<Rightarrow> dist_t \<Rightarrow> dist_t option" where
  "dist_pipe_terminated p d = do {
     d \<leftarrow> (if dist_index p d < matching d
          then do { d \<leftarrow> dist_swap (dist_index p d) (matching d - 1) d; Some (d\<lparr>matching := matching d - 1\<rparr>) }
          else Some d);
     d \<leftarrow> (if dist_index p d < dist_active d
          then do { d \<leftarrow> dist_swap (dist_index p d) (dist_active d - 1) d; Some (d\<lparr>dist_active := dist_active d - 1\<rparr>) }
          else Some d);
     d \<leftarrow> (if dist_index p d < eligible d
          then do { d \<leftarrow> dist_swap (dist_index p d) (eligible d - 1) d; Some (d\<lparr>eligible := eligible d - 1\<rparr>) }
          else Some d);
     A \<leftarrow> arr_erase p (dist_pipes d);
     Some (d\<lparr>dist_pipes := A\<rparr>)
   }"

definition dist_activated :: "addr \<Rightarrow> dist_t \<Rightarrow> dist_t option" where
  "dist_activated p d = do {
     d \<leftarrow> dist_swap (dist_index p d) (eligible d) d;
     let d = d\<lparr>eligible := eligible d + 1\<rparr>;
     if \<not> dist_more d then do {
       d \<leftarrow> dist_swap (eligible d - 1) (dist_active d) d;
       Some (d\<lparr>dist_active := dist_active d + 1\<rparr>)
     }
     else Some d
   }"

text \<open>Writing to one pipe; a pipe that does not take the message becomes passive.\<close>

definition dist_write :: "addr \<Rightarrow> msg_t \<Rightarrow> dist_t \<Rightarrow> world \<Rightarrow> (bool \<times> dist_t \<times> world) option" where
  "dist_write p m d w = do {
     (ok, m, w) \<leftarrow> pipe_write p m w;
     if \<not> ok then do {
       d \<leftarrow> dist_swap (dist_index p d) (matching d - 1) d;
       let d = d\<lparr>matching := matching d - 1\<rparr>;
       d \<leftarrow> dist_swap (dist_index p d) (dist_active d - 1) d;
       let d = d\<lparr>dist_active := dist_active d - 1\<rparr>;
       d \<leftarrow> dist_swap (dist_active d) (eligible d - 1) d;
       Some (False, d\<lparr>eligible := eligible d - 1\<rparr>, w)
     }
     else do {
       w \<leftarrow> (if \<not> msg_more m then pipe_flush p w else Some w);
       Some (True, d, w)
     }
   }"

text \<open>The loops of \<open>distribute\<close>; \<open>failed\<close> counts the writes that failed, and the index is tried again.\<close>

partial_function (option) dist_loop ::
  "msg_t \<Rightarrow> nat \<Rightarrow> nat \<Rightarrow> dist_t \<Rightarrow> world \<Rightarrow> (nat \<times> dist_t \<times> world) option" where
  "dist_loop m i failed d w =
     (if \<not> i < matching d then Some (failed, d, w)
      else (case arr_get i (dist_pipes d) of
          None \<Rightarrow> None
        | Some p \<Rightarrow> (case dist_write p m d w of
              None \<Rightarrow> None
            | Some (ok, d, w) \<Rightarrow> if ok then dist_loop m (i + 1) failed d w else dist_loop m i (failed + 1) d w)))"

text \<open>The result of \<open>distribute\<close> includes the caller's handle, which is empty afterwards.\<close>

definition dist_distribute :: "msg_t \<Rightarrow> dist_t \<Rightarrow> world \<Rightarrow> (msg_t \<times> dist_t \<times> world) option" where
  "dist_distribute m d w =
     (if matching d = 0 then do { w \<leftarrow> close_in m w; Some (msg_init, d, w) }
      else if msg_is_vsm m then do {
        (_, d, w) \<leftarrow> dist_loop m 0 0 d w;
        w \<leftarrow> close_in m w;
        Some (msg_init, d, w)
      }
      else do {
        (m, h) \<leftarrow> msg_add_refs (matching d - 1) m (mheap w);
        (failed, d, w) \<leftarrow> dist_loop m 0 0 d (w\<lparr>mheap := h\<rparr>);
        w \<leftarrow> (if failed \<noteq> 0 then do { (_, _, h) \<leftarrow> msg_rm_refs failed m (mheap w); Some (w\<lparr>mheap := h\<rparr>) } else Some w);
        Some (msg_init, d, w)
      })"

definition dist_send_to_matching :: "msg_t \<Rightarrow> dist_t \<Rightarrow> world \<Rightarrow> (msg_t \<times> dist_t \<times> world) option" where
  "dist_send_to_matching m d w = do {
     let more = msg_more m;
     (m, d, w) \<leftarrow> dist_distribute m d w;
     let d = (if \<not> more then d\<lparr>dist_active := eligible d\<rparr> else d);
     Some (m, d\<lparr>dist_more := more\<rparr>, w)
   }"

definition dist_send_to_all :: "msg_t \<Rightarrow> dist_t \<Rightarrow> world \<Rightarrow> (msg_t \<times> dist_t \<times> world) option" where
  "dist_send_to_all m d w = dist_send_to_matching m (d\<lparr>matching := dist_active d\<rparr>) w"

definition dist_has_out :: bool where
  "dist_has_out = True"

subsection \<open>The borders\<close>

definition dist_ok :: "dist_t \<Rightarrow> bool" where
  "dist_ok d \<longleftrightarrow> arr_ok (dist_pipes d) \<and> matching d \<le> dist_active d \<and> dist_active d \<le> eligible d \<and>
     eligible d \<le> length (items (dist_pipes d))"

definition pfx :: "nat \<Rightarrow> dist_t \<Rightarrow> addr set" where
  "pfx n d = set (take n (items (dist_pipes d)))"

abbreviation matches :: "dist_t \<Rightarrow> addr set" where "matches d \<equiv> pfx (matching d) d"
abbreviation actives :: "dist_t \<Rightarrow> addr set" where "actives d \<equiv> pfx (dist_active d) d"
abbreviation eligibles :: "dist_t \<Rightarrow> addr set" where "eligibles d \<equiv> pfx (eligible d) d"
abbreviation dist_all :: "dist_t \<Rightarrow> addr set" where "dist_all d \<equiv> set (items (dist_pipes d))"

lemma dist_swap_ok:
  assumes "arr_ok (dist_pipes d)" and "i < length (items (dist_pipes d))" and "j < length (items (dist_pipes d))"
  shows "\<exists>A. dist_swap i j d = Some (d\<lparr>dist_pipes := A\<rparr>) \<and> arr_ok A \<and> items A = swapped i j (items (dist_pipes d))"
  using arr_swap_ok [OF assms] by (auto simp: dist_swap_def)

lemma dist_index_ok:
  assumes "arr_ok (dist_pipes d)" and "p \<in> dist_all d"
  shows "dist_index p d < length (items (dist_pipes d))" "items (dist_pipes d) ! dist_index p d = p"
    "dist_index p d < n \<longleftrightarrow> p \<in> pfx n d"
proof -
  show i: "dist_index p d < length (items (dist_pipes d))" "items (dist_pipes d) ! dist_index p d = p"
    using arr_index_ok [OF assms] by (simp_all add: dist_index_def)
  show "dist_index p d < n \<longleftrightarrow> p \<in> pfx n d"
  proof
    show "dist_index p d < n \<Longrightarrow> p \<in> pfx n d" using i by (auto simp: pfx_def in_set_conv_nth)
    assume "p \<in> pfx n d"
    then obtain k where "k < n" "k < length (items (dist_pipes d))" "p = items (dist_pipes d) ! k" by (auto simp: pfx_def in_set_conv_nth)
    then show "dist_index p d < n" using assms(1) by (simp add: dist_index_def)
  qed
qed

lemma pfx_mono: "m \<le> n \<Longrightarrow> pfx m d \<subseteq> pfx n d"
  unfolding pfx_def by (rule set_take_subset_set_take)

text \<open>Moving a pipe to just before the border \<open>n\<close>, which then goes down by one.\<close>

lemma move_out:
  assumes "arr_ok (dist_pipes d)" and "p \<in> pfx n d" and "n \<le> length (items (dist_pipes d))"
  shows "\<exists>A. dist_swap (dist_index p d) (n - 1) d = Some (d\<lparr>dist_pipes := A\<rparr>) \<and> arr_ok A \<and> set (items A) = dist_all d \<and>
    length (items A) = length (items (dist_pipes d)) \<and> arr_index p A = n - 1 \<and> set (take (n - 1) (items A)) = pfx n d - {p} \<and>
    (\<forall>k. k \<le> dist_index p d \<longrightarrow> k \<le> n - 1 \<longrightarrow> take k (items A) = take k (items (dist_pipes d))) \<and>
    (\<forall>k. n \<le> k \<longrightarrow> k \<le> length (items (dist_pipes d)) \<longrightarrow> set (take k (items A)) = pfx k d)"
proof -
  let ?xs = "items (dist_pipes d)" and ?i = "dist_index p d"
  have p: "p \<in> dist_all d" using assms(2) by (auto simp: pfx_def dest: in_set_takeD)
  note i = dist_index_ok [OF assms(1) p]
  have n: "?i \<le> n - 1" "n - 1 < length ?xs" "0 < n" using i(3) [of n] assms(2,3) i(1) by auto
  obtain A where A: "dist_swap ?i (n - 1) d = Some (d\<lparr>dist_pipes := A\<rparr>)" "arr_ok A" "items A = swapped ?i (n - 1) ?xs"
    using dist_swap_ok [OF assms(1) i(1) n(2)] by blast
  have "arr_index p A = n - 1" using arr_index_nth [OF A(2), of "n - 1"] A(3) i n by (simp add: swapped_nth)
  moreover have "set (take (n - 1) (items A)) = pfx n d - {p}"
    using set_take_deactivate [OF n(1,2)] assms(1) n(3) i(2) by (simp add: A(3) pfx_def arr_ok_def)
  moreover have "set (take k (items A)) = pfx k d" if "n \<le> k" "k \<le> length ?xs" for k
    using that n i(1) by (simp add: A(3) pfx_def)
  ultimately show ?thesis using A i(1) n by (intro exI [of _ A]) (simp add: take_swapped_beyond)
qed

text \<open>A failed write takes the pipe out of all three parts and keeps the order before it.\<close>

lemma dist_demote:
  assumes "dist_ok d" and "p \<in> matches d"
  shows "\<exists>d'. do {
       d \<leftarrow> dist_swap (dist_index p d) (matching d - 1) d;
       let d = d\<lparr>matching := matching d - 1\<rparr>;
       d \<leftarrow> dist_swap (dist_index p d) (dist_active d - 1) d;
       let d = d\<lparr>dist_active := dist_active d - 1\<rparr>;
       d \<leftarrow> dist_swap (dist_active d) (eligible d - 1) d;
       Some (False, d\<lparr>eligible := eligible d - 1\<rparr>, w)
     } = Some (False, d', w) \<and> dist_ok d' \<and> dist_all d' = dist_all d \<and> dist_more d' = dist_more d \<and> matching d' = matching d - 1 \<and>
    matches d' = matches d - {p} \<and> actives d' = actives d - {p} \<and> eligibles d' = eligibles d - {p} \<and>
    (\<forall>k. k \<le> dist_index p d \<longrightarrow> take k (items (dist_pipes d')) = take k (items (dist_pipes d)))"
proof -
  let ?m = "matching d" and ?a = "dist_active d" and ?e = "eligible d" and ?xs = "items (dist_pipes d)"
  have ok: "arr_ok (dist_pipes d)" "?m \<le> ?a" "?a \<le> ?e" "?e \<le> length ?xs" using assms(1) by (auto simp: dist_ok_def)
  have pa: "p \<in> pfx ?a d" "p \<in> pfx ?e d" "p \<in> dist_all d" using assms(2) pfx_mono ok(2,3) by (blast, meson in_mono le_trans, auto simp: pfx_def dest: in_set_takeD)
  have im: "dist_index p d < ?m" using dist_index_ok(3) [OF ok(1) pa(3)] assms(2) by simp
  obtain A1 where A1: "dist_swap (dist_index p d) (?m - 1) d = Some (d\<lparr>dist_pipes := A1\<rparr>)" "arr_ok A1" "set (items A1) = dist_all d"
    "length (items A1) = length ?xs" "arr_index p A1 = ?m - 1" "set (take (?m - 1) (items A1)) = matches d - {p}"
    "\<forall>k. k \<le> dist_index p d \<longrightarrow> k \<le> ?m - 1 \<longrightarrow> take k (items A1) = take k ?xs"
    "\<forall>k. ?m \<le> k \<longrightarrow> k \<le> length ?xs \<longrightarrow> set (take k (items A1)) = pfx k d" using move_out [OF ok(1) assms(2)] ok by auto
  define d1 where "d1 = d\<lparr>dist_pipes := A1, matching := ?m - 1\<rparr>"
  have d1: "arr_ok (dist_pipes d1)" "p \<in> pfx ?a d1" "?a \<le> length (items (dist_pipes d1))" "pfx ?a d1 = pfx ?a d" "dist_index p d1 = ?m - 1"
    using A1 ok pa by (auto simp: d1_def pfx_def dist_index_def)
  obtain A2 where A2: "dist_swap (dist_index p d1) (?a - 1) d1 = Some (d1\<lparr>dist_pipes := A2\<rparr>)" "arr_ok A2" "set (items A2) = dist_all d1"
    "length (items A2) = length (items A1)" "arr_index p A2 = ?a - 1" "set (take (?a - 1) (items A2)) = pfx ?a d1 - {p}"
    "\<forall>k. k \<le> dist_index p d1 \<longrightarrow> k \<le> ?a - 1 \<longrightarrow> take k (items A2) = take k (items A1)"
    "\<forall>k. ?a \<le> k \<longrightarrow> k \<le> length (items A1) \<longrightarrow> set (take k (items A2)) = pfx k d1"
    using move_out [OF d1(1-3)] by (auto simp: d1_def)
  define d2 where "d2 = d1\<lparr>dist_pipes := A2, dist_active := ?a - 1\<rparr>"
  have e2: "pfx ?e d2 = pfx ?e d" using A2(8) A1(4,8) ok by (simp add: d2_def d1_def pfx_def)
  have d2: "arr_ok (dist_pipes d2)" "p \<in> pfx ?e d2" "?e \<le> length (items (dist_pipes d2))" "dist_index p d2 = ?a - 1"
    using A2 A1(4) ok pa(2) e2 by (auto simp: d2_def dist_index_def)
  obtain A3 where A3: "dist_swap (dist_index p d2) (?e - 1) d2 = Some (d2\<lparr>dist_pipes := A3\<rparr>)" "arr_ok A3" "set (items A3) = dist_all d2"
    "length (items A3) = length (items A2)" "set (take (?e - 1) (items A3)) = pfx ?e d2 - {p}"
    "\<forall>k. k \<le> dist_index p d2 \<longrightarrow> k \<le> ?e - 1 \<longrightarrow> take k (items A3) = take k (items A2)"
    using move_out [OF d2(1-3)] by (auto simp: d2_def)
  define d3 where "d3 = d2\<lparr>dist_pipes := A3, eligible := ?e - 1\<rparr>"
  have run: "do {
       d \<leftarrow> dist_swap (dist_index p d) (matching d - 1) d;
       let d = d\<lparr>matching := matching d - 1\<rparr>;
       d \<leftarrow> dist_swap (dist_index p d) (dist_active d - 1) d;
       let d = d\<lparr>dist_active := dist_active d - 1\<rparr>;
       d \<leftarrow> dist_swap (dist_active d) (eligible d - 1) d;
       Some (False, d\<lparr>eligible := eligible d - 1\<rparr>, w)
     } = Some (False, d3, w)"
    using A1(1) A2(1) A3(1) d2(4) by (simp add: d1_def d2_def d3_def Let_def)
  have pres: "take k (items A3) = take k (items A1)" if "k \<le> ?m - 1" for k
    using A2(7) A3(6) that d1(5) d2(4) ok(2,3) by auto
  have "dist_ok d3" using ok A1(4) A2(4) A3(2,4) im by (auto simp: dist_ok_def d3_def d2_def d1_def)
  moreover have "matches d3 = matches d - {p}" using pres [of "?m - 1"] A1(6) by (simp add: pfx_def d3_def d2_def d1_def)
  moreover have "actives d3 = actives d - {p}" using A3(6) A2(6) d2(4) d1(4) ok(3) by (simp add: pfx_def d3_def d2_def d1_def)
  moreover have "eligibles d3 = eligibles d - {p}" using A3(5) e2 by (simp add: pfx_def d3_def d2_def d1_def)
  moreover have "take k (items (dist_pipes d3)) = take k ?xs" if "k \<le> dist_index p d" for k
    using pres [of k] A1(7) that im by (simp add: d3_def)
  moreover have "dist_all d3 = dist_all d" using A1(3) A2(3) A3(3) by (simp add: d3_def d2_def d1_def)
  ultimately show ?thesis using run by (intro exI [of _ d3]) (simp add: d3_def d2_def d1_def)
qed

text \<open>Writing to a matching pipe, in both outcomes.\<close>

lemma dist_write_ok:
  assumes "dist_ok d" and "p \<in> matches d" and "writable w p"
  shows "\<exists>d' w'. dist_write p m d w = Some (has_room w p, d', w') \<and> dist_ok d' \<and> dist_all d' = dist_all d \<and> dist_more d' = dist_more d \<and>
    (if has_room w p then d' = d else matching d' = matching d - 1 \<and>
       matches d' = matches d - {p} \<and> actives d' = actives d - {p} \<and> eligibles d' = eligibles d - {p} \<and>
       (\<forall>k. k \<le> dist_index p d \<longrightarrow> take k (items (dist_pipes d')) = take k (items (dist_pipes d)))) \<and>
    (\<forall>q. writable w q \<longrightarrow> writable w' q) \<and> (\<forall>q. q \<noteq> p \<longrightarrow> has_room w' q = has_room w q) \<and> mheap w' = mheap w \<and>
    (\<forall>q xs. out_log w q xs \<longrightarrow> out_log w' q (if q = p \<and> has_room w p then xs @ [m] else xs))"
proof -
  obtain w1 where w1: "pipe_write p m w = Some (has_room w p, m, w1)" "\<forall>q. writable w q \<longrightarrow> writable w1 q"
    "\<forall>q. q \<noteq> p \<longrightarrow> has_room w1 q = has_room w q" using pipe_write_room [OF assms(3)] by blast
  have l1: "\<forall>q xs. out_log w q xs \<longrightarrow> out_log w1 q (if q = p \<and> has_room w p then xs @ [m] else xs)" "mheap w1 = mheap w"
    using pipe_write_log [OF assms(3) w1(1)] by blast+
  show ?thesis
  proof (cases "has_room w p")
    case True
    have "writable w1 p" using w1(2) assms(3) by blast
    then obtain w2 where w2: "pipe_flush p w1 = Some w2" "\<forall>q. writable w1 q \<longrightarrow> writable w2 q" "\<forall>q. has_room w2 q = has_room w1 q"
      "\<forall>q xs. out_log w1 q xs \<longrightarrow> out_log w2 q xs" "mheap w2 = mheap w1" using pipe_flush_room pipe_flush_log by metis
    show ?thesis using True w1 l1 w2 assms(1)
      by (intro exI [of _ d] exI [of _ "if msg_more m then w1 else w2"]) (auto simp: dist_write_def)
  next
    case False
    obtain d' where d': "dist_write p m d w = Some (False, d', w1)" "dist_ok d'" "dist_all d' = dist_all d" "dist_more d' = dist_more d"
      "matching d' = matching d - 1" "matches d' = matches d - {p}" "actives d' = actives d - {p}" "eligibles d' = eligibles d - {p}"
      "\<forall>k. k \<le> dist_index p d \<longrightarrow> take k (items (dist_pipes d')) = take k (items (dist_pipes d))"
      using dist_demote [OF assms(1,2), of w1] w1(1) False by (auto simp: dist_write_def)
    show ?thesis using False d' w1 l1 by (intro exI [of _ d'] exI [of _ w1]) auto
  qed
qed

subsection \<open>A message to all matching pipes\<close>

text \<open>\<open>todo\<close> are the pipes from index \<open>i\<close> on; those without room are refused.\<close>

definition todo :: "nat \<Rightarrow> dist_t \<Rightarrow> addr set" where
  "todo i d = matches d - pfx i d"

definition refused :: "nat \<Rightarrow> dist_t \<Rightarrow> world \<Rightarrow> addr set" where
  "refused i d w = {p \<in> todo i d. \<not> has_room w p}"

lemma finite_todo [simp]: "finite (todo i d)" "finite (refused i d w)"
  by (simp_all add: todo_def refused_def pfx_def)

lemma pfx_Suc: "i < length (items (dist_pipes d)) \<Longrightarrow> pfx (Suc i) d = insert (items (dist_pipes d) ! i) (pfx i d)"
  by (simp add: pfx_def take_Suc_conv_app_nth)

lemma nth_notin_pfx: "arr_ok (dist_pipes d) \<Longrightarrow> i < length (items (dist_pipes d)) \<Longrightarrow> items (dist_pipes d) ! i \<notin> pfx i d"
  by (auto simp: pfx_def arr_ok_def in_set_conv_nth nth_eq_iff_index_eq)

definition loop_done :: "msg_t \<Rightarrow> nat \<Rightarrow> nat \<Rightarrow> dist_t \<Rightarrow> world \<Rightarrow> nat \<Rightarrow> dist_t \<Rightarrow> world \<Rightarrow> bool" where
  "loop_done m i failed d w f' d' w' \<longleftrightarrow> dist_ok d' \<and> dist_all d' = dist_all d \<and> dist_more d' = dist_more d \<and>
     matches d' = matches d - refused i d w \<and> actives d' = actives d - refused i d w \<and> eligibles d' = eligibles d - refused i d w \<and>
     f' = failed + card (refused i d w) \<and> mheap w' = mheap w \<and> (\<forall>q. writable w q \<longrightarrow> writable w' q) \<and>
     (\<forall>p xs. out_log w p xs \<longrightarrow> out_log w' p (if p \<in> todo i d - refused i d w then xs @ [m] else xs))"

lemma loop_done_ok:
  assumes "has_room w p" and "p \<in> matches d" and "pfx (Suc i) d = insert p (pfx i d)" and "p \<notin> pfx i d"
    and "\<forall>q. writable w q \<longrightarrow> writable w1 q" and "\<forall>q. q \<noteq> p \<longrightarrow> has_room w1 q = has_room w q" and "mheap w1 = mheap w"
    and "\<forall>q xs. out_log w q xs \<longrightarrow> out_log w1 q (if q = p then xs @ [m] else xs)"
    and "loop_done m (Suc i) failed d w1 f' d' w'"
  shows "loop_done m i failed d w f' d' w'"
proof -
  have t: "todo i d = insert p (todo (Suc i) d)" "p \<notin> todo (Suc i) d" using assms(2-4) by (auto simp: todo_def)
  then have r: "refused i d w = refused (Suc i) d w1" using assms(1,6) by (auto simp: refused_def)
  have "p \<notin> refused i d w" using assms(1) by (simp add: refused_def)
  then have "out_log w' q (if q \<in> todo i d - refused i d w then xs @ [m] else xs)" if "out_log w q xs" for q xs
    using assms(8,9) that t r by (cases "q = p") (fastforce simp: loop_done_def)+
  then show ?thesis using assms(5,7,9) r by (simp add: loop_done_def)
qed

lemma loop_done_fail:
  assumes "\<not> has_room w p" and "p \<in> matches d" and "p \<notin> pfx i d" and "pfx i d1 = pfx i d"
    and "dist_all d1 = dist_all d" "dist_more d1 = dist_more d"
    and "matches d1 = matches d - {p}" and "actives d1 = actives d - {p}" and "eligibles d1 = eligibles d - {p}"
    and "\<forall>q. writable w q \<longrightarrow> writable w1 q" and "\<forall>q. q \<noteq> p \<longrightarrow> has_room w1 q = has_room w q" and "mheap w1 = mheap w"
    and "\<forall>q xs. out_log w q xs \<longrightarrow> out_log w1 q xs"
    and "loop_done m i (Suc failed) d1 w1 f' d' w'"
  shows "loop_done m i failed d w f' d' w'"
proof -
  have t: "todo i d = insert p (todo i d1)" "p \<notin> todo i d1" using assms(2,3,4,7) by (auto simp: todo_def)
  then have r: "refused i d w = insert p (refused i d1 w1)" "p \<notin> refused i d1 w1" using assms(1,11) by (auto simp: refused_def)
  then have c: "card (refused i d w) = Suc (card (refused i d1 w1))" by simp
  have "out_log w' q (if q \<in> todo i d - refused i d w then xs @ [m] else xs)" if "out_log w q xs" for q xs
    using assms(13,14) that t r by (cases "q = p") (fastforce simp: loop_done_def)+
  then show ?thesis using assms(5-10,12,14) r c unfolding loop_done_def by auto
qed

lemma dist_loop_ok:
  assumes "dist_ok d" and "\<forall>p \<in> matches d. writable w p"
  shows "\<exists>f' d' w'. dist_loop m i failed d w = Some (f', d', w') \<and> loop_done m i failed d w f' d' w'"
  using assms
proof (induction "matching d - i" arbitrary: i failed d w rule: less_induct)
  case less
  show ?case
  proof (cases "i < matching d")
    case False
    then have "todo i d = {}" using pfx_mono [of "matching d" i d] by (auto simp: todo_def)
    then have "loop_done m i failed d w failed d w" using less.prems(1) by (simp add: loop_done_def refused_def)
    moreover have "dist_loop m i failed d w = Some (failed, d, w)" using False by (subst dist_loop.simps) simp
    ultimately show ?thesis by blast
  next
    case True
    let ?p = "items (dist_pipes d) ! i"
    have ok: "arr_ok (dist_pipes d)" "i < length (items (dist_pipes d))" using less.prems(1) True by (auto simp: dist_ok_def)
    have p: "?p \<in> matches d" "dist_index ?p d = i" "arr_get i (dist_pipes d) = Some ?p"
      using ok True by (auto simp: pfx_def in_set_conv_nth dist_index_def arr_get_def)
    have wp: "writable w ?p" using less.prems(2) p(1) by blast
    obtain d1 w1 where w1: "dist_write ?p m d w = Some (has_room w ?p, d1, w1)" "dist_ok d1" "dist_all d1 = dist_all d" "dist_more d1 = dist_more d"
      "if has_room w ?p then d1 = d else matching d1 = matching d - 1 \<and>
         matches d1 = matches d - {?p} \<and> actives d1 = actives d - {?p} \<and> eligibles d1 = eligibles d - {?p} \<and>
         (\<forall>k. k \<le> dist_index ?p d \<longrightarrow> take k (items (dist_pipes d1)) = take k (items (dist_pipes d)))"
      "\<forall>q. writable w q \<longrightarrow> writable w1 q" "\<forall>q. q \<noteq> ?p \<longrightarrow> has_room w1 q = has_room w q" "mheap w1 = mheap w"
      "\<forall>q xs. out_log w q xs \<longrightarrow> out_log w1 q (if q = ?p \<and> has_room w ?p then xs @ [m] else xs)"
      using dist_write_ok [OF less.prems(1) p(1) wp, of m] by (elim exE conjE) (rule that, assumption+)
    note ni = nth_notin_pfx [OF ok]
    show ?thesis
    proof (cases "has_room w ?p")
      case room: True
      then have d1: "d1 = d" using w1(5) by simp
      have "\<exists>f' d' w'. dist_loop m (Suc i) failed d w1 = Some (f', d', w') \<and> loop_done m (Suc i) failed d w1 f' d' w'"
        using less.prems w1(6) True by (intro less.hyps) auto
      then obtain f' d' w' where r: "dist_loop m (Suc i) failed d w1 = Some (f', d', w')" "loop_done m (Suc i) failed d w1 f' d' w'" by blast
      have "loop_done m i failed d w f' d' w'"
        using loop_done_ok [OF room p(1) pfx_Suc [OF ok(2)] ni w1(6-8) _ r(2)] w1(9) room by simp
      moreover have "dist_loop m i failed d w = Some (f', d', w')"
        using True p(3) w1(1) room d1 r(1) by (subst dist_loop.simps) simp
      ultimately show ?thesis by blast
    next
      case full: False
      note c = w1(5) [unfolded if_not_P [OF full]]
      note f = conjunct1 [OF c] conjunct1 [OF conjunct2 [OF c]] conjunct1 [OF conjunct2 [OF conjunct2 [OF c]]]
        conjunct1 [OF conjunct2 [OF conjunct2 [OF conjunct2 [OF c]]]] conjunct2 [OF conjunct2 [OF conjunct2 [OF conjunct2 [OF c]]]]
      have same: "pfx i d1 = pfx i d" using f(5) p(2) by (simp add: pfx_def)
      have "\<exists>f' d' w'. dist_loop m i (Suc failed) d1 w1 = Some (f', d', w') \<and> loop_done m i (Suc failed) d1 w1 f' d' w'"
        using less.prems w1(2,6) True f(1,2) by (intro less.hyps) auto
      then obtain f' d' w' where r: "dist_loop m i (Suc failed) d1 w1 = Some (f', d', w')" "loop_done m i (Suc failed) d1 w1 f' d' w'" by blast
      have "loop_done m i failed d w f' d' w'"
        using loop_done_fail [OF full p(1) ni same w1(3,4) f(2-4) w1(6-8) _ r(2)] w1(9) full by simp
      moreover have "dist_loop m i failed d w = Some (f', d', w')"
        using True p(3) w1(1) full r(1) by (subst dist_loop.simps) simp
      ultimately show ?thesis by blast
    qed
  qed
qed

lemma world_heap_simps [simp]:
  "writable (w\<lparr>mheap := h\<rparr>) p = writable w p" "has_room (w\<lparr>mheap := h\<rparr>) p = has_room w p" "out_log (w\<lparr>mheap := h\<rparr>) p xs = out_log w p xs"
  by (simp_all add: writable_def has_room_def out_log_def sole_writer_def up_view_def)

lemma refused_heap [simp]: "refused i d (w\<lparr>mheap := h\<rparr>) = refused i d w"
  by (simp add: refused_def)

lemma close_in_refs:
  assumes "refs_ok (mheap w) (add_mset m ms)" and "msg_check m"
  shows "\<exists>h. close_in m w = Some (w\<lparr>mheap := h\<rparr>) \<and> refs_ok h ms"
  using msg_close_refs [OF assms] by (auto simp: close_in_def)

text \<open>The pipes that take the message, and the effect of \<open>distribute\<close>.\<close>

definition takers :: "dist_t \<Rightarrow> world \<Rightarrow> addr set" where
  "takers d w = {p \<in> matches d. has_room w p}"

definition distributed :: "msg_t \<Rightarrow> dist_t \<Rightarrow> world \<Rightarrow> dist_t \<Rightarrow> world \<Rightarrow> bool" where
  "distributed m d w d' w' \<longleftrightarrow> dist_ok d' \<and> dist_all d' = dist_all d \<and> dist_more d' = dist_more d \<and> matches d' = takers d w \<and>
     actives d' = actives d - (matches d - takers d w) \<and> eligibles d' = eligibles d - (matches d - takers d w) \<and>
     (\<forall>q. writable w q \<longrightarrow> writable w' q) \<and> (\<forall>p xs. out_log w p xs \<longrightarrow> out_log w' p (if p \<in> takers d w then xs @ [m] else xs))"

lemma todo_0 [simp]: "todo 0 d = matches d"
  by (simp add: todo_def pfx_def)

lemma loop_done_distributed:
  assumes "loop_done m 0 failed d w f' d' w'"
  shows "distributed m d w d' w'" "f' = failed + card (matches d - takers d w)" "mheap w' = mheap w"
proof -
  have "refused 0 d w = matches d - takers d w" "matches d - (matches d - takers d w) = takers d w" by (auto simp: refused_def takers_def)
  then show "distributed m d w d' w'" "f' = failed + card (matches d - takers d w)" "mheap w' = mheap w"
    using assms by (simp_all add: loop_done_def distributed_def)
qed

lemma distributed_heap [simp]:
  "distributed m d (w\<lparr>mheap := h\<rparr>) d' w' = distributed m d w d' w'" "distributed m d w d' (w'\<lparr>mheap := h\<rparr>) = distributed m d w d' w'"
  by (simp_all add: distributed_def takers_def)

lemma card_takers: "card (takers d w) + card (matches d - takers d w) = card (matches d)"
proof -
  have "finite (matches d)" "takers d w \<subseteq> matches d" by (auto simp: pfx_def takers_def)
  then show ?thesis by (simp add: card_Diff_subset finite_subset card_mono)
qed

lemma card_matches: "dist_ok d \<Longrightarrow> card (matches d) = matching d"
  by (simp add: pfx_def dist_ok_def arr_ok_def distinct_card distinct_take)

lemma dist_distribute_ok:
  assumes "dist_ok d" and "\<forall>p \<in> matches d. writable w p" and "refs_ok (mheap w) (add_mset m ms)" and "msg_check m"
    and "\<forall>a. points_to a m \<longrightarrow> nrefs a ms + matching d < 2 ^ 32"
  shows "\<exists>m1 d' w'. dist_distribute m d w = Some (msg_init, d', w') \<and> msg_u m1 = msg_u m \<and> distributed m1 d w d' w' \<and>
    refs_ok (mheap w') (replicate_mset (card (takers d w)) m1 + ms)"
proof -
  consider "matching d = 0" | "matching d \<noteq> 0" "msg_is_vsm m" | n where "matching d = Suc n" "\<not> msg_is_vsm m" by (cases "matching d") auto
  then show ?thesis
  proof cases
    case 1
    then have e: "matches d = {}" "takers d w = {}" by (simp_all add: pfx_def takers_def)
    obtain h where "close_in m w = Some (w\<lparr>mheap := h\<rparr>)" "refs_ok h ms" using close_in_refs [OF assms(3,4)] by blast
    then show ?thesis using 1 e assms(1) by (intro exI [of _ m] exI [of _ d] exI [of _ "w\<lparr>mheap := h\<rparr>"]) (simp add: dist_distribute_def distributed_def)
  next
    case 2
    obtain f' d' w' where l: "dist_loop m 0 0 d w = Some (f', d', w')" "loop_done m 0 0 d w f' d' w'" using dist_loop_ok [OF assms(1,2)] by blast
    have heap: "mheap w' = mheap w" using loop_done_distributed(3) [OF l(2)] .
    obtain h where h: "close_in m w' = Some (w'\<lparr>mheap := h\<rparr>)" "refs_ok h ms" using close_in_refs [of w' m ms] assms(3,4) heap by auto
    have nopt: "\<not> points_to a m" "msg_u m \<noteq> Lmsg None" for a using 2(2) by (auto simp: points_to_def msg_is_vsm_def split: msg_body.splits)
    have "refs_ok h (replicate_mset k m + ms)" for k by (induction k) (simp_all add: h(2) refs_ok_none nopt)
    then show ?thesis using 2 l(1) h(1) loop_done_distributed(1) [OF l(2)]
      by (intro exI [of _ m] exI [of _ d'] exI [of _ "w'\<lparr>mheap := h\<rparr>"]) (simp add: dist_distribute_def)
  next
    case 3
    obtain m1 h1 where m1: "msg_add_refs n m (mheap w) = Some (m1, h1)" "refs_ok h1 (replicate_mset (Suc n) m1 + ms)" "msg_u m1 = msg_u m"
      using msg_add_refs_refs [OF assms(3), of n] assms(5) 3(1) by (auto simp: add.commute)
    have chk: "msg_check m1" using m1(3) assms(4) by (simp add: msg_check_def)
    obtain f' d' w' where l: "dist_loop m1 0 0 d (w\<lparr>mheap := h1\<rparr>) = Some (f', d', w')" "loop_done m1 0 0 d (w\<lparr>mheap := h1\<rparr>) f' d' w'"
      using dist_loop_ok [OF assms(1), of "w\<lparr>mheap := h1\<rparr>"] assms(2) by fastforce
    have D: "distributed m1 d w d' w'" "mheap w' = h1" using loop_done_distributed(1,3) [OF l(2)] by simp_all
    have "f' = card (matches d - takers d w)" using loop_done_distributed(2) [OF l(2)] by (simp add: takers_def)
    then have f: "card (takers d w) + f' = Suc n" using card_takers [of d w] card_matches [OF assms(1)] 3(1) by simp
    have "refs_ok h1 (replicate_mset f' m1 + (replicate_mset (card (takers d w)) m1 + ms))"
      using m1(2) unfolding f [symmetric] by (simp add: replicate_mset_add add_ac)
    then obtain w2 where w2: "(if f' \<noteq> 0 then do { (_, _, h) \<leftarrow> msg_rm_refs f' m1 (mheap w'); Some (w'\<lparr>mheap := h\<rparr>) } else Some w') = Some w2"
      "refs_ok (mheap w2) (replicate_mset (card (takers d w)) m1 + ms)" "distributed m1 d w d' w2"
      using msg_rm_refs_refs [of h1 f' m1 "replicate_mset (card (takers d w)) m1 + ms"] chk D by (cases "f' = 0") auto
    then show ?thesis using 3 m1(1,3) l(1) by (intro exI [of _ m1] exI [of _ d'] exI [of _ w2]) (simp add: dist_distribute_def)
  qed
qed

subsection \<open>Attaching, matching, activating, terminating\<close>

text \<open>Between messages every eligible pipe is active.\<close>

definition dist_inv :: "dist_t \<Rightarrow> bool" where
  "dist_inv d \<longleftrightarrow> dist_ok d \<and> (\<not> dist_more d \<longrightarrow> dist_active d = eligible d)"

lemma pfx_swap_in:
  assumes "n \<le> i" and "i < length (items (dist_pipes d))" and "items (dist_pipes d') = swapped i n (items (dist_pipes d))"
  shows "pfx (Suc n) d' = insert (items (dist_pipes d) ! i) (pfx n d)" "k \<le> n \<Longrightarrow> pfx k d' = pfx k d"
  using assms set_take_activate [OF assms(1,2)] by (simp_all add: pfx_def take_swapped_beyond)

lemma dist_attach_ok:
  assumes "dist_inv d" and "p \<notin> dist_all d"
  shows "\<exists>d'. dist_attach p d = Some d' \<and> dist_inv d' \<and> dist_all d' = insert p (dist_all d) \<and> matches d' = matches d \<and>
    eligibles d' = insert p (eligibles d) \<and> actives d' = (if dist_more d then actives d else insert p (actives d))"
proof -
  let ?e = "eligible d" and ?l = "length (items (dist_pipes d))"
  define d0 where "d0 = d\<lparr>dist_pipes := arr_push_back p (dist_pipes d)\<rparr>"
  have ok: "arr_ok (dist_pipes d)" "matching d \<le> dist_active d" "dist_active d \<le> ?e" "?e \<le> ?l" using assms(1) by (auto simp: dist_inv_def dist_ok_def)
  have A: "arr_ok (dist_pipes d0)" "items (dist_pipes d0) = items (dist_pipes d) @ [p]"
    using arr_push_back_ok [OF ok(1) assms(2)] by (simp_all add: d0_def)
  obtain A' where A': "dist_swap ?e ?l d0 = Some (d0\<lparr>dist_pipes := A'\<rparr>)" "arr_ok A'" "items A' = swapped ?e ?l (items (dist_pipes d0))"
    using dist_swap_ok [OF A(1), of ?e ?l] A(2) ok(4) by auto
  define d' where "d' = d0\<lparr>dist_pipes := A', dist_active := (if dist_more d then dist_active d else ?e + 1), eligible := ?e + 1\<rparr>"
  have "dist_attach p d = Some d'"
    using A'(1) A(2) assms(1) unfolding dist_attach_def d0_def [symmetric] Let_def by (auto simp: d'_def d0_def dist_inv_def)
  moreover have "pfx k d0 = pfx k d" if "k \<le> ?l" for k using that A(2) by (simp add: pfx_def)
  moreover have it: "items (dist_pipes d') = swapped ?l ?e (items (dist_pipes d0))" unfolding d'_def by (simp add: A'(3)) (rule swapped_commute)
  have "pfx (Suc ?e) d' = insert p (pfx ?e d0)" "k \<le> ?e \<Longrightarrow> pfx k d' = pfx k d0" for k
    using pfx_swap_in [OF ok(4) _ it] A(2) by simp_all
  moreover have "eligible d' = Suc ?e" "matching d' = matching d" "dist_active d' = (if dist_more d then dist_active d else Suc ?e)"
    by (simp_all add: d'_def d0_def)
  moreover have "dist_inv d'" using ok A' A(2) assms(1) by (auto simp: dist_inv_def dist_ok_def d'_def d0_def)
  moreover have "dist_all d' = insert p (dist_all d)" using A'(3) A(2) ok(4) by (simp add: d'_def)
  moreover have "dist_active d \<le> ?l" "matching d \<le> ?e" "\<not> dist_more d \<Longrightarrow> dist_active d = ?e" using ok assms(1) by (auto simp: dist_inv_def)
  ultimately show ?thesis using ok by (intro exI [of _ d']) auto
qed

lemma dist_match_ok:
  assumes "dist_inv d" and "p \<in> dist_all d" and "\<not> dist_more d"
  shows "\<exists>d'. dist_match p d = Some d' \<and> dist_inv d' \<and> dist_all d' = dist_all d \<and> eligibles d' = eligibles d \<and> actives d' = actives d \<and>
    matches d' = matches d \<union> ({p} \<inter> eligibles d) \<and> dist_more d' = dist_more d"
proof -
  have ok: "arr_ok (dist_pipes d)" "matching d \<le> eligible d" "dist_active d = eligible d" "eligible d \<le> length (items (dist_pipes d))"
    using assms(1,3) by (auto simp: dist_inv_def dist_ok_def)
  let ?i = "dist_index p d"
  note i = dist_index_ok [OF ok(1) assms(2)]
  consider "?i < matching d" | "eligible d \<le> ?i" | "matching d \<le> ?i" "?i < eligible d" by linarith
  then show ?thesis
  proof cases
    case 1
    then have "p \<in> matches d" using i(3) by blast
    then show ?thesis using 1 assms(1) by (auto simp: dist_match_def)
  next
    case 2
    then have "p \<notin> eligibles d" using i(3) [of "eligible d"] by simp
    then show ?thesis using 2 assms(1) ok(2) by (auto simp: dist_match_def)
  next
    case 3
    obtain A where A: "dist_swap ?i (matching d) d = Some (d\<lparr>dist_pipes := A\<rparr>)" "arr_ok A" "items A = swapped ?i (matching d) (items (dist_pipes d))"
      using dist_swap_ok [OF ok(1) i(1), of "matching d"] 3 ok(4) by auto
    let ?d = "d\<lparr>dist_pipes := A, matching := matching d + 1\<rparr>"
    have "dist_match p d = Some ?d" using 3 A(1) by (simp add: dist_match_def)
    moreover have "dist_inv ?d" using 3 A ok assms by (auto simp: dist_inv_def dist_ok_def)
    moreover have "matches ?d = insert p (matches d)" using pfx_swap_in(1) [OF 3(1) i(1), of ?d] A(3) i(2) by simp
    moreover have "pfx (eligible d) ?d = eligibles d" using 3 ok(4) A(3) i(1) by (simp add: pfx_def)
    moreover have "p \<in> eligibles d" using i(3) 3(2) by blast
    moreover have "dist_all ?d = dist_all d" using A(3) i(1) 3 ok(4) by simp
    ultimately show ?thesis using ok(3) by (intro exI [of _ ?d]) auto
  qed
qed

lemma dist_activated_ok:
  assumes "dist_inv d" and "p \<in> dist_all d" and "p \<notin> eligibles d"
  shows "\<exists>d'. dist_activated p d = Some d' \<and> dist_inv d' \<and> dist_all d' = dist_all d \<and> matches d' = matches d \<and>
    eligibles d' = insert p (eligibles d) \<and> actives d' = (if dist_more d then actives d else insert p (actives d))"
proof -
  let ?i = "dist_index p d" and ?e = "eligible d"
  have ok: "arr_ok (dist_pipes d)" "matching d \<le> dist_active d" "dist_active d \<le> ?e" "?e \<le> length (items (dist_pipes d))"
    using assms(1) by (auto simp: dist_inv_def dist_ok_def)
  note i = dist_index_ok [OF ok(1) assms(2)]
  have e: "?e \<le> ?i" "?e < length (items (dist_pipes d))" using i(3) [of ?e] assms(3) i(1) by auto
  obtain A where A: "dist_swap ?i ?e d = Some (d\<lparr>dist_pipes := A\<rparr>)" "arr_ok A" "items A = swapped ?i ?e (items (dist_pipes d))"
    using dist_swap_ok [OF ok(1) i(1) e(2)] by blast
  let ?d = "d\<lparr>dist_pipes := A, eligible := ?e + 1\<rparr>"
  define d' where "d' = ?d\<lparr>dist_active := (if dist_more d then dist_active d else ?e + 1)\<rparr>"
  have "dist_activated p d = Some d'"
  proof (cases "dist_more d")
    case False
    then have "dist_active d = ?e" using assms(1) by (simp add: dist_inv_def)
    moreover obtain B where "dist_swap ?e ?e ?d = Some (?d\<lparr>dist_pipes := B\<rparr>)" "arr_swap ?e ?e A = Some B"
      using dist_swap_ok [of ?d ?e ?e] A e(2) by (auto simp: dist_swap_def split: Option.bind_splits)
    moreover have "B = A" using calculation(3) A(2,3) e(2)
      by (cases A) (auto simp: arr_swap_def set_array_index_def arr_ok_def Let_def split: if_splits)
    ultimately show ?thesis using A(1) False by (simp add: dist_activated_def d'_def Let_def)
  qed (use A(1) in \<open>simp add: dist_activated_def d'_def Let_def\<close>)
  moreover have it: "items (dist_pipes d') = swapped ?i ?e (items (dist_pipes d))" using A(3) by (simp add: d'_def)
  have "pfx (Suc ?e) d' = insert p (pfx ?e d)" "k \<le> ?e \<Longrightarrow> pfx k d' = pfx k d" for k
    using pfx_swap_in [OF e(1) i(1) it] i(2) by simp_all
  moreover have "eligible d' = Suc ?e" "matching d' = matching d" "dist_active d' = (if dist_more d then dist_active d else Suc ?e)"
    by (simp_all add: d'_def)
  moreover have "dist_inv d'" using ok e A assms(1) by (auto simp: dist_inv_def dist_ok_def d'_def)
  moreover have "dist_all d' = dist_all d" using A(3) i(1) e(2) by (simp add: d'_def)
  moreover have "matching d \<le> ?e" "\<not> dist_more d \<Longrightarrow> dist_active d = ?e" using ok assms(1) by (auto simp: dist_inv_def)
  ultimately show ?thesis using ok by (intro exI [of _ d']) auto
qed


text \<open>One step of \<open>pipe_terminated\<close>: the border \<open>n\<close> goes down to \<open>n'\<close> if the pipe is below it.\<close>

lemma dist_shrink:
  assumes "arr_ok (dist_pipes d)" and "p \<in> dist_all d" and "n \<le> length (items (dist_pipes d))" and "n' = (if p \<in> pfx n d then n - 1 else n)"
  shows "\<exists>A. (if dist_index p d < n then dist_swap (dist_index p d) (n - 1) d else Some d) = Some (d\<lparr>dist_pipes := A\<rparr>) \<and>
    arr_ok A \<and> set (items A) = dist_all d \<and> length (items A) = length (items (dist_pipes d)) \<and>
    set (take n' (items A)) = pfx n d - {p} \<and> n' \<le> arr_index p A \<and>
    (\<forall>k. k \<le> dist_index p d \<longrightarrow> k \<le> n' \<longrightarrow> take k (items A) = take k (items (dist_pipes d))) \<and>
    (\<forall>k. n \<le> k \<longrightarrow> k \<le> length (items (dist_pipes d)) \<longrightarrow> set (take k (items A)) = pfx k d)"
proof (cases "p \<in> pfx n d")
  case True
  then have "dist_index p d < n" using dist_index_ok(3) [OF assms(1,2)] by blast
  then show ?thesis using move_out [OF assms(1) True assms(3)] True assms(4) by auto
next
  case False
  then have "n \<le> dist_index p d" using dist_index_ok(3) [OF assms(1,2), of n] by simp
  then show ?thesis using False assms by (intro exI [of _ "dist_pipes d"]) (simp add: pfx_def dist_index_def)
qed

lemma dist_pipe_terminated_ok:
  assumes "dist_inv d" and "p \<in> dist_all d"
  shows "\<exists>d'. dist_pipe_terminated p d = Some d' \<and> dist_inv d' \<and> dist_all d' = dist_all d - {p} \<and> matches d' = matches d - {p} \<and>
    actives d' = actives d - {p} \<and> eligibles d' = eligibles d - {p} \<and> dist_more d' = dist_more d"
proof -
  let ?dec = "\<lambda>n. if p \<in> pfx n d then n - 1 else n"
  let ?m = "matching d" and ?a = "dist_active d" and ?e = "eligible d" and ?xs = "items (dist_pipes d)"
  let ?m' = "?dec ?m" and ?a' = "?dec ?a" and ?e' = "?dec ?e"
  have ok: "arr_ok (dist_pipes d)" "?m \<le> ?a" "?a \<le> ?e" "?e \<le> length ?xs" using assms(1) by (auto simp: dist_inv_def dist_ok_def)
  note idx = dist_index_ok(3) [OF ok(1) assms(2)]
  have le: "?m' \<le> ?a'" "?a' \<le> ?e'"
    using ok(2,3) idx [of ?m] idx [of ?a] idx [of ?e] pfx_mono [OF ok(2), of d] pfx_mono [OF ok(3), of d] by auto
  obtain A1 where A1: "(if dist_index p d < ?m then dist_swap (dist_index p d) (?m - 1) d else Some d) = Some (d\<lparr>dist_pipes := A1\<rparr>)"
    "arr_ok A1" "set (items A1) = dist_all d" "length (items A1) = length ?xs" "set (take ?m' (items A1)) = pfx ?m d - {p}" "?m' \<le> arr_index p A1"
    "\<forall>k. ?m \<le> k \<longrightarrow> k \<le> length ?xs \<longrightarrow> set (take k (items A1)) = pfx k d"
    using dist_shrink [OF ok(1) assms(2), of ?m ?m'] ok by auto
  define d1 where "d1 = d\<lparr>dist_pipes := A1, matching := ?m'\<rparr>"
  have p1: "pfx ?a d1 = pfx ?a d" "pfx ?e d1 = pfx ?e d" using A1(7) ok by (simp_all add: d1_def pfx_def)
  have D1: "arr_ok (dist_pipes d1)" "p \<in> dist_all d1" "?a \<le> length (items (dist_pipes d1))" "?a' = (if p \<in> pfx ?a d1 then ?a - 1 else ?a)"
    using A1 assms(2) ok p1 by (auto simp: d1_def)
  obtain A2 where A2: "(if dist_index p d1 < ?a then dist_swap (dist_index p d1) (?a - 1) d1 else Some d1) = Some (d1\<lparr>dist_pipes := A2\<rparr>)"
    "arr_ok A2" "set (items A2) = dist_all d" "length (items A2) = length ?xs" "set (take ?a' (items A2)) = pfx ?a d - {p}" "?a' \<le> arr_index p A2"
    "\<forall>k. k \<le> arr_index p A1 \<longrightarrow> k \<le> ?a' \<longrightarrow> take k (items A2) = take k (items A1)"
    "\<forall>k. ?a \<le> k \<longrightarrow> k \<le> length ?xs \<longrightarrow> set (take k (items A2)) = set (take k (items A1))"
    using dist_shrink [OF D1] p1(1) A1(3,4) by (auto simp: d1_def dist_index_def pfx_def)
  define d2 where "d2 = d1\<lparr>dist_pipes := A2, dist_active := ?a'\<rparr>"
  have p2: "pfx ?e d2 = pfx ?e d" using A2(8) p1(2) ok by (simp add: d2_def d1_def pfx_def)
  have D2: "arr_ok (dist_pipes d2)" "p \<in> dist_all d2" "?e \<le> length (items (dist_pipes d2))" "?e' = (if p \<in> pfx ?e d2 then ?e - 1 else ?e)"
    using A2 assms(2) ok p2 by (auto simp: d2_def)
  obtain A3 where A3: "(if dist_index p d2 < ?e then dist_swap (dist_index p d2) (?e - 1) d2 else Some d2) = Some (d2\<lparr>dist_pipes := A3\<rparr>)"
    "arr_ok A3" "set (items A3) = dist_all d" "length (items A3) = length ?xs" "set (take ?e' (items A3)) = pfx ?e d - {p}" "?e' \<le> arr_index p A3"
    "\<forall>k. k \<le> arr_index p A2 \<longrightarrow> k \<le> ?e' \<longrightarrow> take k (items A3) = take k (items A2)"
    using dist_shrink [OF D2] p2 A2(3,4) by (auto simp: d2_def dist_index_def pfx_def)
  have p3: "p \<in> set (items A3)" using A3(3) assms(2) by simp
  obtain A4 where A4: "arr_erase p A3 = Some A4" "arr_ok A4" "set (items A4) = dist_all d - {p}"
    "items A4 = butlast ((items A3)[arr_index p A3 := last (items A3)])" using arr_erase_ok [OF A3(2) p3] A3(3) by auto
  have keep: "take k (items A4) = take k (items A3)" if "k \<le> ?e'" for k
    using take_butlast_update [of k "arr_index p A3" "items A3"] arr_index_ok(1) [OF A3(2) p3] A3(6) A4(4) that by simp
  define d4 where "d4 = d\<lparr>dist_pipes := A4, matching := ?m', dist_active := ?a', eligible := ?e'\<rparr>"
  have s1: "(if dist_index p d < ?m then do { d \<leftarrow> dist_swap (dist_index p d) (?m - 1) d; Some (d\<lparr>matching := matching d - 1\<rparr>) } else Some d) = Some d1"
    using A1(1) idx [of ?m] by (cases d) (auto simp: d1_def split: if_splits)
  have s2: "(if dist_index p d1 < dist_active d1 then do { d \<leftarrow> dist_swap (dist_index p d1) (dist_active d1 - 1) d1; Some (d\<lparr>dist_active := dist_active d - 1\<rparr>) } else Some d1) = Some d2"
    using A2(1) dist_index_ok(3) [OF D1(1,2), of ?a] p1(1) by (cases d) (auto simp: d2_def d1_def split: if_splits)
  have s3: "(if dist_index p d2 < eligible d2 then do { d \<leftarrow> dist_swap (dist_index p d2) (eligible d2 - 1) d2; Some (d\<lparr>eligible := eligible d - 1\<rparr>) } else Some d2) = Some (d2\<lparr>dist_pipes := A3, eligible := ?e'\<rparr>)"
    using A3(1) dist_index_ok(3) [OF D2(1,2), of ?e] p2 by (cases d) (auto simp: d2_def d1_def split: if_splits)
  have "dist_pipe_terminated p d = Some d4"
    unfolding dist_pipe_terminated_def s1 Option.bind.bind_lunit s2 s3 by (simp add: A4(1) d4_def d2_def d1_def)
  moreover have "matches d4 = matches d - {p}"
    using keep [of ?m'] A3(7) A2(6,7) A1(5,6) le by (simp add: d4_def pfx_def)
  moreover have "actives d4 = actives d - {p}" using keep [of ?a'] A3(7) A2(5,6) le by (simp add: d4_def pfx_def)
  moreover have "eligibles d4 = eligibles d - {p}" using keep [of ?e'] A3(5) by (simp add: d4_def pfx_def)
  moreover have "arr_index p A3 < length (items A3)" by (rule arr_index_ok(1) [OF A3(2) p3])
  moreover have "length (items A4) = length (items A3) - 1" using A4(4) by simp
  moreover have "?e' \<le> length (items A4)" using calculation A3(6) by linarith
  moreover have "\<not> dist_more d \<Longrightarrow> ?a' = ?e'" using assms(1) by (simp add: dist_inv_def)
  moreover have "dist_inv d4" using A4(2) le calculation(7,8) by (simp add: dist_inv_def dist_ok_def d4_def)
  ultimately show ?thesis using A4(3) by (intro exI [of _ d4]) (simp add: d4_def)
qed

subsection \<open>The properties of the distributor\<close>

lemma dist_send_to_matching_ok:
  assumes "dist_inv d" and "\<forall>p \<in> matches d. writable w p" and "refs_ok (mheap w) (add_mset m ms)" and "msg_check m"
    and "\<forall>a. points_to a m \<longrightarrow> nrefs a ms + matching d < 2 ^ 32"
  shows "\<exists>m1 d' w'. dist_send_to_matching m d w = Some (msg_init, d', w') \<and> msg_u m1 = msg_u m \<and> dist_inv d' \<and>
    dist_all d' = dist_all d \<and> matches d' = {p \<in> matches d. has_room w p} \<and>
    eligibles d' = eligibles d - {p \<in> matches d. \<not> has_room w p} \<and>
    actives d' = (if msg_more m then actives d - {p \<in> matches d. \<not> has_room w p} else eligibles d') \<and>
    (\<forall>p xs. out_log w p xs \<longrightarrow> out_log w' p (if p \<in> matches d \<and> has_room w p then xs @ [m1] else xs)) \<and>
    refs_ok (mheap w') (replicate_mset (card {p \<in> matches d. has_room w p}) m1 + ms) \<and>
    dist_more d' = msg_more m \<and> (\<forall>q. writable w q \<longrightarrow> writable w' q)"
proof -
  have "dist_ok d" using assms(1) by (simp add: dist_inv_def)
  then obtain m1 d' w' where D: "dist_distribute m d w = Some (msg_init, d', w')" "msg_u m1 = msg_u m" "distributed m1 d w d' w'"
    "refs_ok (mheap w') (replicate_mset (card (takers d w)) m1 + ms)" using dist_distribute_ok [OF _ assms(2-5)] by blast
  define d2 where "d2 = d'\<lparr>dist_active := (if msg_more m then dist_active d' else eligible d'), dist_more := msg_more m\<rparr>"
  have "matches d - takers d w = {p \<in> matches d. \<not> has_room w p}" by (auto simp: takers_def)
  note D3 = D(3) [unfolded distributed_def this, unfolded takers_def]
  have run: "dist_send_to_matching m d w = Some (msg_init, d2, w')" using D(1) by (simp add: dist_send_to_matching_def d2_def Let_def)
  have inv: "dist_inv d2" using D3 by (auto simp: dist_inv_def dist_ok_def d2_def)
  have sets: "pfx k d2 = pfx k d'" "dist_all d2 = dist_all d'" "matching d2 = matching d'" "eligible d2 = eligible d'"
    "dist_active d2 = (if msg_more m then dist_active d' else eligible d')" for k by (simp_all add: d2_def pfx_def)
  have s: "dist_all d2 = dist_all d" "matches d2 = {p \<in> matches d. has_room w p}" "eligibles d2 = eligibles d - {p \<in> matches d. \<not> has_room w p}"
    "pfx (dist_active d') d2 = actives d - {p \<in> matches d. \<not> has_room w p}"
    unfolding sets(1-4) using D3 by (simp_all only: simp_thms)
  have a: "actives d2 = (if msg_more m then actives d - {p \<in> matches d. \<not> has_room w p} else eligibles d2)"
    unfolding sets(5) by (simp only: s(4) sets(4) split: if_split) simp
  have l: "\<forall>p xs. out_log w p xs \<longrightarrow> out_log w' p (if p \<in> matches d \<and> has_room w p then xs @ [m1] else xs)" using D3 by simp
  have w: "dist_more d2 = msg_more m" "\<forall>q. writable w q \<longrightarrow> writable w' q" using D3 by (simp_all add: d2_def)
  show ?thesis by (intro exI [of _ m1] exI [of _ d2] exI [of _ w'] conjI run D(2) inv s(1-3) a l D(4) [unfolded takers_def] w)
qed

text \<open>
  C23: A message sent to the matching pipes is delivered exactly once, at the end of its outgoing
  log, to every matching pipe that has room and to no other pipe; the call always returns, the
  caller's message is empty afterwards, the pipes that had no room are no longer matching, active
  or eligible, after the last part every eligible pipe is active again, and the reference count of
  the message body is exactly the number of the pipes that took it.
\<close>
theorem dist_sends_once:
  assumes "dist_inv d" and "\<forall>p \<in> matches d. writable w p" and "refs_ok (mheap w) (add_mset m ms)" and "msg_check m"
    and "\<forall>a. points_to a m \<longrightarrow> nrefs a ms + matching d < 2 ^ 32"
  shows "\<exists>m1 d' w'. dist_send_to_matching m d w = Some (msg_init, d', w') \<and> msg_u m1 = msg_u m \<and> dist_inv d' \<and>
    dist_all d' = dist_all d \<and> matches d' = {p \<in> matches d. has_room w p} \<and>
    eligibles d' = eligibles d - {p \<in> matches d. \<not> has_room w p} \<and>
    actives d' = (if msg_more m then actives d - {p \<in> matches d. \<not> has_room w p} else eligibles d') \<and>
    (\<forall>p xs. out_log w p xs \<longrightarrow> out_log w' p (if p \<in> matches d \<and> has_room w p then xs @ [m1] else xs)) \<and>
    refs_ok (mheap w') (replicate_mset (card {p \<in> matches d. has_room w p}) m1 + ms) \<and>
    dist_more d' = msg_more m \<and> (\<forall>q. writable w q \<longrightarrow> writable w' q)"
  using assms by (rule dist_send_to_matching_ok)

text \<open>A distributor whose three pipes are 1, 3 and 8, the first two matching; pipe 8 is passive.\<close>

definition dist_three :: dist_t where
  "dist_three = \<lparr>dist_pipes = \<lparr>items = [1, 3, 8], array_index = (\<lambda>p. if p = 1 then 0 else if p = 3 then 1 else 2)\<rparr>,
     matching = 2, dist_active = 2, eligible = 2, dist_more = False\<rparr>"

lemma dist_three_ok: "dist_inv dist_three" "matches dist_three = {1, 3}" "eligibles dist_three = {1, 3}" "dist_all dist_three = {1, 3, 8}"
  by (auto simp: dist_inv_def dist_ok_def arr_ok_def dist_three_def pfx_def less_Suc_eq numeral_2_eq_2 numeral_3_eq_3)

theorem dist_sends_once_witness:
  "\<exists>w d' w'. dist_send_to_matching msg_init dist_three w = Some (msg_init, d', w') \<and> matches d' = {1} \<and> eligibles d' = {1} \<and>
     (\<exists>m. out_log w' 1 [m]) \<and> out_log w' 3 []"
proof -
  obtain w where w: "mheap w = \<lparr>contents = (\<lambda>_. None), msg_brk = 0, ffn_calls = []\<rparr>" "writable w 1" "has_room w 1" "out_log w 1 []" "writable w 3" "\<not> has_room w 3" "out_log w 3 []"
    using sinks_example by blast
  have h: "refs_ok (mheap w) {# msg_init #}" "msg_check msg_init" "\<forall>a. points_to a msg_init \<longrightarrow> nrefs a {#} + matching dist_three < 2 ^ 32"
    using w(1) by (auto simp: refs_ok_def nrefs_def points_to_def msg_init_def msg_check_def)
  have wr: "\<forall>p \<in> matches dist_three. writable w p" using w dist_three_ok by simp
  have sets: "{p \<in> {1, 3}. has_room w p} = {1}" "{p \<in> {1, 3}. \<not> has_room w p} = {3}" using w by auto
  obtain m1 d' w' where r: "dist_send_to_matching msg_init dist_three w = Some (msg_init, d', w')" "matches d' = {1}" "eligibles d' = {1, 3} - {3}"
    "\<forall>p xs. out_log w p xs \<longrightarrow> out_log w' p (if p \<in> {1, 3} \<and> has_room w p then xs @ [m1] else xs)"
    using dist_sends_once [OF dist_three_ok(1) wr h, unfolded dist_three_ok(2,3) sets] by (elim exE conjE) (rule that, assumption+)
  have "out_log w' 1 [m1]" "out_log w' 3 []" using r(4) [rule_format, OF w(4)] r(4) [rule_format, OF w(7)] w(3,6) by simp_all
  moreover have "{1, 3} - {3} = {1 :: nat}" by auto
  then have "eligibles d' = {1}" using r(3) by (rule back_subst [of "\<lambda>s. eligibles d' = s", rotated])
  ultimately show ?thesis by (intro exI [of _ w] exI [of _ d'] exI [of _ w'] exI [of _ m1] conjI r(1,2))
qed

text \<open>
  Pipes enter, leave and wake up at the right place: attaching a pipe makes it eligible at
  once and active only between messages; a write that becomes possible again does the same for
  a passive pipe; matching an eligible pipe between messages adds just that pipe to the matching
  ones; and a terminated pipe is removed from every part of the array while all the others stay
  where they were. Every operation keeps the invariant of the borders.
\<close>
theorem dist_borders:
  assumes "dist_inv d"
  shows "(p \<notin> dist_all d \<longrightarrow> (\<exists>d'. dist_attach p d = Some d' \<and> dist_inv d' \<and> dist_all d' = insert p (dist_all d) \<and> matches d' = matches d \<and>
      eligibles d' = insert p (eligibles d) \<and> actives d' = (if dist_more d then actives d else insert p (actives d)))) \<and>
    (p \<in> dist_all d \<and> p \<notin> eligibles d \<longrightarrow> (\<exists>d'. dist_activated p d = Some d' \<and> dist_inv d' \<and> dist_all d' = dist_all d \<and>
      matches d' = matches d \<and> eligibles d' = insert p (eligibles d) \<and> actives d' = (if dist_more d then actives d else insert p (actives d)))) \<and>
    (p \<in> dist_all d \<and> \<not> dist_more d \<longrightarrow> (\<exists>d'. dist_match p d = Some d' \<and> dist_inv d' \<and> dist_all d' = dist_all d \<and>
      eligibles d' = eligibles d \<and> actives d' = actives d \<and> matches d' = matches d \<union> ({p} \<inter> eligibles d) \<and> dist_more d' = dist_more d)) \<and>
    (p \<in> dist_all d \<longrightarrow> (\<exists>d'. dist_pipe_terminated p d = Some d' \<and> dist_inv d' \<and> dist_all d' = dist_all d - {p} \<and>
      matches d' = matches d - {p} \<and> actives d' = actives d - {p} \<and> eligibles d' = eligibles d - {p} \<and> dist_more d' = dist_more d)) \<and>
    dist_inv (dist_unmatch d) \<and> matches (dist_unmatch d) = {}"
proof -
  have "dist_inv (dist_unmatch d)" "matches (dist_unmatch d) = {}" using assms by (simp_all add: dist_unmatch_def dist_inv_def dist_ok_def pfx_def)
  then show ?thesis
    by (intro conjI impI; (elim conjE)?)
      (rule dist_attach_ok [OF assms] dist_activated_ok [OF assms] dist_match_ok [OF assms] dist_pipe_terminated_ok [OF assms] | assumption)+
qed

theorem dist_borders_witness:
  "\<exists>d'. dist_pipe_terminated 1 dist_three = Some d' \<and> dist_inv d' \<and> dist_all d' = {3, 8} \<and> matches d' = {3}"
  using dist_borders [OF dist_three_ok(1), of 1] unfolding dist_three_ok by auto

end
