(* ===== verification/Pipe_Term.thy ===== *)
theory Pipe_Term
  imports Pipe_Flow Dist
begin

text \<open>
  The termination of a connection (\<open>terminate\<close>, \<open>process_pipe_term\<close>, \<open>process_pipe_term_ack\<close>,
  \<open>process_delimiter\<close> of \<^verbatim>\<open>src/pipe.cpp\<close>): both ends may read, write, flush, roll back, start the
  termination at any time and with any delay, and process each other's commands, in any order, while
  the application creates and closes messages. The invariant \<open>term_inv\<close> says in which phase of the
  protocol the two ends are, what their channels and queues hold and that every message in them is
  accounted for. An end that processed its acknowledgement is gone, with the queue it read.
\<close>

subsection \<open>Steps\<close>

text \<open>
  The state is the world and the messages that the application holds. Messages are valid and no
  delimiters when they are written. The application changes the message heap in any way that keeps
  all messages of others accounted for. Limits and the delay may be changed at any time.
\<close>

inductive term_step :: "addr \<Rightarrow> world \<times> msg_t multiset \<Rightarrow> world \<times> msg_t multiset \<Rightarrow> bool" for e where
  ts_write: "m \<in># R \<Longrightarrow> msg_check m \<Longrightarrow> \<not> msg_is_delimiter m \<Longrightarrow> pipe_write e m w = Some (ok, m', w') \<Longrightarrow>
    term_step e (w, R) (w', if ok then R - {#m#} else R)"
| ts_check_write: "pipe_check_write e w = Some (ok, w') \<Longrightarrow> term_step e (w, R) (w', R)"
| ts_flush: "pipe_flush e w = Some w' \<Longrightarrow> term_step e (w, R) (w', R)"
| ts_rollback: "pipe_rollback e w = Some w' \<Longrightarrow> term_step e (w, R) (w', R)"
| ts_read: "pipe_read e w = Some (m, w') \<Longrightarrow> term_step e (w, R) (w', case m of None \<Rightarrow> R | Some x \<Rightarrow> add_mset x R)"
| ts_check_read: "pipe_check_read e w = Some (ok, w') \<Longrightarrow> term_step e (w, R) (w', R)"
| ts_terminate: "pipe_terminate e dly w = Some w' \<Longrightarrow> term_step e (w, R) (w', R)"
| ts_nodelay: "pipe_set_nodelay e w = Some w' \<Longrightarrow> term_step e (w, R) (w', R)"
| ts_hwms: "pipe_set_hwms e hi ho w = Some w' \<Longrightarrow> term_step e (w, R) (w', R)"
| ts_command: "cmds w = xs @ (e, c) # ys \<Longrightarrow> e \<notin> fst ` set xs \<Longrightarrow>
    pipe_process_command e c (w\<lparr>cmds := xs @ ys\<rparr>) = Some w' \<Longrightarrow> term_step e (w, R) (w', R)"
| ts_messages: "(\<And>Q. refs_ok (mheap w) (Q + R) \<Longrightarrow> refs_ok h (Q + R')) \<Longrightarrow> term_step e (w, R) (w\<lparr>mheap := h\<rparr>, R')"

definition term_conn_step :: "addr \<Rightarrow> addr \<Rightarrow> world \<times> msg_t multiset \<Rightarrow> world \<times> msg_t multiset \<Rightarrow> bool" where
  "term_conn_step i j s s' \<longleftrightarrow> term_step i s s' \<or> term_step j s s'"

subsection \<open>The invariant\<close>

text \<open>The state of an end, if it is still there, and the commands under way to it.\<close>

definition end_state :: "world \<Rightarrow> addr \<Rightarrow> pipe_state option" where
  "end_state w i = map_option state (pipes w i)"

definition chan :: "addr \<Rightarrow> world \<Rightarrow> pipe_cmd list" where
  "chan i w = map snd (filter (\<lambda>c. fst c = i) (cmds w))"

fun protocol_cmd :: "pipe_cmd \<Rightarrow> bool" where
  "protocol_cmd Pipe_term = True"
| "protocol_cmd Pipe_term_ack = True"
| "protocol_cmd c = False"

definition ctl :: "pipe_cmd list \<Rightarrow> pipe_cmd list" where
  "ctl cs = filter protocol_cmd cs"

text \<open>
  The phases, for the end that asked first and the other one: their states and the protocol commands
  under way to the other one and to the first.
\<close>

inductive phase :: "pipe_state option \<Rightarrow> pipe_state option \<Rightarrow> pipe_cmd list \<Rightarrow> pipe_cmd list \<Rightarrow> bool" where
  ph_open: "phase (Some active) (Some active) [] []"
| ph_asked: "phase (Some term_req_sent1) (Some active) [Pipe_term] []"
| ph_asked_done: "phase (Some term_req_sent1) (Some delimiter_received) [Pipe_term] []"
| ph_waiting: "phase (Some term_req_sent1) (Some waiting_for_delimiter) [] []"
| ph_acked: "phase (Some term_req_sent1) (Some term_ack_sent) [] [Pipe_term_ack]"
| ph_both: "phase (Some term_req_sent1) (Some term_req_sent1) [Pipe_term] [Pipe_term]"
| ph_crossed: "phase (Some term_req_sent1) (Some term_req_sent2) [] [Pipe_term, Pipe_term_ack]"
| ph_both_acked: "phase (Some term_req_sent2) (Some term_req_sent2) [Pipe_term_ack] [Pipe_term_ack]"
| ph_gone_crossed: "phase None (Some term_req_sent2) [Pipe_term_ack] []"
| ph_gone: "phase None (Some term_ack_sent) [Pipe_term_ack] []"
| ph_closed: "phase None None [] []"

definition agree :: "pipe_state option \<Rightarrow> pipe_state option \<Rightarrow> pipe_cmd list \<Rightarrow> pipe_cmd list \<Rightarrow> bool" where
  "agree si sj cj ci \<longleftrightarrow> phase si sj cj ci \<or> phase sj si ci cj"

text \<open>There is no hiccup under way and nothing follows an acknowledgement; nothing goes to an end that is gone.\<close>

definition chan_ok :: "pipe_state option \<Rightarrow> pipe_cmd list \<Rightarrow> bool" where
  "chan_ok s cs \<longleftrightarrow> (\<forall>a. Hiccup a \<notin> set cs) \<and> Pipe_term_ack \<notin> set (butlast cs) \<and> (s = None \<longrightarrow> cs = [])"

definition writes_still :: "pipe_state \<Rightarrow> bool" where
  "writes_still s \<longleftrightarrow> s \<in> {active, delimiter_received, waiting_for_delimiter, term_req_sent1}"

definition end_ok :: "addr \<Rightarrow> addr \<Rightarrow> addr \<Rightarrow> addr \<Rightarrow> world \<Rightarrow> bool" where
  "end_ok i j a b w \<longleftrightarrow> (\<forall>p. pipes w i = Some p \<longrightarrow> inpipe p = Some b \<and> outpipe p = (if writes_still (state p) then Some a else None) \<and>
     peer p = Some j \<and> sink p \<noteq> None \<and> \<not> conflate p)"

text \<open>
  What one queue holds: a writer that has not asked has written no delimiter; one that asked has
  finished with a delimiter, flushed, that the reader has not yet read.
\<close>

definition flow_ok :: "pipe_state option \<Rightarrow> pipe_t \<Rightarrow> pipe_cmd list \<Rightarrow> msg_t list \<Rightarrow> msg_t list \<Rightarrow> msg_t list \<Rightarrow> bool \<Rightarrow> bool" where
  "flow_ok si q cs fl un inc z \<longleftrightarrow> (\<forall>m \<in> set inc. msg_more m) \<and> (\<forall>m \<in> set (fl @ un @ inc). msg_check m) \<and>
     (si = Some active \<or> si = Some delimiter_received \<longrightarrow> (\<forall>m \<in> set (fl @ un @ inc). \<not> msg_is_delimiter m)) \<and>
     (state q = active \<or> state q = waiting_for_delimiter \<longrightarrow>
        (si = Some term_req_sent1 \<longrightarrow> un = [] \<and> inc = [] \<and> fl \<noteq> [] \<and> msg_is_delimiter (last fl)) \<and>
        (z \<longrightarrow> fl = []) \<and> (\<not> in_active q \<longrightarrow> z \<or> Activate_read \<in> set cs))"

definition carries :: "addr \<Rightarrow> addr \<Rightarrow> addr \<Rightarrow> world \<Rightarrow> msg_t list \<Rightarrow> bool" where
  "carries i j a w ms \<longleftrightarrow> (case pipes w j of
      None \<Rightarrow> ms = []
    | Some q \<Rightarrow> \<exists>fl un inc z. up_view w a fl un inc z \<and> ms = fl @ un @ inc \<and> flow_ok (end_state w i) q (chan j w) fl un inc z)"

definition term_inv :: "addr \<Rightarrow> addr \<Rightarrow> addr \<Rightarrow> addr \<Rightarrow> world \<times> msg_t multiset \<Rightarrow> bool" where
  "term_inv i j a b s \<longleftrightarrow> (case s of (w, R) \<Rightarrow> i \<noteq> j \<and> a \<noteq> b \<and> end_ok i j a b w \<and> end_ok j i b a w \<and>
     agree (end_state w i) (end_state w j) (ctl (chan j w)) (ctl (chan i w)) \<and>
     chan_ok (end_state w i) (chan i w) \<and> chan_ok (end_state w j) (chan j w) \<and>
     (\<exists>ma mb L. carries i j a w ma \<and> carries j i b w mb \<and> refs_ok (mheap w) (mset ma + mset mb + L + R)))"

lemma chan_simps [simp]:
  "chan k (set_pipe i p w) = chan k w" "chan k (set_upipe x u w) = chan k w" "chan k (w\<lparr>mheap := h\<rparr>) = chan k w"
  "chan k (w\<lparr>pipes := ps\<rparr>) = chan k w" "chan k (w\<lparr>upipes := us\<rparr>) = chan k w" "chan k (w\<lparr>events := es\<rparr>) = chan k w"
  "end_state (set_upipe x u w) k = end_state w k" "end_state (w\<lparr>mheap := h\<rparr>) k = end_state w k" "end_state (w\<lparr>cmds := cs\<rparr>) k = end_state w k"
  "end_state (w\<lparr>events := es\<rparr>) k = end_state w k" "end_state (w\<lparr>upipes := us\<rparr>) k = end_state w k"
  by (simp_all add: chan_def end_state_def)

lemma carriesI:
  "pipes w j = Some q \<Longrightarrow> up_view w a fl un inc z \<Longrightarrow> flow_ok (end_state w i) q (chan j w) fl un inc z \<Longrightarrow> ms = fl @ un @ inc \<Longrightarrow>
   carries i j a w ms"
  unfolding carries_def by auto

lemma carriesE:
  assumes "carries i j a w ms" and "pipes w j = Some q"
  obtains fl un inc z where "up_view w a fl un inc z" "ms = fl @ un @ inc" "flow_ok (end_state w i) q (chan j w) fl un inc z"
  using assms unfolding carries_def by auto

lemma term_invI:
  assumes "i \<noteq> j" and "a \<noteq> b" and "end_ok i j a b w" and "end_ok j i b a w"
    and "agree (end_state w i) (end_state w j) (ctl (chan j w)) (ctl (chan i w))"
    and "chan_ok (end_state w i) (chan i w)" and "chan_ok (end_state w j) (chan j w)"
    and "carries i j a w ma" and "carries j i b w mb" and "refs_ok (mheap w) (mset ma + mset mb + L + R)"
  shows "term_inv i j a b (w, R)"
  using assms unfolding term_inv_def by blast

lemma term_invE:
  assumes "term_inv i j a b (w, R)"
  obtains ma mb L where "i \<noteq> j" "a \<noteq> b" "end_ok i j a b w" "end_ok j i b a w"
    "agree (end_state w i) (end_state w j) (ctl (chan j w)) (ctl (chan i w))"
    "chan_ok (end_state w i) (chan i w)" "chan_ok (end_state w j) (chan j w)"
    "carries i j a w ma" "carries j i b w mb" "refs_ok (mheap w) (mset ma + mset mb + L + R)"
  using assms unfolding term_inv_def by blast

lemma term_inv_sym:
  assumes "term_inv i j a b (w, R)"
  shows "term_inv j i b a (w, R)"
proof -
  obtain ma mb L where t: "i \<noteq> j" "a \<noteq> b" "end_ok i j a b w" "end_ok j i b a w"
    "agree (end_state w i) (end_state w j) (ctl (chan j w)) (ctl (chan i w))"
    "chan_ok (end_state w i) (chan i w)" "chan_ok (end_state w j) (chan j w)"
    "carries i j a w ma" "carries j i b w mb" "refs_ok (mheap w) (mset ma + mset mb + L + R)" using assms by (rule term_invE)
  have "agree (end_state w j) (end_state w i) (ctl (chan i w)) (ctl (chan j w))" using t(5) by (auto simp: agree_def)
  moreover have "refs_ok (mheap w) (mset mb + mset ma + L + R)" using t(10) by (simp add: add_ac)
  ultimately show ?thesis using t by (intro term_invI) auto
qed


subsection \<open>One end acts\<close>

lemma ctl_simps [simp]: "ctl [] = []" "ctl (c # cs) = (if protocol_cmd c then c # ctl cs else ctl cs)" "ctl (xs @ ys) = ctl xs @ ctl ys"
  by (simp_all add: ctl_def)

lemma ctl_acks [simp]: "Pipe_term_ack \<in> set (ctl cs) \<longleftrightarrow> Pipe_term_ack \<in> set cs" "Pipe_term \<in> set (ctl cs) \<longleftrightarrow> Pipe_term \<in> set cs"
  by (auto simp: ctl_def)

text \<open>An end that still writes has a peer that is there, and has not acknowledged.\<close>

lemma agree_writes:
  assumes "agree (Some s) sj cj ci" and "writes_still s"
  shows "sj \<noteq> None" and "Pipe_term_ack \<notin> set cj"
  using assms by (auto simp: agree_def writes_still_def elim: phase.cases)

lemma agree_ctl_writes:
  assumes "agree (Some s) sj (ctl cj) ci" and "writes_still s"
  shows "sj \<noteq> None" and "Pipe_term_ack \<notin> set cj"
  using agree_writes [OF assms] by simp_all

definition acts :: "addr \<Rightarrow> addr \<Rightarrow> world \<Rightarrow> pipe_t \<Rightarrow> pipe_cmd list \<Rightarrow> world \<Rightarrow> bool" where
  "acts i j w p cs w' \<longleftrightarrow> pipes w' = (pipes w)(i \<mapsto> p) \<and> cmds w' = cmds w @ map (Pair j) cs"

lemma chan_append: "cmds w' = cmds w @ map (Pair j) cs \<Longrightarrow> chan i w' = chan i w @ (if i = j then cs else [])"
  by (simp add: chan_def filter_map o_def)

lemma acts_views:
  assumes "acts i j w p cs w'" and "i \<noteq> j"
  shows "chan j w' = chan j w @ cs" "chan i w' = chan i w" "end_state w' i = Some (state p)" "end_state w' j = end_state w j"
    "pipes w' i = Some p" "pipes w' j = pipes w j"
  using assms chan_append [of w' w j cs] by (simp_all add: acts_def end_state_def)

definition same_wiring :: "addr \<Rightarrow> pipe_t \<Rightarrow> pipe_t \<Rightarrow> bool" where
  "same_wiring a p p' \<longleftrightarrow> inpipe p' = inpipe p \<and> peer p' = peer p \<and> sink p' = sink p \<and> conflate p' = conflate p \<and>
     outpipe p' = (if writes_still (state p') then Some a else None)"

lemma term_inv_acts:
  assumes "i \<noteq> j" and "a \<noteq> b" and "end_ok i j a b w" and "end_ok j i b a w" and "pipes w i = Some p"
    and "acts i j w p' cs w'" and "same_wiring a p p'"
    and "agree (Some (state p')) (end_state w j) (ctl (chan j w) @ ctl cs) (ctl (chan i w))"
    and "chan_ok (end_state w i) (chan i w)" and "chan_ok (end_state w j) (chan j w @ cs)"
    and "carries i j a w' ma" and "carries j i b w' mb" and "refs_ok (mheap w') (mset ma + mset mb + L + R)"
  shows "term_inv i j a b (w', R)"
proof -
  note v = acts_views [OF assms(6,1)]
  have "end_ok i j a b w'" using assms(3,5,7) v(5) by (simp add: end_ok_def same_wiring_def)
  moreover have "end_ok j i b a w'" using assms(4) v(6) by (simp add: end_ok_def)
  moreover have "chan_ok (end_state w' i) (chan i w')" using assms(9) v by (simp add: chan_ok_def)
  ultimately show ?thesis using assms v by (intro term_invI) auto
qed

text \<open>Steps that keep the state of the end and send at most one command of flow control.\<close>

lemma chan_ok_snoc:
  assumes "chan_ok s cs" and "s \<noteq> None" and "Pipe_term_ack \<notin> set cs" and "\<And>a. c \<noteq> Hiccup a"
  shows "chan_ok s (cs @ [c])"
  using assms by (auto simp: chan_ok_def)

lemma term_inv_quiet:
  assumes "i \<noteq> j" and "a \<noteq> b" and "end_ok i j a b w" and "end_ok j i b a w" and p: "pipes w i = Some p"
    and ag: "agree (end_state w i) (end_state w j) (ctl (chan j w)) (ctl (chan i w))"
    and "chan_ok (end_state w i) (chan i w)" and ch: "chan_ok (end_state w j) (chan j w)"
    and "acts i j w p' cs w'" and "inpipe p' = inpipe p" "peer p' = peer p" "sink p' = sink p" "conflate p' = conflate p" "outpipe p' = outpipe p"
    and st: "state p' = state p" and cs: "cs = [] \<or> (\<exists>c. cs = [c] \<and> flow_cmd (j, c) \<and> writes_still (state p))"
    and "carries i j a w' ma" and "carries j i b w' mb" and "refs_ok (mheap w') (mset ma + mset mb + L + R)"
  shows "term_inv i j a b (w', R)"
proof -
  have s: "end_state w i = Some (state p)" using p by (simp add: end_state_def)
  have "ctl cs = []" using cs by (auto elim: flow_cmd.elims)
  moreover have "chan_ok (end_state w j) (chan j w @ cs)"
  proof (cases "cs = []")
    case False
    then obtain c where c: "cs = [c]" "flow_cmd (j, c)" "writes_still (state p)" using cs by blast
    have "c \<noteq> Hiccup x" for x using c(2) by (cases c) auto
    then show ?thesis using chan_ok_snoc [OF ch, of c] agree_ctl_writes [OF ag [unfolded s] c(3)] c(1) by simp
  qed (use ch in simp)
  moreover have "same_wiring a p p'" using assms(3,10-15) p by (simp add: same_wiring_def end_ok_def)
  ultimately show ?thesis using assms s by (intro term_inv_acts [OF assms(1-5,9)]) auto
qed

text \<open>The queue written by an end that changes, and the queue it reads.\<close>

definition writer_change :: "pipe_state option \<Rightarrow> pipe_state option \<Rightarrow> bool" where
  "writer_change s s' \<longleftrightarrow> s' = s \<or> s' = Some waiting_for_delimiter \<or> s' = Some term_ack_sent \<or> s' = Some term_req_sent2 \<or> s' = None \<or>
     (s = Some active \<and> s' = Some delimiter_received)"

lemma carries_written:
  assumes "carries i j a w ms" and "upipes w' a = upipes w a" and "pipes w' j = pipes w j"
    and "Activate_read \<in> set (chan j w) \<longrightarrow> Activate_read \<in> set (chan j w')" and "writer_change (end_state w i) (end_state w' i)"
  shows "carries i j a w' ms"
proof (cases "pipes w j")
  case (Some q)
  then obtain fl un inc z where v: "up_view w a fl un inc z" "ms = fl @ un @ inc" "flow_ok (end_state w i) q (chan j w) fl un inc z"
    using assms(1) by (auto simp: carries_def)
  have ar: "Activate_read \<in> set (chan j w')" if "Activate_read \<in> set (chan j w)" using that assms(4) by blast
  have c: "end_state w i = Some active \<or> end_state w i = Some delimiter_received"
    if "end_state w' i = Some active \<or> end_state w' i = Some delimiter_received" using that assms(5) by (auto simp: writer_change_def)
  have r: "end_state w i = Some term_req_sent1" if "end_state w' i = Some term_req_sent1" using that assms(5) by (auto simp: writer_change_def)
  have "flow_ok (end_state w' i) q (chan j w') fl un inc z" using v(3) ar c r unfolding flow_ok_def by blast
  moreover have "up_view w' a fl un inc z" using v(1) up_view_frame [OF assms(2)] by simp
  ultimately show ?thesis using Some assms(3) v(2) unfolding carries_def by auto
qed (use assms(1,3) in \<open>simp add: carries_def\<close>)

definition reads_still :: "pipe_state \<Rightarrow> bool" where
  "reads_still s \<longleftrightarrow> s = active \<or> s = waiting_for_delimiter"

lemma carries_read:
  assumes "carries j i b w ms" and "upipes w' b = upipes w b" and "pipes w i = Some p" and "pipes w' i = Some p'"
    and "reads_still (state p') \<Longrightarrow> reads_still (state p) \<and> (in_active p' \<or> \<not> in_active p \<and> (Activate_read \<in> set (chan i w) \<longrightarrow> Activate_read \<in> set (chan i w')))"
    and "end_state w' j = end_state w j"
  shows "carries j i b w' ms"
proof -
  obtain fl un inc z where v: "up_view w b fl un inc z" "ms = fl @ un @ inc" "flow_ok (end_state w j) p (chan i w) fl un inc z"
    using assms(1,3) by (auto simp: carries_def)
  have "flow_ok (end_state w' j) p' (chan i w') fl un inc z" using v(3) assms(5) unfolding flow_ok_def assms(6) reads_still_def by blast
  moreover have "up_view w' b fl un inc z" using v(1) up_view_frame [OF assms(2)] by simp
  ultimately show ?thesis using assms(4) v(2) unfolding carries_def by auto
qed


subsection \<open>Writing\<close>

lemma acts_here: "pipes w i = Some p \<Longrightarrow> acts i j w p [] w" "acts i j w p' [] (set_pipe i p' w)"
  by (auto simp: acts_def fun_upd_idem)

lemma acts_queue: "pipes w i = Some p \<Longrightarrow> acts i j w p [] ((set_upipe x u w)\<lparr>mheap := h\<rparr>)" "pipes w i = Some p \<Longrightarrow> acts i j w p [] (set_upipe x u w)"
  by (auto simp: acts_def fun_upd_idem)

lemma term_check_write:
  assumes "term_inv i j a b (w, R)" and p: "pipes w i = Some p"
  shows "\<exists>ok p'. pipe_check_write i w = Some (ok, set_pipe i p' w) \<and> term_inv i j a b (set_pipe i p' w, R) \<and>
    (ok \<longrightarrow> p' = p \<and> state p = active)"
proof -
  obtain ma mb L where t: "i \<noteq> j" "a \<noteq> b" "end_ok i j a b w" "end_ok j i b a w"
    "agree (end_state w i) (end_state w j) (ctl (chan j w)) (ctl (chan i w))"
    "chan_ok (end_state w i) (chan i w)" "chan_ok (end_state w j) (chan j w)"
    "carries i j a w ma" "carries j i b w mb" "refs_ok (mheap w) (mset ma + mset mb + L + R)" using assms(1) by (rule term_invE)
  have q: "term_inv i j a b (set_pipe i p' w, R)" if "p' = p \<or> p' = p\<lparr>out_active := False\<rparr>" for p'
  proof -
    have e: "state p' = state p" "in_active p' = in_active p" "inpipe p' = inpipe p" "peer p' = peer p" "sink p' = sink p"
      "conflate p' = conflate p" "outpipe p' = outpipe p" using that by (elim disjE; simp)+
    have s: "end_state (set_pipe i p' w) i = end_state w i" "end_state (set_pipe i p' w) j = end_state w j"
      using e(1) t(1) p by (simp_all add: end_state_def)
    have "carries i j a (set_pipe i p' w) ma" using t(1) s by (intro carries_written [OF t(8)]) (simp_all add: writer_change_def)
    moreover have "carries j i b (set_pipe i p' w) mb" using e s by (intro carries_read [OF t(9) _ p, of _ p']) simp_all
    ultimately show ?thesis using e t(10) by (intro term_inv_quiet [OF t(1-4) p t(5-7) acts_here(2) e(3-7,1), where ma = ma and mb = mb and L = L]) simp_all
  qed
  have "\<exists>ok p'. pipe_check_write i w = Some (ok, set_pipe i p' w) \<and> (p' = p \<or> p' = p\<lparr>out_active := False\<rparr>) \<and> (ok \<longrightarrow> p' = p \<and> state p = active)"
  proof (cases "out_active p \<and> state p = active \<and> hwm p > 0 \<and> msgs_written p - peers_msgs_read p = of_int (hwm p)")
    case True
    then show ?thesis using p by (intro exI [of _ False] exI [of _ "p\<lparr>out_active := False\<rparr>"]) (simp add: pipe_check_write_def)
  next
    case False
    then show ?thesis using p set_pipe_same [OF p]
      by (intro exI [of _ "out_active p \<and> state p = active"] exI [of _ p]) (auto simp: pipe_check_write_def)
  qed
  then show ?thesis using q by blast
qed

lemma term_write:
  assumes inv: "term_inv i j a b (w, R)" and p: "pipes w i = Some p" and m: "m \<in># R" "msg_check m" "\<not> msg_is_delimiter m"
  shows "\<exists>ok m' w'. pipe_write i m w = Some (ok, m', w') \<and> term_inv i j a b (w', if ok then R - {#m#} else R)"
proof -
  obtain ok p' where c: "pipe_check_write i w = Some (ok, set_pipe i p' w)" "term_inv i j a b (set_pipe i p' w, R)"
    "ok \<longrightarrow> p' = p \<and> state p = active" using term_check_write [OF inv p] by blast
  show ?thesis
  proof (cases ok)
    case False
    then show ?thesis using c by (intro exI [of _ False] exI [of _ m] exI [of _ "set_pipe i p' w"]) (simp add: pipe_write_def)
  next
    case True
    then have chk: "pipe_check_write i w = Some (True, w)" and st: "state p = active" using c set_pipe_same [OF p] by auto
    obtain ma mb L where t: "i \<noteq> j" "a \<noteq> b" "end_ok i j a b w" "end_ok j i b a w"
      "agree (end_state w i) (end_state w j) (ctl (chan j w)) (ctl (chan i w))"
      "chan_ok (end_state w i) (chan i w)" "chan_ok (end_state w j) (chan j w)"
      "carries i j a w ma" "carries j i b w mb" "refs_ok (mheap w) (mset ma + mset mb + L + R)" using inv by (rule term_invE)
    have s: "end_state w i = Some active" and out: "outpipe p = Some a" using t(3) p st by (simp_all add: end_state_def end_ok_def writes_still_def)
    obtain q where q: "pipes w j = Some q" using agree_ctl_writes(1) [OF t(5) [unfolded s]] by (auto simp: writes_still_def end_state_def)
    obtain fl un inc z where v: "up_view w a fl un inc z" "ma = fl @ un @ inc" "flow_ok (end_state w i) q (chan j w) fl un inc z"
      using t(8) q by (auto simp: carries_def)
    obtain u where u: "up_write a m (msg_more m) w = Some (m, set_upipe a u w)"
      "if msg_more m then up_view (set_upipe a u w) a fl un (inc @ [m]) z
       else up_view (set_upipe a u w) a fl (un @ inc @ [m]) [] z" using up_write_view [OF v(1)] by blast
    define p2 where "p2 = (if counts m then p\<lparr>msgs_written := msgs_written p + 1\<rparr> else p)"
    define w2 where "w2 = set_pipe i p2 (set_upipe a u w)"
    have wr: "pipe_write i m w = Some (True, m, w2)"
      using chk p out u(1) set_pipe_same [of "set_upipe a u w" i p] by (simp add: pipe_write_def w2_def p2_def counts_def Let_def)
    have view: "up_view w2 a x y k z' \<longleftrightarrow> up_view (set_upipe a u w) a x y k z'" for x y k z' by (rule up_view_frame) (simp add: w2_def)
    have w2: "acts i j w p2 [] w2" "state p2 = state p" "pipes w2 j = Some q" "end_state w2 i = Some active" "chan j w2 = chan j w" "mheap w2 = mheap w"
      using t(1) q st by (auto simp: acts_def w2_def p2_def end_state_def chan_def)
    have "\<exists>un' inc'. up_view w2 a fl un' inc' z \<and> ma @ [m] = fl @ un' @ inc' \<and> flow_ok (Some active) q (chan j w) fl un' inc' z"
    proof (cases "msg_more m")
      case True
      have "flow_ok (Some active) q (chan j w) fl un (inc @ [m]) z" using v(3) m True s unfolding flow_ok_def by auto
      then show ?thesis using u(2) True v(2) view by (intro exI [of _ un] exI [of _ "inc @ [m]"]) simp
    next
      case False
      have "flow_ok (Some active) q (chan j w) fl (un @ inc @ [m]) [] z" using v(3) m s unfolding flow_ok_def by auto
      then show ?thesis using u(2) False v(2) view by (intro exI [of _ "un @ inc @ [m]"] exI [of _ "[]"]) simp
    qed
    then have "carries i j a w2 (ma @ [m])" using w2(3-5) by (auto simp: carries_def)
    moreover have "carries j i b w2 mb"
      using t(1,2) p w2 by (intro carries_read [OF t(9) _ p, of _ p2]) (simp_all add: w2_def end_state_def p2_def)
    moreover have "refs_ok (mheap w2) (mset (ma @ [m]) + mset mb + L + (R - {#m#}))" using t(10) m(1) w2(6) by (simp add: add_ac)
    ultimately have "term_inv i j a b (w2, R - {#m#})"
      using w2(2) by (intro term_inv_quiet [OF t(1-4) p t(5-7) w2(1), where ma = "ma @ [m]" and mb = mb and L = L]) (simp_all add: p2_def)
    then show ?thesis using wr by (intro exI [of _ True] exI [of _ m] exI [of _ w2]) simp
  qed
qed

lemma term_flush:
  assumes inv: "term_inv i j a b (w, R)" and p: "pipes w i = Some p"
  shows "\<exists>w'. pipe_flush i w = Some w' \<and> term_inv i j a b (w', R) \<and> pipes w' = pipes w"
proof -
  obtain ma mb L where t: "i \<noteq> j" "a \<noteq> b" "end_ok i j a b w" "end_ok j i b a w"
    "agree (end_state w i) (end_state w j) (ctl (chan j w)) (ctl (chan i w))"
    "chan_ok (end_state w i) (chan i w)" "chan_ok (end_state w j) (chan j w)"
    "carries i j a w ma" "carries j i b w mb" "refs_ok (mheap w) (mset ma + mset mb + L + R)" using inv by (rule term_invE)
  have s: "end_state w i = Some (state p)" using p by (simp add: end_state_def)
  show ?thesis
  proof (cases "writes_still (state p)")
    case False
    then show ?thesis using t(3) p inv by (auto simp: pipe_flush_def end_ok_def)
  next
    case True
    have out: "outpipe p = Some a" "peer p = Some j" "state p \<noteq> term_ack_sent" using t(3) p True by (auto simp: end_ok_def writes_still_def)
    obtain q where q: "pipes w j = Some q" using agree_ctl_writes(1) [OF t(5) [unfolded s] True] by (auto simp: end_state_def)
    obtain fl un inc z where v: "up_view w a fl un inc z" "ma = fl @ un @ inc" "flow_ok (end_state w i) q (chan j w) fl un inc z"
      using t(8) q by (auto simp: carries_def)
    obtain u where u: "up_flush a w = Some (un = [] \<or> \<not> z, set_upipe a u w)"
      "up_view (set_upipe a u w) a (fl @ un) [] inc (z \<and> un = [])" using up_flush_view [OF v(1)] by blast
    define cs where "cs = (if un = [] \<or> \<not> z then [] else [Activate_read])"
    define w2 where "w2 = (set_upipe a u w)\<lparr>cmds := cmds w @ map (Pair j) cs\<rparr>"
    have fl: "pipe_flush i w = Some w2"
      using p out u(1) by (cases w) (auto simp: pipe_flush_def w2_def cs_def send_cmd_def set_upipe_def)
    have act: "acts i j w p cs w2" using p by (auto simp: acts_def w2_def fun_upd_idem)
    note a = acts_views [OF act t(1)]
    have "flow_ok (end_state w i) q (chan j w @ cs) (fl @ un) [] inc (z \<and> un = [])"
      using v(3) unfolding flow_ok_def cs_def by auto
    moreover have "up_view w2 a (fl @ un) [] inc (z \<and> un = [])" by (subst up_view_frame [of _ _ "set_upipe a u w"]) (simp add: w2_def, rule u(2))
    ultimately have "carries i j a w2 ma" using q a s v(2) by (intro carriesI [of w2 j q a "fl @ un" "[]" inc "z \<and> un = []"]) auto
    moreover have "carries j i b w2 mb" using t(2) p a by (intro carries_read [OF t(9) _ p, of _ p]) (auto simp: w2_def)
    moreover have "cs = [] \<or> (\<exists>c. cs = [c] \<and> flow_cmd (j, c) \<and> writes_still (state p))" using True by (simp add: cs_def)
    ultimately have "term_inv i j a b (w2, R)"
      using t(10) by (intro term_inv_quiet [OF t(1-4) p t(5-7) act, where ma = ma and mb = mb and L = L]) (simp_all add: w2_def)
    then show ?thesis using fl by (intro exI [of _ w2]) (simp add: w2_def)
  qed
qed


text \<open>The parts of an unfinished message can be taken back and closed.\<close>

lemma rollback_loop_ok:
  "up_view w a fl un inc z \<Longrightarrow> \<forall>m \<in> set inc. msg_more m \<and> msg_check m \<Longrightarrow> refs_ok (mheap w) (mset inc + M) \<Longrightarrow>
    \<exists>u h. rollback_loop a w = Some ((set_upipe a u w)\<lparr>mheap := h\<rparr>) \<and> refs_ok h M"
proof (induction inc arbitrary: w rule: rev_induct)
  case Nil
  obtain u where "upipes w a = Some u" using Nil(1) by (auto simp: up_view_def)
  then have "w = (set_upipe a u w)\<lparr>mheap := mheap w\<rparr>" by (cases w) (simp add: set_upipe_def fun_upd_idem)
  moreover have "rollback_loop a w = Some w" using up_unwrite_view(1) [OF Nil(1)] by (subst rollback_loop.simps) simp
  ultimately show ?case using Nil(3) by (metis add_0 mset.simps(1))
next
  case (snoc x xs)
  obtain u where u: "up_unwrite a w = Some (Some x, set_upipe a u w)" "up_view (set_upipe a u w) a fl un xs z"
    using up_unwrite_view(2) [OF snoc(2) refl] by blast
  have "refs_ok (mheap (set_upipe a u w)) (add_mset x (mset xs + M))" using snoc(4) by (simp add: add_ac)
  then obtain h where h: "close_in x (set_upipe a u w) = Some ((set_upipe a u w)\<lparr>mheap := h\<rparr>)" "refs_ok h (mset xs + M)"
    using close_in_refs snoc(3) by fastforce
  let ?w = "(set_upipe a u w)\<lparr>mheap := h\<rparr>"
  have "up_view ?w a fl un xs z" using u(2) by (subst up_view_frame [of _ _ "set_upipe a u w"]) simp_all
  then obtain u' h' where r: "rollback_loop a ?w = Some ((set_upipe a u' ?w)\<lparr>mheap := h'\<rparr>)" "refs_ok h' M"
    using snoc(1) [of ?w] snoc(3) h(2) by auto
  have "rollback_loop a w = rollback_loop a ?w" using u(1) h(1) snoc(3) by (subst rollback_loop.simps) simp
  moreover have "(set_upipe a u' ?w)\<lparr>mheap := h'\<rparr> = (set_upipe a u' w)\<lparr>mheap := h'\<rparr>" by (simp add: set_upipe_def)
  ultimately show ?case using r by auto
qed

lemma rollback_loop_done:
  assumes "up_view w a fl un inc z" and "\<forall>m \<in> set inc. msg_more m \<and> msg_check m" and "refs_ok (mheap w) (mset inc + M)"
  shows "\<exists>u h. rollback_loop a w = Some ((set_upipe a u w)\<lparr>mheap := h\<rparr>) \<and> refs_ok h M \<and>
    up_view ((set_upipe a u w)\<lparr>mheap := h\<rparr>) a fl un [] z"
  using rollback_loop_ok [OF assms] rollback_loop_view [OF _ assms(1)] by blast

lemma flow_ok_rollback: "flow_ok si p cs fl un inc z \<Longrightarrow> flow_ok si p cs fl un [] z"
  unfolding flow_ok_def by (simp add: ball_Un)

lemma term_rollback:
  assumes inv: "term_inv i j a b (w, R)" and p: "pipes w i = Some p"
  shows "\<exists>w'. pipe_rollback i w = Some w' \<and> term_inv i j a b (w', R)"
proof -
  obtain ma mb L where t: "i \<noteq> j" "a \<noteq> b" "end_ok i j a b w" "end_ok j i b a w"
    "agree (end_state w i) (end_state w j) (ctl (chan j w)) (ctl (chan i w))"
    "chan_ok (end_state w i) (chan i w)" "chan_ok (end_state w j) (chan j w)"
    "carries i j a w ma" "carries j i b w mb" "refs_ok (mheap w) (mset ma + mset mb + L + R)" using inv by (rule term_invE)
  have s: "end_state w i = Some (state p)" using p by (simp add: end_state_def)
  show ?thesis
  proof (cases "writes_still (state p)")
    case False
    then show ?thesis using t(3) p inv by (auto simp: pipe_rollback_def end_ok_def)
  next
    case True
    have out: "outpipe p = Some a" using t(3) p True by (auto simp: end_ok_def)
    obtain q where q: "pipes w j = Some q" using agree_ctl_writes(1) [OF t(5) [unfolded s] True] by (auto simp: end_state_def)
    obtain fl un inc z where v: "up_view w a fl un inc z" "ma = fl @ un @ inc" "flow_ok (end_state w i) q (chan j w) fl un inc z"
      using carriesE [OF t(8) q] .
    have "refs_ok (mheap w) (mset inc + (mset (fl @ un) + mset mb + L + R))" using t(10) v(2) by (simp add: add_ac)
    moreover have "\<forall>m \<in> set inc. msg_more m \<and> msg_check m" using v(3) by (simp add: flow_ok_def)
    ultimately obtain u h where u: "rollback_loop a w = Some ((set_upipe a u w)\<lparr>mheap := h\<rparr>)"
      "refs_ok h (mset (fl @ un) + mset mb + L + R)" "up_view ((set_upipe a u w)\<lparr>mheap := h\<rparr>) a fl un [] z"
      using rollback_loop_done [OF v(1)] by blast
    define w2 where "w2 = (set_upipe a u w)\<lparr>mheap := h\<rparr>"
    have w2: "upipes w2 b = upipes w b" "chan j w2 = chan j w" "chan i w2 = chan i w" "end_state w2 i = end_state w i"
      "end_state w2 j = end_state w j" "pipes w2 = pipes w" "mheap w2 = h" using t(2) by (simp_all add: w2_def)
    have "flow_ok (end_state w2 i) q (chan j w2) fl un [] z" using flow_ok_rollback [OF v(3)] unfolding w2 .
    moreover have "pipes w2 j = Some q" "fl @ un = fl @ un @ []" using q w2(6) by simp_all
    ultimately have "carries i j a w2 (fl @ un)" using u(3) [folded w2_def] by (intro carriesI)
    moreover have "carries j i b w2 mb" using p w2 by (intro carries_read [OF t(9) _ p, of _ p]) auto
    moreover have "acts i j w p [] w2" unfolding w2_def by (rule acts_queue(1) [OF p])
    moreover have "refs_ok (mheap w2) (mset (fl @ un) + mset mb + L + R)" using u(2) w2(7) by simp
    ultimately have "term_inv i j a b (w2, R)" using term_inv_quiet [OF t(1-4) p t(5-7)] by blast
    then show ?thesis using p out u(1) by (simp add: pipe_rollback_def w2_def)
  qed
qed

subsection \<open>Reading\<close>

text \<open>Taking a delimiter: the end is told that the peer asked, or acknowledges.\<close>

lemma term_delimiter:
  assumes t: "i \<noteq> j" "a \<noteq> b" "end_ok i j a b w" "end_ok j i b a w"
    "agree (end_state w i) (end_state w j) (ctl (chan j w)) (ctl (chan i w))"
    "chan_ok (end_state w i) (chan i w)" "chan_ok (end_state w j) (chan j w)"
    "carries i j a w ma" "refs_ok (mheap w) (mset ma + mset (m # ms @ un @ inc) + L + R)"
    and p: "pipes w i = Some p" and rd: "reads_still (state p)" and m: "msg_is_delimiter m"
    and v: "up_view (set_upipe b u w) b ms un inc z" "flow_ok (end_state w j) p (chan i w) (m # ms) un inc z"
  shows "\<exists>w'. pipe_process_delimiter i (set_upipe b u w) = Some w' \<and> term_inv i j a b (w', R)"
proof -
  have s: "end_state w i = Some (state p)" using p by (simp add: end_state_def)
  have pr: "peer p = Some j" "outpipe p = Some a" using t(3) p rd by (auto simp: end_ok_def reads_still_def writes_still_def)
  have sj: "end_state w j \<noteq> Some active" "end_state w j \<noteq> Some delimiter_received" using v(2) m by (auto simp: flow_ok_def)
  define st where "st = (if state p = active then delimiter_received else term_ack_sent)"
  define cs where "cs = (if state p = active then [] else [Pipe_term_ack])"
  define p' where "p' = (if state p = active then p\<lparr>state := st\<rparr> else p\<lparr>outpipe := None, state := st\<rparr>)"
  define w' where "w' = set_pipe i p' ((set_upipe b u w)\<lparr>cmds := cmds w @ map (Pair j) cs\<rparr>)"
  have act: "acts i j w p' cs w'" by (simp add: acts_def w'_def)
  note x = acts_views [OF act t(1)]
  have "pipe_process_delimiter i (set_upipe b u w) = Some w'"
    using p rd pr by (auto simp: pipe_process_delimiter_def w'_def p'_def st_def cs_def reads_still_def send_cmd_def set_pipe_def set_upipe_def)
  moreover have "term_inv i j a b (w', R)"
  proof (rule term_inv_acts [OF t(1-4) p act, where ma = ma and mb = "ms @ un @ inc" and L = "L + {#m#}"])
    show "same_wiring a p p'" using pr rd by (auto simp: same_wiring_def p'_def st_def writes_still_def)
    show "agree (Some (state p')) (end_state w j) (ctl (chan j w) @ ctl cs) (ctl (chan i w))"
      using t(5) rd sj unfolding s by (auto simp: p'_def st_def cs_def reads_still_def agree_def elim!: phase.cases intro: phase.intros)
    show "chan_ok (end_state w i) (chan i w)" by (rule t(6))
    have "writes_still (state p)" using rd by (auto simp: reads_still_def writes_still_def)
    then show "chan_ok (end_state w j) (chan j w @ cs)"
      using t(7) agree_ctl_writes [OF t(5) [unfolded s]] chan_ok_snoc by (auto simp: cs_def)
    have "state p' = st" "\<not> reads_still st" by (auto simp: p'_def st_def reads_still_def)
    then show "carries i j a w' ma" using t(2) rd x s
      by (intro carries_written [OF t(8)]) (auto simp: w'_def writer_change_def st_def reads_still_def)
    have "flow_ok (end_state w' j) p' (chan i w') ms un inc z"
      using v(2) x \<open>state p' = st\<close> \<open>\<not> reads_still st\<close> by (auto simp: flow_ok_def reads_still_def)
    moreover have "up_view w' b ms un inc z" by (subst up_view_frame [of _ _ "set_upipe b u w"]) (simp add: w'_def, rule v(1))
    ultimately show "carries j i b w' (ms @ un @ inc)" using x by (intro carriesI [of w' i p' b ms un inc z]) simp_all
    show "refs_ok (mheap w') (mset ma + mset (ms @ un @ inc) + (L + {#m#}) + R)" using t(9) by (simp add: w'_def add_ac)
  qed
  ultimately show ?thesis by blast
qed

lemma set_upipe_twice [simp]: "set_upipe x u (set_upipe x v w) = set_upipe x u w"
  by (simp add: set_upipe_def)

lemma term_sleep:
  assumes t: "i \<noteq> j" "a \<noteq> b" "end_ok i j a b w" "end_ok j i b a w"
    "agree (end_state w i) (end_state w j) (ctl (chan j w)) (ctl (chan i w))"
    "chan_ok (end_state w i) (chan i w)" "chan_ok (end_state w j) (chan j w)"
    "carries i j a w ma" "refs_ok (mheap w) (mset ma + mset (un @ inc) + L + R)"
    and p: "pipes w i = Some p"
    and v: "up_view (set_upipe b u w) b [] un inc True" "flow_ok (end_state w j) p (chan i w) [] un inc z"
  shows "term_inv i j a b (set_pipe i (p\<lparr>in_active := False\<rparr>) (set_upipe b u w), R)" (is "term_inv i j a b (?w, R)")
proof -
  have act: "acts i j w (p\<lparr>in_active := False\<rparr>) [] ?w" by (simp add: acts_def)
  note x = acts_views [OF act t(1)]
  have s: "end_state w i = Some (state p)" using p by (simp add: end_state_def)
  have "carries i j a ?w ma" using t(2) x s by (intro carries_written [OF t(8)]) (simp_all add: writer_change_def)
  moreover have "up_view ?w b [] un inc True" by (subst up_view_frame [of _ _ "set_upipe b u w"]) (simp, rule v(1))
  then have "carries j i b ?w (un @ inc)" using x v(2) by (intro carriesI [of ?w i "p\<lparr>in_active := False\<rparr>" b "[]" un inc True]) (auto simp: flow_ok_def)
  ultimately show ?thesis using t(9)
    by (intro term_inv_quiet [OF t(1-4) p t(5-7) act, where ma = ma and mb = "un @ inc" and L = L]) simp_all
qed

lemma flow_ok_read: "flow_ok si p cs (m # ms) un inc z \<Longrightarrow> \<not> msg_is_delimiter m \<Longrightarrow> flow_ok si p cs ms un inc z"
  by (auto simp: flow_ok_def split: if_splits)

lemma term_read:
  assumes inv: "term_inv i j a b (w, R)" and p: "pipes w i = Some p"
  shows "\<exists>m w'. pipe_read i w = Some (m, w') \<and> term_inv i j a b (w', case m of None \<Rightarrow> R | Some x \<Rightarrow> add_mset x R)"
proof -
  obtain ma mb L where t: "i \<noteq> j" "a \<noteq> b" "end_ok i j a b w" "end_ok j i b a w"
    "agree (end_state w i) (end_state w j) (ctl (chan j w)) (ctl (chan i w))"
    "chan_ok (end_state w i) (chan i w)" "chan_ok (end_state w j) (chan j w)"
    "carries i j a w ma" "carries j i b w mb" "refs_ok (mheap w) (mset ma + mset mb + L + R)" using inv by (rule term_invE)
  have s: "end_state w i = Some (state p)" and b: "inpipe p = Some b" "peer p = Some j" using p t(3) by (auto simp: end_state_def end_ok_def)
  obtain fl un inc z where v: "up_view w b fl un inc z" "mb = fl @ un @ inc" "flow_ok (end_state w j) p (chan i w) fl un inc z"
    using carriesE [OF t(9) p] .
  consider "\<not> in_active p \<or> \<not> reads_still (state p)" | "in_active p" "reads_still (state p)" "fl = []"
    | m ms where "in_active p" "reads_still (state p)" "fl = m # ms" "msg_is_delimiter m"
    | m ms where "in_active p" "reads_still (state p)" "fl = m # ms" "\<not> msg_is_delimiter m" by (cases fl) auto
  then show ?thesis
  proof cases
    case 1
    then have "pipe_read i w = Some (None, w)" using p by (auto simp: pipe_read_def reads_still_def)
    then show ?thesis using inv by auto
  next
    case 2
    obtain u where u: "up_read b w = Some (None, set_upipe b u w)" "up_view (set_upipe b u w) b [] un inc True"
      using up_read_view(1) [OF v(1) 2(3)] by blast
    have "pipe_read i w = Some (None, set_pipe i (p\<lparr>in_active := False\<rparr>) (set_upipe b u w))"
      using 2 p u(1) b by (auto simp: pipe_read_def reads_still_def)
    moreover have "term_inv i j a b (set_pipe i (p\<lparr>in_active := False\<rparr>) (set_upipe b u w), R)"
      using t(10) v(2,3) 2 by (intro term_sleep [OF t(1-8) _ p u(2), of L]) simp_all
    ultimately show ?thesis by auto
  next
    case (3 m ms)
    obtain u where u: "up_read b w = Some (Some m, set_upipe b u w)" "up_view (set_upipe b u w) b ms un inc z"
      using up_read_view(2) [OF v(1) 3(3)] by blast
    obtain w' where w': "pipe_process_delimiter i (set_upipe b u w) = Some w'" "term_inv i j a b (w', R)"
      using term_delimiter [OF t(1-8) _ p 3(2,4) u(2), of L] t(10) v(2,3) 3(3) by auto
    have "pipe_read i w = Some (None, w')" using 3 p u(1) b w'(1) by (auto simp: pipe_read_def reads_still_def)
    then show ?thesis using w'(2) by auto
  next
    case (4 m ms)
    obtain u where u: "up_read b w = Some (Some m, set_upipe b u w)" "up_view (set_upipe b u w) b ms un inc z"
      using up_read_view(2) [OF v(1) 4(3)] by blast
    define n where "n = (if \<not> msg_more m \<and> \<not> msg_is_identity m then msgs_read p + 1 else msgs_read p)"
    define cs where "cs = (if lwm p > 0 \<and> unat n mod nat (lwm p) = 0 then [Activate_write n] else [])"
    define p' where "p' = p\<lparr>msgs_read := n\<rparr>"
    define w' where "w' = set_pipe i p' ((set_upipe b u w)\<lparr>cmds := cmds w @ map (Pair j) cs\<rparr>)"
    have rd: "pipe_read i w = Some (Some m, w')"
    proof (cases "cs = []")
      case True
      then show ?thesis using 4 p u(1) b unfolding pipe_read_def
        by (auto simp: reads_still_def n_def [symmetric] w'_def p'_def cs_def Let_def set_pipe_def set_upipe_def split: if_splits)
    next
      case False
      then have c: "lwm p > 0 \<and> unat n mod nat (lwm p) = 0" by (auto simp: cs_def split: if_splits)
      then show ?thesis using 4 p u(1) b unfolding pipe_read_def
        by (auto simp: reads_still_def n_def [symmetric] w'_def p'_def cs_def Let_def send_cmd_def set_pipe_def set_upipe_def)
    qed
    have act: "acts i j w p' cs w'" by (simp add: acts_def w'_def)
    note x = acts_views [OF act t(1)]
    have "carries i j a w' ma" using t(2) x s by (intro carries_written [OF t(8)]) (auto simp: w'_def writer_change_def p'_def)
    moreover have "up_view w' b ms un inc z" by (subst up_view_frame [of _ _ "set_upipe b u w"]) (simp add: w'_def, rule u(2))
    moreover have "flow_ok (end_state w' j) p' (chan i w') ms un inc z"
      using flow_ok_read [OF v(3) [unfolded 4(3)] 4(4)] x by (simp add: flow_ok_def p'_def)
    ultimately have "carries i j a w' ma" "carries j i b w' (ms @ un @ inc)"
      using x by (auto intro: carriesI [of w' i p' b ms un inc z])
    moreover have "cs = [] \<or> (\<exists>c. cs = [c] \<and> flow_cmd (j, c) \<and> writes_still (state p))"
      using 4(2) by (auto simp: cs_def reads_still_def writes_still_def)
    moreover have "refs_ok (mheap w') (mset ma + mset (ms @ un @ inc) + L + add_mset m R)"
      using t(10) v(2) 4(3) by (simp add: w'_def add_ac)
    ultimately have "term_inv i j a b (w', add_mset m R)"
      by (intro term_inv_quiet [OF t(1-4) p t(5-7) act, where ma = ma and mb = "ms @ un @ inc" and L = L]) (simp_all add: p'_def)
    then show ?thesis using rd by auto
  qed
qed

lemma term_check_read:
  assumes inv: "term_inv i j a b (w, R)" and p: "pipes w i = Some p"
  shows "\<exists>ok w'. pipe_check_read i w = Some (ok, w') \<and> term_inv i j a b (w', R)"
proof -
  obtain ma mb L where t: "i \<noteq> j" "a \<noteq> b" "end_ok i j a b w" "end_ok j i b a w"
    "agree (end_state w i) (end_state w j) (ctl (chan j w)) (ctl (chan i w))"
    "chan_ok (end_state w i) (chan i w)" "chan_ok (end_state w j) (chan j w)"
    "carries i j a w ma" "carries j i b w mb" "refs_ok (mheap w) (mset ma + mset mb + L + R)" using inv by (rule term_invE)
  have s: "end_state w i = Some (state p)" and b: "inpipe p = Some b" "peer p = Some j" using p t(3) by (auto simp: end_state_def end_ok_def)
  obtain fl un inc z where v: "up_view w b fl un inc z" "mb = fl @ un @ inc" "flow_ok (end_state w j) p (chan i w) fl un inc z"
    using carriesE [OF t(9) p] .
  obtain u where u: "up_check_read b w = Some (fl \<noteq> [], set_upipe b u w)"
    "up_view (set_upipe b u w) b fl un inc (z \<or> fl = [])" using up_check_read_view [OF v(1)] by blast
  consider "\<not> in_active p \<or> \<not> reads_still (state p)" | "in_active p" "reads_still (state p)" "fl = []"
    | m ms where "in_active p" "reads_still (state p)" "fl = m # ms" by (cases fl) auto
  then show ?thesis
  proof cases
    case 1
    then have "pipe_check_read i w = Some (False, w)" using p by (auto simp: pipe_check_read_def reads_still_def)
    then show ?thesis using inv by auto
  next
    case 2
    have "pipe_check_read i w = Some (False, set_pipe i (p\<lparr>in_active := False\<rparr>) (set_upipe b u w))"
      using 2 p u(1) b by (auto simp: pipe_check_read_def reads_still_def)
    moreover have "term_inv i j a b (set_pipe i (p\<lparr>in_active := False\<rparr>) (set_upipe b u w), R)"
      using t(10) v(2,3) 2 u(2) by (intro term_sleep [OF t(1-8) _ p, of un inc L R u z]) simp_all
    ultimately show ?thesis by auto
  next
    case (3 m ms)
    have u2: "up_view (set_upipe b u w) b (m # ms) un inc z" using u(2) 3(3) by simp
    obtain u' where u': "up_probe msg_is_delimiter b (set_upipe b u w) = Some (msg_is_delimiter m, set_upipe b u' w)"
      "up_view (set_upipe b u' w) b (m # ms) un inc z" using up_probe_view [OF u2, of msg_is_delimiter] by auto
    show ?thesis
    proof (cases "msg_is_delimiter m")
      case True
      obtain u'' where r: "up_read b (set_upipe b u' w) = Some (Some m, set_upipe b u'' w)" "up_view (set_upipe b u'' w) b ms un inc z"
        using up_read_view(2) [OF u'(2) refl] by auto
      obtain w' where w': "pipe_process_delimiter i (set_upipe b u'' w) = Some w'" "term_inv i j a b (w', R)"
        using term_delimiter [OF t(1-8) _ p 3(2) True r(2), of L] t(10) v(2,3) 3(3) by auto
      have "pipe_check_read i w = Some (False, w')"
        using 3 p u(1) u'(1) r(1) b w'(1) True by (auto simp: pipe_check_read_def reads_still_def)
      then show ?thesis using w'(2) by auto
    next
      case False
      have "pipe_check_read i w = Some (True, set_upipe b u' w)"
        using 3 p u(1) u'(1) b False by (auto simp: pipe_check_read_def reads_still_def)
      moreover have "carries i j a (set_upipe b u' w) ma" using t(2) by (intro carries_written [OF t(8)]) (auto simp: writer_change_def)
      moreover have "carries j i b (set_upipe b u' w) mb" using p u'(2) v(2,3) 3(3) by (intro carriesI [of _ i p b fl un inc z]) auto
      moreover have "acts i j w p [] (set_upipe b u' w)" using acts_queue(2) [OF p] .
      ultimately show ?thesis using term_inv_quiet [OF t(1-4) p t(5-7), of p "[]" "set_upipe b u' w" ma mb L R] t(10) by auto
    qed
  qed
qed


subsection \<open>Asking for termination\<close>

lemma delimiter_facts [simp]: "msg_is_delimiter msg_init_delimiter" "msg_check msg_init_delimiter" "\<not> points_to x msg_init_delimiter"
  "msg_u msg_init_delimiter \<noteq> Lmsg None"
  by (simp_all add: msg_init_delimiter_def msg_is_delimiter_def msg_check_def points_to_def)

lemma write_delimiter_ok:
  assumes p: "pipes w i = Some p" and out: "outpipe p = Some a" "state p \<noteq> term_ack_sent" "peer p = Some j" and v: "up_view w a fl un inc z"
    and inc: "\<forall>m \<in> set inc. msg_more m \<and> msg_check m" and ok: "refs_ok (mheap w) (mset inc + M)"
  shows "\<exists>u h cs. pipe_write_delimiter i w = Some ((set_upipe a u w)\<lparr>mheap := h, cmds := cmds w @ map (Pair j) cs\<rparr>) \<and>
    up_view (set_upipe a u w) a (fl @ un @ [msg_init_delimiter]) [] [] False \<and> refs_ok h M \<and> cs = (if z then [Activate_read] else [])"
proof -
  obtain u1 h where r: "rollback_loop a w = Some ((set_upipe a u1 w)\<lparr>mheap := h\<rparr>)" "refs_ok h M"
    "up_view ((set_upipe a u1 w)\<lparr>mheap := h\<rparr>) a fl un [] z" using rollback_loop_done [OF v inc ok] by blast
  define w1 where "w1 = (set_upipe a u1 w)\<lparr>mheap := h\<rparr>"
  obtain u2 where u2: "up_write a msg_init_delimiter False w1 = Some (msg_init_delimiter, set_upipe a u2 w1)"
    "up_view (set_upipe a u2 w1) a fl (un @ [msg_init_delimiter]) [] z"
    using up_write_view [OF r(3) [folded w1_def], of msg_init_delimiter False] by auto
  obtain u3 where u3: "up_flush a (set_upipe a u2 w1) = Some (\<not> z, set_upipe a u3 w1)"
    "up_view (set_upipe a u3 w1) a (fl @ un @ [msg_init_delimiter]) [] [] False" using up_flush_view [OF u2(2)] by auto
  define cs where "cs = (if z then [Activate_read] else [])"
  have "up_view (set_upipe a u3 w) a (fl @ un @ [msg_init_delimiter]) [] [] False"
    by (subst up_view_frame [of _ _ "set_upipe a u3 w1"]) (simp, rule u3(2))
  moreover have "pipe_write_delimiter i w = Some ((set_upipe a u3 w)\<lparr>mheap := h, cmds := cmds w @ map (Pair j) cs\<rparr>)"
  proof (cases z)
    case True
    then show ?thesis using p out r(1) u2(1) u3(1)
      by (simp add: pipe_write_delimiter_def pipe_rollback_def pipe_flush_def w1_def [symmetric] cs_def)
        (simp add: w1_def set_upipe_def send_cmd_def)
  next
    case False
    then show ?thesis using p out r(1) u2(1) u3(1)
      by (simp add: pipe_write_delimiter_def pipe_rollback_def pipe_flush_def w1_def [symmetric] cs_def)
        (simp add: w1_def set_upipe_def)
  qed
  ultimately show ?thesis using r(2) cs_def by blast
qed

text \<open>The end changes its own record, sends a command, writes the delimiter and flushes.\<close>

lemma flow_ok_delimiter:
  assumes "flow_ok si q cs fl un inc z" and "si' \<noteq> Some active" "si' \<noteq> Some delimiter_received" and "set cs \<subseteq> set cs'" and "z \<Longrightarrow> Activate_read \<in> set cs'"
  shows "flow_ok si' q cs' (fl @ un @ [msg_init_delimiter]) [] [] False"
  using assms unfolding flow_ok_def by (simp add: ball_Un) blast

lemma term_ask:
  assumes t: "i \<noteq> j" "a \<noteq> b" "end_ok i j a b w" "end_ok j i b a w"
    "agree (end_state w i) (end_state w j) (ctl (chan j w)) (ctl (chan i w))"
    "chan_ok (end_state w i) (chan i w)" "chan_ok (end_state w j) (chan j w)"
    "carries i j a w ma" "carries j i b w mb" "refs_ok (mheap w) (mset ma + mset mb + L + R)"
    and p: "pipes w i = Some p" and st: "writes_still (state p)"
    and p': "inpipe p' = inpipe p" "peer p' = peer p" "sink p' = sink p" "conflate p' = conflate p" "outpipe p' = outpipe p"
      "state p' = term_req_sent1 \<or> state p' = waiting_for_delimiter" "in_active p' = in_active p"
    and rd: "reads_still (state p') \<Longrightarrow> reads_still (state p)" and cs: "cs = [] \<or> cs = [Pipe_term]"
    and ag: "agree (Some (state p')) (end_state w j) (ctl (chan j w) @ cs) (ctl (chan i w))"
  shows "\<exists>w'. pipe_write_delimiter i ((set_pipe i p' w)\<lparr>cmds := cmds w @ map (Pair j) cs\<rparr>) = Some w' \<and> term_inv i j a b (w', R)"
proof -
  have s: "end_state w i = Some (state p)" using p by (simp add: end_state_def)
  have out: "outpipe p = Some a" "peer p = Some j" using t(3) p st by (auto simp: end_ok_def)
  have alive: "end_state w j \<noteq> None" "Pipe_term_ack \<notin> set (chan j w)" using agree_ctl_writes [OF t(5) [unfolded s] st] by simp_all
  obtain q where q: "pipes w j = Some q" using alive(1) by (auto simp: end_state_def)
  obtain fl un inc z where v: "up_view w a fl un inc z" "ma = fl @ un @ inc" "flow_ok (end_state w i) q (chan j w) fl un inc z"
    using carriesE [OF t(8) q] .
  define w1 where "w1 = (set_pipe i p' w)\<lparr>cmds := cmds w @ map (Pair j) cs\<rparr>"
  have "up_view w1 a fl un inc z" using v(1) by (subst up_view_frame [of _ _ w]) (simp_all add: w1_def)
  moreover have "\<forall>m \<in> set inc. msg_more m \<and> msg_check m" using v(3) by (simp add: flow_ok_def)
  moreover have "refs_ok (mheap w1) (mset inc + (mset (fl @ un) + mset mb + L + R))" using t(10) v(2) by (simp add: w1_def add_ac)
  moreover have "pipes w1 i = Some p'" "outpipe p' = Some a" "state p' \<noteq> term_ack_sent" "peer p' = Some j"
    using p' out by (auto simp: w1_def)
  ultimately obtain u h ar where d: "pipe_write_delimiter i w1 = Some ((set_upipe a u w1)\<lparr>mheap := h, cmds := cmds w1 @ map (Pair j) ar\<rparr>)"
    "up_view (set_upipe a u w1) a (fl @ un @ [msg_init_delimiter]) [] [] False" "refs_ok h (mset (fl @ un) + mset mb + L + R)"
    "ar = (if z then [Activate_read] else [])"
    using write_delimiter_ok [of w1 i p' a j fl un inc z "mset (fl @ un) + mset mb + L + R"] by blast
  define w2 where "w2 = (set_upipe a u w1)\<lparr>mheap := h, cmds := cmds w1 @ map (Pair j) ar\<rparr>"
  have act: "acts i j w p' (cs @ ar) w2" by (simp add: acts_def w2_def w1_def)
  note x = acts_views [OF act t(1)]
  have "term_inv i j a b (w2, R)"
  proof (rule term_inv_acts [OF t(1-4) p act, where ma = "fl @ un @ [msg_init_delimiter]" and mb = mb and L = L])
    show "same_wiring a p p'" using p' out by (auto simp: same_wiring_def writes_still_def)
    have "ctl (cs @ ar) = cs" using cs d(4) by auto
    then show "agree (Some (state p')) (end_state w j) (ctl (chan j w) @ ctl (cs @ ar)) (ctl (chan i w))" using ag by simp
    show "chan_ok (end_state w i) (chan i w)" by (rule t(6))
    have "set (cs @ ar) \<subseteq> {Pipe_term, Activate_read}" using cs d(4) by auto
    moreover from this have "Pipe_term_ack \<notin> set (chan j w @ cs @ ar)" using alive(2) by auto
    ultimately show "chan_ok (end_state w j) (chan j w @ cs @ ar)"
      using t(7) alive(1) unfolding chan_ok_def by (auto dest: in_set_butlastD)
    have "up_view w2 a (fl @ un @ [msg_init_delimiter]) [] [] False"
      by (subst up_view_frame [of _ _ "set_upipe a u w1"]) (simp add: w2_def, rule d(2))
    moreover have "flow_ok (end_state w2 i) q (chan j w2) (fl @ un @ [msg_init_delimiter]) [] [] False"
      using p'(6) d(4) unfolding x by (intro flow_ok_delimiter [OF v(3)]) auto
    ultimately show "carries i j a w2 (fl @ un @ [msg_init_delimiter])" using q x(6)
      by (intro carriesI [of w2 j q a "fl @ un @ [msg_init_delimiter]" "[]" "[]" False]) simp_all
    show "carries j i b w2 mb"
      using t(2) x p'(7) rd by (intro carries_read [OF t(9) _ p x(5)]) (auto simp: w2_def w1_def)
    have "refs_ok h (add_mset msg_init_delimiter (mset (fl @ un) + mset mb + L + R))" using d(3) by (simp add: refs_ok_none)
    then show "refs_ok (mheap w2) (mset (fl @ un @ [msg_init_delimiter]) + mset mb + L + R)" by (simp add: w2_def add_ac)
  qed
  then show ?thesis using d(1) by (simp add: w1_def w2_def)
qed


lemma term_terminate:
  assumes inv: "term_inv i j a b (w, R)" and p: "pipes w i = Some p"
  shows "\<exists>w'. pipe_terminate i dly w = Some w' \<and> term_inv i j a b (w', R)"
proof -
  obtain ma mb L where t: "i \<noteq> j" "a \<noteq> b" "end_ok i j a b w" "end_ok j i b a w"
    "agree (end_state w i) (end_state w j) (ctl (chan j w)) (ctl (chan i w))"
    "chan_ok (end_state w i) (chan i w)" "chan_ok (end_state w j) (chan j w)"
    "carries i j a w ma" "carries j i b w mb" "refs_ok (mheap w) (mset ma + mset mb + L + R)" using inv by (rule term_invE)
  have s: "end_state w i = Some (state p)" using p by (simp add: end_state_def)
  have ag: "agree (Some (state p)) (end_state w j) (ctl (chan j w)) (ctl (chan i w))" using t(5) s by simp
  consider "state p = term_req_sent1 \<or> state p = term_req_sent2 \<or> state p = term_ack_sent"
    | "state p = active \<or> state p = delimiter_received" | "state p = waiting_for_delimiter" "dly" | "state p = waiting_for_delimiter" "\<not> dly"
    by (cases "state p") auto
  then show ?thesis
  proof cases
    case 1
    let ?p = "p\<lparr>delay := dly\<rparr>" and ?w = "set_pipe i (p\<lparr>delay := dly\<rparr>) w"
    have act: "acts i j w ?p [] ?w" by (simp add: acts_def)
    note x = acts_views [OF act t(1)]
    have "carries i j a ?w ma" using x s by (intro carries_written [OF t(8)]) (simp_all add: writer_change_def)
    moreover have "carries j i b ?w mb" using x by (intro carries_read [OF t(9) _ p x(5)]) auto
    ultimately have "term_inv i j a b (?w, R)"
      using t(10) by (intro term_inv_quiet [OF t(1-4) p t(5-7) act, where ma = ma and mb = mb and L = L]) simp_all
    moreover have "pipe_terminate i dly w = Some ?w" using 1 p by (auto simp: pipe_terminate_def)
    ultimately show ?thesis by blast
  next
    case 2
    let ?p = "p\<lparr>delay := dly, state := term_req_sent1, out_active := False\<rparr>"
    have "agree (Some term_req_sent1) (end_state w j) (ctl (chan j w) @ [Pipe_term]) (ctl (chan i w))"
      using 2 ag by (auto simp: agree_def elim!: phase.cases intro: phase.intros)
    then obtain w' where "pipe_write_delimiter i ((set_pipe i ?p w)\<lparr>cmds := cmds w @ map (Pair j) [Pipe_term]\<rparr>) = Some w'" "term_inv i j a b (w', R)"
      using term_ask [OF t p, of ?p "[Pipe_term]"] 2 by (auto simp: writes_still_def reads_still_def)
    moreover have "peer p = Some j" using t(3) p by (simp add: end_ok_def)
    ultimately show ?thesis using 2 p by (auto simp: pipe_terminate_def send_cmd_def)
  next
    case 3
    let ?p = "p\<lparr>delay := dly, out_active := False\<rparr>"
    have e: "(set_pipe i q w)\<lparr>cmds := cmds w\<rparr> = set_pipe i q w" for q by (simp add: set_pipe_def)
    have "agree (Some (state ?p)) (end_state w j) (ctl (chan j w) @ []) (ctl (chan i w))" using 3 ag by simp
    then obtain w' where "pipe_write_delimiter i (set_pipe i ?p w) = Some w'" "term_inv i j a b (w', R)"
      using term_ask [OF t p, of ?p "[]"] 3 e by (auto simp: writes_still_def reads_still_def)
    then show ?thesis using 3 p by (auto simp: pipe_terminate_def)
  next
    case 4
    let ?p = "p\<lparr>delay := dly, outpipe := None, state := term_ack_sent, out_active := False\<rparr>"
    let ?w = "(set_pipe i ?p w)\<lparr>cmds := cmds w @ map (Pair j) [Pipe_term_ack]\<rparr>"
    have act: "acts i j w ?p [Pipe_term_ack] ?w" by (simp add: acts_def)
    note x = acts_views [OF act t(1)]
    have pr: "peer p = Some j" "writes_still (state p)" using t(3) p 4 by (auto simp: end_ok_def writes_still_def)
    have "term_inv i j a b (?w, R)"
    proof (rule term_inv_acts [OF t(1-4) p act, where ma = ma and mb = mb and L = L])
      show "same_wiring a p ?p" by (simp add: same_wiring_def writes_still_def)
      show "agree (Some (state ?p)) (end_state w j) (ctl (chan j w) @ ctl [Pipe_term_ack]) (ctl (chan i w))"
        using 4 ag by (auto simp: agree_def elim!: phase.cases intro: phase.intros)
      show "chan_ok (end_state w i) (chan i w)" by (rule t(6))
      show "chan_ok (end_state w j) (chan j w @ [Pipe_term_ack])"
        using agree_ctl_writes [OF ag pr(2)] by (intro chan_ok_snoc [OF t(7)]) auto
      show "carries i j a ?w ma" using x by (intro carries_written [OF t(8)]) (auto simp: writer_change_def)
      show "carries j i b ?w mb" using x by (intro carries_read [OF t(9) _ p x(5)]) (auto simp: reads_still_def)
      show "refs_ok (mheap ?w) (mset ma + mset mb + L + R)" using t(10) by simp
    qed
    moreover have "pipe_terminate i dly w = Some ?w" using 4 p pr(1) by (simp add: pipe_terminate_def send_cmd_def pipe_write_delimiter_def)
    ultimately show ?thesis by blast
  qed
qed

lemma term_settings:
  assumes inv: "term_inv i j a b (w, R)" and p: "pipes w i = Some p"
  shows "\<exists>w'. pipe_set_nodelay i w = Some w' \<and> term_inv i j a b (w', R)"
    and "\<exists>w'. pipe_set_hwms i hi ho w = Some w' \<and> term_inv i j a b (w', R)"
proof -
  obtain ma mb L where t: "i \<noteq> j" "a \<noteq> b" "end_ok i j a b w" "end_ok j i b a w"
    "agree (end_state w i) (end_state w j) (ctl (chan j w)) (ctl (chan i w))"
    "chan_ok (end_state w i) (chan i w)" "chan_ok (end_state w j) (chan j w)"
    "carries i j a w ma" "carries j i b w mb" "refs_ok (mheap w) (mset ma + mset mb + L + R)" using inv by (rule term_invE)
  have q: "term_inv i j a b (set_pipe i p' w, R)"
    if e: "state p' = state p" "in_active p' = in_active p" "inpipe p' = inpipe p" "peer p' = peer p" "sink p' = sink p"
      "conflate p' = conflate p" "outpipe p' = outpipe p" for p'
  proof -
    have act: "acts i j w p' [] (set_pipe i p' w)" by (simp add: acts_def)
    note x = acts_views [OF act t(1)]
    have s: "end_state w i = Some (state p)" using p by (simp add: end_state_def)
    have "carries i j a (set_pipe i p' w) ma" using x s e(1) by (intro carries_written [OF t(8)]) (simp_all add: writer_change_def)
    moreover have "carries j i b (set_pipe i p' w) mb" using x e by (intro carries_read [OF t(9) _ p x(5)]) auto
    ultimately show ?thesis using t(10)
      by (intro term_inv_quiet [OF t(1-4) p t(5-7) act e(3-7,1), where ma = ma and mb = mb and L = L]) simp_all
  qed
  show "\<exists>w'. pipe_set_nodelay i w = Some w' \<and> term_inv i j a b (w', R)" using q [of "p\<lparr>delay := False\<rparr>"] p by (auto simp: pipe_set_nodelay_def)
  show "\<exists>w'. pipe_set_hwms i hi ho w = Some w' \<and> term_inv i j a b (w', R)"
    using q [of "p\<lparr>lwm := compute_lwm hi, hwm := ho\<rparr>"] p by (auto simp: pipe_set_hwms_def)
qed


subsection \<open>Processing commands\<close>

lemma drain_loop_ok:
  "up_view w b fl un inc z \<Longrightarrow> \<forall>m \<in> set fl. msg_check m \<Longrightarrow> refs_ok (mheap w) (mset fl + M) \<Longrightarrow>
    \<exists>u h. drain_loop b w = Some ((set_upipe b u w)\<lparr>mheap := h\<rparr>) \<and> refs_ok h M \<and> up_view ((set_upipe b u w)\<lparr>mheap := h\<rparr>) b [] un inc True"
proof (induction fl arbitrary: w)
  case Nil
  obtain u where u: "up_read b w = Some (None, set_upipe b u w)" "up_view (set_upipe b u w) b [] un inc True"
    using up_read_view(1) [OF Nil(1)] by blast
  have "drain_loop b w = Some (set_upipe b u w)" using u(1) by (subst drain_loop.simps) simp
  moreover have "(set_upipe b u w)\<lparr>mheap := mheap w\<rparr> = set_upipe b u w" by (simp add: set_upipe_def)
  ultimately have "drain_loop b w = Some ((set_upipe b u w)\<lparr>mheap := mheap w\<rparr>) \<and>
    up_view ((set_upipe b u w)\<lparr>mheap := mheap w\<rparr>) b [] un inc True" using u(2) by (simp only:)
  then show ?case using Nil(3) by auto
next
  case (Cons x xs)
  obtain u where u: "up_read b w = Some (Some x, set_upipe b u w)" "up_view (set_upipe b u w) b xs un inc z"
    using up_read_view(2) [OF Cons(2)] by blast
  have "refs_ok (mheap (set_upipe b u w)) (add_mset x (mset xs + M))" using Cons(4) by (simp add: add_ac)
  then obtain h where h: "close_in x (set_upipe b u w) = Some ((set_upipe b u w)\<lparr>mheap := h\<rparr>)" "refs_ok h (mset xs + M)"
    using close_in_refs Cons(3) by fastforce
  define w1 where "w1 = (set_upipe b u w)\<lparr>mheap := h\<rparr>"
  have "up_view w1 b xs un inc z" using u(2) by (subst up_view_frame [of _ _ "set_upipe b u w"]) (simp_all add: w1_def)
  then obtain u' h' where r: "drain_loop b w1 = Some ((set_upipe b u' w1)\<lparr>mheap := h'\<rparr>)" "refs_ok h' M"
    "up_view ((set_upipe b u' w1)\<lparr>mheap := h'\<rparr>) b [] un inc True"
    using Cons(1) [of w1] Cons(3) h(2) by (auto simp: w1_def)
  have "drain_loop b w = drain_loop b w1" using u(1) h(1) by (subst drain_loop.simps) (simp add: w1_def)
  moreover have "(set_upipe b u' w1)\<lparr>mheap := h'\<rparr> = (set_upipe b u' w)\<lparr>mheap := h'\<rparr>" by (simp add: w1_def set_upipe_def)
  ultimately show ?case using r by (intro exI [of _ u'] exI [of _ h']) simp
qed

lemma up_destroy_view: "up_view w b fl un inc z \<Longrightarrow> up_destroy b w = Some (w\<lparr>upipes := (upipes w)(b := None)\<rparr>)"
  using yq_destroy_frees_all
  by (fastforce simp: up_view_def yp_rep_def yp_layout_def yq_rep_def up_destroy_def)

text \<open>An end takes a command, changes its record and may send commands itself.\<close>

lemma term_inv_command:
  assumes "i \<noteq> j" and "a \<noteq> b" and "end_ok i j a b w" and "end_ok j i b a w" and p: "pipes w i = Some p"
    and c: "chan i w = c # rest" and "pipes w' = (pipes w)(i \<mapsto> p')" and "chan j w' = chan j w @ cs" and "chan i w' = rest"
    and "same_wiring a p p'"
    and "agree (Some (state p')) (end_state w j) (ctl (chan j w) @ ctl cs) (ctl rest)"
    and "chan_ok (end_state w i) (chan i w)" and "chan_ok (end_state w j) (chan j w @ cs)"
    and "carries i j a w' ma" and "carries j i b w' mb" and "refs_ok (mheap w') (mset ma + mset mb + L + R)"
  shows "term_inv i j a b (w', R)"
proof -
  have st: "end_state w' i = Some (state p')" "end_state w' j = end_state w j" "pipes w' i = Some p'" "pipes w' j = pipes w j"
    using assms(1,7) by (simp_all add: end_state_def)
  have "end_ok i j a b w'" using assms(3,10) p st(3) by (simp add: end_ok_def same_wiring_def)
  moreover have "end_ok j i b a w'" using assms(4) st(4) by (simp add: end_ok_def)
  moreover have "chan_ok (Some (state p')) rest" using assms(12) c by (auto simp: chan_ok_def split: if_splits)
  ultimately show ?thesis using assms st by (intro term_invI) auto
qed

lemma term_activate:
  assumes inv: "term_inv i j a b (w, R)" and p: "pipes w i = Some p" and "cmds w = xs @ (i, c) # ys" "i \<notin> fst ` set xs" and c: "flow_cmd (i, c)"
  shows "\<exists>w'. pipe_process_command i c (w\<lparr>cmds := xs @ ys\<rparr>) = Some w' \<and> term_inv i j a b (w', R)"
proof -
  obtain ma mb L where t: "i \<noteq> j" "a \<noteq> b" "end_ok i j a b w" "end_ok j i b a w"
    "agree (end_state w i) (end_state w j) (ctl (chan j w)) (ctl (chan i w))"
    "chan_ok (end_state w i) (chan i w)" "chan_ok (end_state w j) (chan j w)"
    "carries i j a w ma" "carries j i b w mb" "refs_ok (mheap w) (mset ma + mset mb + L + R)" using inv by (rule term_invE)
  have s: "end_state w i = Some (state p)" using p by (simp add: end_state_def)
  obtain k where k: "sink p = Some k" using t(3) p by (auto simp: end_ok_def)
  define w0 where "w0 = w\<lparr>cmds := xs @ ys\<rparr>"
  have "filter (\<lambda>c. fst c = i) xs = []" using assms(4) by (auto simp: filter_empty_conv)
  then have ch: "chan i w = c # chan i w0" "chan j w0 = chan j w" using assms(3) t(1) by (auto simp: chan_def w0_def)
  have q: "term_inv i j a b (w', R)"
    if e: "state p' = state p" "inpipe p' = inpipe p" "peer p' = peer p" "sink p' = sink p" "conflate p' = conflate p" "outpipe p' = outpipe p"
      and e': "reads_still (state p) \<Longrightarrow> in_active p' \<or> in_active p' = in_active p \<and> c \<noteq> Activate_read"
      and w: "pipes w' = (pipes w)(i \<mapsto> p')" "cmds w' = xs @ ys" "upipes w' = upipes w" "mheap w' = mheap w" for w' p'
  proof -
    have chs: "chan i w' = chan i w0" "chan j w' = chan j w" using w(2) ch(2) by (simp_all add: chan_def w0_def)
    have ss: "end_state w' i = end_state w i" "end_state w' j = end_state w j" "pipes w' i = Some p'" "pipes w' j = pipes w j"
      using w(1) e(1) t(1) p by (simp_all add: end_state_def)
    have wr: "same_wiring a p p'" using e t(3) p by (simp add: same_wiring_def end_ok_def)
    have ag: "agree (Some (state p')) (end_state w j) (ctl (chan j w) @ ctl []) (ctl (chan i w0))"
      using t(5) e(1) s ch(1) c by (cases c) auto
    have ca: "carries i j a w' ma" using w(3) chs ss by (intro carries_written [OF t(8)]) (simp_all add: writer_change_def)
    have cb: "carries j i b w' mb" using w(3) chs ss ch(1) e(1) e' by (intro carries_read [OF t(9) _ p ss(3)]) auto
    have "chan_ok (end_state w j) (chan j w @ [])" "chan j w' = chan j w @ []" using t(7) chs(2) by simp_all
    moreover have "refs_ok (mheap w') (mset ma + mset mb + L + R)" using t(10) w(4) by simp
    ultimately show ?thesis using term_inv_command [OF t(1-4) p ch(1) w(1) _ chs(1) wr ag t(6) _ ca cb] by blast
  qed
  consider "c = Activate_read" | n where "c = Activate_write n" using c by (cases c) auto
  then show ?thesis
  proof cases
    case 1
    show ?thesis
    proof (cases "\<not> in_active p \<and> reads_still (state p)")
      case True
      let ?w = "(set_pipe i (p\<lparr>in_active := True\<rparr>) w0)\<lparr>events := events w @ [(k, i, Read_activated)]\<rparr>"
      have "pipe_process_command i c w0 = Some ?w"
        using 1 p k True by (simp add: pipe_process_command_def pipe_process_activate_read_def w0_def call_sink_def reads_still_def)
      moreover have "term_inv i j a b (?w, R)" by (rule q [of "p\<lparr>in_active := True\<rparr>"]) (simp_all add: w0_def)
      ultimately show ?thesis unfolding w0_def by blast
    next
      case False
      have "pipe_process_command i c w0 = Some w0"
        using 1 p False by (auto simp: pipe_process_command_def pipe_process_activate_read_def w0_def reads_still_def)
      moreover have "term_inv i j a b (w0, R)" using False p by (intro q [of p]) (auto simp: w0_def fun_upd_idem)
      ultimately show ?thesis unfolding w0_def by blast
    qed
  next
    case (2 n)
    show ?thesis
    proof (cases "\<not> out_active p \<and> state p = active")
      case True
      let ?p = "p\<lparr>peers_msgs_read := n, out_active := True\<rparr>"
      let ?w = "(set_pipe i ?p w0)\<lparr>events := events w @ [(k, i, Write_activated)]\<rparr>"
      have "pipe_process_command i c w0 = Some ?w"
        using 2 p k True by (simp add: pipe_process_command_def pipe_process_activate_write_def w0_def call_sink_def)
      moreover have "term_inv i j a b (?w, R)" using 2 by (intro q [of ?p]) (simp_all add: w0_def)
      ultimately show ?thesis unfolding w0_def by blast
    next
      case False
      let ?p = "p\<lparr>peers_msgs_read := n\<rparr>"
      have "pipe_process_command i c w0 = Some (set_pipe i ?p w0)"
        using 2 p False by (auto simp: pipe_process_command_def pipe_process_activate_write_def w0_def)
      moreover have "term_inv i j a b (set_pipe i ?p w0, R)" using 2 by (intro q [of ?p]) (simp_all add: w0_def)
      ultimately show ?thesis unfolding w0_def by blast
    qed
  qed
qed


lemma term_pipe_term:
  assumes inv: "term_inv i j a b (w, R)" and p: "pipes w i = Some p" and "cmds w = xs @ (i, Pipe_term) # ys" "i \<notin> fst ` set xs"
  shows "\<exists>w'. pipe_process_pipe_term i (w\<lparr>cmds := xs @ ys\<rparr>) = Some w' \<and> term_inv i j a b (w', R)"
proof -
  obtain ma mb L where t: "i \<noteq> j" "a \<noteq> b" "end_ok i j a b w" "end_ok j i b a w"
    "agree (end_state w i) (end_state w j) (ctl (chan j w)) (ctl (chan i w))"
    "chan_ok (end_state w i) (chan i w)" "chan_ok (end_state w j) (chan j w)"
    "carries i j a w ma" "carries j i b w mb" "refs_ok (mheap w) (mset ma + mset mb + L + R)" using inv by (rule term_invE)
  have s: "end_state w i = Some (state p)" and pr: "peer p = Some j" using p t(3) by (simp_all add: end_state_def end_ok_def)
  define w0 where "w0 = w\<lparr>cmds := xs @ ys\<rparr>"
  have "filter (\<lambda>c. fst c = i) xs = []" using assms(4) by (auto simp: filter_empty_conv)
  then have ch: "chan i w = Pipe_term # chan i w0" "chan j w0 = chan j w" using assms(3) t(1) by (auto simp: chan_def w0_def)
  have ag: "agree (Some (state p)) (end_state w j) (ctl (chan j w)) (Pipe_term # ctl (chan i w0))" using t(5) s ch by simp
  then have st: "state p = active \<or> state p = delimiter_received \<or> state p = term_req_sent1"
    by (auto simp: agree_def elim: phase.cases)
  have wrs: "writes_still (state p)" using st by (auto simp: writes_still_def)
  have out: "outpipe p = Some a" using wrs t(3) p by (simp add: end_ok_def)
  define st' where "st' = (if state p = term_req_sent1 then term_req_sent2 else if state p = active \<and> delay p then waiting_for_delimiter else term_ack_sent)"
  define cs where "cs = (if st' = waiting_for_delimiter then [] else [Pipe_term_ack])"
  define p' where "p' = (if st' = waiting_for_delimiter then p\<lparr>state := st'\<rparr> else p\<lparr>state := st', outpipe := None\<rparr>)"
  define w' where "w' = (set_pipe i p' w0)\<lparr>cmds := xs @ ys @ map (Pair j) cs\<rparr>"
  have "pipe_process_pipe_term i w0 = Some w'"
    using st p pr by (elim disjE) (simp_all add: pipe_process_pipe_term_def w0_def w'_def p'_def st'_def cs_def send_cmd_def set_pipe_def)
  moreover have "term_inv i j a b (w', R)"
  proof (rule term_inv_command [OF t(1-4) p ch(1), where ma = ma and mb = mb and L = L])
    show "pipes w' = (pipes w)(i \<mapsto> p')" by (simp add: w'_def w0_def)
    show "chan j w' = chan j w @ cs" using ch(2) by (simp add: chan_def w'_def w0_def filter_map o_def)
    show chi: "chan i w' = chan i w0" using t(1) by (simp add: chan_def w'_def w0_def filter_map o_def)
    show "same_wiring a p p'" using out by (auto simp: same_wiring_def p'_def writes_still_def st'_def)
    have sp: "state p' = st'" by (simp add: p'_def)
    show "agree (Some (state p')) (end_state w j) (ctl (chan j w) @ ctl cs) (ctl (chan i w0))"
      unfolding sp using ag st by (auto simp: st'_def cs_def agree_def elim!: phase.cases intro: phase.intros)
    show "chan_ok (end_state w i) (chan i w)" by (rule t(6))
    show "chan_ok (end_state w j) (chan j w @ cs)" using agree_ctl_writes [OF ag wrs] t(7) chan_ok_snoc by (auto simp: cs_def)
    have ss: "end_state w' i = Some st'" "end_state w' j = end_state w j" "pipes w' i = Some p'" "pipes w' j = pipes w j" "upipes w' = upipes w"
      using t(1) sp by (simp_all add: end_state_def w'_def w0_def)
    show "carries i j a w' ma" using ss \<open>chan j w' = chan j w @ cs\<close>
      by (intro carries_written [OF t(8)]) (auto simp: writer_change_def st'_def)
    have "in_active p' = in_active p" "reads_still st' \<Longrightarrow> reads_still (state p)"
      by (auto simp: p'_def st'_def reads_still_def split: if_splits)
    then show "carries j i b w' mb" using ss sp chi ch(1) by (intro carries_read [OF t(9) _ p ss(3)]) auto
    show "refs_ok (mheap w') (mset ma + mset mb + L + R)" using t(10) by (simp add: w'_def w0_def)
  qed
  ultimately show ?thesis unfolding w0_def by blast
qed

text \<open>The last command: the end is gone, with the queue it read.\<close>

lemma term_pipe_term_ack:
  assumes inv: "term_inv i j a b (w, R)" and p: "pipes w i = Some p" and "cmds w = xs @ (i, Pipe_term_ack) # ys" "i \<notin> fst ` set xs"
  shows "\<exists>w'. pipe_process_pipe_term_ack i (w\<lparr>cmds := xs @ ys\<rparr>) = Some w' \<and> term_inv i j a b (w', R)"
proof -
  obtain ma mb L where t: "i \<noteq> j" "a \<noteq> b" "end_ok i j a b w" "end_ok j i b a w"
    "agree (end_state w i) (end_state w j) (ctl (chan j w)) (ctl (chan i w))"
    "chan_ok (end_state w i) (chan i w)" "chan_ok (end_state w j) (chan j w)"
    "carries i j a w ma" "carries j i b w mb" "refs_ok (mheap w) (mset ma + mset mb + L + R)" using inv by (rule term_invE)
  have s: "end_state w i = Some (state p)" and pr: "peer p = Some j" "inpipe p = Some b" "\<not> conflate p"
    using p t(3) by (simp_all add: end_state_def end_ok_def)
  obtain k where k: "sink p = Some k" using t(3) p by (auto simp: end_ok_def)
  define w0 where "w0 = w\<lparr>cmds := xs @ ys\<rparr>"
  have "filter (\<lambda>c. fst c = i) xs = []" using assms(4) by (auto simp: filter_empty_conv)
  then have ch: "chan i w = Pipe_term_ack # chan i w0" "chan j w0 = chan j w" using assms(3) t(1) by (auto simp: chan_def w0_def)
  have last: "chan i w0 = []" using t(6) ch(1) by (auto simp: chan_ok_def split: if_splits)
  have ag: "agree (Some (state p)) (end_state w j) (ctl (chan j w)) [Pipe_term_ack]" using t(5) s ch last by simp
  have st: "state p = term_req_sent1 \<or> state p = term_ack_sent \<or> state p = term_req_sent2"
    using ag by (auto simp: agree_def elim: phase.cases)
  define cs where "cs = (if state p = term_req_sent1 then [Pipe_term_ack] else [])"
  define w1 where "w1 = w0\<lparr>events := events w @ [(k, i, Pipe_terminated)], cmds := xs @ ys @ map (Pair j) cs\<rparr>"
  obtain fl un inc z where v: "up_view w b fl un inc z" "mb = fl @ un @ inc" "flow_ok (end_state w j) p (chan i w) fl un inc z"
    using carriesE [OF t(9) p] .
  have "up_view w1 b fl un inc z" using v(1) by (subst up_view_frame [of _ _ w]) (simp_all add: w1_def w0_def)
  moreover have "\<forall>m \<in> set fl. msg_check m" using v(3) by (auto simp: flow_ok_def)
  moreover have "refs_ok (mheap w1) (mset fl + (mset ma + mset (un @ inc) + L + R))" using t(10) v(2) by (simp add: w1_def w0_def add_ac)
  ultimately obtain u h where d: "drain_loop b w1 = Some ((set_upipe b u w1)\<lparr>mheap := h\<rparr>)" "refs_ok h (mset ma + mset (un @ inc) + L + R)"
    "up_view ((set_upipe b u w1)\<lparr>mheap := h\<rparr>) b [] un inc True" using drain_loop_ok by blast
  define w2 where "w2 = (set_upipe b u w1)\<lparr>mheap := h\<rparr>"
  define w3 where "w3 = w2\<lparr>upipes := (upipes w2)(b := None), pipes := (pipes w)(i := None)\<rparr>"
  have des: "up_destroy b w2 = Some (w2\<lparr>upipes := (upipes w2)(b := None)\<rparr>)" using up_destroy_view [OF d(3)] by (simp add: w2_def)
  have p0: "pipes w0 i = Some p" using p by (simp add: w0_def)
  have "pipe_process_pipe_term_ack i w0 = Some w3"
  proof (cases "state p = term_req_sent1")
    case True
    then have "send_cmd (peer p) Pipe_term_ack (w0\<lparr>events := events w @ [(k, i, Pipe_terminated)]\<rparr>) = Some w1"
      using pr by (simp add: send_cmd_def w1_def cs_def w0_def)
    moreover have "call_sink i p Pipe_terminated w0 = Some (w0\<lparr>events := events w @ [(k, i, Pipe_terminated)]\<rparr>)"
      using k by (simp add: call_sink_def w0_def)
    ultimately show ?thesis using True p0 pr d(1) des
      by (simp add: pipe_process_pipe_term_ack_def w2_def [symmetric]) (simp add: w3_def w2_def w1_def w0_def)
  next
    case False
    then have "w0\<lparr>events := events w @ [(k, i, Pipe_terminated)]\<rparr> = w1" by (simp add: w1_def cs_def w0_def)
    then have "call_sink i p Pipe_terminated w0 = Some w1"
      using k by (simp add: call_sink_def w0_def)
    then show ?thesis using False st p0 pr d(1) des
      by (auto simp: pipe_process_pipe_term_ack_def w2_def [symmetric]) (simp_all add: w3_def w2_def w1_def w0_def)
  qed
  moreover have "term_inv i j a b (w3, R)"
  proof (rule term_invI [OF t(1,2), where ma = ma and mb = "[]" and L = "L + mset (un @ inc)"])
    have ss: "end_state w3 i = None" "end_state w3 j = end_state w j" "pipes w3 i = None" "pipes w3 j = pipes w j" "upipes w3 a = upipes w a"
      using t(1,2) by (simp_all add: end_state_def w3_def w2_def w1_def w0_def)
    have chs: "chan j w3 = chan j w @ cs" "chan i w3 = []"
      using ch(2) last t(1) by (simp_all add: chan_def w3_def w2_def w1_def w0_def filter_map o_def)
    show "end_ok i j a b w3" "end_ok j i b a w3" using ss t(4) by (simp_all add: end_ok_def)
    show "agree (end_state w3 i) (end_state w3 j) (ctl (chan j w3)) (ctl (chan i w3))"
      unfolding ss chs using ag st by (auto simp: cs_def agree_def elim!: phase.cases intro: phase.intros)
    show "chan_ok (end_state w3 i) (chan i w3)" by (simp add: chs ss chan_ok_def)
    show "chan_ok (end_state w3 j) (chan j w3)"
      unfolding ss chs using t(7) agree_ctl_writes [OF ag] chan_ok_snoc by (auto simp: cs_def writes_still_def)
    show "carries i j a w3 ma" using ss chs by (intro carries_written [OF t(8)]) (auto simp: writer_change_def)
    show "carries j i b w3 []" using ss by (simp add: carries_def)
    show "refs_ok (mheap w3) (mset ma + mset [] + (L + mset (un @ inc)) + R)"
      using d(2) by (simp add: w3_def w2_def add_ac)
  qed
  ultimately show ?thesis unfolding w0_def by blast
qed


subsection \<open>Every reachable state\<close>

lemma term_command:
  assumes inv: "term_inv i j a b (w, R)" and cm: "cmds w = xs @ (i, c) # ys" "i \<notin> fst ` set xs"
  shows "\<exists>w'. pipe_process_command i c (w\<lparr>cmds := xs @ ys\<rparr>) = Some w' \<and> term_inv i j a b (w', R)"
proof -
  have c: "c \<in> set (chan i w)" using cm(1) by (auto simp: chan_def)
  have ok: "chan_ok (end_state w i) (chan i w)" using inv by (simp add: term_inv_def)
  obtain p where p: "pipes w i = Some p" using ok c by (cases "pipes w i") (auto simp: chan_ok_def end_state_def)
  show ?thesis
  proof (cases c)
    case (Hiccup x)
    then show ?thesis using ok c by (auto simp: chan_ok_def)
  next
    case Pipe_term
    then show ?thesis using term_pipe_term [OF inv p] cm by (simp add: pipe_process_command_def)
  next
    case Pipe_term_ack
    then show ?thesis using term_pipe_term_ack [OF inv p] cm by (simp add: pipe_process_command_def)
  qed (use term_activate [OF inv p cm] in simp_all)
qed

lemma term_step_inv:
  assumes "term_step i s s'" and "term_inv i j a b s"
  shows "term_inv i j a b s'"
  using assms(1)
proof cases
  case (ts_write m R w ok m' w')
  then show ?thesis using assms(2) term_write [of i j a b w R _ m]
    by (cases "pipes w i") (auto simp: pipe_write_def pipe_check_write_def)
next
  case (ts_check_write w ok w' R)
  then show ?thesis using assms(2) term_check_write [of i j a b w R] by (cases "pipes w i") (auto simp: pipe_check_write_def)
next
  case (ts_flush w w' R)
  then show ?thesis using assms(2) term_flush [of i j a b w R] by (cases "pipes w i") (auto simp: pipe_flush_def)
next
  case (ts_rollback w w' R)
  then show ?thesis using assms(2) term_rollback [of i j a b w R] by (cases "pipes w i") (auto simp: pipe_rollback_def)
next
  case (ts_read w m w' R)
  then show ?thesis using assms(2) term_read [of i j a b w R] by (cases "pipes w i") (auto simp: pipe_read_def)
next
  case (ts_check_read w ok w' R)
  then show ?thesis using assms(2) term_check_read [of i j a b w R] by (cases "pipes w i") (auto simp: pipe_check_read_def)
next
  case (ts_terminate dly w w' R)
  then show ?thesis using assms(2) term_terminate [of i j a b w R _ dly] by (cases "pipes w i") (auto simp: pipe_terminate_def)
next
  case (ts_nodelay w w' R)
  then show ?thesis using assms(2) term_settings(1) [of i j a b w R] by (cases "pipes w i") (auto simp: pipe_set_nodelay_def)
next
  case (ts_hwms hi ho w w' R)
  then show ?thesis using assms(2) term_settings(2) [of i j a b w R _ hi ho] by (cases "pipes w i") (auto simp: pipe_set_hwms_def)
next
  case (ts_command w xs c ys w' R)
  then show ?thesis using assms(2) term_command [of i j a b w R xs c ys] by auto
next
  case (ts_messages w R h R')
  obtain ma mb L where t: "i \<noteq> j" "a \<noteq> b" "end_ok i j a b w" "end_ok j i b a w"
    "agree (end_state w i) (end_state w j) (ctl (chan j w)) (ctl (chan i w))"
    "chan_ok (end_state w i) (chan i w)" "chan_ok (end_state w j) (chan j w)"
    "carries i j a w ma" "carries j i b w mb" "refs_ok (mheap w) (mset ma + mset mb + L + R)"
    using assms(2) unfolding ts_messages(1) by (rule term_invE)
  let ?w = "w\<lparr>mheap := h\<rparr>"
  have "refs_ok (mheap ?w) (mset ma + mset mb + L + R')" using ts_messages(3) [OF t(10)] by simp
  moreover have "carries i j a ?w ma" "carries j i b ?w mb"
    using t(8,9) up_view_frame [of ?w _ w] by (simp_all add: carries_def cong: option.case_cong)
  moreover have "end_ok i j a b ?w" "end_ok j i b a ?w" using t(3,4) by (simp_all add: end_ok_def)
  ultimately show ?thesis using t unfolding ts_messages(2) by (intro term_invI) auto
qed

lemma term_reach_inv:
  assumes "(term_conn_step i j)\<^sup>*\<^sup>* s s'" and "term_inv i j a b s"
  shows "term_inv i j a b s'"
  using assms
proof (induction rule: rtranclp_induct)
  case (step s' s'')
  have "term_inv i j a b s'" using step by blast
  moreover obtain w R w' R' where "s' = (w, R)" "s'' = (w', R')" by fastforce
  ultimately show ?case using step(2) term_step_inv term_inv_sym unfolding term_conn_step_def by metis
qed

lemma term_inv_open:
  assumes "open_connection i j ha hb si sj w0 = Some w" and "i \<noteq> j" and "cmds w0 = []" and "refs_ok (mheap w0) R"
  shows "\<exists>a b. term_inv i j a b (w, R)"
proof -
  let ?b = "up_brk w0" and ?a = "Suc (up_brk w0)"
  obtain u1 where u1: "new_upipe False w0 = Some (?b, (set_upipe ?b u1 w0)\<lparr>up_brk := ?a\<rparr>)"
    "up_view (set_upipe ?b u1 w0) ?b [] [] [] False" using new_upipe_view [of w0] by blast
  define w1 where "w1 = (set_upipe ?b u1 w0)\<lparr>up_brk := ?a\<rparr>"
  have "up_brk w1 = ?a" by (simp add: w1_def)
  then obtain u2 where u2: "new_upipe False w1 = Some (?a, (set_upipe ?a u2 w1)\<lparr>up_brk := Suc ?a\<rparr>)"
    "up_view (set_upipe ?a u2 w1) ?a [] [] [] False" using new_upipe_view [of w1] by auto
  define w2 where "w2 = (set_upipe ?a u2 w1)\<lparr>up_brk := Suc ?a\<rparr>"
  define p where "p = (pipe_new ?b ?a hb ha False)\<lparr>peer := Some j, sink := Some si\<rparr>"
  define q where "q = (pipe_new ?a ?b ha hb False)\<lparr>peer := Some i, sink := Some sj\<rparr>"
  have w: "w = w2\<lparr>pipes := (pipes w2)(i \<mapsto> p, j \<mapsto> q)\<rparr>"
    using assms(1,2) u1(1) u2(1) unfolding open_connection_def pipepair_def
    by (simp add: w1_def [symmetric] w2_def [symmetric] pipe_set_peer_def pipe_set_event_sink_def set_pipe_def pipe_new_def
        p_def q_def fun_upd_twist)
  have f: "pipes w i = Some p" "pipes w j = Some q" "chan i w = []" "chan j w = []" "mheap w = mheap w0"
    "end_state w i = Some active" "end_state w j = Some active"
    using assms(2,3) by (simp_all add: w w2_def w1_def chan_def end_state_def p_def q_def pipe_new_def)
  have "up_view w ?a [] [] [] False" by (subst up_view_frame [of _ _ "set_upipe ?a u2 w1"]) (simp add: w w2_def, rule u2(2))
  moreover have "up_view w ?b [] [] [] False"
    by (subst up_view_frame [of _ _ "set_upipe ?b u1 w0"]) (simp add: w w2_def w1_def, rule u1(2))
  ultimately have "carries i j ?a w []" "carries j i ?b w []"
    using f by (auto intro!: carriesI [of w _ _ _ "[]" "[]" "[]" False] simp: flow_ok_def p_def q_def pipe_new_def)
  moreover have "end_ok i j ?a ?b w" "end_ok j i ?b ?a w" using f by (auto simp: end_ok_def p_def q_def pipe_new_def writes_still_def)
  moreover have "agree (end_state w i) (end_state w j) (ctl (chan j w)) (ctl (chan i w))" using f by (simp add: agree_def ph_open)
  moreover have "chan_ok (end_state w i) (chan i w)" "chan_ok (end_state w j) (chan j w)" using f by (simp_all add: chan_ok_def)
  moreover have "refs_ok (mheap w) (mset [] + mset [] + {#} + R)" using assms(4) f(5) by simp
  ultimately show ?thesis using assms(2) term_invI [of i j ?a ?b w "[]" "[]" "{#}" R] by auto
qed

lemma term_reachable:
  assumes "open_connection i j ha hb si sj w0 = Some w" and "i \<noteq> j" and "cmds w0 = []" and "refs_ok (mheap w0) R0"
    and "(term_conn_step i j)\<^sup>*\<^sup>* (w, R0) (w', R)" and "e = i \<and> f = j \<or> e = j \<and> f = i"
  shows "\<exists>a b. term_inv e f a b (w', R)"
  using term_inv_open [OF assms(1-4)] term_reach_inv [OF assms(5)] term_inv_sym assms(6) by metis

text \<open>
  C9: however the two ends of a connection write, read, flush, roll back, ask for termination, with or without
  delay, and process each other's commands, in any order: no command is under way to an end that is
  gone, and every operation and every command of an end that is still there returns. No assertion of the
  termination protocol fails, no queue is used after it was deleted, no message is closed twice.
  Messages that are written are valid and held by the application.
\<close>

theorem pipe_protocol_never_fails:
  assumes "open_connection i j ha hb si sj w0 = Some w" and "i \<noteq> j" and "cmds w0 = []" and "refs_ok (mheap w0) R0"
    and "(term_conn_step i j)\<^sup>*\<^sup>* (w, R0) (w', R)" and "e = i \<or> e = j"
  shows "((e, c) \<in> set (cmds w') \<longrightarrow> pipes w' e \<noteq> None) \<and>
    (pipes w' e \<noteq> None \<longrightarrow>
      (m \<in># R \<and> msg_check m \<and> \<not> msg_is_delimiter m \<longrightarrow> pipe_write e m w' \<noteq> None) \<and> pipe_check_write e w' \<noteq> None \<and>
      pipe_flush e w' \<noteq> None \<and> pipe_rollback e w' \<noteq> None \<and> pipe_read e w' \<noteq> None \<and> pipe_check_read e w' \<noteq> None \<and>
      pipe_terminate e dly w' \<noteq> None \<and>
      (cmds w' = xs @ (e, c) # ys \<and> e \<notin> fst ` set xs \<longrightarrow> pipe_process_command e c (w'\<lparr>cmds := xs @ ys\<rparr>) \<noteq> None))"
proof -
  obtain f where f: "e = i \<and> f = j \<or> e = j \<and> f = i" using assms(6) by blast
  obtain a b where inv: "term_inv e f a b (w', R)" using term_reachable [OF assms(1-5) f] by blast
  have "pipes w' e \<noteq> None" if "(e, c) \<in> set (cmds w')"
  proof -
    have "chan e w' \<noteq> []" using that by (force simp: chan_def filter_empty_conv)
    then show ?thesis using inv by (auto simp: term_inv_def chan_ok_def end_state_def)
  qed
  moreover have "pipe_process_command e c (w'\<lparr>cmds := xs @ ys\<rparr>) \<noteq> None" if "cmds w' = xs @ (e, c) # ys \<and> e \<notin> fst ` set xs"
    using term_command [OF inv] that by blast
  moreover have "(m \<in># R \<and> msg_check m \<and> \<not> msg_is_delimiter m \<longrightarrow> pipe_write e m w' \<noteq> None) \<and> pipe_check_write e w' \<noteq> None \<and>
      pipe_flush e w' \<noteq> None \<and> pipe_rollback e w' \<noteq> None \<and> pipe_read e w' \<noteq> None \<and> pipe_check_read e w' \<noteq> None \<and>
      pipe_terminate e dly w' \<noteq> None" if alive: "pipes w' e \<noteq> None"
  proof -
    obtain p where p: "pipes w' e = Some p" using alive by blast
    show ?thesis using term_write [OF inv p, of m] term_check_write [OF inv p] term_flush [OF inv p] term_rollback [OF inv p]
        term_read [OF inv p] term_check_read [OF inv p] term_terminate [OF inv p, of dly] by (intro conjI impI) blast+
  qed
  ultimately show ?thesis by blast
qed


definition example_heap :: msg_heap where
  "example_heap = \<lparr>contents = (\<lambda>_. None), msg_brk = 0, ffn_calls = []\<rparr>"

lemma example_opened:
  obtains w p q where "open_connection 0 1 1 1000 7 8 (example_world\<lparr>mheap := example_heap\<rparr>) = Some w"
    "(0 :: addr) \<noteq> 1" "cmds (example_world\<lparr>mheap := example_heap\<rparr>) = []" "refs_ok (mheap (example_world\<lparr>mheap := example_heap\<rparr>)) {#msg_init#}"
    "pipes w 0 = Some p" "pipes w 1 = Some q" "state p = active" "state q = active" "cmds w = []"
proof -
  have "cmds (example_world\<lparr>mheap := example_heap\<rparr>) = []" by (simp add: example_world_def)
  moreover from this obtain w a b where "open_connection 0 1 1 1000 7 8 (example_world\<lparr>mheap := example_heap\<rparr>) = Some w" "cmds w = []"
    "pipes w 0 = Some ((pipe_new b a 1000 1 False)\<lparr>peer := Some 1, sink := Some 7\<rparr>)"
    "pipes w 1 = Some ((pipe_new a b 1 1000 False)\<lparr>peer := Some 0, sink := Some 8\<rparr>)"
    using open_connection_ok [of 0 1 "example_world\<lparr>mheap := example_heap\<rparr>" 1 1000 7 8] by auto
  moreover have "refs_ok (mheap (example_world\<lparr>mheap := example_heap\<rparr>)) {#msg_init#}"
    by (simp add: refs_ok_def example_heap_def msg_init_def)
  ultimately show ?thesis using that by (simp add: pipe_new_def)
qed

theorem pipe_protocol_never_fails_witness:
  "\<exists>w w'. open_connection 0 1 1 1000 7 8 (example_world\<lparr>mheap := example_heap\<rparr>) = Some w \<and> pipe_write 0 msg_init w \<noteq> None \<and>
     pipe_flush 0 w = Some w' \<and> pipe_terminate 0 True w' \<noteq> None"
proof -
  obtain w p where w: "open_connection 0 1 1 1000 7 8 (example_world\<lparr>mheap := example_heap\<rparr>) = Some w"
    "(0 :: addr) \<noteq> 1" "cmds (example_world\<lparr>mheap := example_heap\<rparr>) = []" "refs_ok (mheap (example_world\<lparr>mheap := example_heap\<rparr>)) {#msg_init#}"
    "pipes w 0 = Some p" by (rule example_opened)
  note r = pipe_protocol_never_fails [OF w(1-4), where e = 0 and m = msg_init and dly = True]
  obtain a b where "term_inv 0 1 a b (w, {#msg_init#})" using term_inv_open [OF w(1-4)] by blast
  then obtain w' where w': "pipe_flush 0 w = Some w'" "pipes w' = pipes w" using term_flush w(5) by blast
  then have s: "(term_conn_step 0 1)\<^sup>*\<^sup>* (w, {#msg_init#}) (w', {#msg_init#})"
    by (intro r_into_rtranclp) (auto simp: term_conn_step_def intro: ts_flush)
  have "pipe_terminate 0 True w' \<noteq> None" using r [OF s] w(5) w'(2) by simp
  moreover have "pipe_write 0 msg_init w \<noteq> None"
    using r [OF rtranclp.rtrancl_refl] w(5) by (auto simp: msg_is_delimiter_def msg_init_def msg_check_def)
  ultimately show ?thesis using w(1) w'(1) by blast
qed

lemma flow_ok_waiting:
  assumes "flow_ok (Some term_req_sent1) q cs fl un inc z" and "state q = waiting_for_delimiter"
  shows "un = [] \<and> inc = [] \<and> fl \<noteq> [] \<and> msg_is_delimiter (last fl) \<and> (in_active q \<or> Activate_read \<in> set cs)"
  using assms unfolding flow_ok_def by blast

text \<open>
  C10: the termination does not get stuck. When no command is under way, either both ends are in
  use, or both are gone, or one has asked for termination and the other one still has messages
  before the delimiter to read: it is awake, and everything that was written up to the delimiter is
  readable. Reading the delimiter makes it acknowledge.
\<close>

theorem pipe_termination_not_stuck:
  assumes "open_connection i j ha hb si sj w0 = Some w" and "i \<noteq> j" and "cmds w0 = []" and "refs_ok (mheap w0) R0"
    and "(term_conn_step i j)\<^sup>*\<^sup>* (w, R0) (w', R)" and "i \<notin> fst ` set (cmds w')" and "j \<notin> fst ` set (cmds w')"
  shows "(end_state w' i = Some active \<and> end_state w' j = Some active) \<or> (end_state w' i = None \<and> end_state w' j = None) \<or>
    (\<exists>e f q b ms d z. (e, f) \<in> {(i, j), (j, i)} \<and> end_state w' e = Some term_req_sent1 \<and> pipes w' f = Some q \<and>
       state q = waiting_for_delimiter \<and> in_active q \<and> inpipe q = Some b \<and> up_view w' b (ms @ [d]) [] [] z \<and> msg_is_delimiter d)"
proof -
  obtain a b where inv: "term_inv i j a b (w', R)" using term_reachable [OF assms(1-5), of i j] by blast
  have ch: "chan i w' = []" "chan j w' = []" using assms(6,7) by (force simp: chan_def filter_empty_conv)+
  have wait: "\<exists>q b ms d z. pipes w' f = Some q \<and> state q = waiting_for_delimiter \<and> in_active q \<and> inpipe q = Some b \<and>
      up_view w' b (ms @ [d]) [] [] z \<and> msg_is_delimiter d"
    if inv: "term_inv e f x y (w', R)" and k: "chan f w' = []" "end_state w' e = Some term_req_sent1" "end_state w' f = Some waiting_for_delimiter" for e f x y
  proof -
    obtain ma where ca: "carries e f x w' ma" "end_ok f e y x w'" using inv by (auto simp: term_inv_def)
    obtain q where q: "pipes w' f = Some q" "state q = waiting_for_delimiter" using k(3) by (auto simp: end_state_def)
    obtain fl un inc z where v: "up_view w' x fl un inc z" "flow_ok (end_state w' e) q (chan f w') fl un inc z" "ma = fl @ un @ inc"
      by (rule carriesE [OF ca(1) q(1)])
    have l: "un = []" "inc = []" "fl \<noteq> []" "msg_is_delimiter (last fl)" "in_active q"
      using flow_ok_waiting [OF v(2) [unfolded k(2)] q(2)] k(1) by simp_all
    have "inpipe q = Some x" using ca(2) q(1) by (simp add: end_ok_def)
    moreover have "up_view w' x (butlast fl @ [last fl]) [] [] z" using v(1) l by simp
    ultimately show ?thesis using q l by blast
  qed
  have "agree (end_state w' i) (end_state w' j) [] []" using inv ch by (simp add: term_inv_def)
  then consider "end_state w' i = Some active" "end_state w' j = Some active" | "end_state w' i = None" "end_state w' j = None"
    | "end_state w' i = Some term_req_sent1" "end_state w' j = Some waiting_for_delimiter"
    | "end_state w' j = Some term_req_sent1" "end_state w' i = Some waiting_for_delimiter" by (auto simp: agree_def elim: phase.cases)
  then show ?thesis
  proof cases
    case 3
    then show ?thesis using wait [OF inv ch(2)] by blast
  next
    case 4
    then show ?thesis using wait [OF term_inv_sym [OF inv] ch(1)] by blast
  qed simp_all
qed

theorem pipe_termination_not_stuck_witness:
  "\<exists>w. open_connection 0 1 1 1000 7 8 (example_world\<lparr>mheap := example_heap\<rparr>) = Some w \<and>
     end_state w 0 = Some active \<and> end_state w 1 = Some active"
proof -
  obtain w p q where w: "open_connection 0 1 1 1000 7 8 (example_world\<lparr>mheap := example_heap\<rparr>) = Some w"
    "(0 :: addr) \<noteq> 1" "cmds (example_world\<lparr>mheap := example_heap\<rparr>) = []" "refs_ok (mheap (example_world\<lparr>mheap := example_heap\<rparr>)) {#msg_init#}"
    "pipes w 0 = Some p" "pipes w 1 = Some q" "state p = active" "state q = active" "cmds w = []" by (rule example_opened)
  have "0 \<notin> fst ` set (cmds w)" "1 \<notin> fst ` set (cmds w)" using w(9) by simp_all
  then show ?thesis using pipe_termination_not_stuck [OF w(1-4) rtranclp.rtrancl_refl] w(1,5-8) by (auto simp: end_state_def)
qed

end
