(* ===== verification/Wire.thy ===== *)
theory Wire
  imports Msg
begin

text \<open>
  Integers on the wire (\<^verbatim>\<open>src/wire.hpp\<close>), the flag bits of ZMTP/2.0 (\<^verbatim>\<open>src/v2_protocol.hpp\<close>), and the
  frames of the two protocol versions as lists of bytes: what a message looks like on the
  wire, stated independently of the state machines of theories Encoder and Decoder.

  The codecs see a message through \<open>flags\<close>, \<open>size\<close> and \<open>data\<close> only; \<open>wire_msg\<close> is that view.
\<close>

record wire_msg =
  wm_flags :: byte
  wm_data :: blob_t

subsection \<open>Integers in network byte order\<close>

definition put_uint8 :: "byte \<Rightarrow> byte list" where
  "put_uint8 v = [v]"

definition get_uint8 :: "byte list \<Rightarrow> byte" where
  "get_uint8 b = b ! 0"

definition put_uint16 :: "16 word \<Rightarrow> byte list" where
  "put_uint16 v = [ucast (drop_bit 8 v AND 0xff), ucast (v AND 0xff)]"

definition get_uint16 :: "byte list \<Rightarrow> 16 word" where
  "get_uint16 b = push_bit 8 (ucast (b ! 0)) OR ucast (b ! 1)"

definition put_uint32 :: "uint32 \<Rightarrow> byte list" where
  "put_uint32 v = [ucast (drop_bit 24 v AND 0xff), ucast (drop_bit 16 v AND 0xff),
     ucast (drop_bit 8 v AND 0xff), ucast (v AND 0xff)]"

definition get_uint32 :: "byte list \<Rightarrow> uint32" where
  "get_uint32 b = push_bit 24 (ucast (b ! 0)) OR push_bit 16 (ucast (b ! 1)) OR
     push_bit 8 (ucast (b ! 2)) OR ucast (b ! 3)"

definition put_uint64 :: "uint64 \<Rightarrow> byte list" where
  "put_uint64 v = [ucast (drop_bit 56 v AND 0xff), ucast (drop_bit 48 v AND 0xff),
     ucast (drop_bit 40 v AND 0xff), ucast (drop_bit 32 v AND 0xff), ucast (drop_bit 24 v AND 0xff),
     ucast (drop_bit 16 v AND 0xff), ucast (drop_bit 8 v AND 0xff), ucast (v AND 0xff)]"

definition get_uint64 :: "byte list \<Rightarrow> uint64" where
  "get_uint64 b = push_bit 56 (ucast (b ! 0)) OR push_bit 48 (ucast (b ! 1)) OR
     push_bit 40 (ucast (b ! 2)) OR push_bit 32 (ucast (b ! 3)) OR push_bit 24 (ucast (b ! 4)) OR
     push_bit 16 (ucast (b ! 5)) OR push_bit 8 (ucast (b ! 6)) OR ucast (b ! 7)"

lemma and_0xff: "(v :: 'a::len word) AND 0xff = take_bit 8 v"
  by (simp add: take_bit_eq_mask mask_eq_exp_minus_1)

text \<open>A byte cut out of a word and shifted back is the bits of the word in that place.\<close>

lemma bit_byte_at:
  assumes "k + 8 \<le> LENGTH('a)" and "n < LENGTH('a)"
  shows "bit (push_bit k (ucast (ucast (drop_bit k v AND 0xff) :: byte)) :: 'a::len word) n \<longleftrightarrow>
    k \<le> n \<and> n < k + 8 \<and> bit v n"
  using assms by (auto simp: and_0xff bit_simps)

lemma bit_low_byte:
  assumes "8 \<le> LENGTH('a)" and "n < LENGTH('a)"
  shows "bit (ucast (ucast (v AND 0xff) :: byte) :: 'a::len word) n \<longleftrightarrow> n < 8 \<and> bit v n"
  using assms by (auto simp: and_0xff bit_simps)

lemmas bytes_of_word = bit_or_iff bit_byte_at bit_low_byte

lemma get_put_uint16: "get_uint16 (put_uint16 v) = v"
  by (rule bit_word_eqI) (auto simp: get_uint16_def put_uint16_def bytes_of_word)

lemma get_put_uint32: "get_uint32 (put_uint32 v) = v"
  by (rule bit_word_eqI) (auto simp: get_uint32_def put_uint32_def bytes_of_word)

lemma get_put_uint64: "get_uint64 (put_uint64 v) = v"
proof (rule bit_word_eqI)
  fix n
  assume "n < LENGTH(64)"
  then show "bit (get_uint64 (put_uint64 v)) n = bit v n"
    by (cases "bit v n") (simp_all add: get_uint64_def put_uint64_def bytes_of_word, linarith)
qed

lemma length_put_uint64 [simp]: "length (put_uint64 v) = 8"
  by (simp add: put_uint64_def)

subsection \<open>Frames\<close>

definition v2_more_flag :: byte where "v2_more_flag = 1"
definition v2_large_flag :: byte where "v2_large_flag = 2"
definition v2_command_flag :: byte where "v2_command_flag = 4"

text \<open>The bytes that \<open>message_ready\<close> of the two encoders writes to \<open>tmpbuf\<close>.\<close>

definition v2_protocol_flags :: "wire_msg \<Rightarrow> byte" where
  "v2_protocol_flags m =
     (if wm_flags m AND flag_more \<noteq> 0 then v2_more_flag else 0) OR
     (if length (wm_data m) > 255 then v2_large_flag else 0) OR
     (if wm_flags m AND flag_command \<noteq> 0 then v2_command_flag else 0)"

definition v2_header :: "wire_msg \<Rightarrow> byte list" where
  "v2_header m = (let size = length (wm_data m)
     in if size > 255 then v2_protocol_flags m # put_uint64 (of_nat size)
        else [v2_protocol_flags m, of_nat size])"

definition v1_header :: "wire_msg \<Rightarrow> byte list" where
  "v1_header m = (let size = length (wm_data m) + 1
     in if size < 255 then [of_nat size, wm_flags m AND flag_more]
        else 0xff # put_uint64 (of_nat size) @ [wm_flags m AND flag_more])"

lemma header_nonempty [simp]: "v1_header m \<noteq> []" "v2_header m \<noteq> []"
  by (auto simp: v1_header_def v2_header_def Let_def)

text \<open>What survives the wire of the flags of a message: \<open>more\<close>, and \<open>command\<close> in version 2 only.\<close>

definition v1_wire_view :: "wire_msg \<Rightarrow> wire_msg" where
  "v1_wire_view m = m\<lparr>wm_flags := wm_flags m AND flag_more\<rparr>"

definition v2_wire_view :: "wire_msg \<Rightarrow> wire_msg" where
  "v2_wire_view m = m\<lparr>wm_flags := wm_flags m AND (flag_more OR flag_command)\<rparr>"

text \<open>
  the integers of the wire format survive being written and read back, for all three widths,
  and the most significant byte comes first.
\<close>

theorem wire_integers_roundtrip:
  "get_uint8 (put_uint8 a) = a \<and> get_uint16 (put_uint16 b) = b \<and> get_uint32 (put_uint32 c) = c \<and>
   get_uint64 (put_uint64 d) = d \<and> length (put_uint64 d) = 8 \<and>
   put_uint64 d ! 0 = ucast (drop_bit 56 d) \<and> put_uint64 d ! 7 = ucast d"
proof -
  have "(ucast (x AND 0xff) :: byte) = ucast x" for x :: uint64
    by (rule bit_word_eqI) (simp add: and_0xff bit_simps)
  then have "put_uint64 d ! 0 = ucast (drop_bit 56 d)" "put_uint64 d ! 7 = ucast d" by (simp_all add: put_uint64_def)
  then show ?thesis
    by (simp add: get_put_uint16 get_put_uint32 get_put_uint64 get_uint8_def put_uint8_def)
qed

end
