(* ===== verification/Z85.thy ===== *)
theory Z85
  imports Wire
begin

text \<open>
  The Z85 codec of \<^verbatim>\<open>src/zmq_utils.cpp\<close>: binary data of a length divisible by 4 as printable text, 5
  characters for 4 bytes. A null result with \<open>errno\<close> is \<open>Inl\<close>; reading outside of a table is the
  failure \<open>None\<close>. Strings are C strings without their terminating zero.
\<close>

definition z85_encoder :: string where
  "z85_encoder = ''0123456789'' @ ''abcdefghij'' @ ''klmnopqrst'' @ ''uvwxyzABCD'' @ ''EFGHIJKLMN'' @ ''OPQRSTUVWX'' @
     ''YZ.-:+=^!/'' @ ''*?&<>()[]{'' @ ''}@%$#''"

definition z85_decoder :: "byte list" where
  "z85_decoder = [
    0x00, 0x44, 0x00, 0x54, 0x53, 0x52, 0x48, 0x00,
    0x4B, 0x4C, 0x46, 0x41, 0x00, 0x3F, 0x3E, 0x45,
    0x00, 0x01, 0x02, 0x03, 0x04, 0x05, 0x06, 0x07,
    0x08, 0x09, 0x40, 0x00, 0x49, 0x42, 0x4A, 0x47,
    0x51, 0x24, 0x25, 0x26, 0x27, 0x28, 0x29, 0x2A,
    0x2B, 0x2C, 0x2D, 0x2E, 0x2F, 0x30, 0x31, 0x32,
    0x33, 0x34, 0x35, 0x36, 0x37, 0x38, 0x39, 0x3A,
    0x3B, 0x3C, 0x3D, 0x4D, 0x00, 0x4E, 0x43, 0x00,
    0x00, 0x0A, 0x0B, 0x0C, 0x0D, 0x0E, 0x0F, 0x10,
    0x11, 0x12, 0x13, 0x14, 0x15, 0x16, 0x17, 0x18,
    0x19, 0x1A, 0x1B, 0x1C, 0x1D, 0x1E, 0x1F, 0x20,
    0x21, 0x22, 0x23, 0x4F, 0x00, 0x50, 0x00, 0x00]"

text \<open>The inner loops: the digits of a value, from the given divisor down.\<close>

fun z85_put_chars :: "nat \<Rightarrow> uint32 \<Rightarrow> string" where
  "z85_put_chars divisor value =
     (if divisor = 0 then [] else z85_encoder ! (unat value div divisor mod 85) # z85_put_chars (divisor div 85) value)"

fun z85_put_bytes :: "nat \<Rightarrow> uint32 \<Rightarrow> blob_t" where
  "z85_put_bytes divisor value =
     (if divisor = 0 then [] else of_nat (unat value div divisor mod 256) # z85_put_bytes (divisor div 256) value)"

declare z85_put_chars.simps [simp del] z85_put_bytes.simps [simp del]

fun z85_encode_loop :: "blob_t \<Rightarrow> nat \<Rightarrow> uint32 \<Rightarrow> string" where
  "z85_encode_loop [] byte_nbr value = []"
| "z85_encode_loop (b # bs) byte_nbr value =
     (let value = value * 256 + ucast b; byte_nbr = byte_nbr + 1
      in if byte_nbr mod 4 = 0 then z85_put_chars (85 * 85 * 85 * 85) value @ z85_encode_loop bs byte_nbr 0
         else z85_encode_loop bs byte_nbr value)"

definition z85_encode :: "blob_t \<Rightarrow> (errno_t + string) option" where
  "z85_encode d =
     (if length d mod 4 \<noteq> 0 then Some (Inl EINVAL)
      else let s = z85_encode_loop d 0 0
           in do { zmq_assert (length s = length d * 5 div 4); Some (Inr s) })"

fun z85_decode_loop :: "string \<Rightarrow> nat \<Rightarrow> uint32 \<Rightarrow> blob_t option" where
  "z85_decode_loop [] char_nbr value = Some []"
| "z85_decode_loop (c # cs) char_nbr value =
     (if of_char c < (32 :: nat) \<or> length z85_decoder \<le> of_char c - 32 then None
      else let value = value * 85 + ucast (z85_decoder ! (of_char c - 32)); char_nbr = char_nbr + 1
           in if char_nbr mod 5 = 0
              then do { d \<leftarrow> z85_decode_loop cs char_nbr 0; Some (z85_put_bytes (256 * 256 * 256) value @ d) }
              else z85_decode_loop cs char_nbr value)"

definition z85_decode :: "string \<Rightarrow> (errno_t + blob_t) option" where
  "z85_decode s =
     (if length s mod 5 \<noteq> 0 then Some (Inl EINVAL)
      else do {
        d \<leftarrow> z85_decode_loop s 0 0;
        zmq_assert (length d = length s * 4 div 5);
        Some (Inr d)
      })"

subsection \<open>The tables\<close>

lemma z85_tables_eval:
  "map (\<lambda>c. z85_decoder ! (of_char c - 32)) z85_encoder = map of_nat [0..<85]"
  "list_all (\<lambda>c. 32 \<le> (of_char c :: nat) \<and> (of_char c :: nat) - 32 < 96) z85_encoder"
  "length z85_encoder = 85"
  by (simp_all add: z85_encoder_def z85_decoder_def upt_rec)

lemma length_z85_decoder: "length z85_decoder = 96"
  by (simp add: z85_decoder_def)

lemma z85_tables:
  assumes "i < 85"
  shows "32 \<le> (of_char (z85_encoder ! i) :: nat)" "(of_char (z85_encoder ! i) :: nat) - 32 < 96"
    "z85_decoder ! (of_char (z85_encoder ! i) - 32) = of_nat i"
proof -
  have "map (\<lambda>c. z85_decoder ! (of_char c - 32)) z85_encoder ! i = map of_nat [0..<85] ! i" unfolding z85_tables_eval(1) ..
  then show "z85_decoder ! (of_char (z85_encoder ! i) - 32) = of_nat i" using assms by (simp add: z85_tables_eval(3) del: upt.simps)
  have "z85_encoder ! i \<in> set z85_encoder" using assms by (simp add: z85_tables_eval(3))
  then show "32 \<le> (of_char (z85_encoder ! i) :: nat)" "(of_char (z85_encoder ! i) :: nat) - 32 < 96"
    using z85_tables_eval(2) unfolding list_all_iff by blast+
qed

subsection \<open>One group\<close>

definition be32 :: "byte \<Rightarrow> byte \<Rightarrow> byte \<Rightarrow> byte \<Rightarrow> nat" where
  "be32 a b c d = ((unat a * 256 + unat b) * 256 + unat c) * 256 + unat d"

lemma byte_lt: "unat (b :: byte) < 256"
  using unsigned_less [of b] by simp

lemma be32_lt: "be32 a b c d < 2 ^ 32"
  using byte_lt [of a] byte_lt [of b] byte_lt [of c] byte_lt [of d] unfolding be32_def by simp

lemma z85_encode_group:
  assumes "n mod 4 = 0"
  shows "z85_encode_loop (a # b # c # d # bs) n 0 = z85_put_chars (85 * 85 * 85 * 85) (of_nat (be32 a b c d)) @ z85_encode_loop bs (n + 4) 0"
proof -
  have "(n + 1) mod 4 = 1" "(n + 1 + 1) mod 4 = 2" "(n + 1 + 1 + 1) mod 4 = 3" "(n + 1 + 1 + 1 + 1) mod 4 = 0" using assms by presburger+
  moreover have "of_nat (be32 a b c d) = ((((0::uint32) * 256 + ucast a) * 256 + ucast b) * 256 + ucast c) * 256 + ucast d"
    by (simp add: be32_def)
  moreover have e: "n + 4 = n + 1 + 1 + 1 + 1" by simp
  ultimately show ?thesis unfolding e z85_encode_loop.simps Let_def by simp
qed

lemma digits:
  fixes v :: nat
  assumes "v < 85 * (85 * 85 * 85 * 85)"
  shows "((((v div (85*85*85*85) mod 85) * 85 + v div (85*85*85) mod 85) * 85 + v div (85*85) mod 85) * 85 + v div 85 mod 85) * 85 + v mod 85 = v"
proof -
  have q: "v div (85*85) = v div 85 div 85" "v div (85*85*85) = v div 85 div 85 div 85" "v div (85*85*85*85) = v div 85 div 85 div 85 div 85"
    by (simp_all add: div_mult2_eq)
  have "v div 85 div 85 div 85 div 85 < 85" using assms by (simp add: div_mult2_eq [symmetric] less_mult_imp_div_less)
  then show ?thesis unfolding q by (simp add: mod_div_mult_eq div_mult_mod_eq)
qed

lemma z85_chars: "z85_put_chars (85 * 85 * 85 * 85) v =
  map (\<lambda>k. z85_encoder ! (unat v div k mod 85)) [85 * 85 * 85 * 85, 85 * 85 * 85, 85 * 85, 85, 1]"
  by (simp add: z85_put_chars.simps)

lemma z85_bytes: "z85_put_bytes (256 * 256 * 256) v =
  map (\<lambda>k. of_nat (unat v div k mod 256)) [256 * 256 * 256, 256 * 256, 256, 1]"
  by (simp add: z85_put_bytes.simps)

lemma last_digit: "d < 256 \<Longrightarrow> (y * 256 + d) div 256 = y" "d < 256 \<Longrightarrow> (y * 256 + d) mod 256 = (d :: nat)"
  by (simp_all add: mult.commute [of y])

lemma be32_bytes:
  "z85_put_bytes (256 * 256 * 256) (of_nat (be32 a b c d)) = [a, b, c, d]"
proof -
  have u: "unat (of_nat (be32 a b c d) :: uint32) = be32 a b c d" using be32_lt by (simp add: unat_of_nat)
  have q: "x div (256 * 256) = x div 256 div 256" "x div (256 * 256 * 256) = x div 256 div 256 div 256" for x :: nat
    by (simp_all only: div_mult2_eq)
  have "be32 a b c d div (256 * 256 * 256) mod 256 = unat a" "be32 a b c d div (256 * 256) mod 256 = unat b"
    "be32 a b c d div 256 mod 256 = unat c" "be32 a b c d div 1 mod 256 = unat d"
    unfolding be32_def q by (simp_all only: last_digit byte_lt mod_less div_by_1)
  then show ?thesis unfolding z85_bytes u list.map by (simp only: of_nat_unat ucast_id)
qed

lemma z85_decode_step:
  assumes "i < 85"
  shows "z85_decode_loop (z85_encoder ! i # cs) n v =
    (let value = v * 85 + of_nat i; n = n + 1
     in if n mod 5 = 0 then do { d \<leftarrow> z85_decode_loop cs n 0; Some (z85_put_bytes (256 * 256 * 256) value @ d) }
        else z85_decode_loop cs n value)"
proof -
  have "ucast (of_nat i :: byte) = (of_nat i :: uint32)" using assms by (simp add: unsigned_of_nat take_bit_nat_eq_self)
  moreover have "\<not> (of_char (z85_encoder ! i) < (32 :: nat) \<or> length z85_decoder \<le> of_char (z85_encoder ! i) - 32)"
    using z85_tables [OF assms] unfolding length_z85_decoder by linarith
  ultimately show ?thesis unfolding z85_decode_loop.simps z85_tables(3) [OF assms] by (simp only: if_False)
qed

lemma z85_decode_group:
  assumes "n mod 5 = 0" and "v < 2 ^ 32"
  shows "z85_decode_loop (z85_put_chars (85 * 85 * 85 * 85) (of_nat v) @ cs) n 0 =
    do { d \<leftarrow> z85_decode_loop cs (n + 5) 0; Some (z85_put_bytes (256 * 256 * 256) (of_nat v) @ d) }"
proof -
  have u: "unat (of_nat v :: uint32) = v" using assms(2) by (simp add: unat_of_nat)
  have m: "(n + 1) mod 5 \<noteq> 0" "(n + 1 + 1) mod 5 \<noteq> 0" "(n + 1 + 1 + 1) mod 5 \<noteq> 0" "(n + 1 + 1 + 1 + 1) mod 5 \<noteq> 0" "(n + 1 + 1 + 1 + 1 + 1) mod 5 = 0"
    using assms(1) by presburger+
  have s: "z85_decode_loop (z85_encoder ! i # cs) n v = z85_decode_loop cs (n + 1) (v * 85 + of_nat i)" if "i < 85" "(n + 1) mod 5 \<noteq> 0" for i cs n v
    unfolding z85_decode_step [OF that(1)] Let_def using that(2) by (rule if_not_P)
  define a b c d e where "a = v div (85*85*85*85) mod 85" and "b = v div (85*85*85) mod 85" and "c = v div (85*85) mod 85"
    and "d = v div 85 mod 85" and "e = v mod 85"
  have lt: "a < 85" "b < 85" "c < 85" "d < 85" "e < 85" by (simp_all add: a_def b_def c_def d_def e_def)
  have "v < 85 * (85 * 85 * 85 * 85)" using assms(2) by simp
  then have "(((a * 85 + b) * 85 + c) * 85 + d) * 85 + e = v" unfolding a_def b_def c_def d_def e_def by (rule digits)
  then have "of_nat ((((a * 85 + b) * 85 + c) * 85 + d) * 85 + e) = (of_nat v :: uint32)" by (rule arg_cong)
  then have v: "((((0 * 85 + of_nat a) * 85 + of_nat b) * 85 + of_nat c) * 85 + of_nat d) * 85 + of_nat e = (of_nat v :: uint32)"
    by (simp only: of_nat_add of_nat_mult of_nat_numeral mult_zero_left add_0)
  have "z85_put_chars (85 * 85 * 85 * 85) (of_nat v) = [z85_encoder ! a, z85_encoder ! b, z85_encoder ! c, z85_encoder ! d, z85_encoder ! e]"
    unfolding z85_chars u a_def b_def c_def d_def e_def by (simp only: list.map div_by_1)
  moreover have "n + 5 = n + 1 + 1 + 1 + 1 + 1" by simp
  ultimately show ?thesis
    by (simp only: append.simps s [OF lt(1) m(1)] s [OF lt(2) m(2)] s [OF lt(3) m(3)] s [OF lt(4) m(4)])
      (simp only: z85_decode_step [OF lt(5)] Let_def m(5) v if_True refl)
qed

lemma z85_loops:
  assumes "length d mod 4 = 0" and "n mod 4 = 0" and "k mod 5 = 0"
  shows "length (z85_encode_loop d n 0) = length d * 5 div 4 \<and> z85_decode_loop (z85_encode_loop d n 0) k 0 = Some d"
  using assms
proof (induction "length d div 4" arbitrary: d n k)
  case 0
  then have "d = []" by (cases d) auto
  then show ?case by simp
next
  case (Suc m)
  then obtain a b c e bs where d: "d = a # b # c # e # bs"
  proof -
    have "4 \<le> length d" using Suc.prems(1) Suc.hyps(2) by linarith
    then show ?thesis using that by (auto simp: numeral_eq_Suc Suc_le_length_iff)
  qed
  have i: "length (z85_encode_loop bs (n + 4) 0) = length bs * 5 div 4 \<and> z85_decode_loop (z85_encode_loop bs (n + 4) 0) (k + 5) 0 = Some bs"
    using Suc.prems Suc.hyps(2) d by (intro Suc.hyps(1)) auto
  have five: "length (z85_put_chars (85 * 85 * 85 * 85) v) = 5" for v unfolding z85_chars by simp
  have "length (z85_encode_loop d n 0) = length d * 5 div 4"
    unfolding d z85_encode_group [OF Suc.prems(2)] length_append five using i by simp
  moreover have "z85_decode_loop (z85_encode_loop d n 0) k 0 = Some d"
    unfolding d z85_encode_group [OF Suc.prems(2)] z85_decode_group [OF Suc.prems(3) be32_lt] be32_bytes using i by simp
  ultimately show ?case by blast
qed

lemma z85_roundtrip_ok:
  "if length d mod 4 = 0 then \<exists>s. z85_encode d = Some (Inr s) \<and> length s = length d * 5 div 4 \<and> z85_decode s = Some (Inr d)
   else z85_encode d = Some (Inl EINVAL)"
proof (cases "length d mod 4 = 0")
  case True
  have "z85_encode d = Some (Inr (z85_encode_loop d 0 0))" using z85_loops [OF True, of 0 0] True by (simp add: z85_encode_def)
  moreover have l: "length (z85_encode_loop d 0 0) = length d * 5 div 4" "z85_decode_loop (z85_encode_loop d 0 0) 0 0 = Some d"
    using z85_loops [OF True, of 0 0] by auto
  moreover have "length d * 5 div 4 mod 5 = 0" "length d = length d * 5 div 4 * 4 div 5" using True by presburger+
  then have "z85_decode (z85_encode_loop d 0 0) = Some (Inr d)" using l by (simp add: z85_decode_def)
  ultimately show ?thesis using True by simp
qed (simp add: z85_encode_def)

lemma z85_put_chars_set: "set (z85_put_chars n v) \<subseteq> set z85_encoder"
proof (induction n v rule: z85_put_chars.induct)
  case (1 n v)
  have "z85_encoder ! (unat v div n mod 85) \<in> set z85_encoder" by (rule nth_mem) (simp add: z85_tables_eval(3))
  with 1 show ?case by (subst z85_put_chars.simps) auto
qed

lemma z85_encode_set: "z85_encode d = Some (Inr s) \<Longrightarrow> set s \<subseteq> set z85_encoder"
proof -
  have "set (z85_encode_loop d n v) \<subseteq> set z85_encoder" for n v
    using z85_put_chars_set by (induction d n v rule: z85_encode_loop.induct) (auto simp: Let_def)
  then show "z85_encode d = Some (Inr s) \<Longrightarrow> set s \<subseteq> set z85_encoder"
    unfolding z85_encode_def by (auto split: if_splits Option.bind_splits simp: Let_def)
qed

subsection \<open>Properties\<close>

text \<open>
  The codec is a round trip: data of a length divisible by 4 are encoded into 5 characters
  for each 4 bytes, and decoding gives the data back; the encoder refuses data of other lengths.
\<close>
theorem z85_roundtrip:
  "if length d mod 4 = 0 then \<exists>s. z85_encode d = Some (Inr s) \<and> length s = length d * 5 div 4 \<and> z85_decode s = Some (Inr d)
   else z85_encode d = Some (Inl EINVAL)"
  by (rule z85_roundtrip_ok)

text \<open>
  Decoding does not check its characters, although the comment of the function promises an
  error for invalid input: a character outside of the printable range makes it read outside of
  the table, wherever it is in a string of an acceptable length.
\<close>
theorem z85_decode_unchecked:
  assumes "c \<in> set s" and "length s mod 5 = 0" and "of_char c < (32 :: nat) \<or> 128 \<le> (of_char c :: nat)"
  shows "z85_decode s = None"
proof -
  have "z85_decode_loop s n v = None" if "c \<in> set s" for n v
    using that assms(3)
  proof (induction s arbitrary: n v)
    case (Cons x xs)
    then show ?case by (cases "x = c") (auto simp: length_z85_decoder Let_def)
  qed simp
  then show ?thesis using assms(1,2) by (simp add: z85_decode_def)
qed

theorem z85_decode_unchecked_witness: "z85_decode (CHR ''a'' # CHR 0x80 # ''bcd'') = None"
  using z85_decode_unchecked [of "CHR 0x80" "CHR ''a'' # CHR 0x80 # ''bcd''"] by simp

end
