(* ===== verification/Options.thy ===== *)
theory Options
  imports Z85
begin

text \<open>
  The socket options (\<^verbatim>\<open>src/options.hpp\<close>, \<^verbatim>\<open>src/options.cpp\<close>). Values of type \<open>int\<close> are integers in the
  model; a value that the user passes or gets is the list of the bytes of a buffer, in the
  byte order of a little-endian machine, with \<open>None\<close> for a null pointer of length 0.

  \<open>sodium\<close> says whether the library was built with libsodium, \<open>resolve\<close> is the parser of address
  masks (\<open>tcp_address_mask_t::resolve\<close>, which asks the system resolver).
\<close>

subsection \<open>The numbers of the options\<close>

abbreviation ZMQ_AFFINITY :: int where "ZMQ_AFFINITY \<equiv> 4"
abbreviation ZMQ_IDENTITY :: int where "ZMQ_IDENTITY \<equiv> 5"
abbreviation ZMQ_SUBSCRIBE :: int where "ZMQ_SUBSCRIBE \<equiv> 6"
abbreviation ZMQ_UNSUBSCRIBE :: int where "ZMQ_UNSUBSCRIBE \<equiv> 7"
abbreviation ZMQ_RATE :: int where "ZMQ_RATE \<equiv> 8"
abbreviation ZMQ_RECOVERY_IVL :: int where "ZMQ_RECOVERY_IVL \<equiv> 9"
abbreviation ZMQ_SNDBUF :: int where "ZMQ_SNDBUF \<equiv> 11"
abbreviation ZMQ_RCVBUF :: int where "ZMQ_RCVBUF \<equiv> 12"
abbreviation ZMQ_RCVMORE :: int where "ZMQ_RCVMORE \<equiv> 13"
abbreviation ZMQ_FD :: int where "ZMQ_FD \<equiv> 14"
abbreviation ZMQ_EVENTS :: int where "ZMQ_EVENTS \<equiv> 15"
abbreviation ZMQ_TYPE :: int where "ZMQ_TYPE \<equiv> 16"
abbreviation ZMQ_LINGER :: int where "ZMQ_LINGER \<equiv> 17"
abbreviation ZMQ_RECONNECT_IVL :: int where "ZMQ_RECONNECT_IVL \<equiv> 18"
abbreviation ZMQ_BACKLOG :: int where "ZMQ_BACKLOG \<equiv> 19"
abbreviation ZMQ_RECONNECT_IVL_MAX :: int where "ZMQ_RECONNECT_IVL_MAX \<equiv> 21"
abbreviation ZMQ_MAXMSGSIZE :: int where "ZMQ_MAXMSGSIZE \<equiv> 22"
abbreviation ZMQ_SNDHWM :: int where "ZMQ_SNDHWM \<equiv> 23"
abbreviation ZMQ_RCVHWM :: int where "ZMQ_RCVHWM \<equiv> 24"
abbreviation ZMQ_MULTICAST_HOPS :: int where "ZMQ_MULTICAST_HOPS \<equiv> 25"
abbreviation ZMQ_RCVTIMEO :: int where "ZMQ_RCVTIMEO \<equiv> 27"
abbreviation ZMQ_SNDTIMEO :: int where "ZMQ_SNDTIMEO \<equiv> 28"
abbreviation ZMQ_IPV4ONLY :: int where "ZMQ_IPV4ONLY \<equiv> 31"
abbreviation ZMQ_LAST_ENDPOINT :: int where "ZMQ_LAST_ENDPOINT \<equiv> 32"
abbreviation ZMQ_ROUTER_MANDATORY :: int where "ZMQ_ROUTER_MANDATORY \<equiv> 33"
abbreviation ZMQ_TCP_KEEPALIVE :: int where "ZMQ_TCP_KEEPALIVE \<equiv> 34"
abbreviation ZMQ_TCP_KEEPALIVE_CNT :: int where "ZMQ_TCP_KEEPALIVE_CNT \<equiv> 35"
abbreviation ZMQ_TCP_KEEPALIVE_IDLE :: int where "ZMQ_TCP_KEEPALIVE_IDLE \<equiv> 36"
abbreviation ZMQ_TCP_KEEPALIVE_INTVL :: int where "ZMQ_TCP_KEEPALIVE_INTVL \<equiv> 37"
abbreviation ZMQ_TCP_ACCEPT_FILTER :: int where "ZMQ_TCP_ACCEPT_FILTER \<equiv> 38"
abbreviation ZMQ_IMMEDIATE :: int where "ZMQ_IMMEDIATE \<equiv> 39"
abbreviation ZMQ_XPUB_VERBOSE :: int where "ZMQ_XPUB_VERBOSE \<equiv> 40"
abbreviation ZMQ_ROUTER_RAW :: int where "ZMQ_ROUTER_RAW \<equiv> 41"
abbreviation ZMQ_IPV6 :: int where "ZMQ_IPV6 \<equiv> 42"
abbreviation ZMQ_MECHANISM :: int where "ZMQ_MECHANISM \<equiv> 43"
abbreviation ZMQ_PLAIN_SERVER :: int where "ZMQ_PLAIN_SERVER \<equiv> 44"
abbreviation ZMQ_PLAIN_USERNAME :: int where "ZMQ_PLAIN_USERNAME \<equiv> 45"
abbreviation ZMQ_PLAIN_PASSWORD :: int where "ZMQ_PLAIN_PASSWORD \<equiv> 46"
abbreviation ZMQ_CURVE_SERVER :: int where "ZMQ_CURVE_SERVER \<equiv> 47"
abbreviation ZMQ_CURVE_PUBLICKEY :: int where "ZMQ_CURVE_PUBLICKEY \<equiv> 48"
abbreviation ZMQ_CURVE_SECRETKEY :: int where "ZMQ_CURVE_SECRETKEY \<equiv> 49"
abbreviation ZMQ_CURVE_SERVERKEY :: int where "ZMQ_CURVE_SERVERKEY \<equiv> 50"
abbreviation ZMQ_PROBE_ROUTER :: int where "ZMQ_PROBE_ROUTER \<equiv> 51"
abbreviation ZMQ_REQ_CORRELATE :: int where "ZMQ_REQ_CORRELATE \<equiv> 52"
abbreviation ZMQ_REQ_RELAXED :: int where "ZMQ_REQ_RELAXED \<equiv> 53"
abbreviation ZMQ_CONFLATE :: int where "ZMQ_CONFLATE \<equiv> 54"
abbreviation ZMQ_ZAP_DOMAIN :: int where "ZMQ_ZAP_DOMAIN \<equiv> 55"

subsection \<open>Values in buffers\<close>

definition int_value :: "byte list \<Rightarrow> int" where
  "int_value v = sint (get_uint32 (rev v))"

definition int_bytes :: "int \<Rightarrow> byte list" where
  "int_bytes i = rev (put_uint32 (word_of_int i))"

definition int64_value :: "byte list \<Rightarrow> int" where
  "int64_value v = sint (get_uint64 (rev v))"

definition int64_bytes :: "int \<Rightarrow> byte list" where
  "int64_bytes i = rev (put_uint64 (word_of_int i))"

text \<open>\<open>is_int\<close> and \<open>value\<close> of the \<open>setsockopt\<close> functions.\<close>

definition is_int :: "byte list \<Rightarrow> bool" where
  "is_int v \<longleftrightarrow> length v = 4"

definition opt_value :: "byte list \<Rightarrow> int" where
  "opt_value v = (if is_int v then int_value v else 0)"

lemma put_get_uint32: "length b = 4 \<Longrightarrow> put_uint32 (get_uint32 b) = b"
proof -
  assume "length b = 4"
  then obtain b0 b1 b2 b3 where b: "b = [b0, b1, b2, b3]" by (auto simp: numeral_eq_Suc length_Suc_conv)
  have "ucast (drop_bit 24 (get_uint32 b) AND 0xff) = b0" "ucast (drop_bit 16 (get_uint32 b) AND 0xff) = b1"
    "ucast (drop_bit 8 (get_uint32 b) AND 0xff) = b2" "ucast (get_uint32 b AND 0xff) = b3"
    unfolding b get_uint32_def and_0xff by (rule bit_word_eqI, auto simp: bit_simps dest: bit_imp_le_length)+
  then show ?thesis by (simp add: put_uint32_def b)
qed

lemma put_get_uint64: "length b = 8 \<Longrightarrow> put_uint64 (get_uint64 b) = b"
proof -
  assume "length b = 8"
  then obtain b0 b1 b2 b3 b4 b5 b6 b7 where b: "b = [b0, b1, b2, b3, b4, b5, b6, b7]" by (auto simp: numeral_eq_Suc length_Suc_conv)
  have "ucast (drop_bit 56 (get_uint64 b) AND 0xff) = b0" "ucast (drop_bit 48 (get_uint64 b) AND 0xff) = b1"
    "ucast (drop_bit 40 (get_uint64 b) AND 0xff) = b2" "ucast (drop_bit 32 (get_uint64 b) AND 0xff) = b3"
    "ucast (drop_bit 24 (get_uint64 b) AND 0xff) = b4" "ucast (drop_bit 16 (get_uint64 b) AND 0xff) = b5"
    "ucast (drop_bit 8 (get_uint64 b) AND 0xff) = b6" "ucast (get_uint64 b AND 0xff) = b7"
    unfolding b get_uint64_def and_0xff by (rule bit_word_eqI, auto simp: bit_simps dest: bit_imp_le_length)+
  then show ?thesis by (simp add: put_uint64_def b)
qed

lemma int_bytes_value: "is_int v \<Longrightarrow> int_bytes (int_value v) = v"
  by (simp add: is_int_def int_bytes_def int_value_def put_get_uint32)

lemma int64_bytes_value: "length v = 8 \<Longrightarrow> int64_bytes (int64_value v) = v"
  by (simp add: int64_bytes_def int64_value_def put_get_uint64)

lemma length_int_bytes [simp]: "length (int_bytes i) = 4" "length (int64_bytes i) = 8"
  by (simp_all add: int_bytes_def int64_bytes_def put_uint32_def)

subsection \<open>The options of a socket\<close>

datatype mechanism_t = ZMQ_NULL | ZMQ_PLAIN | ZMQ_CURVE

definition mechanism_int :: "mechanism_t \<Rightarrow> int" where
  "mechanism_int m = (case m of ZMQ_NULL \<Rightarrow> 0 | ZMQ_PLAIN \<Rightarrow> 1 | ZMQ_CURVE \<Rightarrow> 2)"

record 'mask options_t =
  o_sndhwm :: int
  o_rcvhwm :: int
  o_affinity :: uint64
  o_identity :: blob_t
  o_rate :: int
  o_recovery_ivl :: int
  o_multicast_hops :: int
  o_sndbuf :: int
  o_rcvbuf :: int
  o_type :: int
  o_linger :: int
  o_reconnect_ivl :: int
  o_reconnect_ivl_max :: int
  o_backlog :: int
  o_maxmsgsize :: int
  o_rcvtimeo :: int
  o_sndtimeo :: int
  o_ipv6 :: bool
  o_immediate :: int
  o_filter :: bool
  o_recv_identity :: bool
  o_raw_sock :: bool
  o_tcp_keepalive :: int
  o_tcp_keepalive_cnt :: int
  o_tcp_keepalive_idle :: int
  o_tcp_keepalive_intvl :: int
  o_tcp_accept_filters :: "'mask list"
  o_mechanism :: mechanism_t
  o_as_server :: int
  o_zap_domain :: blob_t
  o_plain_username :: blob_t
  o_plain_password :: blob_t
  o_curve_public_key :: blob_t
  o_curve_secret_key :: blob_t
  o_curve_server_key :: blob_t
  o_socket_id :: int
  o_conflate :: bool

text \<open>The keys are not initialised; \<open>k\<close> is what their memory holds.\<close>

definition options_new :: "blob_t \<Rightarrow> 'mask options_t" where
  "options_new k = \<lparr>o_sndhwm = 1000, o_rcvhwm = 1000, o_affinity = 0, o_identity = [], o_rate = 100, o_recovery_ivl = 10000,
     o_multicast_hops = 1, o_sndbuf = 0, o_rcvbuf = 0, o_type = -1, o_linger = -1, o_reconnect_ivl = 100, o_reconnect_ivl_max = 0,
     o_backlog = 100, o_maxmsgsize = -1, o_rcvtimeo = -1, o_sndtimeo = -1, o_ipv6 = False, o_immediate = 0, o_filter = False,
     o_recv_identity = False, o_raw_sock = False, o_tcp_keepalive = -1, o_tcp_keepalive_cnt = -1, o_tcp_keepalive_idle = -1,
     o_tcp_keepalive_intvl = -1, o_tcp_accept_filters = [], o_mechanism = ZMQ_NULL, o_as_server = 0, o_zap_domain = [],
     o_plain_username = [], o_plain_password = [], o_curve_public_key = k, o_curve_secret_key = k, o_curve_server_key = k,
     o_socket_id = 0, o_conflate = False\<rparr>"

subsection \<open>Setting options\<close>

text \<open>
  The \<open>switch\<close> in three parts, in the order of the code; \<open>None\<close> is the way out of the \<open>switch\<close>
  that ends in \<open>EINVAL\<close>.
\<close>

definition options_set_basic :: "int \<Rightarrow> byte list \<Rightarrow> 'mask options_t \<Rightarrow> 'mask options_t option" where
  "options_set_basic opt v s = (let value = opt_value v in
     if opt = ZMQ_SNDHWM \<and> is_int v \<and> value \<ge> 0 then Some (s\<lparr>o_sndhwm := value\<rparr>)
     else if opt = ZMQ_RCVHWM \<and> is_int v \<and> value \<ge> 0 then Some (s\<lparr>o_rcvhwm := value\<rparr>)
     else if opt = ZMQ_AFFINITY \<and> length v = 8 then Some (s\<lparr>o_affinity := get_uint64 (rev v)\<rparr>)
     else if opt = ZMQ_IDENTITY \<and> length v > 0 \<and> length v < 256 \<and> v ! 0 \<noteq> 0 then Some (s\<lparr>o_identity := v\<rparr>)
     else if opt = ZMQ_RATE \<and> is_int v \<and> value > 0 then Some (s\<lparr>o_rate := value\<rparr>)
     else if opt = ZMQ_RECOVERY_IVL \<and> is_int v \<and> value \<ge> 0 then Some (s\<lparr>o_recovery_ivl := value\<rparr>)
     else if opt = ZMQ_SNDBUF \<and> is_int v \<and> value \<ge> 0 then Some (s\<lparr>o_sndbuf := value\<rparr>)
     else if opt = ZMQ_RCVBUF \<and> is_int v \<and> value \<ge> 0 then Some (s\<lparr>o_rcvbuf := value\<rparr>)
     else if opt = ZMQ_LINGER \<and> is_int v \<and> value \<ge> -1 then Some (s\<lparr>o_linger := value\<rparr>)
     else if opt = ZMQ_RECONNECT_IVL \<and> is_int v \<and> value \<ge> -1 then Some (s\<lparr>o_reconnect_ivl := value\<rparr>)
     else if opt = ZMQ_RECONNECT_IVL_MAX \<and> is_int v \<and> value \<ge> 0 then Some (s\<lparr>o_reconnect_ivl_max := value\<rparr>)
     else if opt = ZMQ_BACKLOG \<and> is_int v \<and> value \<ge> 0 then Some (s\<lparr>o_backlog := value\<rparr>)
     else if opt = ZMQ_MAXMSGSIZE \<and> length v = 8 then Some (s\<lparr>o_maxmsgsize := int64_value v\<rparr>)
     else if opt = ZMQ_MULTICAST_HOPS \<and> is_int v \<and> value > 0 then Some (s\<lparr>o_multicast_hops := value\<rparr>)
     else if opt = ZMQ_RCVTIMEO \<and> is_int v \<and> value \<ge> -1 then Some (s\<lparr>o_rcvtimeo := value\<rparr>)
     else if opt = ZMQ_SNDTIMEO \<and> is_int v \<and> value \<ge> -1 then Some (s\<lparr>o_sndtimeo := value\<rparr>)
     else None)"

definition options_set_tcp :: "(blob_t \<Rightarrow> bool \<Rightarrow> 'mask option) \<Rightarrow> int \<Rightarrow> byte list option \<Rightarrow> 'mask options_t \<Rightarrow> 'mask options_t option" where
  "options_set_tcp resolve opt optval s = (let v = (case optval of None \<Rightarrow> [] | Some v \<Rightarrow> v); value = opt_value v in
     if opt = ZMQ_IPV4ONLY \<and> is_int v \<and> (value = 0 \<or> value = 1) then Some (s\<lparr>o_ipv6 := (value = 0)\<rparr>)
     else if opt = ZMQ_IPV6 \<and> is_int v \<and> (value = 0 \<or> value = 1) then Some (s\<lparr>o_ipv6 := (value \<noteq> 0)\<rparr>)
     else if opt = ZMQ_TCP_KEEPALIVE \<and> is_int v \<and> (value \<ge> -1 \<or> value \<le> 1) then Some (s\<lparr>o_tcp_keepalive := value\<rparr>)
     else if opt = ZMQ_TCP_KEEPALIVE_CNT \<and> is_int v \<and> (value = -1 \<or> value \<ge> 0) then Some (s\<lparr>o_tcp_keepalive_cnt := value\<rparr>)
     else if opt = ZMQ_TCP_KEEPALIVE_IDLE \<and> is_int v \<and> (value = -1 \<or> value \<ge> 0) then Some (s\<lparr>o_tcp_keepalive_idle := value\<rparr>)
     else if opt = ZMQ_TCP_KEEPALIVE_INTVL \<and> is_int v \<and> (value = -1 \<or> value \<ge> 0) then Some (s\<lparr>o_tcp_keepalive_intvl := value\<rparr>)
     else if opt = ZMQ_IMMEDIATE \<and> is_int v \<and> (value = 0 \<or> value = 1) then Some (s\<lparr>o_immediate := value\<rparr>)
     else if opt = ZMQ_TCP_ACCEPT_FILTER then
       (if optval = None then Some (s\<lparr>o_tcp_accept_filters := []\<rparr>)
        else if length v > 0 \<and> length v < 256 \<and> v ! 0 \<noteq> 0
        then map_option (\<lambda>mask. s\<lparr>o_tcp_accept_filters := o_tcp_accept_filters s @ [mask]\<rparr>) (resolve (takeWhile (\<lambda>b. b \<noteq> 0) v) (o_ipv6 s))
        else None)
     else None)"

text \<open>
  A key given as 32 bytes or as 40 characters, whose decoding is not checked. A C string ends
  with its first zero; the buffer is followed by one.
\<close>

definition set_curve_key :: "byte list \<Rightarrow> blob_t \<Rightarrow> blob_t option" where
  "set_curve_key v key =
     (if length v = 32 then Some v
      else do {
        res \<leftarrow> z85_decode (map (\<lambda>b. char_of (unat b)) (takeWhile (\<lambda>b. b \<noteq> 0) v));
        Some (case res of Inl _ \<Rightarrow> key | Inr d \<Rightarrow> d @ drop (length d) key)
      })"

definition options_set_security :: "bool \<Rightarrow> int \<Rightarrow> byte list option \<Rightarrow> 'mask options_t \<Rightarrow> 'mask options_t option option" where
  "options_set_security sodium opt optval s = (let v = (case optval of None \<Rightarrow> [] | Some v \<Rightarrow> v); value = opt_value v in
     if opt = ZMQ_PLAIN_SERVER \<and> is_int v \<and> (value = 0 \<or> value = 1)
     then Some (Some (s\<lparr>o_as_server := value, o_mechanism := (if value \<noteq> 0 then ZMQ_PLAIN else ZMQ_NULL)\<rparr>))
     else if opt = ZMQ_PLAIN_USERNAME then
       Some (if optval = None then Some (s\<lparr>o_mechanism := ZMQ_NULL\<rparr>)
             else if length v > 0 \<and> length v < 256 then Some (s\<lparr>o_plain_username := v, o_as_server := 0, o_mechanism := ZMQ_PLAIN\<rparr>)
             else None)
     else if opt = ZMQ_PLAIN_PASSWORD then
       Some (if optval = None then Some (s\<lparr>o_mechanism := ZMQ_NULL\<rparr>)
             else if length v > 0 \<and> length v < 256 then Some (s\<lparr>o_plain_password := v, o_as_server := 0, o_mechanism := ZMQ_PLAIN\<rparr>)
             else None)
     else if opt = ZMQ_ZAP_DOMAIN \<and> length v < 256 then Some (Some (s\<lparr>o_zap_domain := v\<rparr>))
     else if sodium \<and> opt = ZMQ_CURVE_SERVER \<and> is_int v \<and> (value = 0 \<or> value = 1)
     then Some (Some (s\<lparr>o_as_server := value, o_mechanism := (if value \<noteq> 0 then ZMQ_CURVE else ZMQ_NULL)\<rparr>))
     else if sodium \<and> opt = ZMQ_CURVE_PUBLICKEY \<and> length v \<in> {32, 40}
     then do { k \<leftarrow> set_curve_key v (o_curve_public_key s); Some (Some (s\<lparr>o_curve_public_key := k, o_mechanism := ZMQ_CURVE\<rparr>)) }
     else if sodium \<and> opt = ZMQ_CURVE_SECRETKEY \<and> length v \<in> {32, 40}
     then do { k \<leftarrow> set_curve_key v (o_curve_secret_key s); Some (Some (s\<lparr>o_curve_secret_key := k, o_mechanism := ZMQ_CURVE\<rparr>)) }
     else if sodium \<and> opt = ZMQ_CURVE_SERVERKEY \<and> length v \<in> {32, 40}
     then do { k \<leftarrow> set_curve_key v (o_curve_server_key s); Some (Some (s\<lparr>o_curve_server_key := k, o_as_server := 0, o_mechanism := ZMQ_CURVE\<rparr>)) }
     else if opt = ZMQ_CONFLATE \<and> is_int v \<and> (value = 0 \<or> value = 1) then Some (Some (s\<lparr>o_conflate := (value \<noteq> 0)\<rparr>))
     else Some None)"

definition options_setsockopt ::
  "bool \<Rightarrow> (blob_t \<Rightarrow> bool \<Rightarrow> 'mask option) \<Rightarrow> int \<Rightarrow> byte list option \<Rightarrow> 'mask options_t \<Rightarrow> (errno_t option \<times> 'mask options_t) option" where
  "options_setsockopt sodium resolve opt optval s =
     (case options_set_basic opt (case optval of None \<Rightarrow> [] | Some v \<Rightarrow> v) s of
        Some s' \<Rightarrow> Some (None, s')
      | None \<Rightarrow> (case options_set_tcp resolve opt optval s of
          Some s' \<Rightarrow> Some (None, s')
        | None \<Rightarrow> (case options_set_security sodium opt optval s of
            None \<Rightarrow> None
          | Some (Some s') \<Rightarrow> Some (None, s')
          | Some None \<Rightarrow> Some (Some EINVAL, s))))"

subsection \<open>Getting options\<close>

text \<open>What is written to a buffer of \<open>n\<close> bytes.\<close>

definition options_get_basic :: "int \<Rightarrow> nat \<Rightarrow> 'mask options_t \<Rightarrow> byte list option" where
  "options_get_basic opt n s =
     (if opt = ZMQ_SNDHWM \<and> n = 4 then Some (int_bytes (o_sndhwm s))
      else if opt = ZMQ_RCVHWM \<and> n = 4 then Some (int_bytes (o_rcvhwm s))
      else if opt = ZMQ_AFFINITY \<and> n = 8 then Some (rev (put_uint64 (o_affinity s)))
      else if opt = ZMQ_IDENTITY \<and> n \<ge> length (o_identity s) then Some (o_identity s)
      else if opt = ZMQ_RATE \<and> n = 4 then Some (int_bytes (o_rate s))
      else if opt = ZMQ_RECOVERY_IVL \<and> n = 4 then Some (int_bytes (o_recovery_ivl s))
      else if opt = ZMQ_SNDBUF \<and> n = 4 then Some (int_bytes (o_sndbuf s))
      else if opt = ZMQ_RCVBUF \<and> n = 4 then Some (int_bytes (o_rcvbuf s))
      else if opt = ZMQ_TYPE \<and> n = 4 then Some (int_bytes (o_type s))
      else if opt = ZMQ_LINGER \<and> n = 4 then Some (int_bytes (o_linger s))
      else if opt = ZMQ_RECONNECT_IVL \<and> n = 4 then Some (int_bytes (o_reconnect_ivl s))
      else if opt = ZMQ_RECONNECT_IVL_MAX \<and> n = 4 then Some (int_bytes (o_reconnect_ivl_max s))
      else if opt = ZMQ_BACKLOG \<and> n = 4 then Some (int_bytes (o_backlog s))
      else if opt = ZMQ_MAXMSGSIZE \<and> n = 8 then Some (int64_bytes (o_maxmsgsize s))
      else if opt = ZMQ_MULTICAST_HOPS \<and> n = 4 then Some (int_bytes (o_multicast_hops s))
      else if opt = ZMQ_RCVTIMEO \<and> n = 4 then Some (int_bytes (o_rcvtimeo s))
      else if opt = ZMQ_SNDTIMEO \<and> n = 4 then Some (int_bytes (o_sndtimeo s))
      else None)"

definition options_get_tcp :: "int \<Rightarrow> nat \<Rightarrow> 'mask options_t \<Rightarrow> byte list option" where
  "options_get_tcp opt n s =
     (if opt = ZMQ_IPV4ONLY \<and> n = 4 then Some (int_bytes (1 - of_bool (o_ipv6 s)))
      else if opt = ZMQ_IPV6 \<and> n = 4 then Some (int_bytes (of_bool (o_ipv6 s)))
      else if opt = ZMQ_IMMEDIATE \<and> n = 4 then Some (int_bytes (o_immediate s))
      else if opt = ZMQ_TCP_KEEPALIVE \<and> n = 4 then Some (int_bytes (o_tcp_keepalive s))
      else if opt = ZMQ_TCP_KEEPALIVE_CNT \<and> n = 4 then Some (int_bytes (o_tcp_keepalive_cnt s))
      else if opt = ZMQ_TCP_KEEPALIVE_IDLE \<and> n = 4 then Some (int_bytes (o_tcp_keepalive_idle s))
      else if opt = ZMQ_TCP_KEEPALIVE_INTVL \<and> n = 4 then Some (int_bytes (o_tcp_keepalive_intvl s))
      else None)"

text \<open>A key as it is, or as 40 characters and a zero.\<close>

definition get_curve_key :: "nat \<Rightarrow> blob_t \<Rightarrow> byte list option" where
  "get_curve_key n key =
     (if n = 32 then Some key
      else (case z85_encode key of Some (Inr t) \<Rightarrow> Some (map of_char t @ [0]) | _ \<Rightarrow> None))"

definition options_get_security :: "bool \<Rightarrow> int \<Rightarrow> nat \<Rightarrow> 'mask options_t \<Rightarrow> byte list option" where
  "options_get_security sodium opt n s =
     (if opt = ZMQ_MECHANISM \<and> n = 4 then Some (int_bytes (mechanism_int (o_mechanism s)))
      else if opt = ZMQ_PLAIN_SERVER \<and> n = 4 then Some (int_bytes (of_bool (o_as_server s \<noteq> 0 \<and> o_mechanism s = ZMQ_PLAIN)))
      else if opt = ZMQ_PLAIN_USERNAME \<and> n \<ge> length (o_plain_username s) + 1 then Some (o_plain_username s @ [0])
      else if opt = ZMQ_PLAIN_PASSWORD \<and> n \<ge> length (o_plain_password s) + 1 then Some (o_plain_password s @ [0])
      else if opt = ZMQ_ZAP_DOMAIN \<and> n \<ge> length (o_zap_domain s) + 1 then Some (o_zap_domain s @ [0])
      else if sodium \<and> opt = ZMQ_CURVE_SERVER \<and> n = 4 then Some (int_bytes (of_bool (o_as_server s \<noteq> 0 \<and> o_mechanism s = ZMQ_CURVE)))
      else if sodium \<and> opt = ZMQ_CURVE_PUBLICKEY \<and> n \<in> {32, 41} then get_curve_key n (o_curve_public_key s)
      else if sodium \<and> opt = ZMQ_CURVE_SECRETKEY \<and> n \<in> {32, 41} then get_curve_key n (o_curve_secret_key s)
      else if sodium \<and> opt = ZMQ_CURVE_SERVERKEY \<and> n \<in> {32, 41} then get_curve_key n (o_curve_server_key s)
      else if opt = ZMQ_CONFLATE \<and> n = 4 then Some (int_bytes (of_bool (o_conflate s)))
      else None)"

definition options_getsockopt :: "bool \<Rightarrow> int \<Rightarrow> nat \<Rightarrow> 'mask options_t \<Rightarrow> errno_t + byte list" where
  "options_getsockopt sodium opt n s =
     (case options_get_basic opt n s of
        Some v \<Rightarrow> Inr v
      | None \<Rightarrow> (case options_get_tcp opt n s of
          Some v \<Rightarrow> Inr v
        | None \<Rightarrow> (case options_get_security sodium opt n s of Some v \<Rightarrow> Inr v | None \<Rightarrow> Inl EINVAL)))"

subsection \<open>Well-typed options\<close>

definition is_c_int :: "int \<Rightarrow> bool" where
  "is_c_int i \<longleftrightarrow> -(2 ^ 31) \<le> i \<and> i < 2 ^ 31"

definition options_ok :: "'mask options_t \<Rightarrow> bool" where
  "options_ok s \<longleftrightarrow>
     (\<forall>i \<in> {o_sndhwm s, o_rcvhwm s, o_recovery_ivl s, o_sndbuf s, o_rcvbuf s, o_reconnect_ivl_max s, o_backlog s}. is_c_int i \<and> 0 \<le> i) \<and>
     (\<forall>i \<in> {o_rate s, o_multicast_hops s}. is_c_int i \<and> 0 < i) \<and>
     (\<forall>i \<in> {o_linger s, o_reconnect_ivl s, o_rcvtimeo s, o_sndtimeo s, o_tcp_keepalive_cnt s, o_tcp_keepalive_idle s, o_tcp_keepalive_intvl s}.
        is_c_int i \<and> -1 \<le> i) \<and>
     o_immediate s \<in> {0, 1} \<and> o_as_server s \<in> {0, 1} \<and> is_c_int (o_tcp_keepalive s) \<and>
     -(2 ^ 63) \<le> o_maxmsgsize s \<and> o_maxmsgsize s < 2 ^ 63 \<and>
     length (o_identity s) < 256 \<and> (o_identity s \<noteq> [] \<longrightarrow> o_identity s ! 0 \<noteq> 0) \<and>
     length (o_zap_domain s) < 256 \<and> length (o_plain_username s) < 256 \<and> length (o_plain_password s) < 256 \<and>
     length (o_curve_public_key s) = 32 \<and> length (o_curve_secret_key s) = 32 \<and> length (o_curve_server_key s) = 32"


lemma is_c_int_value: "is_c_int (int_value v)" "is_c_int (opt_value v)"
proof -
  have "- (2 ^ 31) \<le> sint w \<and> sint w < 2 ^ 31" for w :: uint32
    using sint_greater_eq [of w] sint_less [of w] by simp
  then show "is_c_int (int_value v)" "is_c_int (opt_value v)" by (simp_all add: is_c_int_def int_value_def opt_value_def)
qed

lemma is_c_int_consts [simp]: "is_c_int (-1)" "is_c_int 0" "is_c_int 1"
  by (simp_all add: is_c_int_def)

lemma int64_value_range: "- (2 ^ 63) \<le> int64_value v" "int64_value v < 2 ^ 63"
  using sint_greater_eq [of "get_uint64 (rev v)"] sint_less [of "get_uint64 (rev v)"] by (simp_all add: int64_value_def)

lemma set_curve_key_length:
  assumes "set_curve_key v key = Some k" and "length v \<in> {32, 40}" and "length key = 32"
  shows "length k = 32"
proof (cases "length v = 32")
  case False
  define t where "t = map (\<lambda>b. char_of (unat b) :: char) (takeWhile (\<lambda>b. b \<noteq> 0) v)"
  have l: "length t * 4 div 5 \<le> 32" using assms(2) False length_takeWhile_le [of "\<lambda>b. b \<noteq> 0" v] unfolding t_def by simp
  obtain r where r: "z85_decode t = Some r" "k = (case r of Inl _ \<Rightarrow> key | Inr d \<Rightarrow> d @ drop (length d) key)"
    using assms(1) False unfolding set_curve_key_def t_def by (auto split: Option.bind_splits)
  show ?thesis
  proof (cases r)
    case (Inr d)
    then have "length d = length t * 4 div 5" using r(1) by (auto simp: z85_decode_def split: if_splits Option.bind_splits)
    then show ?thesis using l r(2) Inr assms(3) by simp
  qed (use r assms(3) in simp)
qed (use assms in \<open>simp add: set_curve_key_def\<close>)

text \<open>The cases of a \<open>switch\<close>, without the negated conditions that a split would give.\<close>

lemma switch_elims:
  "(if c then a else b) = x \<Longrightarrow> (c \<Longrightarrow> a = x \<Longrightarrow> P) \<Longrightarrow> (b = x \<Longrightarrow> P) \<Longrightarrow> P"
  "Some y = Some z \<Longrightarrow> (y = z \<Longrightarrow> P) \<Longrightarrow> P"
  "None = Some z \<Longrightarrow> P" "Some None = Some (Some s) \<Longrightarrow> P"
  "do { t \<leftarrow> e; f t } = Some z \<Longrightarrow> (\<And>t. e = Some t \<Longrightarrow> f t = Some z \<Longrightarrow> P) \<Longrightarrow> P"
  "map_option g e = Some z \<Longrightarrow> (\<And>t. e = Some t \<Longrightarrow> z = g t \<Longrightarrow> P) \<Longrightarrow> P"
  by (auto split: if_splits Option.bind_splits)

lemma options_set_basic_ok: "options_ok s \<Longrightarrow> options_set_basic opt v s = Some s' \<Longrightarrow> options_ok s'"
  unfolding options_set_basic_def Let_def
  by (elim switch_elims conjE; hypsubst; simp add: options_ok_def is_c_int_value int64_value_range [simplified])

lemma options_set_tcp_ok: "options_ok s \<Longrightarrow> options_set_tcp resolve opt v s = Some s' \<Longrightarrow> options_ok s'"
  unfolding options_set_tcp_def Let_def
  apply (elim switch_elims conjE disjE)
  apply (hypsubst, simp add: options_ok_def is_c_int_value)+
  done

lemma options_set_security_ok: "options_ok s \<Longrightarrow> options_set_security sodium opt v s = Some (Some s') \<Longrightarrow> options_ok s'"
  unfolding options_set_security_def Let_def
  apply (elim switch_elims conjE disjE)
  apply (hypsubst, simp add: options_ok_def set_curve_key_length)+
  done

lemma options_setsockopt_cases:
  assumes "options_setsockopt sodium resolve opt v s = Some (e, s')"
  obtains (basic) "e = None" "options_set_basic opt (case v of None \<Rightarrow> [] | Some v \<Rightarrow> v) s = Some s'"
    | (tcp) "e = None" "options_set_tcp resolve opt v s = Some s'"
    | (security) "e = None" "options_set_security sodium opt v s = Some (Some s')"
    | (refused) "e = Some EINVAL" "s' = s"
  using assms by (auto simp: options_setsockopt_def split: option.splits)

lemma int_bytes_opt_value: "is_int v \<Longrightarrow> opt_value v = i \<Longrightarrow> int_bytes i = v"
  by (auto simp: opt_value_def int_bytes_value)

lemma get_set_basic:
  "options_set_basic opt v s = Some s' \<Longrightarrow> options_getsockopt sodium opt (length v) s' = Inr v"
  unfolding options_set_basic_def Let_def
  apply (elim switch_elims conjE; hypsubst)
  by (simp_all add: options_getsockopt_def options_get_basic_def is_int_def [symmetric] int_bytes_opt_value put_get_uint64 int64_bytes_value)

lemma get_set_tcp:
  "options_set_tcp resolve opt (Some v) s = Some s' \<Longrightarrow> opt \<noteq> ZMQ_TCP_ACCEPT_FILTER \<Longrightarrow> options_getsockopt sodium opt (length v) s' = Inr v"
  unfolding options_set_tcp_def Let_def option.case
  apply (elim switch_elims conjE; hypsubst)
  by (auto simp: options_getsockopt_def options_get_basic_def options_get_tcp_def is_int_def [symmetric] int_bytes_opt_value)

definition with_zero :: "int \<Rightarrow> byte list \<Rightarrow> byte list" where
  "with_zero opt v = (if opt \<in> {ZMQ_PLAIN_USERNAME, ZMQ_PLAIN_PASSWORD, ZMQ_ZAP_DOMAIN} then v @ [0] else v)"

lemma get_set_security:
  assumes "options_set_security sodium opt (Some v) s = Some (Some s')" 
    and "opt \<in> {ZMQ_CURVE_PUBLICKEY, ZMQ_CURVE_SECRETKEY, ZMQ_CURVE_SERVERKEY} \<longrightarrow> length v = 32"
  shows "options_getsockopt sodium opt (length (with_zero opt v)) s' = Inr (with_zero opt v)"
  using assms unfolding options_set_security_def Let_def option.case
  apply (elim switch_elims conjE disjE; hypsubst)
  apply (simp_all only: options_getsockopt_def options_get_basic_def options_get_tcp_def options_get_security_def option.inject list.distinct(1) if_False)
  apply (simp add: is_int_def [symmetric]
     int_bytes_opt_value with_zero_def set_curve_key_def get_curve_key_def)+
  done

lemma z85_text_bytes:
  assumes "z85_encode d = Some (Inr t)"
  shows "map (\<lambda>b. char_of (unat b)) (takeWhile (\<lambda>b. b \<noteq> 0) (map of_char t :: byte list)) = t"
proof -
  have "list_all (\<lambda>c. (of_char c :: byte) \<noteq> 0) z85_encoder" by (simp add: z85_encoder_def)
  then have nz: "(of_char c :: byte) \<noteq> 0" if "c \<in> set t" for c
    using that z85_encode_set [OF assms] unfolding list_all_iff by blast
  have "unat (of_char c :: byte) = of_char c" for c
    using unat_of_nat [where 'a = 8, of "of_char c"] nat_of_char_less_256 [of c] unfolding of_nat_of_char by simp
  then have "map (\<lambda>b. char_of (unat b)) (map of_char t :: byte list) = t" by (simp add: o_def)
  moreover have "takeWhile (\<lambda>b. b \<noteq> 0) (map of_char t :: byte list) = map of_char t" using nz by (subst takeWhile_eq_all_conv) auto
  ultimately show ?thesis by (simp only:)
qed

lemma set_curve_key_text:
  assumes "length k = 32" and "length key = 32"
  obtains t where "z85_encode k = Some (Inr t)" "length t = 40" "set_curve_key (map of_char t) key = Some k"
proof -
  obtain t where t: "z85_encode k = Some (Inr t)" "length t = 40" "z85_decode t = Some (Inr k)"
    using z85_roundtrip_ok [of k] assms(1) by auto
  have "set_curve_key (map of_char t) key = Some k"
    using t assms(2) \<open>length k = 32\<close> z85_text_bytes [OF t(1)] by (simp add: set_curve_key_def)
  with t show ?thesis by (blast intro: that)
qed

subsection \<open>Properties\<close>


lemma options_new_ok: "length k = 32 \<Longrightarrow> options_ok (options_new k)"
  by (simp add: options_ok_def options_new_def is_c_int_def)




text \<open>
  The check of \<open>ZMQ_TCP_KEEPALIVE\<close> accepts every value: \<open>value >= -1 || value <= 1\<close> is always true.
\<close>
theorem options_keepalive_unchecked:
  "options_setsockopt sodium resolve ZMQ_TCP_KEEPALIVE (Some (int_bytes i)) s =
     Some (None, s\<lparr>o_tcp_keepalive := int_value (int_bytes i)\<rparr>)"
proof -
  have "int_value (int_bytes i) \<ge> -1 \<or> int_value (int_bytes i) \<le> 1" by linarith
  then show ?thesis by (simp add: options_setsockopt_def options_set_basic_def options_set_tcp_def opt_value_def is_int_def)
qed

text \<open>A key set as text of 40 characters is the key that the text encodes, and can be read in both forms.\<close>

theorem options_key_as_text:
  assumes "length k = 32" and "options_ok s"
  shows "\<exists>t s'. z85_encode k = Some (Inr t) \<and>
    options_setsockopt True resolve ZMQ_CURVE_SERVERKEY (Some (map of_char t)) s = Some (None, s') \<and>
    o_curve_server_key s' = k \<and> options_getsockopt True ZMQ_CURVE_SERVERKEY 32 s' = Inr k \<and>
    options_getsockopt True ZMQ_CURVE_SERVERKEY 41 s' = Inr (map of_char t @ [0])"
proof -
  have "length (o_curve_server_key s) = 32" using assms(2) by (simp add: options_ok_def)
  then obtain t where t: "z85_encode k = Some (Inr t)" "length t = 40" "set_curve_key (map of_char t) (o_curve_server_key s) = Some k"
    using set_curve_key_text [OF assms(1)] by metis
  let ?s = "s\<lparr>o_curve_server_key := k, o_as_server := 0, o_mechanism := ZMQ_CURVE\<rparr>"
  have "options_setsockopt True resolve ZMQ_CURVE_SERVERKEY (Some (map of_char t)) s = Some (None, ?s)"
    using t by (simp add: options_setsockopt_def options_set_basic_def options_set_tcp_def options_set_security_def)
  moreover have "options_getsockopt True ZMQ_CURVE_SERVERKEY 32 ?s = Inr k"
    by (simp add: options_getsockopt_def options_get_basic_def options_get_tcp_def options_get_security_def get_curve_key_def)
  moreover have "options_getsockopt True ZMQ_CURVE_SERVERKEY 41 ?s = Inr (map of_char t @ [0])"
    using t(1) by (simp add: options_getsockopt_def options_get_basic_def options_get_tcp_def options_get_security_def get_curve_key_def)
  ultimately show ?thesis using t(1) by (intro exI conjI) simp_all
qed

end
