(* ===== verification/Round_Robin.thy ===== *)
theory Round_Robin
  imports Pipe_Array
begin

text \<open>
  What the fair queue (\<open>fq_t\<close>) and the load balancer (\<open>lb_t\<close>) have in common: an array of pipes
  whose first \<open>active\<close> entries are the active ones, the index of the current pipe and whether a
  multipart message is under way. The common code of their members is here; the rest is in
  theories Fq and Lb.
\<close>

record rr_t =
  rr_pipes :: arr_t
  rr_active :: nat
  rr_current :: nat
  rr_more :: bool

text \<open>\<open>activated\<close>: move the pipe to the list of active pipes.\<close>

definition rr_activated :: "addr \<Rightarrow> 'a rr_t_scheme \<Rightarrow> 'a rr_t_scheme option" where
  "rr_activated p r = do {
     A \<leftarrow> arr_swap (arr_index p (rr_pipes r)) (rr_active r) (rr_pipes r);
     Some (r\<lparr>rr_pipes := A, rr_active := rr_active r + 1\<rparr>)
   }"

text \<open>The end of \<open>pipe_terminated\<close>: remove the pipe and adjust the number of active pipes.\<close>

definition rr_remove :: "addr \<Rightarrow> 'a rr_t_scheme \<Rightarrow> 'a rr_t_scheme option" where
  "rr_remove p r = do {
     r \<leftarrow> (if arr_index p (rr_pipes r) < rr_active r then do {
             let n = rr_active r - 1;
             A \<leftarrow> arr_swap (arr_index p (rr_pipes r)) n (rr_pipes r);
             Some (r\<lparr>rr_pipes := A, rr_active := n, rr_current := (if rr_current r = n then 0 else rr_current r)\<rparr>)
           }
           else Some r);
     A \<leftarrow> arr_erase p (rr_pipes r);
     Some (r\<lparr>rr_pipes := A\<rparr>)
   }"

text \<open>The end of the loops: the current pipe has nothing to offer and is replaced by another.\<close>

definition rr_deactivate :: "'a rr_t_scheme \<Rightarrow> 'a rr_t_scheme option" where
  "rr_deactivate r = do {
     let n = rr_active r - 1;
     A \<leftarrow> arr_swap (rr_current r) n (rr_pipes r);
     Some (r\<lparr>rr_pipes := A, rr_active := n, rr_current := (if rr_current r = n then 0 else rr_current r)\<rparr>)
   }"

subsection \<open>Invariant\<close>

definition rr_ok :: "'a rr_t_scheme \<Rightarrow> bool" where
  "rr_ok r \<longleftrightarrow> arr_ok (rr_pipes r) \<and> rr_active r \<le> length (items (rr_pipes r)) \<and>
     (rr_current r < rr_active r \<or> rr_current r = 0)"

definition rr_all :: "'a rr_t_scheme \<Rightarrow> addr set" where
  "rr_all r = set (items (rr_pipes r))"

definition rr_actives :: "'a rr_t_scheme \<Rightarrow> addr set" where
  "rr_actives r = set (take (rr_active r) (items (rr_pipes r)))"

definition rr_cur :: "'a rr_t_scheme \<Rightarrow> addr" where
  "rr_cur r = items (rr_pipes r) ! rr_current r"

lemma rr_actives_sub: "rr_actives r \<subseteq> rr_all r"
  by (auto simp: rr_actives_def rr_all_def dest: in_set_takeD)

lemma rr_active_empty: "rr_ok r \<Longrightarrow> rr_active r = 0 \<longleftrightarrow> rr_actives r = {}"
  by (auto simp: rr_ok_def rr_actives_def)

lemma rr_card: "rr_ok r \<Longrightarrow> card (rr_actives r) = rr_active r"
  by (auto simp: rr_ok_def rr_actives_def arr_ok_def distinct_card distinct_take)

lemma rr_cur_active: "rr_ok r \<Longrightarrow> 0 < rr_active r \<Longrightarrow> rr_cur r \<in> rr_actives r"
  by (auto simp: rr_ok_def rr_actives_def rr_cur_def in_set_conv_nth)

text \<open>A pipe is active exactly when its index is below the border.\<close>

lemma rr_index_active:
  assumes "rr_ok r" and "p \<in> rr_all r"
  shows "arr_index p (rr_pipes r) < rr_active r \<longleftrightarrow> p \<in> rr_actives r"
proof
  have i: "arr_index p (rr_pipes r) < length (items (rr_pipes r))" "items (rr_pipes r) ! arr_index p (rr_pipes r) = p"
    using assms arr_index_ok [of "rr_pipes r" p] by (auto simp: rr_ok_def rr_all_def)
  show "arr_index p (rr_pipes r) < rr_active r \<Longrightarrow> p \<in> rr_actives r"
    using i by (auto simp: rr_actives_def in_set_conv_nth)
  assume "p \<in> rr_actives r"
  then obtain k where "k < rr_active r" "k < length (items (rr_pipes r))" "p = items (rr_pipes r) ! k"
    by (auto simp: rr_actives_def in_set_conv_nth)
  then show "arr_index p (rr_pipes r) < rr_active r" using assms(1) by (simp add: rr_ok_def)
qed

text \<open>Only the array, the border and the current index change.\<close>

definition rr_like :: "'a rr_t_scheme \<Rightarrow> 'a rr_t_scheme \<Rightarrow> bool" where
  "rr_like r r' \<longleftrightarrow> rr_more r' = rr_more r \<and> rr_t.more r' = rr_t.more r"

lemma rr_like_simps [simp]:
  "rr_like r r" "rr_like r (s\<lparr>rr_pipes := A\<rparr>) = rr_like r s" "rr_like r (s\<lparr>rr_active := n\<rparr>) = rr_like r s"
  "rr_like r (s\<lparr>rr_current := c\<rparr>) = rr_like r s"
  by (simp_all add: rr_like_def)

lemma rr_like_trans: "rr_like r s \<Longrightarrow> rr_like s t \<Longrightarrow> rr_like r t"
  by (simp add: rr_like_def)

lemma rr_activated_ok:
  assumes "rr_ok r" and "p \<in> rr_all r" and "p \<notin> rr_actives r"
  shows "\<exists>r'. rr_activated p r = Some r' \<and> rr_ok r' \<and> rr_like r r' \<and> rr_all r' = rr_all r \<and>
    rr_actives r' = insert p (rr_actives r) \<and> rr_current r' = rr_current r \<and> (0 < rr_active r \<longrightarrow> rr_cur r' = rr_cur r)"
proof -
  let ?A = "rr_pipes r" and ?n = "rr_active r"
  let ?i = "arr_index p ?A"
  have A: "arr_ok ?A" "?n \<le> length (items ?A)" using assms(1) by (auto simp: rr_ok_def)
  have i: "?i < length (items ?A)" "items ?A ! ?i = p" using arr_index_ok [OF A(1), of p] assms(2) by (auto simp: rr_all_def)
  have n: "?n \<le> ?i" using rr_index_active [OF assms(1,2)] assms(3) by simp
  then obtain A' where A': "arr_swap ?i ?n ?A = Some A'" "arr_ok A'" "items A' = swapped ?i ?n (items ?A)"
    using arr_swap_ok [OF A(1) i(1), of ?n] i(1) by auto
  let ?r = "r\<lparr>rr_pipes := A', rr_active := ?n + 1\<rparr>"
  have "rr_activated p r = Some ?r" using A'(1) by (simp add: rr_activated_def)
  moreover have "rr_ok ?r" using assms(1) A' i(1) n by (auto simp: rr_ok_def)
  moreover have "rr_all ?r = rr_all r" using A'(3) i(1) n by (simp add: rr_all_def)
  moreover have "rr_actives ?r = insert p (rr_actives r)"
    using set_take_activate [OF n i(1)] i(2) A'(3) by (simp add: rr_actives_def)
  moreover have "rr_cur ?r = rr_cur r" if "0 < ?n"
    
  proof -
    have "rr_current r < ?n" using assms(1) that by (auto simp: rr_ok_def)
    then show ?thesis using n i(1) A'(3) swapped_nth [OF i(1), of ?n "rr_current r"] by (simp add: rr_cur_def)
  qed
  ultimately show ?thesis by (intro exI [of _ ?r]) simp
qed

lemma rr_deactivate_ok:
  assumes "rr_ok r" and "0 < rr_active r"
  shows "\<exists>r'. rr_deactivate r = Some r' \<and> rr_ok r' \<and> rr_like r r' \<and> rr_all r' = rr_all r \<and>
    rr_actives r' = rr_actives r - {rr_cur r} \<and> rr_active r' = rr_active r - 1"
proof -
  let ?A = "rr_pipes r" and ?n = "rr_active r - 1"
  have A: "arr_ok ?A" "?n < length (items ?A)" "rr_current r \<le> ?n" using assms by (auto simp: rr_ok_def)
  then obtain A' where A': "arr_swap (rr_current r) ?n ?A = Some A'" "arr_ok A'" "items A' = swapped (rr_current r) ?n (items ?A)"
    using arr_swap_ok [OF A(1), of "rr_current r" ?n] by auto
  let ?r = "r\<lparr>rr_pipes := A', rr_active := ?n, rr_current := (if rr_current r = ?n then 0 else rr_current r)\<rparr>"
  have "rr_deactivate r = Some ?r" using A'(1) by (simp add: rr_deactivate_def Let_def)
  moreover have "rr_ok ?r" using assms A A' by (auto simp: rr_ok_def)
  moreover have "rr_all ?r = rr_all r" using A'(3) A by (simp add: rr_all_def)
  moreover have "rr_actives ?r = rr_actives r - {rr_cur r}"
    using set_take_deactivate [of "rr_current r" ?n "items ?A"] A A'(3) assms(2) by (simp add: rr_actives_def rr_cur_def arr_ok_def)
  ultimately show ?thesis by (intro exI [of _ ?r]) simp
qed

lemma rr_remove_ok:
  assumes "rr_ok r" and "p \<in> rr_all r"
  shows "\<exists>r'. rr_remove p r = Some r' \<and> rr_ok r' \<and> rr_like r r' \<and> rr_all r' = rr_all r - {p} \<and> rr_actives r' = rr_actives r - {p}"
proof -
  let ?A = "rr_pipes r" and ?i = "arr_index p (rr_pipes r)"
  have A: "arr_ok ?A" "rr_active r \<le> length (items ?A)" "p \<in> set (items ?A)" using assms by (auto simp: rr_ok_def rr_all_def)
  have i: "?i < length (items ?A)" "items ?A ! ?i = p" using arr_index_ok [OF A(1,3)] by simp_all
  show ?thesis
  proof (cases "?i < rr_active r")
    case True
    let ?n = "rr_active r - 1" and ?c = "if rr_current r = rr_active r - 1 then 0 else rr_current r"
    have n: "?i \<le> ?n" "?n < length (items ?A)" using True A(2) by auto
    obtain A1 where A1: "arr_swap ?i ?n ?A = Some A1" "arr_ok A1" "items A1 = swapped ?i ?n (items ?A)"
      using arr_swap_ok [OF A(1) i(1) n(2)] by blast
    have p1: "p \<in> set (items A1)" "arr_index p A1 = ?n"
      using A(3) A1(2,3) i n arr_index_nth [OF A1(2), of ?n] by (auto simp: swapped_nth)
    obtain A2 where A2: "arr_erase p A1 = Some A2" "arr_ok A2" "set (items A2) = set (items A1) - {p}"
      "items A2 = butlast ((items A1)[?n := last (items A1)])" using arr_erase_ok [OF A1(2) p1(1)] p1(2) by auto
    let ?r = "r\<lparr>rr_pipes := A2, rr_active := ?n, rr_current := ?c\<rparr>"
    have "take ?n (items A2) = take ?n (items A1)" using A2(4) A1(3) n(2) by (simp add: take_butlast_update)
    then have act: "rr_actives ?r = rr_actives r - {p}"
      using set_take_deactivate [OF n] A(1) A1(3) i(2) True by (simp add: rr_actives_def arr_ok_def)
    have "rr_remove p r = Some ?r" using True A1(1) A2(1) by (simp add: rr_remove_def Let_def)
    moreover have "rr_ok ?r" using A2(2,4) A1(3) n(2) assms(1) True by (auto simp: rr_ok_def)
    moreover have "rr_all ?r = rr_all r - {p}" using A2(3) A1(3) i(1) n(2) by (simp add: rr_all_def)
    ultimately show ?thesis using act by (intro exI [of _ ?r]) simp
  next
    case False
    obtain A2 where A2: "arr_erase p ?A = Some A2" "arr_ok A2" "set (items A2) = set (items ?A) - {p}"
      "items A2 = butlast ((items ?A)[?i := last (items ?A)])" using arr_erase_ok [OF A(1,3)] by auto
    let ?r = "r\<lparr>rr_pipes := A2\<rparr>"
    have "take (rr_active r) (items A2) = take (rr_active r) (items ?A)" using A2(4) False i(1) by (simp add: take_butlast_update)
    then have "rr_actives ?r = rr_actives r" by (simp add: rr_actives_def)
    moreover have "p \<notin> rr_actives r" using False rr_index_active [OF assms] by simp
    moreover have "rr_remove p r = Some ?r" using False A2(1) by (simp add: rr_remove_def)
    moreover have "rr_ok ?r" using A2(2,4) assms(1) False i(1) by (auto simp: rr_ok_def)
    moreover have "rr_all ?r = rr_all r - {p}" using A2(3) by (simp add: rr_all_def)
    ultimately show ?thesis by (intro exI [of _ ?r]) simp
  qed
qed

end
