(* ===== verification/Fq.thy ===== *)
theory Fq
  imports Round_Robin Pipe_Interface
begin

text \<open>
  The fair queue \<open>fq_t\<close> (\<^verbatim>\<open>src/fq.cpp\<close>): messages are read from the active pipes in turn, the parts
  of a multipart message from one pipe. \<open>rd\<close> is \<open>pipe_t::read\<close>, \<open>cr\<close> is \<open>pipe_t::check_read\<close>; the
  state \<open>w\<close> of the pipes is threaded through them.
\<close>

type_synonym fq_t = rr_t

definition fq_new :: fq_t where
  "fq_new = \<lparr>rr_pipes = \<lparr>items = [], array_index = (\<lambda>_. 0)\<rparr>, rr_active = 0, rr_current = 0, rr_more = False\<rparr>"

definition fq_destroy :: "fq_t \<Rightarrow> unit option" where
  "fq_destroy r = zmq_assert (items (rr_pipes r) = [])"

definition fq_attach :: "addr \<Rightarrow> fq_t \<Rightarrow> fq_t option" where
  "fq_attach p r = do {
     let A = arr_push_back p (rr_pipes r);
     A \<leftarrow> arr_swap (rr_active r) (length (items A) - 1) A;
     Some (r\<lparr>rr_pipes := A, rr_active := rr_active r + 1\<rparr>)
   }"

definition fq_pipe_terminated :: "addr \<Rightarrow> fq_t \<Rightarrow> fq_t option" where
  "fq_pipe_terminated p r = rr_remove p r"

definition fq_activated :: "addr \<Rightarrow> fq_t \<Rightarrow> fq_t option" where
  "fq_activated p r = rr_activated p r"

text \<open>The loop of \<open>recvpipe\<close>: the message and its pipe, or nothing when no pipe is active any more.\<close>

partial_function (option) fq_loop ::
  "'w pipe_reader \<Rightarrow> fq_t \<Rightarrow> 'w \<Rightarrow> ((addr \<times> msg_t) option \<times> fq_t \<times> 'w) option" where
  "fq_loop rd r w =
     (if rr_active r = 0 then Some (None, r, w)
      else (case arr_get (rr_current r) (rr_pipes r) of
          None \<Rightarrow> None
        | Some p \<Rightarrow> (case rd p w of
              None \<Rightarrow> None
            | Some (Some m, w) \<Rightarrow>
                Some (Some (p, m), r\<lparr>rr_more := msg_more m,
                  rr_current := (if msg_more m then rr_current r else (rr_current r + 1) mod rr_active r)\<rparr>, w)
            | Some (None, w) \<Rightarrow>
                if rr_more r then None
                else (case rr_deactivate r of None \<Rightarrow> None | Some r \<Rightarrow> fq_loop rd r w))))"

text \<open>
  \<open>recvpipe\<close>: \<open>cl\<close> closes the old content of the message handle \<open>old\<close>. The result is the error, the
  message and the pipe it came from.
\<close>

definition fq_recvpipe ::
  "'w pipe_reader \<Rightarrow> (msg_t \<Rightarrow> 'w \<Rightarrow> 'w option) \<Rightarrow> msg_t \<Rightarrow> fq_t \<Rightarrow> 'w \<Rightarrow>
   (errno_t option \<times> msg_t \<times> addr option \<times> fq_t \<times> 'w) option" where
  "fq_recvpipe rd cl old r w = do {
     w \<leftarrow> cl old w;
     (res, r, w) \<leftarrow> fq_loop rd r w;
     Some (case res of
         Some (p, m) \<Rightarrow> (None, m, Some p, r, w)
       | None \<Rightarrow> (Some EAGAIN, msg_init, None, r, w))
   }"

definition fq_recv ::
  "'w pipe_reader \<Rightarrow> (msg_t \<Rightarrow> 'w \<Rightarrow> 'w option) \<Rightarrow> msg_t \<Rightarrow> fq_t \<Rightarrow> 'w \<Rightarrow> (errno_t option \<times> msg_t \<times> fq_t \<times> 'w) option" where
  "fq_recv rd cl old r w = do {
     (rc, m, _, r, w) \<leftarrow> fq_recvpipe rd cl old r w;
     Some (rc, m, r, w)
   }"

partial_function (option) fq_has_in_loop ::
  "(addr \<Rightarrow> 'w \<Rightarrow> (bool \<times> 'w) option) \<Rightarrow> fq_t \<Rightarrow> 'w \<Rightarrow> (bool \<times> fq_t \<times> 'w) option" where
  "fq_has_in_loop cr r w =
     (if rr_active r = 0 then Some (False, r, w)
      else (case arr_get (rr_current r) (rr_pipes r) of
          None \<Rightarrow> None
        | Some p \<Rightarrow> (case cr p w of
              None \<Rightarrow> None
            | Some (ok, w) \<Rightarrow>
                if ok then Some (True, r, w)
                else (case rr_deactivate r of None \<Rightarrow> None | Some r \<Rightarrow> fq_has_in_loop cr r w))))"

definition fq_has_in :: "(addr \<Rightarrow> 'w \<Rightarrow> (bool \<times> 'w) option) \<Rightarrow> fq_t \<Rightarrow> 'w \<Rightarrow> (bool \<times> fq_t \<times> 'w) option" where
  "fq_has_in cr r w = (if rr_more r then Some (True, r, w) else fq_has_in_loop cr r w)"

subsection \<open>Attaching\<close>

lemma fq_attach_ok:
  assumes "rr_ok r" and "p \<notin> rr_all r"
  shows "\<exists>r'. fq_attach p r = Some r' \<and> rr_ok r' \<and> rr_like r r' \<and> rr_all r' = insert p (rr_all r) \<and>
    rr_actives r' = insert p (rr_actives r)"
proof -
  let ?A = "arr_push_back p (rr_pipes r)" and ?n = "rr_active r" and ?l = "length (items (rr_pipes r))"
  have A: "arr_ok ?A" "items ?A = items (rr_pipes r) @ [p]" "?n \<le> ?l"
    using arr_push_back_ok [of "rr_pipes r" p] assms by (auto simp: rr_ok_def rr_all_def)
  obtain A' where A': "arr_swap ?n ?l ?A = Some A'" "arr_ok A'" "items A' = swapped ?n ?l (items ?A)"
    using arr_swap_ok [OF A(1), of ?n ?l] A(2,3) by auto
  let ?r = "r\<lparr>rr_pipes := A', rr_active := ?n + 1\<rparr>"
  have "fq_attach p r = Some ?r" using A'(1) A(2) by (simp add: fq_attach_def Let_def)
  moreover have "rr_ok ?r" using A' A assms(1) by (auto simp: rr_ok_def)
  moreover have "rr_all ?r = insert p (rr_all r)" using A'(3) A(2,3) by (simp add: rr_all_def)
  moreover have "rr_actives ?r = insert p (rr_actives r)"
    using set_take_activate [OF A(3), of "items ?A"] A'(3) [unfolded swapped_commute [of ?n ?l]] A(2,3) by (simp add: rr_actives_def nth_append)
  ultimately show ?thesis by (intro exI [of _ ?r]) simp
qed

subsection \<open>Receiving\<close>

text \<open>The active pipe at distance \<open>i\<close> from the current one.\<close>

definition rr_at :: "fq_t \<Rightarrow> nat \<Rightarrow> addr" where
  "rr_at r i = items (rr_pipes r) ! ((rr_current r + i) mod rr_active r)"

lemma rr_at_active: "rr_ok r \<Longrightarrow> 0 < rr_active r \<Longrightarrow> rr_at r i \<in> rr_actives r"
  unfolding rr_at_def rr_actives_def rr_ok_def by (auto simp: in_set_conv_nth intro!: exI [of _ "(rr_current r + i) mod rr_active r"])

lemma mod_shift_le:
  assumes "(c + i) mod n = (c + j) mod n" and "i \<le> j" and "j < n"
  shows "i = (j :: nat)"
proof -
  have "n dvd (c + j) - (c + i)" using assms(1,2) by (subst mod_eq_dvd_iff_nat [symmetric]) simp_all
  then have "n dvd j - i" by simp
  then show ?thesis using assms(2,3) nat_dvd_not_less [of "j - i" n] by (cases "i = j") auto
qed

lemma mod_shift_inj: "(c + i) mod n = (c + j) mod n \<Longrightarrow> i < n \<Longrightarrow> j < n \<Longrightarrow> i = (j :: nat)"
  using mod_shift_le [of c i n j] mod_shift_le [of c j n i] by (cases "i \<le> j") simp_all

lemma rr_at_inj:
  assumes "rr_ok r" and "rr_at r i = rr_at r j" and "i < rr_active r" and "j < rr_active r"
  shows "i = j"
proof -
  let ?n = "rr_active r"
  have d: "distinct (items (rr_pipes r))" and n: "?n \<le> length (items (rr_pipes r))" using assms(1) by (auto simp: rr_ok_def arr_ok_def)
  have "k mod ?n < length (items (rr_pipes r))" for k using n mod_less_divisor [of ?n k] assms(3) by linarith
  then have "(rr_current r + i) mod ?n = (rr_current r + j) mod ?n"
    using assms(2) nth_eq_iff_index_eq [OF d] unfolding rr_at_def by blast
  then show ?thesis using mod_shift_inj assms(3,4) by blast
qed

lemma rr_at_onto:
  assumes "rr_ok r" and "0 < rr_active r" and "p \<in> rr_actives r"
  shows "\<exists>i < rr_active r. rr_at r i = p"
proof -
  have "inj_on (rr_at r) {..<rr_active r}" using rr_at_inj [OF assms(1)] by (auto simp: inj_on_def)
  then have "card (rr_at r ` {..<rr_active r}) = card (rr_actives r)" using rr_card [OF assms(1)] by (simp add: card_image)
  moreover have "rr_at r ` {..<rr_active r} \<subseteq> rr_actives r" using rr_at_active [OF assms(1,2)] by auto
  ultimately have "rr_at r ` {..<rr_active r} = rr_actives r" by (intro card_subset_eq) (simp_all add: rr_actives_def)
  then show ?thesis using assms(3) by (force simp: image_iff)
qed

lemma arr_get_cur: "rr_ok r \<Longrightarrow> 0 < rr_active r \<Longrightarrow> arr_get (rr_current r) (rr_pipes r) = Some (rr_cur r)"
  by (auto simp: arr_get_def rr_cur_def rr_ok_def)

definition fq_advance :: "msg_t \<Rightarrow> fq_t \<Rightarrow> fq_t" where
  "fq_advance m r = r\<lparr>rr_more := msg_more m,
     rr_current := (if msg_more m then rr_current r else (rr_current r + 1) mod rr_active r)\<rparr>"

lemma fq_advance_ok:
  assumes "rr_ok r" and "0 < rr_active r"
  shows "rr_ok (fq_advance m r)" "rr_all (fq_advance m r) = rr_all r" "rr_actives (fq_advance m r) = rr_actives r"
    "rr_active (fq_advance m r) = rr_active r" "rr_pipes (fq_advance m r) = rr_pipes r"
    "rr_more (fq_advance m r) = msg_more m" "msg_more m \<Longrightarrow> rr_cur (fq_advance m r) = rr_cur r"
  using assms by (auto simp: fq_advance_def rr_ok_def rr_all_def rr_actives_def rr_cur_def)

text \<open>A sequence of receives.\<close>

fun fq_recv_many :: "'w pipe_reader \<Rightarrow> nat \<Rightarrow> fq_t \<Rightarrow> 'w \<Rightarrow> ((addr \<times> msg_t) option list \<times> fq_t \<times> 'w) option" where
  "fq_recv_many rd 0 r w = Some ([], r, w)"
| "fq_recv_many rd (Suc n) r w = do {
     (x, r, w) \<leftarrow> fq_loop rd r w;
     (xs, r, w) \<leftarrow> fq_recv_many rd n r w;
     Some (x # xs, r, w)
   }"

context message_source
begin

lemma fq_loop_some:
  assumes "rr_ok r" and "0 < rr_active r" and "has w (rr_cur r) (m # ms)"
  shows "\<exists>w'. fq_loop rd r w = Some (Some (rr_cur r, m), fq_advance m r, w') \<and> has w' (rr_cur r) ms \<and>
    (\<forall>q xs. q \<noteq> rr_cur r \<longrightarrow> has w q xs \<longrightarrow> has w' q xs) \<and> hp w' = hp w"
proof -
  obtain w' where w': "rd (rr_cur r) w = Some (Some m, w')" "has w' (rr_cur r) ms" "\<forall>q xs. q \<noteq> rr_cur r \<longrightarrow> has w q xs \<longrightarrow> has w' q xs"
    "hp w' = hp w"
    using rd_some [OF assms(3)] by blast
  then have "fq_loop rd r w = Some (Some (rr_cur r, m), fq_advance m r, w')"
    using assms(2) arr_get_cur [OF assms(1,2)] by (subst fq_loop.simps) (simp add: fq_advance_def)
  then show ?thesis using w' by blast
qed

text \<open>
  The loop returns. Either a message of an active pipe, and the pipes that were passed over had
  none, or none of the active pipes had a message and none is active any more.
\<close>

lemma fq_loop_total:
  assumes "rr_ok r" and "\<forall>p \<in> rr_actives r. has w p (qs p)" and "rr_more r \<longrightarrow> 0 < rr_active r \<and> qs (rr_cur r) \<noteq> []"
  shows "\<exists>res r' w'. fq_loop rd r w = Some (res, r', w') \<and> rr_ok r' \<and> rr_all r' = rr_all r \<and> rr_actives r' \<subseteq> rr_actives r \<and>
    (\<forall>p \<in> rr_actives r - rr_actives r'. qs p = []) \<and> (res = None \<longrightarrow> rr_actives r' = {}) \<and>
    (\<forall>p m. res = Some (p, m) \<longrightarrow> p \<in> rr_actives r' \<and> qs p \<noteq> [] \<and> m = hd (qs p) \<and> has w' p (tl (qs p)) \<and>
       rr_more r' = msg_more m \<and> (msg_more m \<longrightarrow> rr_cur r' = p) \<and> (rr_more r \<longrightarrow> p = rr_cur r)) \<and>
    (\<forall>q xs. has w q xs \<longrightarrow> q \<notin> fst ` set_option res \<longrightarrow> has w' q xs) \<and> hp w' = hp w \<and> (res = None \<longrightarrow> rr_more r' = rr_more r)"
  using assms
proof (induction "rr_active r" arbitrary: r w)
  case 0
  then have "rr_actives r = {}" using rr_active_empty [of r] by simp
  then show ?case using 0 by (subst fq_loop.simps) auto
next
  case (Suc n)
  then have pos: "0 < rr_active r" by simp
  let ?p = "rr_cur r"
  have p: "?p \<in> rr_actives r" using rr_cur_active [OF Suc.prems(1) pos] .
  then have hasp: "has w ?p (qs ?p)" using Suc.prems(2) by blast
  show ?case
  proof (cases "qs ?p")
    case (Cons m ms)
    then obtain w' where w': "fq_loop rd r w = Some (Some (?p, m), fq_advance m r, w')" "has w' ?p ms"
      "\<forall>q xs. q \<noteq> ?p \<longrightarrow> has w q xs \<longrightarrow> has w' q xs" "hp w' = hp w"
      using fq_loop_some [OF Suc.prems(1) pos hasp [unfolded Cons]] by blast
    then show ?thesis using fq_advance_ok [OF Suc.prems(1) pos, of m] p Cons by auto
  next
    case Nil
    then have nomore: "\<not> rr_more r" using Suc.prems(3) by auto
    obtain w' where w': "rd ?p w = Some (None, w')" "\<forall>q xs. q \<noteq> ?p \<longrightarrow> has w q xs \<longrightarrow> has w' q xs" "has w' ?p []" "hp w' = hp w"
      using rd_none hasp Nil by metis
    have keep: "has w' q xs" if "has w q xs" for q xs
    proof (cases "q = ?p")
      case True
      then have "xs = []" using that rd_some [of w ?p] w'(1) by (cases xs) fastforce+
      then show ?thesis using True w'(3) by simp
    qed (use that w'(2) in blast)
    obtain r' where r': "rr_deactivate r = Some r'" "rr_ok r'" "rr_like r r'" "rr_all r' = rr_all r"
      "rr_actives r' = rr_actives r - {?p}" "rr_active r' = rr_active r - 1" using rr_deactivate_ok [OF Suc.prems(1) pos] by blast
    have loop: "fq_loop rd r w = fq_loop rd r' w'"
      using pos arr_get_cur [OF Suc.prems(1) pos] w'(1) nomore r'(1) by (subst fq_loop.simps) simp
    have "n = rr_active r'" "\<forall>p \<in> rr_actives r'. has w' p (qs p)" "rr_more r' \<longrightarrow> 0 < rr_active r' \<and> qs (rr_cur r') \<noteq> []"
      using Suc.hyps(2) Suc.prems(2) r' w'(2) nomore by (auto simp: rr_like_def)
    from Suc.hyps(1) [OF this(1) r'(2) this(2,3)] show ?thesis
      unfolding loop r'(4) r'(5) using Nil nomore keep w'(4) r'(3) by (elim exE conjE) (intro exI conjI, assumption, auto simp: rr_like_def)
  qed
qed

text \<open>
  \<open>k\<close> receives, of which the pipe at distance \<open>i\<close> from the current one gets every \<open>rr_active\<close>-th, if it has
  that many messages.
\<close>

lemma fq_rounds_aux:
  assumes "rr_ok r" and "0 < rr_active r"
    and "\<forall>i < rr_active r. has w (rr_at r i) (qs (rr_at r i)) \<and> k \<le> i + rr_active r * length (qs (rr_at r i)) \<and> (\<forall>m \<in> set (qs (rr_at r i)). \<not> msg_more m)"
  shows "\<exists>rs r' w'. fq_recv_many rd k r w = Some (map Some rs, r', w') \<and> map fst rs = map (rr_at r) [0..<k] \<and>
    (\<forall>i < rr_active r. map snd (filter (\<lambda>x. fst x = rr_at r i) rs) = take ((k + rr_active r - 1 - i) div rr_active r) (qs (rr_at r i)))"
  using assms
proof (induction k arbitrary: r w qs)
  case 0
  have "(rr_active r - 1 - i) div rr_active r = 0" for i using 0(2) by (intro div_less) simp
  then show ?case by simp
next
  case (Suc k)
  let ?p = "rr_cur r" and ?n = "rr_active r"
  have at0: "rr_at r 0 = ?p" using Suc.prems(1,2) by (auto simp: rr_at_def rr_cur_def rr_ok_def)
  then obtain m ms where q: "qs ?p = m # ms" using Suc.prems(2) Suc.prems(3) [rule_format, of 0] by (cases "qs ?p") auto
  have hasp: "has w ?p (m # ms)" and nm: "\<not> msg_more m" and len: "Suc k \<le> ?n * Suc (length ms)"
    using Suc.prems(2) Suc.prems(3) [rule_format, of 0] q at0 by auto
  obtain w' where w': "fq_loop rd r w = Some (Some (?p, m), fq_advance m r, w')" "has w' ?p ms"
    "\<forall>q xs. q \<noteq> ?p \<longrightarrow> has w q xs \<longrightarrow> has w' q xs" using fq_loop_some [OF Suc.prems(1,2) hasp] by blast
  let ?r = "fq_advance m r" and ?qs = "qs(?p := ms)"
  note adv = fq_advance_ok [OF Suc.prems(1,2), of m]
  have at: "rr_at ?r i = rr_at r (Suc i)" for i
    using nm adv(4,5) by (simp add: rr_at_def fq_advance_def mod_add_left_eq)
  have wrap: "rr_at r (Suc (?n - 1)) = ?p" using Suc.prems(2) at0 by (simp add: rr_at_def)
  have ne: "rr_at r (Suc i) \<noteq> ?p" if "Suc i < ?n" for i using rr_at_inj [OF Suc.prems(1), of "Suc i" 0] that at0 by auto
  have next_ok: "has w' (rr_at ?r i) (?qs (rr_at ?r i)) \<and> k \<le> i + ?n * length (?qs (rr_at ?r i)) \<and> (\<forall>m \<in> set (?qs (rr_at ?r i)). \<not> msg_more m)"
    if i: "i < ?n" for i
  proof (cases "Suc i < ?n")
    case True
    then show ?thesis using Suc.prems(3) [rule_format, OF True] ne [OF True] w'(3) by (simp add: at)
  next
    case False
    then have e: "i = ?n - 1" using i by simp
    show ?thesis using Suc.prems(3) [rule_format, of 0] Suc.prems(2) at0 q w'(2) len unfolding e at wrap by auto
  qed
  obtain rs r' w'' where rs: "fq_recv_many rd k ?r w' = Some (map Some rs, r', w'')" "map fst rs = map (rr_at ?r) [0..<k]"
    "\<forall>i < ?n. map snd (filter (\<lambda>x. fst x = rr_at ?r i) rs) = take ((k + ?n - 1 - i) div ?n) (?qs (rr_at ?r i))"
    using Suc.IH [of ?r w' ?qs] adv(1,4) Suc.prems(2) next_ok by auto
  have "map fst ((?p, m) # rs) = map (rr_at r) [0..<Suc k]"
    unfolding upt_conv_Cons [OF zero_less_Suc] map_Suc_upt [symmetric] list.map rs(2) using at0 by (simp add: at)
  moreover have "map snd (filter (\<lambda>x. fst x = rr_at r i) ((?p, m) # rs)) = take ((Suc k + ?n - 1 - i) div ?n) (qs (rr_at r i))"
    if i: "i < ?n" for i
  proof (cases i)
    case 0
    have "(Suc k + ?n - 1) div ?n = Suc ((k + ?n - 1 - (?n - 1)) div ?n)" using Suc.prems(2) by (simp add: div_add_self2)
    moreover have "map snd (filter (\<lambda>x. fst x = ?p) rs) = take ((k + ?n - 1 - (?n - 1)) div ?n) ms"
      using rs(3) [rule_format, of "?n - 1"] Suc.prems(2) unfolding at wrap by simp
    ultimately show ?thesis using 0 at0 q by simp
  next
    case (Suc i')
    have "map snd (filter (\<lambda>x. fst x = rr_at r i) rs) = take ((k + ?n - 1 - i') div ?n) (qs (rr_at r i))"
      using rs(3) [rule_format, of i'] i ne [of i'] Suc unfolding at by simp
    then show ?thesis using ne [of i'] i Suc by auto
  qed
  moreover have "fq_recv_many rd (Suc k) r w = Some (map Some ((?p, m) # rs), r', w'')" using w'(1) rs(1) by simp
  ultimately show ?case by blast
qed

lemma fq_rounds:
  assumes "rr_ok r" and "0 < rr_active r" and "\<forall>p \<in> rr_actives r. has w p (qs p) \<and> n \<le> length (qs p) \<and> (\<forall>m \<in> set (qs p). \<not> msg_more m)"
  shows "\<exists>rs r' w'. fq_recv_many rd (n * rr_active r) r w = Some (map Some rs, r', w') \<and>
    map fst rs = map (rr_at r) [0..<n * rr_active r] \<and> (\<forall>p \<in> rr_actives r. map snd (filter (\<lambda>x. fst x = p) rs) = take n (qs p))"
proof -
  let ?n = "rr_active r"
  have "has w (rr_at r i) (qs (rr_at r i)) \<and> n * ?n \<le> i + ?n * length (qs (rr_at r i)) \<and> (\<forall>m \<in> set (qs (rr_at r i)). \<not> msg_more m)" for i
  proof -
    have "rr_at r i \<in> rr_actives r" using rr_at_active [OF assms(1,2)] .
    moreover from this have "n * ?n \<le> ?n * length (qs (rr_at r i))" using assms(3) by (simp add: mult.commute)
    ultimately show ?thesis using assms(3) by (meson le_add2 le_trans)
  qed
  then obtain rs r' w' where rs: "fq_recv_many rd (n * ?n) r w = Some (map Some rs, r', w')" "map fst rs = map (rr_at r) [0..<n * ?n]"
    "\<forall>i < ?n. map snd (filter (\<lambda>x. fst x = rr_at r i) rs) = take ((n * ?n + ?n - 1 - i) div ?n) (qs (rr_at r i))"
    using fq_rounds_aux [OF assms(1,2), of w qs "n * ?n"] by blast
  have "(n * ?n + ?n - 1 - i) div ?n = n" if "i < ?n" for i
  proof -
    have "n * ?n + ?n - 1 - i = (?n - 1 - i) + n * ?n" using that by simp
    then show ?thesis using that by (simp only: div_mult_self1) simp
  qed
  then have "\<forall>p \<in> rr_actives r. map snd (filter (\<lambda>x. fst x = p) rs) = take n (qs p)"
    using rs(3) rr_at_onto [OF assms(1,2)] by metis
  then show ?thesis using rs(1,2) by blast
qed

end

subsection \<open>Properties\<close>

text \<open>
  Two pipes, at the addresses 1 and 3 and read by the same socket, that both deliver the
  same single message, for the examples.
\<close>

definition fq_two :: fq_t where
  "fq_two = \<lparr>rr_pipes = \<lparr>items = [1, 3], array_index = (\<lambda>x. if x = 1 then 0 else 1)\<rparr>, rr_active = 2, rr_current = 1, rr_more = False\<rparr>"

lemma fq_two_ok: "rr_ok fq_two" "rr_actives fq_two = {1, 3}" "0 < rr_active fq_two"
  by (auto simp: fq_two_def rr_ok_def arr_ok_def rr_actives_def less_Suc_eq numeral_2_eq_2)

lemma two_queues_example:
  "\<exists>w. delivers w 1 [msg_init] \<and> delivers w 3 [msg_init]"
  using pipes_example [of "[msg_init]" "[msg_init]"] by (auto simp: msg_is_delimiter_def msg_init_def)

text \<open>
  C19: the fair queue is fair. When every active pipe has at least \<open>n\<close> messages, all of one part, then \<open>n\<close> receives for
  each active pipe go round the active pipes cyclically, starting with the current one, and read
  exactly the first \<open>n\<close> messages of each pipe, in their order.
\<close>

theorem fq_round_robin:
  assumes "rr_ok r" and "0 < rr_active r" and "\<forall>p \<in> rr_actives r. delivers w p (qs p) \<and> n \<le> length (qs p) \<and> (\<forall>m \<in> set (qs p). \<not> msg_more m)"
  shows "\<exists>rs r' w'. fq_recv_many pipe_read (n * rr_active r) r w = Some (map Some rs, r', w') \<and>
    map fst rs = map (rr_at r) [0..<n * rr_active r] \<and> (\<forall>p \<in> rr_actives r. map snd (filter (\<lambda>x. fst x = p) rs) = take n (qs p))"
  using assms by (rule pipe_source.fq_rounds)

theorem fq_round_robin_witness:
  "\<exists>w rs r' w'. fq_recv_many pipe_read 2 fq_two w = Some (map Some rs, r', w') \<and> map fst rs = [3, 1] \<and>
     map snd (filter (\<lambda>x. fst x = 1) rs) = [msg_init]"
proof -
  obtain w where "delivers w 1 [msg_init]" "delivers w 3 [msg_init]" using two_queues_example by blast
  then have "\<forall>p \<in> rr_actives fq_two. delivers w p [msg_init] \<and> 1 \<le> length [msg_init] \<and> (\<forall>m \<in> set [msg_init]. \<not> msg_more m)"
    by (simp add: fq_two_ok msg_more_def msg_init_def)
  from fq_round_robin [OF fq_two_ok(1,3) this] obtain rs r' w' where
    r: "fq_recv_many pipe_read (1 * rr_active fq_two) fq_two w = Some (map Some rs, r', w')"
    "map fst rs = map (rr_at fq_two) [0..<1 * rr_active fq_two]" "\<forall>p \<in> rr_actives fq_two. map snd (filter (\<lambda>x. fst x = p) rs) = take 1 [msg_init]"
    by (elim exE conjE) (rule that, assumption+)
  have "map (rr_at fq_two) [0..<1 * rr_active fq_two] = [3, 1]" by (simp add: rr_at_def fq_two_def upt_rec)
  moreover have "1 * rr_active fq_two = 2" by (simp add: fq_two_def)
  moreover have "1 \<in> rr_actives fq_two" by (simp add: fq_two_ok)
  ultimately show ?thesis using r by (intro exI [of _ w] exI [of _ rs] exI [of _ r'] exI [of _ w']) (auto simp: numeral_2_eq_2)
qed

text \<open>A receive from pipes.\<close>

lemma fq_recvpipe_ok:
  assumes "rr_ok r" and "\<forall>p \<in> rr_actives r. delivers w p (qs p)" and "rr_more r \<longrightarrow> 0 < rr_active r \<and> qs (rr_cur r) \<noteq> []"
    and "cl old w0 = Some w"
  shows "\<exists>rc m src r' w'. fq_recvpipe pipe_read cl old r w0 = Some (rc, m, src, r', w') \<and> rr_ok r' \<and> rr_all r' = rr_all r \<and>
    (rc = None \<longleftrightarrow> (\<exists>p \<in> rr_actives r. qs p \<noteq> [])) \<and> (rc \<noteq> None \<longrightarrow> rc = Some EAGAIN \<and> rr_actives r' = {} \<and> m = msg_init \<and> src = None) \<and>
    (rc = None \<longrightarrow> (\<exists>p \<in> rr_actives r'. src = Some p \<and> qs p \<noteq> [] \<and> m = hd (qs p) \<and> delivers w' p (tl (qs p)) \<and>
       rr_more r' = msg_more m \<and> (msg_more m \<longrightarrow> rr_cur r' = p) \<and> (rr_more r \<longrightarrow> p = rr_cur r))) \<and>
    rr_actives r' \<subseteq> rr_actives r \<and> (\<forall>q xs. delivers w q xs \<longrightarrow> src \<noteq> Some q \<longrightarrow> delivers w' q xs) \<and> mheap w' = mheap w \<and>
    (\<forall>p \<in> rr_actives r - rr_actives r'. qs p = []) \<and> (rc \<noteq> None \<longrightarrow> rr_more r' = rr_more r)"
proof -
  obtain res r' w' where l: "fq_loop pipe_read r w = Some (res, r', w')" "rr_ok r'" "rr_all r' = rr_all r"
    "rr_actives r' \<subseteq> rr_actives r" "\<forall>p \<in> rr_actives r - rr_actives r'. qs p = []" "res = None \<longrightarrow> rr_actives r' = {}"
    "\<forall>p m. res = Some (p, m) \<longrightarrow> p \<in> rr_actives r' \<and> qs p \<noteq> [] \<and> m = hd (qs p) \<and> delivers w' p (tl (qs p)) \<and>
       rr_more r' = msg_more m \<and> (msg_more m \<longrightarrow> rr_cur r' = p) \<and> (rr_more r \<longrightarrow> p = rr_cur r)"
    "\<forall>q xs. delivers w q xs \<longrightarrow> q \<notin> fst ` set_option res \<longrightarrow> delivers w' q xs" "mheap w' = mheap w" "res = None \<longrightarrow> rr_more r' = rr_more r"
    using pipe_source.fq_loop_total [OF assms(1-3)] by (elim exE conjE) (rule that, assumption+)
  show ?thesis
  proof (cases res)
    case None
    then have "\<forall>p \<in> rr_actives r. qs p = []" using l(5,6) by auto
    then show ?thesis using None l assms(4) by (simp add: fq_recvpipe_def)
  next
    case (Some x)
    then obtain p m where x: "res = Some (p, m)" by (cases x) auto
    then have "p \<in> rr_actives r" "qs p \<noteq> []" using l(4,7) by auto
    then show ?thesis using x l assms(4) by (auto simp: fq_recvpipe_def)
  qed
qed

text \<open>
  \<open>recvpipe\<close> always returns and keeps the fair queue sound, as long as the pipe of an
  unfinished multipart message still has parts of it. It returns a message whenever an active
  pipe has one; the parts of a multipart message come from the same pipe; otherwise it reports
  \<open>EAGAIN\<close> and all pipes are passive. What the other pipes have to deliver is not changed.
\<close>

theorem fq_recvpipe_returns:
  assumes "rr_ok r" and "\<forall>p \<in> rr_actives r. delivers w p (qs p)" and "rr_more r \<longrightarrow> 0 < rr_active r \<and> qs (rr_cur r) \<noteq> []"
    and "cl old w0 = Some w"
  shows "\<exists>rc m src r' w'. fq_recvpipe pipe_read cl old r w0 = Some (rc, m, src, r', w') \<and> rr_ok r' \<and> rr_all r' = rr_all r \<and>
    (rc = None \<longleftrightarrow> (\<exists>p \<in> rr_actives r. qs p \<noteq> [])) \<and> (rc \<noteq> None \<longrightarrow> rc = Some EAGAIN \<and> rr_actives r' = {} \<and> m = msg_init \<and> src = None) \<and>
    (rc = None \<longrightarrow> (\<exists>p \<in> rr_actives r'. src = Some p \<and> qs p \<noteq> [] \<and> m = hd (qs p) \<and> delivers w' p (tl (qs p)) \<and>
       rr_more r' = msg_more m \<and> (msg_more m \<longrightarrow> rr_cur r' = p) \<and> (rr_more r \<longrightarrow> p = rr_cur r))) \<and>
    rr_actives r' \<subseteq> rr_actives r \<and> (\<forall>q xs. delivers w q xs \<longrightarrow> src \<noteq> Some q \<longrightarrow> delivers w' q xs) \<and> mheap w' = mheap w \<and>
    (\<forall>p \<in> rr_actives r - rr_actives r'. qs p = []) \<and> (rc \<noteq> None \<longrightarrow> rr_more r' = rr_more r)"
  using assms by (rule fq_recvpipe_ok)

theorem fq_recvpipe_returns_witness:
  "\<exists>w rc m src r' w'. fq_recvpipe pipe_read (\<lambda>m w. Some w) msg_init fq_two w = Some (rc, m, src, r', w') \<and> rc = None"
proof -
  obtain w where "delivers w 1 [msg_init]" "delivers w 3 [msg_init]" using two_queues_example by blast
  then have d: "\<forall>p \<in> rr_actives fq_two. delivers w p [msg_init]" by (simp add: fq_two_ok)
  have m: "rr_more fq_two \<longrightarrow> 0 < rr_active fq_two \<and> [msg_init] \<noteq> []" by (simp add: fq_two_def)
  have "\<exists>p \<in> rr_actives fq_two. [msg_init] \<noteq> []" by (auto simp: fq_two_ok)
  then show ?thesis using fq_recvpipe_returns [of fq_two w "\<lambda>_. [msg_init]" "\<lambda>m w. Some w" msg_init w, OF fq_two_ok(1) d m refl]
    by blast
qed

text \<open>The first pipe becomes the current one although the last one still is.\<close>

lemma fq_terminated_moves:
  assumes "rr_ok r" and "p \<in> rr_actives r" and "rr_current r = rr_active r - 1" and "0 < arr_index p (rr_pipes r)" and "p \<noteq> rr_cur r"
  shows "\<exists>r'. fq_pipe_terminated p r = Some r' \<and> rr_ok r' \<and> 0 < rr_active r' \<and> rr_cur r' = items (rr_pipes r) ! 0 \<and>
    rr_cur r' \<noteq> rr_cur r \<and> rr_actives r' = rr_actives r - {p} \<and> rr_more r' = rr_more r"
proof -
  let ?A = "rr_pipes r" and ?i = "arr_index p (rr_pipes r)" and ?n = "rr_active r - 1"
  have p: "p \<in> rr_all r" using assms(2) rr_actives_sub by blast
  obtain r' where r': "fq_pipe_terminated p r = Some r'" "rr_ok r'" "rr_like r r'" "rr_actives r' = rr_actives r - {p}"
    using rr_remove_ok [OF assms(1) p] by (auto simp: fq_pipe_terminated_def)
  have A: "arr_ok ?A" "rr_active r \<le> length (items ?A)" "p \<in> set (items ?A)" using assms(1) p by (auto simp: rr_ok_def rr_all_def)
  have i: "?i < rr_active r" "items ?A ! ?i = p" "?i < length (items ?A)"
    using rr_index_active [OF assms(1) p] assms(2) arr_index_ok [OF A(1,3)] by auto
  have "?i \<noteq> ?n" using i(2) assms(3,5) by (auto simp: rr_cur_def)
  then have n: "?n < length (items ?A)" "0 < ?n" "?i < ?n" using i A(2) assms(4) by auto
  obtain A1 where A1: "arr_swap ?i ?n ?A = Some A1" "arr_ok A1" "items A1 = swapped ?i ?n (items ?A)"
    using arr_swap_ok [OF A(1) i(3) n(1)] by blast
  have "arr_index p A1 = ?n" "p \<in> set (items A1)" using arr_index_nth [OF A1(2), of ?n] A1(3) i n A(3) by (auto simp: swapped_nth)
  then obtain A2 where A2: "arr_erase p A1 = Some A2" "items A2 = butlast ((items A1)[?n := last (items A1)])"
    using arr_erase_ok [OF A1(2), of p] by auto
  have eq: "r' = r\<lparr>rr_pipes := A2, rr_active := ?n, rr_current := 0\<rparr>"
    using r'(1) i(1) A1(1) A2(1) assms(3) by (auto simp: fq_pipe_terminated_def rr_remove_def Let_def)
  have ne: "0 < length (items ?A)" "items ?A \<noteq> []" using i(3) by auto
  have len: "length (items A1) = length (items ?A)" using A1(3) by simp
  have "items A2 ! 0 = (items A1)[?n := last (items A1)] ! 0" unfolding A2(2) using n len by (intro nth_butlast) auto
  also have "\<dots> = items ?A ! 0"  using ne n assms(4) swapped_nth [OF i(3) n(1), of 0] by (simp add: A1(3))
  finally have "rr_cur r' = items ?A ! 0" by (simp add: eq rr_cur_def)
  moreover have "items ?A ! 0 \<noteq> rr_cur r" 
    using ne A(1) n assms(3) nth_eq_iff_index_eq [of "items ?A" 0 ?n] by (auto simp: rr_cur_def arr_ok_def)
  ultimately show ?thesis using r' eq n(2) by (auto simp: rr_like_def)
qed



end
