(* ===== verification/Feeds.thy ===== *)
theory Feeds
  imports Fq
begin

text \<open>
  Receiving through a fair queue when its pipes deliver whole messages, as the sockets use it:
  what is left in the queues is tracked together with the references to message contents.
\<close>

text \<open>
  \<open>feeds r w qs\<close>: the pipes of \<open>r\<close> deliver \<open>qs\<close>. Only complete messages are in the queues, the
  passive pipes have none, and an unfinished message is continued by the current pipe.
\<close>

definition feeds :: "fq_t \<Rightarrow> world \<Rightarrow> (addr \<Rightarrow> msg_t list) \<Rightarrow> bool" where
  "feeds r w qs \<longleftrightarrow> rr_ok r \<and>
     (\<forall>p \<in> rr_all r. delivers w p (qs p) \<and> (\<forall>m \<in> set (qs p). msg_check m) \<and> (qs p \<noteq> [] \<longrightarrow> \<not> msg_more (last (qs p)))) \<and>
     (\<forall>p \<in> rr_all r - rr_actives r. qs p = []) \<and> (rr_more r \<longrightarrow> 0 < rr_active r \<and> qs (rr_cur r) \<noteq> [])"

definition queued :: "fq_t \<Rightarrow> (addr \<Rightarrow> msg_t list) \<Rightarrow> msg_t multiset" where
  "queued r qs = (\<Sum>p \<in> rr_all r. mset (qs p))"

lemma queued_cong: "rr_all r = rr_all r' \<Longrightarrow> queued r qs = queued r' qs"
  by (simp add: queued_def)

lemma finite_rr_all [simp]: "finite (rr_all r)"
  by (simp add: rr_all_def)

lemma queued_take:
  assumes "p \<in> rr_all r" and "qs p = m # ms"
  shows "queued r qs = add_mset m (queued r (qs(p := ms)))"
proof -
  have "(\<Sum>q \<in> rr_all r - {p}. mset (qs q)) = (\<Sum>q \<in> rr_all r - {p}. mset ((qs(p := ms)) q))" by (intro sum.cong) auto
  then show ?thesis using assms by (simp add: queued_def sum.remove [of _ p])
qed

lemma queued_mem: "p \<in> rr_all r \<Longrightarrow> m \<in> set (qs p) \<Longrightarrow> m \<in># queued r qs"
  by (auto simp: queued_def set_mset_sum)

lemma queued_empty: "\<forall>p \<in> rr_all r. qs p = [] \<Longrightarrow> queued r qs = {#}"
  by (simp add: queued_def)

lemma delivers_heap [simp]: "delivers (w\<lparr>mheap := h\<rparr>) p ms = delivers w p ms"
  by (simp add: delivers_def sole_reader_def up_holds_def up_view_def)

lemma close_in_refs_data:
  assumes "refs_ok (mheap w) (add_mset m ms)" and "msg_check m"
  shows "\<exists>h. close_in m w = Some (w\<lparr>mheap := h\<rparr>) \<and> refs_ok h ms \<and> (\<forall>x \<in># ms. msg_data x h = msg_data x (mheap w))"
  using msg_close_refs [OF assms] by (auto simp: close_in_def)

text \<open>A message that is accounted for has data.\<close>

lemma refs_ok_data:
  assumes "refs_ok h (add_mset m ms)" and "msg_check m" and "\<not> msg_is_delimiter m"
  shows "\<exists>d. msg_data m h = Some d"
proof (cases "msg_u m")
  case (Lmsg p)
  then obtain a where "p = Some a" using assms(1) by (cases p) (auto simp: refs_ok_def)
  moreover from this have "contents h a \<noteq> None" using assms(1) Lmsg by (auto simp: refs_ok_def nrefs_def points_to_def)
  ultimately show ?thesis using Lmsg by (auto simp: msg_data_def)
qed (use assms in \<open>auto simp: msg_data_def msg_check_def msg_is_delimiter_def\<close>)

lemma feeds_recvpipe:
  assumes "feeds r w qs" and "refs_ok (mheap w) (add_mset old (queued r qs + R))" and "msg_check old"
  shows "\<exists>rc m src r' w' qs'. fq_recvpipe pipe_read close_in old r w = Some (rc, m, src, r', w') \<and> feeds r' w' qs' \<and>
    rr_all r' = rr_all r \<and> refs_ok (mheap w') (add_mset m (queued r' qs' + R)) \<and> msg_check m \<and> \<not> msg_is_delimiter m \<and>
    (\<forall>x \<in># queued r qs + R. msg_data x (mheap w') = msg_data x (mheap w)) \<and>
    (rc \<noteq> None \<longrightarrow> rc = Some EAGAIN \<and> m = msg_init \<and> src = None \<and> qs' = qs \<and> (\<forall>p \<in> rr_all r. qs p = []) \<and> \<not> rr_more r') \<and>
    (rc = None \<longrightarrow> (\<exists>p \<in> rr_all r. src = Some p \<and> qs p = m # qs' p \<and> qs' = qs(p := qs' p) \<and> rr_more r' = msg_more m \<and>
       (rr_more r' \<longrightarrow> rr_cur r' = p) \<and> (rr_more r \<longrightarrow> p = rr_cur r)))"
proof -
  obtain h where h: "close_in old w = Some (w\<lparr>mheap := h\<rparr>)" "refs_ok h (queued r qs + R)"
    "\<forall>x \<in># queued r qs + R. msg_data x h = msg_data x (mheap w)" using close_in_refs_data [OF assms(2,3)] by blast
  have f: "rr_ok r" "\<forall>p \<in> rr_actives r. delivers (w\<lparr>mheap := h\<rparr>) p (qs p)" "rr_more r \<longrightarrow> 0 < rr_active r \<and> qs (rr_cur r) \<noteq> []"
    "\<forall>p \<in> rr_all r. delivers w p (qs p) \<and> (\<forall>m \<in> set (qs p). msg_check m) \<and> (qs p \<noteq> [] \<longrightarrow> \<not> msg_more (last (qs p)))"
    "\<forall>p \<in> rr_all r - rr_actives r. qs p = []"
    using assms(1) rr_actives_sub [of r] by (auto simp: feeds_def)
  obtain rc m src r' w' where r: "fq_recvpipe pipe_read close_in old r w = Some (rc, m, src, r', w')" "rr_ok r'" "rr_all r' = rr_all r"
    "rc = None \<longleftrightarrow> (\<exists>p \<in> rr_actives r. qs p \<noteq> [])" "rc \<noteq> None \<longrightarrow> rc = Some EAGAIN \<and> rr_actives r' = {} \<and> m = msg_init \<and> src = None"
    "rc = None \<longrightarrow> (\<exists>p \<in> rr_actives r'. src = Some p \<and> qs p \<noteq> [] \<and> m = hd (qs p) \<and> delivers w' p (tl (qs p)) \<and>
       rr_more r' = msg_more m \<and> (msg_more m \<longrightarrow> rr_cur r' = p) \<and> (rr_more r \<longrightarrow> p = rr_cur r))"
    "rr_actives r' \<subseteq> rr_actives r" "\<forall>q xs. delivers (w\<lparr>mheap := h\<rparr>) q xs \<longrightarrow> src \<noteq> Some q \<longrightarrow> delivers w' q xs" "mheap w' = mheap (w\<lparr>mheap := h\<rparr>)"
    "\<forall>p \<in> rr_actives r - rr_actives r'. qs p = []" "rc \<noteq> None \<longrightarrow> rr_more r' = rr_more r"
    using fq_recvpipe_ok [where qs = qs and cl = close_in, OF f(1-3) h(1)] by (elim exE conjE) (rule that, assumption+)
  have hw: "mheap w' = h" using r(9) by simp
  have dat: "\<forall>x \<in># queued r qs + R. msg_data x (mheap w') = msg_data x (mheap w)" using h(3) hw by simp
  have pass: "\<forall>p \<in> rr_all r' - rr_actives r'. qs p = []" using f(5) r(3,10) by auto
  show ?thesis
  proof (cases rc)
    case (Some e)
    then have e: "rc = Some EAGAIN" "m = msg_init" "src = None" using r(5) by auto
    have em: "\<forall>p \<in> rr_all r. qs p = []" using Some r(4) f(5) by auto
    have cur: "rr_cur r \<in> rr_all r" if "0 < rr_active r" using rr_cur_active [OF f(1) that] rr_actives_sub by blast
    then have nm: "\<not> rr_more r'" using Some r(11) f(3) em by auto
    have "feeds r' w' qs" using r(2,3,8) e(3) f(4) pass nm unfolding feeds_def by simp
    moreover have "refs_ok (mheap w') (add_mset m (queued r' qs + R))"
      using h(2) hw e(2) r(3) refs_ok_none [of msg_init] by (simp add: queued_def points_to_def msg_init_def)
    moreover have "msg_check m" "\<not> msg_is_delimiter m" using e(2) by (simp_all add: msg_check_def msg_is_delimiter_def msg_init_def)
    ultimately show ?thesis using r(1,3) e nm dat em by (intro exI [of _ rc] exI [of _ m] exI [of _ src] exI [of _ r'] exI [of _ w'] exI [of _ qs]) simp
  next
    case None
    then obtain p where p: "p \<in> rr_actives r'" "src = Some p" "qs p \<noteq> []" "m = hd (qs p)" "delivers w' p (tl (qs p))"
      "rr_more r' = msg_more m" "msg_more m \<longrightarrow> rr_cur r' = p" "rr_more r \<longrightarrow> p = rr_cur r" using r(6) by blast
    have pa: "p \<in> rr_all r" using p(1) r(7) rr_actives_sub [of r] by blast
    let ?qs = "qs(p := tl (qs p))"
    have q: "qs p = m # tl (qs p)" using p(3,4) by simp
    have t: "tl (qs p) \<noteq> []" if "msg_more m" using f(4) pa p(3) that by (metis list.distinct(1) last_ConsL q)
    have pos: "0 < rr_active r'" using p(1) by (cases "rr_active r'") (auto simp: rr_actives_def)
    have del: "delivers w' x (?qs x)" if "x \<in> rr_all r'" for x
      using that f(4) r(3,8) p(2,5) by (cases "x = p") auto
    have lst: "\<not> msg_more (last (tl (qs p)))" if "tl (qs p) \<noteq> []" using f(4) pa p(3) that by (metis last_tl)
    have "feeds r' w' ?qs" unfolding feeds_def
    proof (intro conjI)
      show "\<forall>x \<in> rr_all r'. delivers w' x (?qs x) \<and> (\<forall>m \<in> set (?qs x). msg_check m) \<and> (?qs x \<noteq> [] \<longrightarrow> \<not> msg_more (last (?qs x)))"
        using del f(4) r(3) lst pa q by (auto dest: list.set_sel(2) [rotated])
      show "\<forall>x \<in> rr_all r' - rr_actives r'. ?qs x = []" using pass p(1) by auto
      show "rr_more r' \<longrightarrow> 0 < rr_active r' \<and> ?qs (rr_cur r') \<noteq> []" using pos p(6,7) t by auto
    qed (rule r(2))
    moreover have "refs_ok (mheap w') (add_mset m (queued r' ?qs + R))"
      using h(2) hw queued_take [where qs = qs, OF pa q] queued_cong [OF r(3)] by simp
    moreover have "msg_check m" using f(4) pa q by (metis list.set_intros(1))
    moreover have "\<not> msg_is_delimiter m" using f(4) pa q unfolding delivers_def by (metis list.set_intros(1))
    ultimately show ?thesis using r(1,3) None p pa q dat
      by (intro exI [of _ rc] exI [of _ m] exI [of _ src] exI [of _ r'] exI [of _ w'] exI [of _ ?qs]) simp
  qed
qed

end
