(* ===== verification/Lb.thy ===== *)
theory Lb
  imports Round_Robin Pipe_Interface
begin

text \<open>
  The load balancer \<open>lb_t\<close> (\<^verbatim>\<open>src/lb.cpp\<close>): messages are written to the active pipes in turn, the
  parts of a multipart message to one pipe. \<open>wr\<close>, \<open>cw\<close> and \<open>fl\<close> are \<open>write\<close>, \<open>check_write\<close> and \<open>flush\<close> of
  \<open>pipe_t\<close>, \<open>cl\<close> closes a message.
\<close>

record lb_t = rr_t +
  dropping :: bool

definition lb_new :: lb_t where
  "lb_new = \<lparr>rr_pipes = \<lparr>items = [], array_index = (\<lambda>_. 0)\<rparr>, rr_active = 0, rr_current = 0, rr_more = False, dropping = False\<rparr>"

definition lb_destroy :: "lb_t \<Rightarrow> unit option" where
  "lb_destroy r = zmq_assert (items (rr_pipes r) = [])"

definition lb_activated :: "addr \<Rightarrow> lb_t \<Rightarrow> lb_t option" where
  "lb_activated p r = rr_activated p r"

definition lb_attach :: "addr \<Rightarrow> lb_t \<Rightarrow> lb_t option" where
  "lb_attach p r = lb_activated p (r\<lparr>rr_pipes := arr_push_back p (rr_pipes r)\<rparr>)"

definition lb_pipe_terminated :: "addr \<Rightarrow> lb_t \<Rightarrow> lb_t option" where
  "lb_pipe_terminated p r =
     rr_remove p (if arr_index p (rr_pipes r) = rr_current r \<and> rr_more r then r\<lparr>dropping := True\<rparr> else r)"

text \<open>The loop of \<open>sendpipe\<close>: the handle after the write and the pipe that took the message, if any.\<close>

definition lb_skip :: "lb_t \<Rightarrow> lb_t option" where
  "lb_skip r =
     (let n = rr_active r - 1
      in if rr_current r < n then do {
           A \<leftarrow> arr_swap (rr_current r) n (rr_pipes r);
           Some (r\<lparr>rr_pipes := A, rr_active := n\<rparr>)
         }
         else Some (r\<lparr>rr_active := n, rr_current := 0\<rparr>))"

partial_function (option) lb_loop ::
  "'w pipe_writer \<Rightarrow> msg_t \<Rightarrow> lb_t \<Rightarrow> 'w \<Rightarrow> (msg_t \<times> addr option \<times> lb_t \<times> 'w) option" where
  "lb_loop wr m r w =
     (if rr_active r = 0 then Some (m, None, r, w)
      else (case arr_get (rr_current r) (rr_pipes r) of
          None \<Rightarrow> None
        | Some p \<Rightarrow> (case wr p m w of
              None \<Rightarrow> None
            | Some (ok, m, w) \<Rightarrow>
                if ok then Some (m, Some p, r, w)
                else if rr_more r then None
                else (case lb_skip r of None \<Rightarrow> None | Some r \<Rightarrow> lb_loop wr m r w))))"

text \<open>
  \<open>sendpipe\<close>: the error, the pipe and the handle of the caller afterwards. Note that the flags are
  read from the handle after the write.
\<close>

definition lb_sendpipe ::
  "'w pipe_writer \<Rightarrow> (addr \<Rightarrow> 'w \<Rightarrow> 'w option) \<Rightarrow> (msg_t \<Rightarrow> 'w \<Rightarrow> 'w option) \<Rightarrow> msg_t \<Rightarrow> lb_t \<Rightarrow> 'w \<Rightarrow>
   (errno_t option \<times> addr option \<times> msg_t \<times> lb_t \<times> 'w) option" where
  "lb_sendpipe wr fl cl m r w =
     (if dropping r then do {
        let more = msg_more m;
        w \<leftarrow> cl m w;
        Some (None, None, msg_init, r\<lparr>rr_more := more, dropping := more\<rparr>, w)
      }
      else do {
        (m, dst, r, w) \<leftarrow> lb_loop wr m r w;
        if rr_active r = 0 then Some (Some EAGAIN, dst, m, r, w)
        else do {
          let r = r\<lparr>rr_more := msg_more m\<rparr>;
          (r, w) \<leftarrow> (if \<not> msg_more m then do {
                       p \<leftarrow> arr_get (rr_current r) (rr_pipes r);
                       w \<leftarrow> fl p w;
                       Some (r\<lparr>rr_current := (rr_current r + 1) mod rr_active r\<rparr>, w)
                     }
                     else Some (r, w));
          Some (None, dst, msg_init, r, w)
        }
      })"

definition lb_send ::
  "'w pipe_writer \<Rightarrow> (addr \<Rightarrow> 'w \<Rightarrow> 'w option) \<Rightarrow> (msg_t \<Rightarrow> 'w \<Rightarrow> 'w option) \<Rightarrow> msg_t \<Rightarrow> lb_t \<Rightarrow> 'w \<Rightarrow>
   (errno_t option \<times> msg_t \<times> lb_t \<times> 'w) option" where
  "lb_send wr fl cl m r w = do {
     (rc, _, m, r, w) \<leftarrow> lb_sendpipe wr fl cl m r w;
     Some (rc, m, r, w)
   }"

partial_function (option) lb_has_out_loop ::
  "(addr \<Rightarrow> 'w \<Rightarrow> (bool \<times> 'w) option) \<Rightarrow> lb_t \<Rightarrow> 'w \<Rightarrow> (bool \<times> lb_t \<times> 'w) option" where
  "lb_has_out_loop cw r w =
     (if rr_active r = 0 then Some (False, r, w)
      else (case arr_get (rr_current r) (rr_pipes r) of
          None \<Rightarrow> None
        | Some p \<Rightarrow> (case cw p w of
              None \<Rightarrow> None
            | Some (ok, w) \<Rightarrow>
                if ok then Some (True, r, w)
                else (case rr_deactivate r of None \<Rightarrow> None | Some r \<Rightarrow> lb_has_out_loop cw r w))))"

definition lb_has_out :: "(addr \<Rightarrow> 'w \<Rightarrow> (bool \<times> 'w) option) \<Rightarrow> lb_t \<Rightarrow> 'w \<Rightarrow> (bool \<times> lb_t \<times> 'w) option" where
  "lb_has_out cw r w = (if rr_more r then Some (True, r, w) else lb_has_out_loop cw r w)"

subsection \<open>The structure\<close>

text \<open>Skipping a pipe in \<open>sendpipe\<close> has the effect of \<open>rr_deactivate\<close>.\<close>

lemma lb_skip_deactivate:
  assumes "rr_ok r" and "0 < rr_active r"
  shows "\<exists>r'. lb_skip r = Some r' \<and> rr_ok r' \<and> rr_like r r' \<and> rr_all r' = rr_all r \<and>
    rr_actives r' = rr_actives r - {rr_cur r} \<and> rr_active r' = rr_active r - 1"
proof (cases "rr_current r < rr_active r - 1")
  case True
  then have "lb_skip r = rr_deactivate r" by (simp add: lb_skip_def rr_deactivate_def Let_def)
  then show ?thesis using rr_deactivate_ok [OF assms] by simp
next
  case False
  then have c: "rr_current r = rr_active r - 1" using assms by (auto simp: rr_ok_def)
  let ?n = "rr_active r - 1" and ?xs = "items (rr_pipes r)"
  let ?r = "r\<lparr>rr_active := ?n, rr_current := 0\<rparr>"
  have "lb_skip r = Some ?r" using False by (simp add: lb_skip_def Let_def)
  moreover have "rr_ok ?r" using assms by (auto simp: rr_ok_def)
  moreover have "set (take ?n (swapped ?n ?n ?xs)) = set (take (Suc ?n) ?xs) - {?xs ! ?n}"
    using assms by (intro set_take_deactivate) (auto simp: rr_ok_def arr_ok_def)
  then have "rr_actives ?r = rr_actives r - {rr_cur r}" using assms(2) c by (simp add: rr_actives_def rr_cur_def)
  ultimately show ?thesis by (intro exI [of _ ?r]) (simp add: rr_all_def)
qed

lemma lb_attach_ok:
  assumes "rr_ok r" and "p \<notin> rr_all r"
  shows "\<exists>r'. lb_attach p r = Some r' \<and> rr_ok r' \<and> rr_like r r' \<and> rr_all r' = insert p (rr_all r) \<and>
    rr_actives r' = insert p (rr_actives r)"
proof -
  let ?r = "r\<lparr>rr_pipes := arr_push_back p (rr_pipes r)\<rparr>"
  have A: "arr_ok (arr_push_back p (rr_pipes r))" "items (arr_push_back p (rr_pipes r)) = items (rr_pipes r) @ [p]"
    using arr_push_back_ok [of "rr_pipes r" p] assms by (auto simp: rr_ok_def rr_all_def)
  have "rr_ok ?r" using A assms(1) by (auto simp: rr_ok_def)
  moreover have all: "rr_all ?r = insert p (rr_all r)" using A by (simp add: rr_all_def)
  moreover have act: "rr_actives ?r = rr_actives r" using A assms(1) by (simp add: rr_actives_def rr_ok_def)
  moreover have "p \<notin> rr_actives ?r" using assms(2) rr_actives_sub [of r] act by auto
  ultimately show ?thesis using rr_activated_ok [of ?r p] by (auto simp: lb_attach_def lb_activated_def rr_like_def)
qed

lemma arr_get_current: "rr_ok r \<Longrightarrow> 0 < rr_active r \<Longrightarrow> arr_get (rr_current r) (rr_pipes r) = Some (rr_cur r)"
  by (auto simp: arr_get_def rr_cur_def rr_ok_def)

context message_sink
begin

lemma lb_loop_total:
  assumes "rr_ok r" and "\<forall>p \<in> rr_actives r. alive w p" and "rr_more r \<longrightarrow> 0 < rr_active r \<and> room w (rr_cur r)"
  shows "\<exists>dst r' w'. lb_loop wr m r w = Some (m, dst, r', w') \<and> rr_ok r' \<and> rr_like r r' \<and> rr_all r' = rr_all r \<and> rr_actives r' \<subseteq> rr_actives r \<and>
    (\<forall>p \<in> rr_actives r'. alive w' p) \<and> (\<forall>p \<in> rr_actives r - rr_actives r'. \<not> room w p) \<and> (dst = None \<longleftrightarrow> rr_active r' = 0) \<and>
    (\<forall>p. dst = Some p \<longrightarrow> p \<in> rr_actives r' \<and> p = rr_cur r' \<and> room w p \<and> (rr_more r \<longrightarrow> p = rr_cur r))"
  using assms
proof (induction "rr_active r" arbitrary: r w)
  case 0
  then have "rr_actives r = {}" using rr_active_empty [of r] by simp
  then show ?case using 0 by (subst lb_loop.simps) auto
next
  case (Suc n)
  then have pos: "0 < rr_active r" by simp
  let ?p = "rr_cur r"
  have p: "?p \<in> rr_actives r" using rr_cur_active [OF Suc.prems(1) pos] .
  then have "alive w ?p" using Suc.prems(2) by blast
  then obtain w' where w': "wr ?p m w = Some (room w ?p, m, w')" "\<forall>q. alive w q \<longrightarrow> alive w' q" "\<forall>q. q \<noteq> ?p \<longrightarrow> room w' q = room w q"
    using wr_total by blast
  show ?case
  proof (cases "room w ?p")
    case True
    have "lb_loop wr m r w = Some (m, Some ?p, r, w')"
      using pos arr_get_current [OF Suc.prems(1) pos] w'(1) True by (subst lb_loop.simps) simp
    then show ?thesis using Suc.prems w'(2) p True pos by auto
  next
    case False
    then have nomore: "\<not> rr_more r" using Suc.prems(3) by auto
    obtain r' where r': "lb_skip r = Some r'" "rr_ok r'" "rr_like r r'" "rr_all r' = rr_all r"
      "rr_actives r' = rr_actives r - {?p}" "rr_active r' = rr_active r - 1" using lb_skip_deactivate [OF Suc.prems(1) pos] by blast
    have loop: "lb_loop wr m r w = lb_loop wr m r' w'"
      using pos arr_get_current [OF Suc.prems(1) pos] w'(1) nomore r'(1) False by (subst lb_loop.simps) simp
    have "n = rr_active r'" "\<forall>p \<in> rr_actives r'. alive w' p" "rr_more r' \<longrightarrow> 0 < rr_active r' \<and> room w' (rr_cur r')"
      using Suc.hyps(2) Suc.prems(2) r' w'(2) nomore by (auto simp: rr_like_def)
    from Suc.hyps(1) [OF this(1) r'(2) this(2,3)] obtain dst r2 w2 where
      r2: "lb_loop wr m r' w' = Some (m, dst, r2, w2)" "rr_ok r2" "rr_like r' r2" "rr_all r2 = rr_all r'" "rr_actives r2 \<subseteq> rr_actives r'"
      "\<forall>p \<in> rr_actives r2. alive w2 p" "\<forall>p \<in> rr_actives r' - rr_actives r2. \<not> room w' p" "dst = None \<longleftrightarrow> rr_active r2 = 0"
      "\<forall>p. dst = Some p \<longrightarrow> p \<in> rr_actives r2 \<and> p = rr_cur r2 \<and> room w' p \<and> (rr_more r' \<longrightarrow> p = rr_cur r')"
      by (elim exE conjE) (rule that, assumption+)
    have "\<forall>p \<in> rr_actives r - rr_actives r2. \<not> room w p" using r2(7) r'(5) w'(3) False by auto
    moreover have "\<forall>p. dst = Some p \<longrightarrow> room w p" using r2(5,9) r'(5) w'(3) by blast
    moreover have "rr_like r r2" "rr_all r2 = rr_all r" "rr_actives r2 \<subseteq> rr_actives r"
      using rr_like_trans [OF r'(3) r2(3)] r2(4,5) r'(4,5) by auto
    ultimately show ?thesis unfolding loop using r2(1,2,6,8,9) nomore
      by (intro exI [of _ dst] exI [of _ r2] exI [of _ w2]) simp
  qed
qed

text \<open>
  \<open>sendpipe\<close> outside of dropping mode, by what the loop returned.
\<close>

lemma lb_sendpipe_total:
  assumes "rr_ok r" and "\<forall>p \<in> rr_actives r. alive w p" and "rr_more r \<longrightarrow> 0 < rr_active r \<and> room w (rr_cur r)" and "\<not> dropping r"
  shows "\<exists>rc dst m' r' w'. lb_sendpipe wr fl cl m r w = Some (rc, dst, m', r', w') \<and> rr_ok r' \<and> rr_all r' = rr_all r \<and>
    (rc = None \<longleftrightarrow> (\<exists>p \<in> rr_actives r. room w p)) \<and> (rc \<noteq> None \<longrightarrow> rc = Some EAGAIN \<and> m' = m \<and> rr_actives r' = {}) \<and>
    (rc = None \<longrightarrow> m' = msg_init \<and> rr_more r' = msg_more m \<and> (\<exists>p \<in> rr_actives r'. dst = Some p \<and> p \<in> rr_actives r \<and> room w p \<and>
       (msg_more m \<longrightarrow> rr_cur r' = p) \<and> (rr_more r \<longrightarrow> p = rr_cur r)))"
proof -
  obtain dst r1 w1 where l: "lb_loop wr m r w = Some (m, dst, r1, w1)" "rr_ok r1" "rr_like r r1" "rr_all r1 = rr_all r" "rr_actives r1 \<subseteq> rr_actives r"
    "\<forall>p \<in> rr_actives r1. alive w1 p" "\<forall>p \<in> rr_actives r - rr_actives r1. \<not> room w p" "dst = None \<longleftrightarrow> rr_active r1 = 0"
    "\<forall>p. dst = Some p \<longrightarrow> p \<in> rr_actives r1 \<and> p = rr_cur r1 \<and> room w p \<and> (rr_more r \<longrightarrow> p = rr_cur r)"
    using lb_loop_total [OF assms(1-3), of m] by (elim exE conjE) (rule that, assumption+)
  show ?thesis
  proof (cases dst)
    case None
    then have z: "rr_active r1 = 0" "rr_actives r1 = {}" using l(8) rr_active_empty [OF l(2)] by auto
    then have "lb_sendpipe wr fl cl m r w = Some (Some EAGAIN, None, m, r1, w1)" using l(1) None assms(4) by (simp add: lb_sendpipe_def)
    then show ?thesis using l(2,4,7) z(2) by auto
  next
    case (Some p)
    then have p: "p \<in> rr_actives r1" "p = rr_cur r1" "room w p" "rr_more r \<longrightarrow> p = rr_cur r" "0 < rr_active r1" using l(8,9) by auto
    obtain w2 where w2: "fl p w1 = Some w2" using l(6) p(1) fl_total by blast
    let ?c = "if msg_more m then rr_current r1 else (rr_current r1 + 1) mod rr_active r1"
    let ?r = "r1\<lparr>rr_more := msg_more m, rr_current := ?c\<rparr>"
    have "lb_sendpipe wr fl cl m r w = Some (None, Some p, msg_init, ?r, if msg_more m then w1 else w2)"
      using l(1) Some assms(4) p(2,5) w2 arr_get_current [OF l(2) p(5)] by (simp add: lb_sendpipe_def)
    moreover have "rr_ok ?r" using l(2) p(5) by (auto simp: rr_ok_def)
    moreover have "rr_all ?r = rr_all r" "rr_actives ?r = rr_actives r1" "msg_more m \<longrightarrow> rr_cur ?r = p"
      using l(4) p(2) by (simp_all add: rr_all_def rr_actives_def rr_cur_def)
    moreover have "\<exists>p' \<in> rr_actives ?r. Some p = Some p' \<and> p' \<in> rr_actives r \<and> room w p' \<and> (msg_more m \<longrightarrow> rr_cur ?r = p') \<and> (rr_more r \<longrightarrow> p' = rr_cur r)"
      using calculation(4,5) p l(5) by (intro bexI [of _ p]) (simp_all, blast)
    moreover have "\<exists>p \<in> rr_actives r. room w p" using p l(5) by blast
    ultimately show ?thesis
      by (intro exI [of _ None] exI [of _ "Some p"] exI [of _ msg_init] exI [of _ ?r] exI [of _ "if msg_more m then w1 else w2"]) simp
  qed
qed

end

text \<open>What is written: the message, once, to the pipe that is returned, and flushed after its last part.\<close>

context message_port
begin

lemma lb_loop_writes:
  assumes "rr_ok r" and "\<forall>p \<in> rr_actives r. alive w p" and "rr_more r \<longrightarrow> 0 < rr_active r \<and> room w (rr_cur r)"
    and "lb_loop wr m r w = Some (m', dst, r', w')"
  shows "(\<forall>q xs. log w q xs \<longrightarrow> log w' q (if dst = Some q then xs @ [m] else xs)) \<and> heap w' = heap w \<and> (\<forall>q. ready w' q = ready w q)"
  using assms
proof (induction "rr_active r" arbitrary: r w)
  case 0
  then show ?case by (subst (asm) lb_loop.simps) auto
next
  case (Suc n)
  then have pos: "0 < rr_active r" by simp
  let ?p = "rr_cur r"
  have al: "alive w ?p" using rr_cur_active [OF Suc.prems(1) pos] Suc.prems(2) by blast
  then obtain w1 where w1: "wr ?p m w = Some (room w ?p, m, w1)" "\<forall>q. alive w q \<longrightarrow> alive w1 q" "\<forall>q. q \<noteq> ?p \<longrightarrow> room w1 q = room w q"
    using wr_total by blast
  have lg: "\<forall>q xs. log w q xs \<longrightarrow> log w1 q (if q = ?p \<and> room w ?p then xs @ [m] else xs)" "heap w1 = heap w" "ready w1 q = ready w q" for q
    using wr_log [OF al w1(1)] wr_ready [OF al w1(1)] by auto
  show ?case
  proof (cases "room w ?p")
    case True
    have "lb_loop wr m r w = Some (m, Some ?p, r, w1)"
      using pos arr_get_current [OF Suc.prems(1) pos] w1(1) True by (subst lb_loop.simps) simp
    then have e: "dst = Some ?p" "w' = w1" using Suc.prems(4) by simp_all
    have "log w1 q (if Some ?p = Some q then xs @ [m] else xs)" if "log w q xs" for q xs
      using lg(1) [rule_format, of q xs] that True by (cases "q = ?p") simp_all
    then show ?thesis unfolding e using lg(2,3) by blast
  next
    case False
    then have nomore: "\<not> rr_more r" using Suc.prems(3) by auto
    obtain r1 where r1: "lb_skip r = Some r1" "rr_ok r1" "rr_like r r1" "rr_actives r1 = rr_actives r - {?p}" "rr_active r1 = rr_active r - 1"
      using lb_skip_deactivate [OF Suc.prems(1) pos] by blast
    have loop: "lb_loop wr m r1 w1 = Some (m', dst, r', w')"
      using Suc.prems(4) pos arr_get_current [OF Suc.prems(1) pos] w1(1) nomore r1(1) False by (subst (asm) lb_loop.simps) simp
    have "n = rr_active r1" "\<forall>p \<in> rr_actives r1. alive w1 p" "rr_more r1 \<longrightarrow> 0 < rr_active r1 \<and> room w1 (rr_cur r1)"
      using Suc.hyps(2) Suc.prems(2) r1 w1(2) nomore by (auto simp: rr_like_def)
    from Suc.hyps(1) [OF this(1) r1(2) this(2,3) loop] show ?thesis using lg False by simp
  qed
qed

lemma lb_sendpipe_writes:
  assumes "rr_ok r" and "\<forall>p \<in> rr_actives r. alive w p" and "rr_more r \<longrightarrow> 0 < rr_active r \<and> room w (rr_cur r)" and "\<not> dropping r"
    and "lb_sendpipe wr fl cl m r w = Some (rc, dst, m', r', w')"
  shows "(rc \<noteq> None \<longrightarrow> dst = None) \<and> (\<forall>q xs. log w q xs \<longrightarrow> log w' q (if dst = Some q then xs @ [m] else xs)) \<and> heap w' = heap w \<and>
    (\<forall>p. dst = Some p \<and> \<not> msg_more m \<longrightarrow> flushed w' p)"
proof -
  obtain dst1 r1 w1 where l: "lb_loop wr m r w = Some (m, dst1, r1, w1)" "rr_ok r1" "\<forall>p \<in> rr_actives r1. alive w1 p" "dst1 = None \<longleftrightarrow> rr_active r1 = 0"
    "\<forall>p. dst1 = Some p \<longrightarrow> p \<in> rr_actives r1 \<and> p = rr_cur r1 \<and> room w p \<and> (rr_more r \<longrightarrow> p = rr_cur r)"
    using lb_loop_total [OF assms(1-3), of m] by (elim exE conjE) (rule that, assumption+)
  note wr = lb_loop_writes [OF assms(1-3) l(1)]
  show ?thesis
  proof (cases dst1)
    case None
    then show ?thesis using l(1,4) assms(4,5) wr by (auto simp: lb_sendpipe_def)
  next
    case (Some p)
    then have p: "alive w1 p" "p = rr_cur r1" "room w p" "0 < rr_active r1" using l(3-5) by auto
    show ?thesis
    proof (cases "msg_more m")
      case True
      then show ?thesis using l(1,4) Some assms(4,5) wr by (auto simp: lb_sendpipe_def)
    next
      case False
      obtain w2 where w2: "fl p w1 = Some w2" using fl_total [OF p(1)] by blast
      then have "dst = Some p" "rc = None" "w' = w2"
        using l(1) Some False assms(4,5) p(2,4) arr_get_current [OF l(2) p(4)] by (auto simp: lb_sendpipe_def)
      moreover have "flushed w2 p" using fl_flushed [OF p(1) _ w2] wr room_ready [OF p(3)] by blast
      ultimately show ?thesis using wr fl_log [OF p(1) w2] Some by auto
    qed
  qed
qed

end

subsection \<open>Properties\<close>


text \<open>A load balancer with one pipe, at address 1, for the examples.\<close>

definition lb_one :: "bool \<Rightarrow> lb_t" where
  "lb_one b = \<lparr>rr_pipes = \<lparr>items = [1], array_index = (\<lambda>x. 0)\<rparr>, rr_active = 1, rr_current = 0, rr_more = b, dropping = False\<rparr>"

lemma lb_one_ok: "rr_ok (lb_one b)" "rr_actives (lb_one b) = {1}" "rr_cur (lb_one b) = 1" "0 < rr_active (lb_one b)"
  by (auto simp: lb_one_def rr_ok_def arr_ok_def rr_actives_def rr_cur_def)


text \<open>
  when the current pipe terminates in the middle of a multipart message, the rest of that
  message is dropped: every further part up to the last one is closed and reported as sent,
  no pipe is written to, and the next message is balanced again.
\<close>

theorem lb_drops_rest:
  assumes "rr_ok r" and "p \<in> rr_all r" and "p = rr_cur r" and "0 < rr_active r" and "rr_more r" and "cl m w = Some w1"
  shows "\<exists>r1 r2. lb_pipe_terminated p r = Some r1 \<and> rr_ok r1 \<and> rr_all r1 = rr_all r - {p} \<and> dropping r1 \<and>
    lb_sendpipe wr fl cl m r1 w = Some (None, None, msg_init, r2, w1) \<and> rr_more r2 = msg_more m \<and> dropping r2 = msg_more m"
proof -
  let ?r = "r\<lparr>dropping := True\<rparr>"
  have i: "arr_index p (rr_pipes r) = rr_current r" 
  proof -
    have "arr_ok (rr_pipes r)" "rr_current r < length (items (rr_pipes r))" using assms(1,4) by (auto simp: rr_ok_def)
    then show ?thesis by (simp add: assms(3) rr_cur_def)
  qed
  have ok: "rr_ok ?r" "rr_all ?r = rr_all r" using assms(1) by (simp_all add: rr_ok_def rr_all_def)
  then obtain r1 where r1: "rr_remove p ?r = Some r1" "rr_ok r1" "rr_like ?r r1" "rr_all r1 = rr_all r - {p}"
    using rr_remove_ok [of ?r p] assms(2) by auto
  have "dropping r1" using r1(3) by (cases r1, cases r) (simp add: rr_like_def)
  then show ?thesis using r1 i assms(5,6) by (simp add: lb_pipe_terminated_def lb_sendpipe_def Let_def)
qed

theorem lb_drops_rest_witness:
  "\<exists>r1 r2. lb_pipe_terminated 1 (lb_one True) = Some r1 \<and> dropping r1 \<and>
     lb_sendpipe pipe_write pipe_flush (\<lambda>m w. Some w) msg_init r1 undefined = Some (None, None, msg_init, r2, undefined) \<and> \<not> dropping r2"
  using lb_drops_rest [of "lb_one True" 1 "\<lambda>m w. Some w" msg_init undefined undefined pipe_write pipe_flush] lb_one_ok
  by (auto simp: rr_all_def lb_one_def msg_more_def msg_init_def)

text \<open>
  C22: a peer can abort the sender. When the current pipe of an unfinished multipart message is
  asked to terminate and lingers, it stops taking messages before the load balancer hears of
  it, and sending the next part fails the assertion \<open>!more\<close>.
\<close>

theorem lb_peer_termination_aborts:
  assumes "rr_ok r" and "0 < rr_active r" and "rr_more r" and "\<not> dropping r"
    and "pipes w (rr_cur r) = Some q" and "state q = active" and "delay q"
  shows "\<exists>w'. pipe_process_command (rr_cur r) Pipe_term w = Some w' \<and> lb_sendpipe pipe_write pipe_flush cl m r w' = None"
proof -
  let ?p = "rr_cur r"
  let ?w = "set_pipe ?p (q\<lparr>state := waiting_for_delimiter\<rparr>) w"
  have "pipe_process_command ?p Pipe_term w = Some ?w"
    using assms(5-7) by (simp add: pipe_process_command_def pipe_process_pipe_term_def)
  moreover have "pipe_write ?p m ?w = Some (False, m, ?w)" by (simp add: pipe_write_def pipe_check_write_def)
  then have "lb_loop pipe_write m r ?w = None"
    using assms(2,3) arr_get_current [OF assms(1,2)] by (subst lb_loop.simps) simp
  then have "lb_sendpipe pipe_write pipe_flush cl m r ?w = None" using assms(4) by (simp add: lb_sendpipe_def)
  ultimately show ?thesis by blast
qed

theorem lb_peer_termination_aborts_witness:
  "\<exists>w w'. pipe_process_command 1 Pipe_term w = Some w' \<and> lb_sendpipe pipe_write pipe_flush close_in msg_init (lb_one True) w' = None"
proof -
  obtain w :: world where w: "pipes w 1 = Some open_pipe" using sinks_example by blast
  show ?thesis using lb_peer_termination_aborts [OF lb_one_ok(1,4), of True w open_pipe close_in msg_init] w lb_one_ok(3) [of True]
    by (auto simp: lb_one_def open_pipe_def pipe_new_def)
qed

end
