(* ===== verification/Socket_Common.thy ===== *)
theory Socket_Common
  imports Options Feeds Lb Dist
begin

text \<open>
  What the socket types share: the types of \<^verbatim>\<open>include/zmq.h\<close> they refer to, the
  decoding of integer option values, and the creation of a message with given content. The
  result of an operation that can report an error is \<open>errno_t option\<close>, with \<open>None\<close> for success;
  the failure of the whole operation (\<open>None\<close> of the outer option) is a failed assertion.
\<close>

datatype socket_type =
    ZMQ_PAIR | ZMQ_PUB | ZMQ_SUB | ZMQ_REQ | ZMQ_REP | ZMQ_DEALER | ZMQ_ROUTER
  | ZMQ_PULL | ZMQ_PUSH | ZMQ_XPUB | ZMQ_XSUB | ZMQ_STREAM

text \<open>The test of an \<open>xsetsockopt\<close> function that an option value is an \<open>int\<close>.\<close>

definition opt_int :: "byte list \<Rightarrow> int option" where
  "opt_int v = (if is_int v then Some (int_value v) else None)"

text \<open>An integer option that must not be negative, as every boolean option of the sockets.\<close>

definition opt_bool :: "byte list \<Rightarrow> bool option" where
  "opt_bool v = (case opt_int v of None \<Rightarrow> None | Some i \<Rightarrow> if 0 \<le> i then Some (i \<noteq> 0) else None)"

text \<open>\<open>msg.close ()\<close> where the result is not looked at.\<close>

definition close_ignored :: "msg_t \<Rightarrow> world \<Rightarrow> world option" where
  "close_ignored m w = do { (_, _, h) \<leftarrow> msg_close m (mheap w); Some (w\<lparr>mheap := h\<rparr>) }"

text \<open>\<open>memcpy (msg.data (), d, d.size ())\<close>\<close>

definition msg_memcpy :: "blob_t \<Rightarrow> msg_t \<Rightarrow> msg_heap \<Rightarrow> (msg_t \<times> msg_heap) option" where
  "msg_memcpy d m h = (case msg_u m of
      Vsm b \<Rightarrow> if length d \<le> length b then Some (m\<lparr>msg_u := Vsm (d @ drop (length d) b)\<rparr>, h) else None
    | Lmsg (Some a) \<Rightarrow> do {
        c \<leftarrow> contents h a;
        if length d \<le> length (content_data c)
        then Some (m, h\<lparr>contents := (contents h)(a \<mapsto> c\<lparr>content_data := d @ drop (length d) (content_data c)\<rparr>)\<rparr>)
        else None
      }
    | _ \<Rightarrow> None)"

text \<open>
  \<open>init_size\<close> and \<open>memcpy\<close>, as the sockets make their own messages; \<open>oom n\<close> says whether the
  allocation of a message of \<open>n\<close> bytes fails, which the sockets answer with \<open>errno_assert\<close>.
\<close>

definition new_msg :: "(nat \<Rightarrow> bool) \<Rightarrow> blob_t \<Rightarrow> world \<Rightarrow> (msg_t \<times> world) option" where
  "new_msg oom d w = do {
     (rc, m, h) \<leftarrow> msg_init_size (oom (length d)) (length d) (mheap w);
     zmq_assert (rc = None);
     (m, h) \<leftarrow> msg_memcpy d m h;
     Some (m, w\<lparr>mheap := h\<rparr>)
   }"

text \<open>All parts of one message.\<close>

definition whole :: "msg_t list \<Rightarrow> bool" where
  "whole ms \<longleftrightarrow> ms \<noteq> [] \<and> (\<forall>m \<in> set (butlast ms). msg_more m) \<and> \<not> msg_more (last ms)"

lemma whole_Cons: "msg_more m \<Longrightarrow> whole ms \<Longrightarrow> whole (m # ms)" and whole_single: "\<not> msg_more m \<Longrightarrow> whole [m]"
  and whole_nomore: "whole (m # ms) \<Longrightarrow> \<not> msg_more m \<Longrightarrow> ms = []"
  by (auto simp: whole_def split: if_splits)

subsection \<open>New messages\<close>

lemma new_msg_ok:
  assumes "refs_ok (mheap w) ms" and "length d + sizeof_content \<le> size_t_max" and "\<not> oom (length d)"
  shows "\<exists>m h. new_msg oom d w = Some (m, w\<lparr>mheap := h\<rparr>) \<and> refs_ok h (add_mset m ms) \<and> msg_data m h = Some d \<and>
    msg_flags m = 0 \<and> msg_check m \<and> \<not> msg_is_delimiter m \<and> (\<forall>m' \<in># ms. msg_data m' h = msg_data m' (mheap w))"
proof (cases "length d \<le> max_vsm_size")
  case True
  let ?m = "\<lparr>msg_u = Vsm d, msg_flags = 0\<rparr>"
  have "new_msg oom d w = Some (?m, w\<lparr>mheap := mheap w\<rparr>)" using True by (simp add: new_msg_def msg_init_size_def msg_memcpy_def)
  moreover have "refs_ok (mheap w) (add_mset ?m ms)" using assms(1) refs_ok_none [of ?m "mheap w" ms] by (simp add: points_to_def)
  ultimately show ?thesis
    by (intro exI [of _ ?m] exI [of _ "mheap w"]) (simp add: msg_data_def msg_check_def msg_is_delimiter_def)
next
  case False
  let ?b = "msg_brk (mheap w)" and ?m = "\<lparr>msg_u = Lmsg (Some (msg_brk (mheap w))), msg_flags = 0\<rparr>"
  let ?c = "\<lparr>content_data = d, content_ffn = None, content_refcnt = 0\<rparr>"
  define h where "h = (mheap w)\<lparr>contents := (contents (mheap w))(?b \<mapsto> ?c), msg_brk := Suc ?b\<rparr>"
  have nw: "\<not> alloc_wraps (length d)" using alloc_wraps_iff [of "length d"] assms(2) by simp
  have run: "new_msg oom d w = Some (?m, w\<lparr>mheap := h\<rparr>)"
    using False assms(3) nw by (simp add: new_msg_def msg_init_size_def msg_alloc_def msg_memcpy_def h_def)
  have nob: "\<not> points_to ?b m'" if "m' \<in># ms" for m'
  proof -
    have "contents (mheap w) ?b = None" using assms(1) unfolding refs_ok_def by (meson less_irrefl not_None_eq)
    then show ?thesis using assms(1) that unfolding refs_ok_def nrefs_0_iff by blast
  qed
  have rc: "refs_ok h (add_mset ?m ms)"
  proof -
    have "nrefs ?b (add_mset ?m ms) = 1" using nob by (simp add: nrefs_0_iff points_to_def)
    then have "counted ?c ?b (add_mset ?m ms)" using nob by (auto simp: counted_def)
    moreover have "nrefs a (add_mset ?m ms) = nrefs a ms" if "a \<noteq> ?b" for a using that by (simp add: points_to_def)
    moreover have "counted c a (add_mset ?m ms) = counted c a ms" if "a \<noteq> ?b" for a c
      using that calculation(2) by (simp add: counted_def points_to_def)
    ultimately show ?thesis using assms(1) by (auto simp: refs_ok_def h_def less_Suc_eq)
  qed
  have "msg_data m' h = msg_data m' (mheap w)" if "m' \<in># ms" for m'
    using nob [OF that] by (intro msg_data_cong) (auto simp: h_def points_to_def)
  then show ?thesis using run rc
    by (intro exI [of _ ?m] exI [of _ h]) (simp add: msg_data_def msg_check_def msg_is_delimiter_def h_def)
qed

lemma close_ignored_close_in: "msg_check m \<Longrightarrow> close_ignored m w = close_in m w"
  by (auto simp: close_ignored_def close_in_def msg_close_def split: msg_body.splits Option.bind_splits)

text \<open>Flags other than the one for sharing do not matter for the reference counts.\<close>

lemma refs_ok_same:
  assumes "msg_u m' = msg_u m" and "msg_shared m' = msg_shared m"
  shows "refs_ok h (add_mset m' R) = refs_ok h (add_mset m R)"
proof -
  have "points_to a m' = points_to a m" for a using assms(1) by (simp add: points_to_def)
  then show ?thesis using assms by (simp add: refs_ok_def counted_def)
qed

lemma msg_shared_more [simp]: "msg_shared (msg_set_flags flag_more m) = msg_shared m"
proof -
  have "flag_more AND flag_shared = 0" by (simp add: flag_more_def flag_shared_def)
  then show ?thesis by (simp add: msg_shared_def msg_set_flags_def bit.conj_disj_distrib2)
qed

lemma refs_ok_more_flag [simp]: "refs_ok h (add_mset (msg_set_flags flag_more m) R) = refs_ok h (add_mset m R)"
  by (rule refs_ok_same) simp_all

end
