(* ===== verification/Trie_Table.thy ===== *)
theory Trie_Table
  imports Zmq_Prelude
begin

text \<open>
  The node layout that \<open>trie_t\<close> (\<^verbatim>\<open>src/trie.cpp\<close>) and \<open>mtrie_t\<close> (\<^verbatim>\<open>src/mtrie.cpp\<close>) share: a payload,
  the smallest character \<open>min\<close>, the number \<open>count\<close> of consecutive characters covered, the
  number of live children, and a union that is a single child pointer while \<open>count\<close> is 1 and
  a table of \<open>count\<close> child pointers above that. Reading the member of the union that is not
  in use, or a table out of range, is the failure \<open>None\<close>.

  \<open>shape_ok\<close> says that a node is laid out tightly: no child at all, or one, or a table that
  begins and ends with a live child. \<open>kids\<close> is what the node means, a map from characters to
  children. Growing the table and shrinking it to a window keep the former and have the
  obvious effect on the latter.
\<close>

datatype 'n next_t = Next_node "'n option" | Next_table "'n option list"

datatype 'v tnode =
  Tnode (payload: 'v) (tmin: byte) (tcount: nat) (live_nodes: nat) (next_tab: "'v tnode next_t")

subsection \<open>Access to the children\<close>

definition in_range :: "byte \<Rightarrow> 'v tnode \<Rightarrow> bool" where
  "in_range c t \<longleftrightarrow> \<not> (unat c < unat (tmin t) \<or> unat (tmin t) + tcount t \<le> unat c)"

text \<open>\<open>count == 1 ? next.node : next.table [c - min]\<close>, as a value and as the target of an assignment.\<close>

fun slot_get :: "byte \<Rightarrow> 'v tnode \<Rightarrow> 'v tnode option option" where
  "slot_get c (Tnode v mn cn lv (Next_node n)) = (if cn = 1 then Some n else None)"
| "slot_get c (Tnode v mn cn lv (Next_table tb)) =
     (if cn \<noteq> 1 \<and> unat mn \<le> unat c \<and> unat c - unat mn < length tb
      then Some (tb ! (unat c - unat mn)) else None)"

fun slot_set :: "byte \<Rightarrow> 'v tnode option \<Rightarrow> 'v tnode \<Rightarrow> 'v tnode option" where
  "slot_set c x (Tnode v mn cn lv (Next_node n)) =
     (if cn = 1 then Some (Tnode v mn cn lv (Next_node x)) else None)"
| "slot_set c x (Tnode v mn cn lv (Next_table tb)) =
     (if cn \<noteq> 1 \<and> unat mn \<le> unat c \<and> unat c - unat mn < length tb
      then Some (Tnode v mn cn lv (Next_table (tb[unat c - unat mn := x]))) else None)"

fun bump_live :: "'v tnode \<Rightarrow> 'v tnode" where
  "bump_live (Tnode v mn cn lv nx) = Tnode v mn cn (lv + 1) nx"

fun set_payload :: "'v \<Rightarrow> 'v tnode \<Rightarrow> 'v tnode" where
  "set_payload v' (Tnode v mn cn lv nx) = Tnode v' mn cn lv nx"

text \<open>Extending the range of characters of a node, the same code in both classes.\<close>

fun extend :: "byte \<Rightarrow> 'v tnode \<Rightarrow> 'v tnode option" where
  "extend c (Tnode v mn cn lv nx) =
     (let m = unat mn; k = unat c
      in if \<not> (k < m \<or> m + cn \<le> k) then Some (Tnode v mn cn lv nx)
         else if cn = 0 then Some (Tnode v c 1 lv (Next_node None))
         else if cn = 1
         then (case nx of
             Next_node oldp \<Rightarrow>
               let cn' = (if m < k then k - m else m - k) + 1; m' = min m k
               in Some (Tnode v (of_nat m') cn' lv (Next_table ((replicate cn' None)[m - m' := oldp])))
           | Next_table _ \<Rightarrow> None)
         else (case nx of
             Next_table tb \<Rightarrow>
               if m < k
               then let cn' = k - m + 1 in Some (Tnode v mn cn' lv (Next_table (tb @ replicate (cn' - cn) None)))
               else Some (Tnode v c (m + cn - k) lv (Next_table (replicate (m - k) None @ tb)))
           | Next_node _ \<Rightarrow> None))"

subsection \<open>The meaning of a node\<close>

definition kids :: "'v tnode \<Rightarrow> byte \<Rightarrow> 'v tnode option" where
  "kids t c = (if in_range c t then Option.bind (slot_get c t) (\<lambda>x. x) else None)"

definition live_at :: "'n option list \<Rightarrow> nat set" where
  "live_at tb = {k. k < length tb \<and> tb ! k \<noteq> None}"

fun shape_ok :: "'v tnode \<Rightarrow> bool" where
  "shape_ok (Tnode v mn cn lv nx) \<longleftrightarrow>
     (if cn = 0 then lv = 0
      else if cn = 1 then lv = 1 \<and> (\<exists>n. nx = Next_node (Some n))
      else unat mn + cn \<le> 256 \<and> (\<exists>tb. nx = Next_table tb \<and> length tb = cn \<and> tb ! 0 \<noteq> None \<and>
             tb ! (cn - 1) \<noteq> None \<and> lv = card (live_at tb)))"

lemma shape_tableI:
  assumes "cn \<noteq> 0" and "cn \<noteq> 1" and "unat mn + cn \<le> 256" and "length tb = cn" and "tb ! 0 \<noteq> None"
    and "tb ! (cn - 1) \<noteq> None" and "lv = card (live_at tb)"
  shows "shape_ok (Tnode v mn cn lv (Next_table tb))"
  using assms by simp

lemma unat_byte [simp]: "x < 256 \<Longrightarrow> unat (of_nat x :: byte) = x"
  by (simp add: unat_of_nat)

lemma unat_byte_less [simp]: "unat (c :: byte) < 256"
  using unsigned_less [of c, where 'a = nat] by simp

lemma byte_eq_iff: "(c :: byte) = d \<longleftrightarrow> unat c = unat d"
  by (rule word_unat_eq_iff)

lemma kids_empty [simp]: "kids (Tnode v mn 0 lv nx) = (\<lambda>_. None)"
  by (rule ext) (auto simp: kids_def in_range_def)

lemma kids_single [simp]:
  "kids (Tnode v mn (Suc 0) lv (Next_node n)) = (\<lambda>_. None)(mn := n)"
  by (auto simp: kids_def in_range_def byte_eq_iff fun_eq_iff)

lemma kids_table:
  assumes "length tb = cn" and "cn \<noteq> 1"
  shows "kids (Tnode v mn cn lv (Next_table tb)) c =
    (if unat mn \<le> unat c \<and> unat c < unat mn + cn then tb ! (unat c - unat mn) else None)"
  using assms by (auto simp: kids_def in_range_def)

lemma payload_simps [simp]:
  "payload (set_payload v t) = v" "payload (bump_live t) = payload t"
  "kids (set_payload v t) = kids t" "shape_ok (set_payload v t) = shape_ok t"
  "live_nodes (set_payload v t) = live_nodes t"
proof -
  obtain v0 mn cn lv nx where t: "t = Tnode v0 mn cn lv nx" by (cases t)
  have "slot_get c (Tnode v mn cn lv nx) = slot_get c (Tnode v0 mn cn lv nx)" for c
    by (cases nx) auto
  then have "kids (set_payload v t) c = kids t c" for c
    unfolding t kids_def in_range_def by simp
  then show "kids (set_payload v t) = kids t" by blast
qed (cases t; simp)+

lemma live_at_update:
  "k < length tb \<Longrightarrow> live_at (tb[k := None]) = live_at tb - {k}"
  "k < length tb \<Longrightarrow> live_at (tb[k := Some n]) = insert k (live_at tb)"
  by (auto simp: live_at_def nth_list_update)

lemma live_at_finite [simp]: "finite (live_at tb)"
  by (simp add: live_at_def)

lemma live_at_append_None [simp]:
  "live_at (tb @ replicate n None) = live_at tb"
proof (rule set_eqI)
  fix k
  show "k \<in> live_at (tb @ replicate n None) \<longleftrightarrow> k \<in> live_at tb"
    by (cases "k < length tb") (auto simp: live_at_def nth_append)
qed

lemma live_at_shift: "live_at (replicate n None @ tb) = (\<lambda>k. k + n) ` live_at tb"
proof -
  have "k \<in> (\<lambda>k. k + n) ` live_at tb" if "k \<in> live_at (replicate n None @ tb)" for k
  proof -
    have "\<not> k < n" using that by (auto simp: live_at_def nth_append)
    then show ?thesis using that by (intro image_eqI [of _ _ "k - n"]) (auto simp: live_at_def nth_append)
  qed
  then show ?thesis by (auto simp: live_at_def nth_append)
qed

lemma card_live_at_shift [simp]: "card (live_at (replicate n None @ tb)) = card (live_at tb)"
  by (simp add: live_at_shift card_image)

subsection \<open>Adding a child\<close>

text \<open>
  What \<open>add\<close> needs of the table: after extending the range the slot of the character can be
  read, and storing a child there (and counting it if it is new) is a tight node again.
\<close>

definition open_slot :: "byte \<Rightarrow> 'v tnode \<Rightarrow> 'v tnode \<Rightarrow> bool" where
  "open_slot c t t1 \<longleftrightarrow> extend c t = Some t1 \<and> slot_get c t1 = Some (kids t c) \<and> payload t1 = payload t \<and>
     (kids t c = None \<longrightarrow> (if tcount t1 = 1 then live_nodes t1 = 0 else 0 < live_nodes t1)) \<and>
     (\<forall>n. \<exists>t3. slot_set c (Some n) (if kids t c = None then bump_live t1 else t1) = Some t3 \<and>
        shape_ok t3 \<and> kids t3 = (kids t)(c \<mapsto> n) \<and> payload t3 = payload t)"

lemma open_slot_present:
  assumes "shape_ok t" and "in_range c t"
  shows "open_slot c t t"
proof (cases t)
  case (Tnode v mn cn lv nx)
  show ?thesis
  proof (cases "cn = 1")
    case True
    then obtain m where "nx = Next_node (Some m)" using assms Tnode by auto
    moreover have "c = mn" using assms(2) True Tnode by (auto simp: in_range_def byte_eq_iff)
    ultimately show ?thesis using assms(1) True Tnode by (simp add: open_slot_def)
  next
    case False
    have cn: "cn \<noteq> 0" using assms(2) Tnode by (auto simp: in_range_def)
    then obtain tb where tb: "nx = Next_table tb" "length tb = cn" "tb ! 0 \<noteq> None" "tb ! (cn - 1) \<noteq> None"
      "lv = card (live_at tb)" "unat mn + cn \<le> 256" using assms(1) Tnode False by auto
    define k where "k = unat c - unat mn"
    have k: "k < cn" "unat c = unat mn + k" using assms(2) Tnode by (auto simp: in_range_def k_def)
    have nx: "(tb[k := Some n]) ! 0 \<noteq> None" "(tb[k := Some n]) ! (cn - 1) \<noteq> None" for n
      using tb(2-4) k(1) by (cases "k = 0", simp_all) (cases "k = cn - 1", simp_all)
    have kids: "kids (Tnode v mn cn l (Next_table (tb[k := Some n]))) = (kids t)(c \<mapsto> n)" for n l
      using tb(1,2) False k by (auto simp: Tnode kids_table fun_eq_iff nth_list_update byte_eq_iff)
    have "kids t c = tb ! k" using k tb(1,2) False by (simp add: Tnode kids_table)
    moreover have "0 \<in> live_at tb" using tb(2,3) cn by (simp add: live_at_def)
    then have "0 < lv" unfolding tb(5) by (auto simp: card_gt_0_iff)
    moreover have "card (live_at (tb[k := Some n])) = (if tb ! k = None then Suc lv else lv)" for n
    proof -
      have "k \<in> live_at tb \<longleftrightarrow> tb ! k \<noteq> None" using k tb(2) by (simp add: live_at_def)
      then show ?thesis using k tb(2,5) by (simp add: live_at_update card_insert_if)
    qed
    moreover have "\<not> unat c < unat mn" "\<not> unat mn + cn \<le> unat c" using k by auto
    ultimately show ?thesis
      using Tnode tb(1,2,6) False k nx kids cn by (auto simp: open_slot_def Let_def)
  qed
qed

lemma open_slot_empty:
  assumes "tcount t = 0" and "shape_ok t"
  shows "\<exists>t1. open_slot c t t1"
proof (cases t)
  case (Tnode v mn cn lv nx)
  then show ?thesis
    using assms by (intro exI [of _ "Tnode v c 1 lv (Next_node None)"]) (auto simp: open_slot_def Let_def)
qed

lemma open_slot_single:
  assumes "tcount t = 1" and "shape_ok t" and "\<not> in_range c t"
  shows "\<exists>t1. open_slot c t t1"
proof (cases t)
  case (Tnode v mn cn lv nx)
  then obtain p where nx: "nx = Next_node (Some p)" and lv: "lv = 1" and cn: "cn = 1"
    using assms by auto
  let ?m = "unat mn" and ?k = "unat c"
  have ne: "?m \<noteq> ?k" using assms(3) Tnode cn by (auto simp: in_range_def)
  define m' where "m' = min ?m ?k"
  define cn' where "cn' = (if ?m < ?k then ?k - ?m else ?m - ?k) + 1"
  define tb where "tb = (replicate cn' None)[?m - m' := Some p]"
  have m': "m' < 256" by (simp add: m'_def min_less_iff_disj)
  have i: "?m - m' < cn'" "?k - m' < cn'" "?k - m' \<noteq> ?m - m'" "m' \<le> ?k" "m' \<le> ?m" "cn' \<noteq> 1"
    using ne by (auto simp: m'_def cn'_def min_def)
  have e: "extend c t = Some (Tnode v (of_nat m') cn' lv (Next_table tb))"
    using ne linorder_less_linear [of ?m ?k] by (auto simp: Tnode nx cn m'_def cn'_def tb_def Let_def)
  have at: "tb ! j = (if j = ?m - m' then Some p else None)" if "j < cn'" for j
    using that i by (auto simp: tb_def nth_list_update)
  have len: "length tb = cn'" by (simp add: tb_def)
  have live: "live_at tb = {?m - m'}" using i(1) at len by (auto simp: live_at_def split: if_splits)
  have kid: "kids t c = None" using ne by (simp add: Tnode nx cn byte_eq_iff)
  have "shape_ok (Tnode v (of_nat m') cn' (lv + 1) (Next_table (tb[?k - m' := Some n])))" for n
  proof -
    have "(tb[?k - m' := Some n]) ! 0 \<noteq> None" "(tb[?k - m' := Some n]) ! (cn' - 1) \<noteq> None"
      using i at len ne by (auto simp: nth_list_update m'_def cn'_def min_def split: if_splits)
    moreover have "card (live_at (tb[?k - m' := Some n])) = 2"
      using i len by (simp add: live_at_update live card_insert_if)
    moreover have "m' + cn' \<le> 256"
      using unat_byte_less [of c] unat_byte_less [of mn]
      by (auto simp: m'_def cn'_def min_def simp del: unat_byte_less)
    ultimately show ?thesis using i len lv m' by simp
  qed
  moreover have "kids (Tnode v (of_nat m') cn' l (Next_table (tb[?k - m' := Some n]))) = (kids t)(c \<mapsto> n)" for n l
  proof
    fix x :: byte
    have "?m - m' = unat x - m' \<longleftrightarrow> ?m = unat x" if "m' \<le> unat x" using that i by auto
    moreover have "?k - m' = unat x - m' \<longleftrightarrow> ?k = unat x" if "m' \<le> unat x" using that i by auto
    ultimately show "kids (Tnode v (of_nat m') cn' l (Next_table (tb[?k - m' := Some n]))) x = ((kids t)(c \<mapsto> n)) x"
      using i m' len at by (auto simp: kids_table Tnode nx cn byte_eq_iff nth_list_update)
  qed
  ultimately have "open_slot c t (Tnode v (of_nat m') cn' lv (Next_table tb))"
    unfolding open_slot_def e using kid i m' len at lv by (simp add: Tnode)
  then show ?thesis by blast
qed

lemma open_slot_table:
  assumes "1 < tcount t" and "shape_ok t" and "\<not> in_range c t"
  shows "\<exists>t1. open_slot c t t1"
proof (cases t)
  case (Tnode v mn cn lv nx)
  then obtain tb where tb: "nx = Next_table tb" "length tb = cn" "tb ! 0 \<noteq> None" "tb ! (cn - 1) \<noteq> None"
    "lv = card (live_at tb)" "unat mn + cn \<le> 256" and cn: "1 < cn" using assms(1,2) by auto
  let ?m = "unat mn" and ?k = "unat c"
  have out: "?k < ?m \<or> ?m + cn \<le> ?k" using assms(3) Tnode by (auto simp: in_range_def)
  have kid: "kids t c = None" using assms(3) by (simp add: kids_def)
  have "0 \<in> live_at tb" using tb(2,3) cn by (simp add: live_at_def)
  then have lv: "0 < lv" unfolding tb(5) by (auto simp: card_gt_0_iff)
  show ?thesis
  proof (cases "?m < ?k")
    case True
    define cn' where "cn' = ?k - ?m + 1"
    define tb' where "tb' = tb @ replicate (cn' - cn) None"
    have c': "cn < cn'" "?k - ?m = cn' - 1" "?m + cn' \<le> 256" using out True cn unat_byte_less [of c] unfolding cn'_def by linarith+
    have len: "length tb' = cn'" using c' tb(2) by (simp add: tb'_def)
    have e: "extend c t = Some (Tnode v mn cn' lv (Next_table tb'))"
      using out True cn by (simp add: Tnode tb(1) cn'_def tb'_def Let_def)
    have at: "tb' ! j = (if j < cn then tb ! j else None)" if "j < cn'" for j
      using that tb(2) by (auto simp: tb'_def nth_append)
    have "live_at tb' = live_at tb" by (simp add: tb'_def)
    moreover have "cn' - 1 \<notin> live_at tb" using c' tb(2) by (auto simp: live_at_def)
    ultimately have "card (live_at (tb'[cn' - 1 := Some n])) = Suc lv" for n
      using len c' tb(5) by (simp add: live_at_update)
    then have "shape_ok (Tnode v mn cn' (lv + 1) (Next_table (tb'[?k - ?m := Some n])))" for n
      using c' cn len tb(3) by (auto simp: at)
    moreover have "kids (Tnode v mn cn' l (Next_table (tb'[?k - ?m := Some n]))) = (kids t)(c \<mapsto> n)" for n l
    proof
      fix x :: byte
      have "?k - ?m = unat x - ?m \<longleftrightarrow> ?k = unat x" if "?m \<le> unat x" using that True by auto
      then show "kids (Tnode v mn cn' l (Next_table (tb'[?k - ?m := Some n]))) x = ((kids t)(c \<mapsto> n)) x"
        using c' cn len at tb(2) by (auto simp: kids_table Tnode tb(1) byte_eq_iff nth_list_update)
    qed
    ultimately have "open_slot c t (Tnode v mn cn' lv (Next_table tb'))"
      unfolding open_slot_def e using kid c' cn len at lv True by (auto simp: Tnode)
    then show ?thesis by blast
  next
    case False
    then have km: "?k < ?m" using out cn by auto
    define cn' where "cn' = ?m + cn - ?k"
    define tb' where "tb' = replicate (?m - ?k) None @ tb"
    have c': "cn < cn'" "?k + cn' \<le> 256" using km tb(6) by (auto simp: cn'_def)
    have len: "length tb' = cn'" using km tb(2) by (simp add: tb'_def cn'_def)
    have e: "extend c t = Some (Tnode v c cn' lv (Next_table tb'))"
      using km cn by (simp add: Tnode tb(1) cn'_def tb'_def Let_def)
    have at: "tb' ! j = (if j < ?m - ?k then None else tb ! (j - (?m - ?k)))" for j
      by (auto simp: tb'_def nth_append)
    have "0 \<notin> live_at tb'" using km by (simp add: tb'_def live_at_def nth_append)
    moreover have "card (live_at tb') = lv" by (simp add: tb'_def tb(5))
    ultimately have "card (live_at (tb'[0 := Some n])) = Suc lv" for n
      using len c' by (simp add: live_at_update)
    moreover have "tb' ! (cn' - 1) \<noteq> None" using tb(4) km cn by (simp add: at cn'_def)
    ultimately have "shape_ok (Tnode v c cn' (lv + 1) (Next_table (tb'[0 := Some n])))" for n
      using c' cn len by auto
    moreover have "kids (Tnode v c cn' l (Next_table (tb'[0 := Some n]))) = (kids t)(c \<mapsto> n)" for n l
    proof
      fix x :: byte
      have "unat x - ?k - (?m - ?k) = unat x - ?m" using km by simp
      then show "kids (Tnode v c cn' l (Next_table (tb'[0 := Some n]))) x = ((kids t)(c \<mapsto> n)) x"
        using c' cn len at tb(2) km
        by (auto simp: kids_table Tnode tb(1) byte_eq_iff nth_list_update cn'_def)
    qed
    ultimately have "open_slot c t (Tnode v c cn' lv (Next_table tb'))"
      unfolding open_slot_def e using kid c' cn len at lv km by (simp add: Tnode)
    then show ?thesis by blast
  qed
qed

lemma open_slot_exists:
  assumes "shape_ok t"
  shows "\<exists>t1. open_slot c t t1"
proof -
  consider "in_range c t" | "tcount t = 0" | "tcount t = 1" "\<not> in_range c t" | "1 < tcount t" "\<not> in_range c t"
    by linarith
  then show ?thesis
    using open_slot_present open_slot_empty open_slot_single open_slot_table assms by cases blast+
qed

subsection \<open>Replacing and dropping children\<close>

lemma slot_get_kids:
  assumes "shape_ok t" and "in_range c t"
  shows "slot_get c t = Some (kids t c)"
  using assms by (cases t; cases "tcount t = 1") (auto simp: kids_def in_range_def)

lemma slot_set_kids:
  assumes "shape_ok t" and "kids t c = Some m"
  shows "\<exists>t'. slot_set c (Some n) t = Some t' \<and> shape_ok t' \<and> kids t' = (kids t)(c \<mapsto> n) \<and> payload t' = payload t"
proof -
  have "in_range c t" using assms(2) by (simp add: kids_def split: if_splits)
  then have "open_slot c t t" by (rule open_slot_present [OF assms(1)])
  then show ?thesis using assms(2) by (simp add: open_slot_def)
qed

lemma kids_live:
  assumes "shape_ok t" and "kids t c = Some n"
  shows "0 < live_nodes t"
proof (cases t)
  case (Tnode v mn cn lv nx)
  have "cn \<noteq> 0" using assms(2) Tnode by (auto simp: kids_def in_range_def split: if_splits)
  show ?thesis
  proof (cases "cn = 1")
    case False
    then obtain tb where "nx = Next_table tb" and tb: "length tb = cn" "tb ! 0 \<noteq> None" "lv = card (live_at tb)"
      using assms(1) Tnode \<open>cn \<noteq> 0\<close> by auto
    then have "0 \<in> live_at tb" using \<open>cn \<noteq> 0\<close> by (simp add: live_at_def)
    then show ?thesis using tb(3) Tnode by (auto simp: card_gt_0_iff)
  qed (use assms(1) Tnode in simp)
qed

text \<open>
  Every compaction keeps a window of the table whose two ends are live and outside of which
  nothing is.
\<close>

lemma window_live:
  assumes "j < length tb" and "i \<le> j" and "\<forall>k < length tb. k < i \<or> j < k \<longrightarrow> tb ! k = None"
  shows "card (live_at (take (j + 1 - i) (drop i tb))) = card (live_at tb)"
proof -
  have "live_at tb = (\<lambda>k. k + i) ` live_at (take (j + 1 - i) (drop i tb))"
  proof (rule set_eqI)
    fix k
    show "k \<in> live_at tb \<longleftrightarrow> k \<in> (\<lambda>k. k + i) ` live_at (take (j + 1 - i) (drop i tb))"
    proof
      assume k: "k \<in> live_at tb"
      then have "i \<le> k" "k \<le> j" using assms(3) by (auto simp: live_at_def not_less [symmetric])
      then show "k \<in> (\<lambda>k. k + i) ` live_at (take (j + 1 - i) (drop i tb))"
        using k assms(1) by (intro image_eqI [of _ _ "k - i"]) (auto simp: live_at_def)
    qed (use assms in \<open>auto simp: live_at_def add.commute\<close>)
  qed
  then show ?thesis by (simp add: card_image)
qed

lemma window_kids:
  assumes "length tb = cn" and "1 < cn" and "unat mn + cn \<le> 256" and "i \<le> j" and "j < cn"
    and "\<forall>k < cn. k < i \<or> j < k \<longrightarrow> tb ! k = None"
  shows "i < j \<Longrightarrow> kids (Tnode v (mn + of_nat i) (j + 1 - i) l (Next_table (take (j + 1 - i) (drop i tb)))) =
           kids (Tnode v mn cn lv (Next_table tb))"
    and "i = j \<Longrightarrow> kids (Tnode v (mn + of_nat i) 1 l (Next_node (tb ! i))) =
           kids (Tnode v mn cn lv (Next_table tb))"
    and "unat (mn + of_nat i) = unat mn + i"
proof -
  have "mn + of_nat i = of_nat (unat mn + i)" by (metis of_nat_add of_nat_unat ucast_id)
  moreover have "unat mn + i < 256" using assms(3-5) by linarith
  ultimately show un: "unat (mn + of_nat i) = unat mn + i" by (simp only: unat_byte)
  have out: "k < cn \<Longrightarrow> k < i \<Longrightarrow> tb ! k = None" "k < cn \<Longrightarrow> j < k \<Longrightarrow> tb ! k = None" for k
    using assms(6) by blast+
  show "kids (Tnode v (mn + of_nat i) (j + 1 - i) l (Next_table (take (j + 1 - i) (drop i tb)))) =
      kids (Tnode v mn cn lv (Next_table tb))" if "i < j"
  proof
    fix x :: byte
    have "i + (unat x - (unat mn + i)) = unat x - unat mn" if "unat mn + i \<le> unat x" using that by simp
    then show "kids (Tnode v (mn + of_nat i) (j + 1 - i) l (Next_table (take (j + 1 - i) (drop i tb)))) x =
        kids (Tnode v mn cn lv (Next_table tb)) x"
      using that assms(1-5) out [of "unat x - unat mn"] by (auto simp: kids_table un)
  qed
  show "kids (Tnode v (mn + of_nat i) 1 l (Next_node (tb ! i))) = kids (Tnode v mn cn lv (Next_table tb))"
    if "i = j"
  proof
    fix x :: byte
    show "kids (Tnode v (mn + of_nat i) 1 l (Next_node (tb ! i))) x = kids (Tnode v mn cn lv (Next_table tb)) x"
      using that assms(1-5) out [of "unat x - unat mn"] un linorder_less_linear [of "unat x - unat mn" i]
      by (auto simp: kids_table byte_eq_iff)
  qed
qed

lemma window_shape:
  assumes "length tb = cn" and "1 < cn" and "unat mn + cn \<le> 256" and "i \<le> j" and "j < cn"
    and "tb ! i \<noteq> None" and "tb ! j \<noteq> None" and "\<forall>k < cn. k < i \<or> j < k \<longrightarrow> tb ! k = None"
  shows "i < j \<Longrightarrow> shape_ok (Tnode v (mn + of_nat i) (j + 1 - i) (card (live_at tb))
           (Next_table (take (j + 1 - i) (drop i tb))))"
    and "i = j \<Longrightarrow> card (live_at tb) = 1 \<and> shape_ok (Tnode v (mn + of_nat i) 1 1 (Next_node (tb ! i)))"
    and "card (live_at tb) = 1 \<Longrightarrow> i = j"
proof -
  have un: "unat (mn + of_nat i) = unat mn + i" using window_kids(3) [OF assms(1-5,8)] .
  have live: "card (live_at (take (j + 1 - i) (drop i tb))) = card (live_at tb)"
    using window_live [of j tb i] assms by simp
  show "shape_ok (Tnode v (mn + of_nat i) (j + 1 - i) (card (live_at tb))
      (Next_table (take (j + 1 - i) (drop i tb))))" if "i < j"
  proof -
    have "j + 1 - i \<noteq> 0" "j + 1 - i \<noteq> 1" "unat mn + i + (j + 1 - i) \<le> 256"
      "length (take (j + 1 - i) (drop i tb)) = j + 1 - i" using that assms(1,3,5) by auto
    moreover have "take (j + 1 - i) (drop i tb) ! 0 = tb ! i"
      "take (j + 1 - i) (drop i tb) ! (j + 1 - i - 1) = tb ! j" using that assms(1,5) by auto
    ultimately show ?thesis using assms(6,7) un live by (intro shape_tableI) simp_all
  qed
  have uniq: "k = i" if "i = j" "k \<in> live_at tb" for k
    using assms(1,8) that by (cases k i rule: linorder_cases) (auto simp: live_at_def)
  have "i \<in> live_at tb" using assms(1,4-6) by (simp add: live_at_def)
  then have single: "live_at tb = {i}" if "i = j" using uniq [OF that] by blast
  show "card (live_at tb) = 1 \<and> shape_ok (Tnode v (mn + of_nat i) 1 1 (Next_node (tb ! i)))" if "i = j"
    using single [OF that] assms(6) by auto
  have "{i, j} \<subseteq> live_at tb" using assms(1,4-7) by (auto simp: live_at_def)
  then show "i = j" if "card (live_at tb) = 1" using that by (auto simp: card_1_singleton_iff)
qed

text \<open>Clearing the slot of a child in a table.\<close>

lemma clear_slot:
  assumes "shape_ok (Tnode v mn cn lv (Next_table tb))" and "kids (Tnode v mn cn lv (Next_table tb)) c = Some m"
    and "k = unat c - unat mn"
  shows "length tb = cn" "1 < cn" "unat mn + cn \<le> 256" "unat c = unat mn + k" "k < cn" "1 < lv"
    "card (live_at (tb[k := None])) = lv - 1" "0 < k \<Longrightarrow> (tb[k := None]) ! 0 \<noteq> None"
    "k < cn - 1 \<Longrightarrow> (tb[k := None]) ! (cn - 1) \<noteq> None" "lv = 2 \<Longrightarrow> k = 0 \<or> k = cn - 1"
    "kids (Tnode v mn cn l (Next_table (tb[k := None]))) = (kids (Tnode v mn cn lv (Next_table tb)))(c := None)"
proof -
  have "cn \<noteq> 0" using assms(2) by (auto simp: kids_def in_range_def split: if_splits)
  then have tb: "length tb = cn" "tb ! 0 \<noteq> None" "tb ! (cn - 1) \<noteq> None" "lv = card (live_at tb)"
    "unat mn + cn \<le> 256" "cn \<noteq> 1" using assms(1) by (auto split: if_splits)
  then show "length tb = cn" "1 < cn" "unat mn + cn \<le> 256" using \<open>cn \<noteq> 0\<close> by auto
  have k: "unat c = unat mn + k" "k < cn" "tb ! k = Some m"
    using assms(2,3) tb(1,6) by (auto simp: kids_table split: if_splits)
  then show "unat c = unat mn + k" "k < cn" by auto
  have sub: "{0, cn - 1} \<subseteq> live_at tb" "k \<in> live_at tb" using tb k \<open>cn \<noteq> 0\<close> by (auto simp: live_at_def)
  have two: "card {0, cn - 1} = 2" using tb(6) \<open>cn \<noteq> 0\<close> by auto
  then show "1 < lv" using card_mono [OF live_at_finite sub(1)] tb(4) by simp
  show "card (live_at (tb[k := None])) = lv - 1" using k tb(1,4) sub(2) by (simp add: live_at_update)
  show "(tb[k := None]) ! 0 \<noteq> None" if "0 < k" using that tb(2) by simp
  show "(tb[k := None]) ! (cn - 1) \<noteq> None" if "k < cn - 1" using that tb(3) by simp
  show "k = 0 \<or> k = cn - 1" if "lv = 2"
    using card_seteq [OF live_at_finite sub(1)] two that tb(4) sub(2) by auto
  show "kids (Tnode v mn cn l (Next_table (tb[k := None]))) = (kids (Tnode v mn cn lv (Next_table tb)))(c := None)"
    using k tb(1,6) by (auto simp: kids_table fun_eq_iff nth_list_update byte_eq_iff)
qed

definition pruned :: "byte \<Rightarrow> 'v tnode \<Rightarrow> 'v tnode \<Rightarrow> bool" where
  "pruned c t t' \<longleftrightarrow> shape_ok t' \<and> kids t' = (kids t)(c := None) \<and> payload t' = payload t"

lemma compact_slot:
  assumes t: "t = Tnode v mn cn lv (Next_table tb0)" and shape: "shape_ok t"
    and kid: "kids t c = Some m" and k: "k = unat c - unat mn" and tb: "tb = tb0[k := None]"
    and ends: "i \<le> j" "j < cn" "tb ! i \<noteq> None" "tb ! j \<noteq> None"
    and out: "\<forall>x < cn. x < i \<or> j < x \<longrightarrow> tb ! x = None"
  shows "lv - 1 \<noteq> 1 \<Longrightarrow> i < j \<and>
           pruned c t (Tnode v (mn + of_nat i) (j + 1 - i) (lv - 1) (Next_table (take (j + 1 - i) (drop i tb))))"
    and "lv - 1 = 1 \<Longrightarrow> pruned c t (Tnode v (mn + of_nat i) 1 (lv - 1) (Next_node (tb ! i)))"
proof -
  note cs = clear_slot [OF shape [unfolded t] kid [unfolded t] k, folded tb, folded t]
  have len: "length tb = cn" using cs(1) by (simp add: tb)
  note ws = window_shape [OF len cs(2,3) ends out] and wk = window_kids [OF len cs(2,3) ends(1,2) out]
  show "i < j \<and> pruned c t (Tnode v (mn + of_nat i) (j + 1 - i) (lv - 1) (Next_table (take (j + 1 - i) (drop i tb))))"
    if "lv - 1 \<noteq> 1"
  proof -
    have ij: "i < j" using ws(2) cs(7) that ends(1) by (cases "i = j") auto
    have "kids (Tnode v (mn + of_nat i) (j + 1 - i) (lv - 1) (Next_table (take (j + 1 - i) (drop i tb)))) =
        (kids t)(c := None)" using wk(1) [OF ij] cs(11) by metis
    then show ?thesis unfolding pruned_def using ij ws(1) [OF ij] cs(7)
      by (simp add: t del: shape_ok.simps)
  qed
  show "pruned c t (Tnode v (mn + of_nat i) 1 (lv - 1) (Next_node (tb ! i)))" if lv: "lv - 1 = 1"
  proof -
    have ij: "i = j" using ws(3) cs(7) lv by simp
    have "kids (Tnode v (mn + of_nat i) 1 (lv - 1) (Next_node (tb ! i))) = (kids t)(c := None)"
      using wk(2) [OF ij] cs(11) by metis
    then show ?thesis using ws(2) [OF ij] lv by (simp add: pruned_def t)
  qed
qed

lemma live_single:
  assumes "card (live_at tb) = 1" and "i < length tb" and "tb ! i \<noteq> None"
  shows "\<forall>x < length tb. x < i \<or> i < x \<longrightarrow> tb ! x = None"
proof -
  have "i \<in> live_at tb" using assms(2,3) by (simp add: live_at_def)
  moreover obtain x where "live_at tb = {x}" using assms(1) by (auto simp: card_1_singleton_iff)
  ultimately have "x \<notin> live_at tb" if "x \<noteq> i" for x using that by simp
  then show ?thesis by (simp add: live_at_def)
qed

subsection \<open>The prefix buffer\<close>

text \<open>
  Both classes walk their nodes with the current prefix in a buffer that is grown by \<open>realloc\<close>
  when a node is deeper than the capacity its parent knows of; an access outside of the
  buffer is a failure.
\<close>

definition buff_realloc :: "nat \<Rightarrow> byte list \<Rightarrow> byte list" where
  "buff_realloc n b = take n b @ replicate (n - length b) 0"

definition buff_set :: "nat \<Rightarrow> byte \<Rightarrow> byte list \<Rightarrow> byte list option" where
  "buff_set i c b = (if i < length b then Some (b[i := c]) else None)"

definition buff_read :: "nat \<Rightarrow> byte list \<Rightarrow> byte list option" where
  "buff_read n b = (if n \<le> length b then Some (take n b) else None)"

lemma take_update_Suc: "n < length b \<Longrightarrow> take (Suc n) (b[n := c]) = take n b @ [c]"
  by (simp add: take_Suc_conv_app_nth)

lemma take_snocD: "take (Suc n) b' = take (Suc n) b1 \<Longrightarrow> take n b1 = take n b \<Longrightarrow> take n b' = take n b"
  by (metis le_SucI min.absorb1 order_refl take_take)

lemma byte_step:
  assumes "unat (c :: byte) + Suc k \<le> 256"
  shows "unat (c + 1) + k \<le> 256" and "i < k \<Longrightarrow> c + 1 + of_nat i \<noteq> c"
proof -
  have "c + 1 + of_nat i = of_nat (unat c + Suc i)" for i
    by (simp add: add.commute add.left_commute)
  then have u: "unat (c + 1 + of_nat i) = unat c + Suc i" if "i < k" for i
    using that assms by (simp only: unat_byte)
  then show "c + 1 + of_nat i \<noteq> c" if "i < k" using that by (metis add_cancel_right_right nat.distinct(1))
  show "unat (c + 1) + k \<le> 256" 
  proof (cases k)
    case 0
    then show ?thesis using unat_byte_less [of "c + 1"] by linarith
  qed (use u [of 0] assms in auto)
qed

lemma ex_nth_Cons:
  "(\<exists>i < length (x # xs). P i ((x # xs) ! i)) \<longleftrightarrow> P 0 x \<or> (\<exists>i < length xs. P (Suc i) (xs ! i))"
  by (auto simp: less_Suc_eq_0_disj)

end
