(* ===== verification/Mtrie.thy ===== *)
theory Mtrie
  imports Trie_Table
begin

text \<open>
  The multi-trie \<open>mtrie_t\<close> of \<^verbatim>\<open>src/mtrie.cpp\<close>: for each prefix the set of pipes subscribed to it,
  as an XPUB socket keeps it. The payload of a node is the pointer to its set of pipes, null
  when no pipe is subscribed. Pipes are their addresses; \<open>std::set\<close> iterates over them in
  ascending order.

  \<open>subs_at\<close> is the meaning of a multi-trie, the set of pipes of each prefix.
\<close>

type_synonym mtrie_t = "addr set option tnode"

definition mtrie_new :: mtrie_t where
  "mtrie_new = Tnode None 0 0 0 (Next_node None)"

definition mtrie_is_redundant :: "mtrie_t \<Rightarrow> bool" where
  "mtrie_is_redundant t \<longleftrightarrow> payload t = None \<and> live_nodes t = 0"

subsection \<open>Adding\<close>

fun mtrie_add_helper :: "byte list \<Rightarrow> addr \<Rightarrow> mtrie_t \<Rightarrow> (bool \<times> mtrie_t) option" where
  "mtrie_add_helper [] pipe t =
     Some (payload t = None,
       set_payload (Some (insert pipe (case payload t of None \<Rightarrow> {} | Some ps \<Rightarrow> ps))) t)"
| "mtrie_add_helper (c # cs) pipe t = do {
     t \<leftarrow> extend c t;
     s \<leftarrow> slot_get c t;
     let (t, n) = (case s of Some n \<Rightarrow> (t, n) | None \<Rightarrow> (bump_live t, mtrie_new));
     (r, n) \<leftarrow> mtrie_add_helper cs pipe n;
     t \<leftarrow> slot_set c (Some n) t;
     Some (r, t)
   }"

definition mtrie_add :: "byte list \<Rightarrow> addr \<Rightarrow> mtrie_t \<Rightarrow> (bool \<times> mtrie_t) option" where
  "mtrie_add p pipe t = mtrie_add_helper p pipe t"

subsection \<open>Removing one subscription\<close>

fun mtrie_prune :: "byte \<Rightarrow> mtrie_t \<Rightarrow> mtrie_t option" where
  "mtrie_prune c (Tnode v mn cn lv (Next_node n)) = do {
     zmq_assert (cn = 1);
     zmq_assert (lv - 1 = 0);
     Some (Tnode v mn 0 (lv - 1) (Next_node None))
   }"
| "mtrie_prune c (Tnode v mn cn lv (Next_table tb0)) = do {
     zmq_assert (cn > 1);
     let tb = tb0[unat c - unat mn := None];
     zmq_assert (lv > 1);
     let lv = lv - 1;
     if lv = 1 then do {
       i \<leftarrow> find (\<lambda>i. tb ! i \<noteq> None) [0..<cn];
       Some (Tnode v (mn + of_nat i) 1 lv (Next_node (tb ! i)))
     }
     else if c = mn then do {
       i \<leftarrow> find (\<lambda>i. tb ! i \<noteq> None) [1..<cn];
       Some (Tnode v (mn + of_nat i) (cn - i) lv (Next_table (take (cn - i) (drop i tb))))
     }
     else if unat c = unat mn + cn - 1 then do {
       i \<leftarrow> find (\<lambda>i. tb ! (cn - 1 - i) \<noteq> None) [1..<cn];
       Some (Tnode v mn (cn - i) lv (Next_table (take (cn - i) tb)))
     }
     else Some (Tnode v mn cn lv (Next_table tb))
   }"

fun mtrie_rm_prefix :: "byte list \<Rightarrow> addr \<Rightarrow> mtrie_t \<Rightarrow> (bool \<times> mtrie_t) option" where
  "mtrie_rm_prefix [] pipe t =
     (case payload t of
        None \<Rightarrow> Some (True, t)
      | Some ps \<Rightarrow> do {
          zmq_assert (pipe \<in> ps);
          let ps = ps - {pipe};
          Some (ps = {}, set_payload (if ps = {} then None else Some ps) t)
        })"
| "mtrie_rm_prefix (c # cs) pipe t =
     (if tcount t = 0 \<or> \<not> in_range c t then Some (False, t)
      else do {
        s \<leftarrow> slot_get c t;
        (case s of
           None \<Rightarrow> Some (False, t)
         | Some n \<Rightarrow> do {
             (r, n) \<leftarrow> mtrie_rm_prefix cs pipe n;
             if mtrie_is_redundant n then do { t \<leftarrow> mtrie_prune c t; Some (r, t) }
             else do { t \<leftarrow> slot_set c (Some n) t; Some (r, t) }
           })
      })"

subsection \<open>Removing a pipe\<close>

text \<open>
  The final part of \<open>rm_helper\<close> for a node with a table: \<open>new_min\<close> and \<open>new_max\<close> are the smallest
  and the largest character left.
\<close>

fun mtrie_compact :: "nat \<Rightarrow> nat \<Rightarrow> mtrie_t \<Rightarrow> mtrie_t option" where
  "mtrie_compact new_min new_max (Tnode v mn cn lv (Next_table tb)) = do {
     zmq_assert (cn > 1);
     if lv = 0 then Some (Tnode v mn 0 lv (Next_node None))
     else if lv = 1 then do {
       zmq_assert (new_min = new_max);
       zmq_assert (unat mn \<le> new_min \<and> new_min < unat mn + cn);
       let node = tb ! (new_min - unat mn);
       zmq_assert (node \<noteq> None);
       Some (Tnode v (of_nat new_min) 1 lv (Next_node node))
     }
     else if new_min > unat mn \<or> new_max < unat mn + cn - 1 then do {
       zmq_assert (int new_max - int new_min + 1 > 1);
       zmq_assert (new_min \<ge> unat mn);
       zmq_assert (new_max \<le> unat mn + cn - 1);
       zmq_assert (new_max - new_min + 1 < cn);
       let cn' = new_max - new_min + 1;
       Some (Tnode v (of_nat new_min) cn' lv (Next_table (take cn' (drop (new_min - unat mn) tb))))
     }
     else Some (Tnode v mn cn lv (Next_table tb))
   }"
| "mtrie_compact new_min new_max (Tnode v mn cn lv (Next_node n)) = None"

text \<open>
  \<open>rm_helper\<close> and its loop over the table. The model returns the prefixes the callback is called
  with and the buffer besides the node. The variables of the loop are the number of live
  nodes, \<open>new_min\<close> and \<open>new_max\<close>; the last two are bytes.
\<close>

fun mtrie_rm_helper ::
    "addr \<Rightarrow> mtrie_t \<Rightarrow> byte list \<Rightarrow> nat \<Rightarrow> nat \<Rightarrow> (byte list list \<times> byte list \<times> mtrie_t) option"
  and mtrie_rm_table ::
    "addr \<Rightarrow> mtrie_t option list \<Rightarrow> nat \<Rightarrow> nat \<times> nat \<times> nat \<Rightarrow> byte list \<Rightarrow> nat \<Rightarrow> nat \<Rightarrow>
     (byte list list \<times> byte list \<times> mtrie_t option list \<times> nat \<times> nat \<times> nat) option"
where
  "mtrie_rm_helper pipe (Tnode v mn cn lv nx) buff n mx = do {
     let last = (case v of Some ps \<Rightarrow> pipe \<in> ps \<and> ps - {pipe} = {} | None \<Rightarrow> False);
     calls \<leftarrow> (if last then map_option (\<lambda>p. [p]) (buff_read n buff) else Some []);
     let v = (if last then None else map_option (\<lambda>ps. ps - {pipe}) v);
     let (buff, mx) = (if n \<ge> mx then (buff_realloc (n + 256) buff, n + 256) else (buff, mx));
     (calls', buff, t) \<leftarrow>
       (if cn = 0 then Some ([], buff, Tnode v mn cn lv nx)
        else (case nx of
            Next_node x \<Rightarrow> (if cn \<noteq> 1 then None else do {
              buff \<leftarrow> buff_set n mn buff;
              (calls, buff, m) \<leftarrow> (case x of None \<Rightarrow> None | Some m \<Rightarrow> mtrie_rm_helper pipe m buff (n + 1) mx);
              if mtrie_is_redundant m
              then do { zmq_assert (lv - 1 = 0); Some (calls, buff, Tnode v mn 0 (lv - 1) (Next_node None)) }
              else Some (calls, buff, Tnode v mn cn lv (Next_node (Some m)))
            })
          | Next_table tb \<Rightarrow> (if cn = 1 then None else do {
              (calls, buff, tb, lv, new_min, new_max) \<leftarrow>
                mtrie_rm_table pipe tb (unat mn) (lv, (unat mn + cn - 1) mod 256, unat mn) buff n mx;
              t \<leftarrow> mtrie_compact new_min new_max (Tnode v mn cn lv (Next_table tb));
              Some (calls, buff, t)
            })));
     Some (calls @ calls', buff, t)
   }"
| "mtrie_rm_table pipe [] c (lv, new_min, new_max) buff n mx = Some ([], buff, [], lv, new_min, new_max)"
| "mtrie_rm_table pipe (x # xs) c (lv, new_min, new_max) buff n mx = do {
     buff \<leftarrow> buff_set n (of_nat c) buff;
     (calls, buff, x, lv, new_min, new_max) \<leftarrow>
       (case x of
          None \<Rightarrow> Some ([], buff, None, lv, new_min, new_max)
        | Some m \<Rightarrow> do {
            (calls, buff, m) \<leftarrow> mtrie_rm_helper pipe m buff (n + 1) mx;
            if mtrie_is_redundant m
            then do { zmq_assert (lv > 0); Some (calls, buff, None, lv - 1, new_min, new_max) }
            else Some (calls, buff, Some m, lv,
                   if c < new_min then c mod 256 else new_min,
                   if c > new_max then c mod 256 else new_max)
          });
     (calls', buff, xs, st) \<leftarrow> mtrie_rm_table pipe xs (c + 1) (lv, new_min, new_max) buff n mx;
     Some (calls @ calls', buff, x # xs, st)
   }"

definition mtrie_rm :: "addr \<Rightarrow> mtrie_t \<Rightarrow> (byte list list \<times> mtrie_t) option" where
  "mtrie_rm pipe t = map_option (\<lambda>r. (fst r, snd (snd r))) (mtrie_rm_helper pipe t [] 0 0)"

subsection \<open>Matching\<close>

definition pipe_calls :: "mtrie_t \<Rightarrow> addr list" where
  "pipe_calls t = (case payload t of None \<Rightarrow> [] | Some ps \<Rightarrow> sorted_list_of_set ps)"

fun mtrie_match :: "byte list \<Rightarrow> mtrie_t \<Rightarrow> addr list option" where
  "mtrie_match [] t = Some (pipe_calls t)"
| "mtrie_match (c # cs) t = do {
     rest \<leftarrow>
       (if tcount t = 0 then Some []
        else if tcount t = 1
        then (if c \<noteq> tmin t then Some []
              else do { s \<leftarrow> slot_get c t; n \<leftarrow> s; mtrie_match cs n })
        else if \<not> in_range c t then Some []
        else do {
          s \<leftarrow> slot_get c t;
          (case s of None \<Rightarrow> Some [] | Some n \<Rightarrow> mtrie_match cs n)
        });
     Some (pipe_calls t @ rest)
   }"

subsection \<open>The meaning of a multi-trie\<close>

definition pipes_of :: "mtrie_t \<Rightarrow> addr set" where
  "pipes_of t = (case payload t of None \<Rightarrow> {} | Some ps \<Rightarrow> ps)"

fun subs_at :: "byte list \<Rightarrow> mtrie_t \<Rightarrow> addr set" where
  "subs_at [] t = pipes_of t"
| "subs_at (c # cs) t = (case kids t c of None \<Rightarrow> {} | Some n \<Rightarrow> subs_at cs n)"

definition payload_ok :: "mtrie_t \<Rightarrow> bool" where
  "payload_ok t \<longleftrightarrow> (\<forall>ps. payload t = Some ps \<longrightarrow> ps \<noteq> {} \<and> finite ps)"

inductive mtrie_inv :: "mtrie_t \<Rightarrow> bool" where
  "shape_ok t \<Longrightarrow> payload_ok t \<Longrightarrow> (\<And>c n. kids t c = Some n \<Longrightarrow> mtrie_inv n \<and> \<not> mtrie_is_redundant n) \<Longrightarrow>
   mtrie_inv t"

inductive_simps mtrie_inv_iff: "mtrie_inv t"

lemmas mtrie_invI = mtrie_inv.intros

lemma mtrie_inv_shape: "mtrie_inv t \<Longrightarrow> shape_ok t"
  and mtrie_inv_payload: "mtrie_inv t \<Longrightarrow> payload_ok t"
  and mtrie_inv_kid: "mtrie_inv t \<Longrightarrow> kids t c = Some n \<Longrightarrow> mtrie_inv n \<and> \<not> mtrie_is_redundant n"
  by (simp_all add: mtrie_inv_iff [of t])

lemma payload_ok_pipes: "payload_ok t \<Longrightarrow> payload t = None \<longleftrightarrow> pipes_of t = {}"
  by (auto simp: payload_ok_def pipes_of_def split: option.splits)

lemma mtrie_new_inv: "mtrie_inv mtrie_new" and subs_at_new: "subs_at p mtrie_new = {}"
proof -
  have k: "kids mtrie_new = (\<lambda>_. None)" by (simp add: mtrie_new_def)
  have "shape_ok mtrie_new" "payload_ok mtrie_new" by (simp_all add: payload_ok_def mtrie_new_def)
  then show "mtrie_inv mtrie_new" by (rule mtrie_invI) (simp add: k)
  show "subs_at p mtrie_new = {}" by (cases p) (auto simp: k, simp add: mtrie_new_def pipes_of_def)
qed

lemma mtrie_inv_child:
  assumes "mtrie_inv t" and "shape_ok t'" and "kids t' = (kids t)(c := x)" and "payload t' = payload t"
    and "\<And>n. x = Some n \<Longrightarrow> mtrie_inv n \<and> \<not> mtrie_is_redundant n"
  shows "mtrie_inv t'"
proof (rule mtrie_invI [OF assms(2)])
  show "payload_ok t'" using mtrie_inv_payload [OF assms(1)] assms(4) by (simp add: payload_ok_def)
next
  fix d n
  assume "kids t' d = Some n"
  then show "mtrie_inv n \<and> \<not> mtrie_is_redundant n"
    using assms(5) mtrie_inv_kid [OF assms(1), of d] by (simp add: assms(3) split: if_splits)
qed

lemma mtrie_inv_set_payload:
  "mtrie_inv t \<Longrightarrow> (\<forall>ps. v = Some ps \<longrightarrow> ps \<noteq> {} \<and> finite ps) \<Longrightarrow> mtrie_inv (set_payload v t)"
  by (rule mtrie_invI) (auto simp: payload_ok_def dest: mtrie_inv_shape mtrie_inv_kid)

lemma subs_at_child:
  assumes "kids t' = (kids t)(c := x)" and "payload t' = payload t"
    and "\<And>q. (case x of None \<Rightarrow> {} | Some n \<Rightarrow> subs_at q n) = (if q = p then v else subs_at (c # q) t)"
  shows "subs_at q t' = (if q = c # p then v else subs_at q t)"
proof (cases q)
  case (Cons a r)
  then show ?thesis using assms(3) [of r] by (simp add: assms(1))
qed (simp add: assms(2) pipes_of_def)

lemma subs_at_set_payload: "subs_at q (set_payload v t) = (if q = [] then (case v of None \<Rightarrow> {} | Some ps \<Rightarrow> ps) else subs_at q t)"
  by (cases q) (auto simp: pipes_of_def)

lemma not_redundant_subs: "subs_at p t \<noteq> {} \<Longrightarrow> shape_ok t \<Longrightarrow> \<not> mtrie_is_redundant t"
  by (cases p) (auto simp: mtrie_is_redundant_def pipes_of_def dest: kids_live split: option.splits)

lemma redundant_subs:
  assumes "shape_ok t" and "mtrie_is_redundant t"
  shows "subs_at p t = {}"
  using not_redundant_subs [of p t] assms by blast

lemma mtrie_finite: "mtrie_inv t \<Longrightarrow> finite (subs_at p t)"
proof (induction p arbitrary: t)
  case Nil
  then show ?case using mtrie_inv_payload [of t] by (auto simp: payload_ok_def pipes_of_def split: option.splits)
next
  case (Cons c p)
  then show ?case by (auto dest: mtrie_inv_kid split: option.splits)
qed

subsection \<open>Adding a subscription\<close>

lemma mtrie_add_ok:
  assumes "mtrie_inv t"
  shows "\<exists>t'. mtrie_add_helper p pipe t = Some (subs_at p t = {}, t') \<and> mtrie_inv t' \<and>
    (\<forall>q. subs_at q t' = (if q = p then insert pipe (subs_at p t) else subs_at q t))"
  using assms
proof (induction p arbitrary: t)
  case Nil
  have "payload_ok t" using Nil by (rule mtrie_inv_payload)
  moreover have "(case payload t of None \<Rightarrow> {} | Some ps \<Rightarrow> ps) = pipes_of t" by (simp add: pipes_of_def)
  moreover have "finite (pipes_of t)" using mtrie_finite [OF Nil, of "[]"] by simp
  ultimately show ?case
    using Nil by (simp add: payload_ok_pipes subs_at_set_payload mtrie_inv_set_payload)
next
  case (Cons c p)
  have shape: "shape_ok t" using Cons.prems by (rule mtrie_inv_shape)
  obtain t1 where o: "open_slot c t t1" using open_slot_exists [OF shape] by blast
  define n where "n = (case kids t c of None \<Rightarrow> mtrie_new | Some n \<Rightarrow> n)"
  have n: "mtrie_inv n" "subs_at q n = subs_at (c # q) t" for q
    using mtrie_inv_kid [OF Cons.prems, of c]
    by (auto simp: n_def mtrie_new_inv subs_at_new split: option.splits)
  obtain n' where n': "mtrie_add_helper p pipe n = Some (subs_at p n = {}, n')" "mtrie_inv n'"
    "\<forall>q. subs_at q n' = (if q = p then insert pipe (subs_at p n) else subs_at q n)"
    using Cons.IH [OF n(1)] by auto
  let ?t2 = "if kids t c = None then bump_live t1 else t1"
  obtain t3 where t3: "slot_set c (Some n') ?t2 = Some t3" "shape_ok t3" "kids t3 = (kids t)(c \<mapsto> n')"
    "payload t3 = payload t" using o unfolding open_slot_def by blast
  have "mtrie_add_helper (c # p) pipe t = Some (subs_at (c # p) t = {}, t3)"
    using o n'(1) t3(1) n(2) [of p] by (cases "kids t c") (auto simp: open_slot_def n_def)
  moreover have "subs_at p n' \<noteq> {}" using n'(3) by simp
  then have "\<not> mtrie_is_redundant n'" using n'(2) by (intro not_redundant_subs mtrie_inv_shape)
  then have "mtrie_inv t3" using mtrie_inv_child [OF Cons.prems t3(2-4)] n'(2) by simp
  moreover have "subs_at q t3 = (if q = c # p then insert pipe (subs_at (c # p) t) else subs_at q t)" for q
    using subs_at_child [OF t3(3,4), of p] n'(3) n(2) by simp
  ultimately show ?case by blast
qed

subsection \<open>Removing one subscription\<close>

lemma mtrie_prune_table:
  assumes t: "t = Tnode v mn cn lv (Next_table tb0)" and shape: "shape_ok t" and kid: "kids t c = Some m"
  shows "\<exists>t'. mtrie_prune c t = Some t' \<and> pruned c t t'"
proof -
  define k where "k = unat c - unat mn"
  define tb where "tb = tb0[k := None]"
  note cs = clear_slot [OF shape [unfolded t] kid [unfolded t] k_def, folded tb_def]
  note compact = compact_slot [OF t shape kid k_def tb_def]
  note def = mtrie_prune.simps(2) [of c v mn cn lv tb0, folded t k_def, folded tb_def]
  have len: "length tb = cn" and tk: "tb ! k = None" using cs(1,5) by (simp_all add: tb_def)
  have c0: "c = mn \<longleftrightarrow> k = 0" and cl: "unat c = unat mn + cn - 1 \<longleftrightarrow> k = cn - 1"
    using cs(2,4,5) by (auto simp: byte_eq_iff)
  have first: "tb ! 0 \<noteq> None" if "k \<noteq> 0" using that cs(8) by auto
  have last: "tb ! (cn - 1) \<noteq> None" if "k \<noteq> cn - 1" using that cs(5,9) by auto
  consider "lv - 1 = 1" | "lv - 1 \<noteq> 1" "k = 0" | "lv - 1 \<noteq> 1" "k = cn - 1" "k \<noteq> 0"
    | "lv - 1 \<noteq> 1" "k \<noteq> 0" "k \<noteq> cn - 1" by linarith
  then show ?thesis
  proof cases
    case 1
    then obtain j where j: "live_at tb = {j}" using cs(7) by (auto simp: card_1_singleton_iff)
    then have "j \<in> live_at tb" by simp
    then have "0 \<le> j" "j < cn" "tb ! j \<noteq> None" using len by (simp_all add: live_at_def)
    from find_upt [of 0 j cn "\<lambda>i. tb ! i \<noteq> None", OF this] obtain i where
      i: "find (\<lambda>i. tb ! i \<noteq> None) [0..<cn] = Some i" "i < cn" "tb ! i \<noteq> None" by blast
    have "\<forall>x<cn. x < i \<or> i < x \<longrightarrow> tb ! x = None"
      by (rule live_single [of tb i, unfolded len]) (use i(2,3) cs(7) 1 in simp_all)
    then have "pruned c t (Tnode v (mn + of_nat i) 1 (lv - 1) (Next_node (tb ! i)))"
      using compact(2) [of i i, OF order_refl i(2,3,3) _ 1] by simp
    then show ?thesis unfolding def using 1 i(1) cs(2,6) by (simp add: Let_def)
  next
    case 2
    then have "1 \<le> cn - 1" "cn - 1 < cn" "tb ! (cn - 1) \<noteq> None" using cs(2) last by auto
    from find_upt [of 1 "cn - 1" cn "\<lambda>i. tb ! i \<noteq> None", OF this] obtain i where
      i: "find (\<lambda>i. tb ! i \<noteq> None) [1..<cn] = Some i" "1 \<le> i" "i < cn" "tb ! i \<noteq> None"
      "\<forall>j. 1 \<le> j \<longrightarrow> j < i \<longrightarrow> \<not> tb ! j \<noteq> None" by blast
    have "tb ! x = None" if "x < cn" "x < i \<or> cn - 1 < x" for x
      using i(5) that tk 2 by (cases "x = 0") auto
    then have "pruned c t (Tnode v (mn + of_nat i) (cn - 1 + 1 - i) (lv - 1) (Next_table (take (cn - 1 + 1 - i) (drop i tb))))"
      using compact(1) [of i "cn - 1"] last 2 cs(2) i(3,4) by auto
    then show ?thesis unfolding def using 2 i cs(2,6) c0 by (simp add: Let_def)
  next
    case 3
    let ?P = "\<lambda>i. tb ! (cn - 1 - i) \<noteq> None"
    have "1 \<le> cn - 1" "cn - 1 < cn" "?P (cn - 1)" using 3 cs(2) first by auto
    from find_upt [of 1 "cn - 1" cn ?P, OF this] obtain i where
      i: "find ?P [1..<cn] = Some i" "1 \<le> i" "i < cn" "?P i" "\<forall>j. 1 \<le> j \<longrightarrow> j < i \<longrightarrow> \<not> ?P j" by blast
    have "tb ! x = None" if "x < cn" "x < 0 \<or> cn - 1 - i < x" for x
    proof (cases "x = cn - 1")
      case False
      then have "1 \<le> cn - 1 - x" "cn - 1 - x < i" "cn - 1 - (cn - 1 - x) = x" using that by auto
      then show ?thesis using i(5) by metis
    qed (use tk 3 in simp)
    then have "pruned c t (Tnode v (mn + of_nat 0) (cn - 1 - i + 1 - 0) (lv - 1) (Next_table (take (cn - 1 - i + 1 - 0) (drop 0 tb))))"
      using compact(1) [of 0 "cn - 1 - i"] first 3 cs(2) i(3,4) by auto
    moreover have "cn - 1 - i + 1 = cn - i" using i(2,3) by auto
    ultimately show ?thesis unfolding def using 3 i cs(2,6) c0 cl by (simp add: Let_def)
  next
    case 4
    then have "pruned c t (Tnode v (mn + of_nat 0) (cn - 1 + 1 - 0) (lv - 1) (Next_table (take (cn - 1 + 1 - 0) (drop 0 tb))))"
      using compact(1) [of 0 "cn - 1", OF _ _ first [OF 4(2)] last [OF 4(3)] _ 4(1)] cs(2) by fastforce
    then show ?thesis unfolding def using 4 cs(2,6) c0 cl len by (simp add: Let_def)
  qed
qed

lemma mtrie_prune_ok:
  assumes "shape_ok t" and "kids t c = Some m"
  shows "\<exists>t'. mtrie_prune c t = Some t' \<and> pruned c t t'"
proof (cases t)
  case (Tnode v mn cn lv nx)
  show ?thesis
  proof (cases nx)
    case (Next_node x)
    have "cn \<noteq> 0" using assms(2) Tnode by (auto simp: kids_def in_range_def split: if_splits)
    then have cn: "cn = 1" "lv = 1" using assms(1) Tnode Next_node by (auto split: if_splits)
    then have "c = mn" using assms(2) Tnode Next_node by (auto split: if_splits)
    then show ?thesis using Tnode Next_node cn by (simp add: pruned_def fun_eq_iff)
  next
    case (Next_table tb)
    then show ?thesis using mtrie_prune_table [OF _ assms] Tnode by blast
  qed
qed

text \<open>
  \<open>rm\<close> of a subscription that the pipe holds. Its result says whether no pipe is left on the
  prefix.
\<close>

lemma mtrie_rm_prefix_ok:
  assumes "mtrie_inv t" and "pipe \<in> subs_at p t"
  shows "\<exists>t'. mtrie_rm_prefix p pipe t = Some (subs_at p t = {pipe}, t') \<and> mtrie_inv t' \<and>
    (\<forall>q. subs_at q t' = (if q = p then subs_at p t - {pipe} else subs_at q t))"
  using assms
proof (induction p arbitrary: t)
  case Nil
  then obtain ps where ps: "payload t = Some ps" "pipe \<in> ps" by (auto simp: pipes_of_def split: option.splits)
  then have "finite ps" using mtrie_inv_payload [OF Nil(1)] by (simp add: payload_ok_def)
  moreover have "ps - {pipe} = {} \<longleftrightarrow> ps = {pipe}" using ps(2) by auto
  ultimately show ?case
    using ps Nil(1) by (auto simp: pipes_of_def subs_at_set_payload Let_def intro!: mtrie_inv_set_payload)
next
  case (Cons c p)
  have shape: "shape_ok t" using Cons.prems(1) by (rule mtrie_inv_shape)
  obtain n where Some: "kids t c = Some n" and mem: "pipe \<in> subs_at p n" using Cons.prems(2) by (auto split: option.splits)
  then have rng: "in_range c t" "tcount t \<noteq> 0" by (auto simp: kids_def in_range_def split: if_splits)
  have n: "mtrie_inv n" using mtrie_inv_kid [OF Cons.prems(1) Some] by blast
  obtain n' where n': "mtrie_rm_prefix p pipe n = Some (subs_at p n = {pipe}, n')" "mtrie_inv n'"
    "\<forall>q. subs_at q n' = (if q = p then subs_at p n - {pipe} else subs_at q n)"
    using Cons.IH [OF n mem] by blast
  define x where "x = (if mtrie_is_redundant n' then None else Some n')"
  have "\<exists>t'. mtrie_rm_prefix (c # p) pipe t = Some (subs_at p n = {pipe}, t') \<and> shape_ok t' \<and> kids t' = (kids t)(c := x) \<and>
      payload t' = payload t"
  proof (cases "mtrie_is_redundant n'")
    case True
    then show ?thesis
      using mtrie_prune_ok [OF shape Some] rng slot_get_kids [OF shape rng(1)] Some n'(1)
      by (auto simp: x_def pruned_def)
  next
    case False
    then show ?thesis
      using slot_set_kids [OF shape Some, of n'] rng slot_get_kids [OF shape rng(1)] Some n'(1)
      by (auto simp: x_def)
  qed
  then obtain t' where t': "mtrie_rm_prefix (c # p) pipe t = Some (subs_at p n = {pipe}, t')" "shape_ok t'"
    "kids t' = (kids t)(c := x)" "payload t' = payload t" by blast
  have "mtrie_inv t'"
  proof (rule mtrie_inv_child [OF Cons.prems(1) t'(2-4)])
    fix y
    assume "x = Some y"
    then show "mtrie_inv y \<and> \<not> mtrie_is_redundant y" using n'(2) by (simp add: x_def split: if_splits)
  qed
  moreover have "(case x of None \<Rightarrow> {} | Some n \<Rightarrow> subs_at q n) = subs_at q n'" for q
    using redundant_subs [OF mtrie_inv_shape [OF n'(2)]] by (simp add: x_def)
  then have "subs_at q t' = (if q = c # p then subs_at p n' else subs_at q t)" for q
    using subs_at_child [OF t'(3,4), of p] n'(3) Some by simp
  ultimately show ?case using t'(1) n'(3) Some by auto
qed

text \<open>
  Removing a subscription that the pipe does not hold while another pipe holds it: the
  assertion on the number of erased pipes fails.
\<close>

lemma mtrie_rm_prefix_abort:
  assumes "mtrie_inv t" and "subs_at p t \<noteq> {}" and "pipe \<notin> subs_at p t"
  shows "mtrie_rm_prefix p pipe t = None"
  using assms
proof (induction p arbitrary: t)
  case Nil
  then show ?case by (auto simp: pipes_of_def split: option.splits)
next
  case (Cons c p)
  have shape: "shape_ok t" using Cons.prems(1) by (rule mtrie_inv_shape)
  obtain n where Some: "kids t c = Some n" using Cons.prems(2) by (auto split: option.splits)
  then have rng: "in_range c t" "tcount t \<noteq> 0" by (auto simp: kids_def in_range_def split: if_splits)
  have "mtrie_rm_prefix p pipe n = None" using Cons Some mtrie_inv_kid [OF Cons.prems(1) Some] by simp
  then show ?case using rng slot_get_kids [OF shape rng(1)] Some by simp
qed

subsection \<open>Matching a message\<close>

lemma mtrie_match_ok:
  assumes "mtrie_inv t"
  shows "mtrie_match d t = Some (concat (map (\<lambda>k. sorted_list_of_set (subs_at (take k d) t)) [0..<Suc (length d)]))"
  using assms
proof (induction d arbitrary: t)
  case Nil
  then show ?case by (simp add: pipe_calls_def pipes_of_def split: option.splits)
next
  case (Cons c d)
  have shape: "shape_ok t" using Cons.prems by (rule mtrie_inv_shape)
  have here: "pipe_calls t = sorted_list_of_set (pipes_of t)" by (simp add: pipe_calls_def pipes_of_def split: option.splits)
  have split: "concat (map (\<lambda>k. sorted_list_of_set (subs_at (take k (c # d)) t)) [0..<Suc (length (c # d))]) =
      pipe_calls t @ concat (map (\<lambda>k. sorted_list_of_set (subs_at (c # take k d) t)) [0..<Suc (length d)])"
    by (simp add: upt_conv_Cons map_Suc_upt [symmetric] o_def here del: upt_Suc cong: option.case_cong)
  show ?case
  proof (cases "kids t c")
    case None
    have "tcount t \<noteq> 1" if "in_range c t"
      using that None shape by (cases t) (auto simp: in_range_def byte_eq_iff)
    moreover have "c \<noteq> tmin t" if "\<not> in_range c t" "tcount t = 1" using that by (auto simp: in_range_def)
    ultimately have "mtrie_match (c # d) t = Some (pipe_calls t)"
      using None slot_get_kids [OF shape, of c] by (cases "in_range c t"; cases "tcount t = 1") auto
    then show ?thesis unfolding split using None by simp
  next
    case (Some n)
    then have rng: "in_range c t" "tcount t \<noteq> 0" by (auto simp: kids_def in_range_def split: if_splits)
    moreover have "c = tmin t" if "tcount t = 1" using that rng(1) by (auto simp: in_range_def byte_eq_iff)
    moreover have "mtrie_inv n" using mtrie_inv_kid [OF Cons.prems Some] by blast
    ultimately have "mtrie_match (c # d) t = Some (pipe_calls t @
        concat (map (\<lambda>k. sorted_list_of_set (subs_at (take k d) n)) [0..<Suc (length d)]))"
      using Cons.IH slot_get_kids [OF shape rng(1)] Some by (auto simp del: upt_Suc)
    then show ?thesis unfolding split using Some by simp
  qed
qed

subsection \<open>Removing a pipe\<close>

definition removes :: "addr \<Rightarrow> mtrie_t \<Rightarrow> bool" where
  "removes pipe t \<longleftrightarrow> (\<forall>b n mx. n \<le> mx \<longrightarrow> mx \<le> length b \<longrightarrow>
     (\<exists>calls b' t'. mtrie_rm_helper pipe t b n mx = Some (calls, b', t') \<and>
        mx \<le> length b' \<and> take n b' = take n b \<and> distinct calls \<and>
        set calls = {take n b @ q |q. subs_at q t = {pipe}} \<and>
        mtrie_inv t' \<and> (\<forall>q. subs_at q t' = subs_at q t - {pipe})))"

text \<open>The child that is left of a child once the pipe is removed from it.\<close>

definition left_of :: "addr \<Rightarrow> mtrie_t option \<Rightarrow> mtrie_t option \<Rightarrow> bool" where
  "left_of pipe x y \<longleftrightarrow> (case x of None \<Rightarrow> y = None | Some m \<Rightarrow> \<exists>m'. mtrie_inv m' \<and>
     (\<forall>q. subs_at q m' = subs_at q m - {pipe}) \<and> y = (if mtrie_is_redundant m' then None else Some m'))"

lemma left_of_subs:
  "left_of pipe x y \<Longrightarrow> (case y of None \<Rightarrow> {} | Some m \<Rightarrow> subs_at q m) = (case x of None \<Rightarrow> {} | Some m \<Rightarrow> subs_at q m) - {pipe}"
  using redundant_subs [OF mtrie_inv_shape] by (auto simp: left_of_def split: option.splits if_splits) blast

lemma left_of_None [simp]: "left_of pipe None y \<longleftrightarrow> y = None"
  by (simp add: left_of_def)

lemma left_of_inv: "left_of pipe x (Some m) \<Longrightarrow> mtrie_inv m \<and> \<not> mtrie_is_redundant m"
  by (auto simp: left_of_def split: option.splits if_splits)

lemma live_at_Cons: "live_at (x # xs) = (if x = None then {} else {0}) \<union> Suc ` live_at xs"
proof (rule set_eqI)
  fix k
  show "k \<in> live_at (x # xs) \<longleftrightarrow> k \<in> (if x = None then {} else {0}) \<union> Suc ` live_at xs"
    by (cases k) (auto simp: live_at_def)
qed

lemma card_live_at_Cons: "card (live_at (x # xs)) = (if x = None then 0 else 1) + card (live_at xs)"
  by (simp add: live_at_Cons card_image)

lemma image_live_at_Cons:
  "(\<lambda>i. c + i) ` live_at (x # xs) = (if x = None then {} else {c}) \<union> (\<lambda>i. c + 1 + i) ` live_at xs"
  by (auto simp: live_at_Cons image_iff)

lemma Min_insert_min: "finite S \<Longrightarrow> Min (insert (min a b) S) = Min (insert a (insert b (S :: nat set)))"
  by (cases "S = {}") (simp_all add: min.assoc)

lemma Max_insert_max: "finite S \<Longrightarrow> Max (insert (max a b) S) = Max (insert a (insert b (S :: nat set)))"
  by (cases "S = {}") (simp_all add: max.assoc)

text \<open>One round of the loop over the table.\<close>

definition rm_round ::
  "addr \<Rightarrow> mtrie_t option \<Rightarrow> nat \<Rightarrow> nat \<times> nat \<times> nat \<Rightarrow> byte list \<Rightarrow> nat \<Rightarrow> nat \<Rightarrow>
   (byte list list \<times> byte list \<times> mtrie_t option \<times> nat \<times> nat \<times> nat) option" where
  "rm_round pipe x c st b n mx = (case st of (lv, lo, hi) \<Rightarrow>
     (case x of
        None \<Rightarrow> Some ([], b, None, lv, lo, hi)
      | Some m \<Rightarrow> do {
          (calls, b, m) \<leftarrow> mtrie_rm_helper pipe m b (n + 1) mx;
          if mtrie_is_redundant m
          then do { zmq_assert (lv > 0); Some (calls, b, None, lv - 1, lo, hi) }
          else Some (calls, b, Some m, lv, if c < lo then c mod 256 else lo, if c > hi then c mod 256 else hi)
        }))"

lemma mtrie_rm_table_Cons:
  "mtrie_rm_table pipe (x # xs) c st b n mx = do {
     b \<leftarrow> buff_set n (of_nat c) b;
     (calls, b, x, st) \<leftarrow> rm_round pipe x c st b n mx;
     (calls', b, xs, st) \<leftarrow> mtrie_rm_table pipe xs (c + 1) st b n mx;
     Some (calls @ calls', b, x # xs, st)
   }"
  by (cases st) (simp only: mtrie_rm_table.simps rm_round_def prod.case split_def fst_conv snd_conv prod.collapse)

lemma rm_round_ok:
  assumes "\<forall>m. x = Some m \<longrightarrow> removes pipe m" and "n < mx" and "mx \<le> length b" and "c < 256" and "x \<noteq> None \<longrightarrow> 0 < lv"
    and "take (Suc n) b = p @ [of_nat c]" and "length p = n"
  shows "\<exists>k b' y. rm_round pipe x c (lv, lo, hi) b n mx =
      Some (k, b', y, if x \<noteq> None \<and> y = None then lv - 1 else lv, if y = None then lo else min lo c, if y = None then hi else max hi c) \<and>
    mx \<le> length b' \<and> take n b' = p \<and> left_of pipe x y \<and> (x = None \<longrightarrow> y = None) \<and>
    distinct k \<and> set k = {p @ of_nat c # q |q m. x = Some m \<and> subs_at q m = {pipe}}"
proof (cases x)
  case None
  have "take n b = p" using assms(6,7) by (metis append_eq_conv_conj le_SucI min.absorb1 order_refl take_take)
  then show ?thesis using None assms(3) by (simp add: rm_round_def left_of_def)
next
  case (Some m)
  from assms(1) [rule_format, OF Some, unfolded removes_def, rule_format, of "Suc n" mx b] assms(2,3)
  obtain k b' m' where r: "mtrie_rm_helper pipe m b (Suc n) mx = Some (k, b', m')" "mx \<le> length b'"
    "take (Suc n) b' = take (Suc n) b" "distinct k" "set k = {take (Suc n) b @ q |q. subs_at q m = {pipe}}"
    "mtrie_inv m'" "\<forall>q. subs_at q m' = subs_at q m - {pipe}" by auto
  have "take n b' = p" using r(3) assms(6,7) by (metis append_eq_conv_conj le_SucI min.absorb1 order_refl take_take)
  moreover have "set k = {p @ of_nat c # q |q m. x = Some m \<and> subs_at q m = {pipe}}"
    using r(5) assms(6) Some by auto
  moreover have "left_of pipe x (if mtrie_is_redundant m' then None else Some m')"
    using Some r(6,7) by (auto simp: left_of_def)
  ultimately show ?thesis using r(1,2,4) Some assms(4,5)
    by (intro exI [of _ k] exI [of _ b'] exI [of _ "if mtrie_is_redundant m' then None else Some m'"])
      (auto simp: rm_round_def min_def max_def)
qed

lemma mtrie_rm_table_ok:
  assumes "\<forall>m. Some m \<in> set tb \<longrightarrow> removes pipe m" and "n < mx" and "mx \<le> length b" and "c + length tb \<le> 256"
    and "card (live_at tb) \<le> lv"
  shows "\<exists>calls b' tb'. mtrie_rm_table pipe tb c (lv, lo, hi) b n mx =
       Some (calls, b', tb', lv + card (live_at tb') - card (live_at tb),
         Min (insert lo ((\<lambda>i. c + i) ` live_at tb')), Max (insert hi ((\<lambda>i. c + i) ` live_at tb'))) \<and>
     mx \<le> length b' \<and> take n b' = take n b \<and> list_all2 (left_of pipe) tb tb' \<and> card (live_at tb') \<le> card (live_at tb) \<and>
     distinct calls \<and> set calls = {take n b @ of_nat (c + i) # q |i m q. i < length tb \<and> tb ! i = Some m \<and> subs_at q m = {pipe}}"
  using assms
proof (induction tb arbitrary: c b lv lo hi)
  case (Cons x xs)
  let ?b1 = "b[n := of_nat c]" and ?p = "take n b"
  have b1: "buff_set n (of_nat c) b = Some ?b1" "take (Suc n) ?b1 = ?p @ [of_nat c]" "mx \<le> length ?b1"
    "length ?p = n" "c < 256" using Cons.prems(2-4) by (auto simp: buff_set_def take_update_Suc)
  have rx: "\<forall>m. x = Some m \<longrightarrow> removes pipe m" and rxs: "\<forall>m. Some m \<in> set xs \<longrightarrow> removes pipe m"
    using Cons.prems(1) by auto
  have "x \<noteq> None \<longrightarrow> 0 < lv" using Cons.prems(5) by (auto simp: card_live_at_Cons)
  from rm_round_ok [where pipe = pipe and lo = lo and hi = hi, OF rx Cons.prems(2) b1(3,5) this b1(2,4)]
  obtain k1 b2 y where k1: "rm_round pipe x c (lv, lo, hi) ?b1 n mx =
      Some (k1, b2, y, if x \<noteq> None \<and> y = None then lv - 1 else lv, if y = None then lo else min lo c, if y = None then hi else max hi c)"
      (is "_ = Some (_, _, _, ?lv, ?lo, ?hi)")
    "mx \<le> length b2" "take n b2 = ?p" "left_of pipe x y" "x = None \<longrightarrow> y = None" "distinct k1"
    "set k1 = {?p @ of_nat c # q |q m. x = Some m \<and> subs_at q m = {pipe}}"
    by (elim exE conjE) (rule that, assumption+)
  have "card (live_at xs) \<le> ?lv" "c + 1 + length xs \<le> 256" using Cons.prems(4,5) by (auto simp: card_live_at_Cons split: if_splits)
  from Cons.IH [OF rxs Cons.prems(2) k1(2) this(2,1), of ?lo ?hi]
  obtain k2 b3 ys where k2: "mtrie_rm_table pipe xs (c + 1) (?lv, ?lo, ?hi) b2 n mx =
      Some (k2, b3, ys, ?lv + card (live_at ys) - card (live_at xs),
        Min (insert ?lo ((\<lambda>i. c + 1 + i) ` live_at ys)), Max (insert ?hi ((\<lambda>i. c + 1 + i) ` live_at ys)))"
    "mx \<le> length b3" "take n b3 = take n b2" "list_all2 (left_of pipe) xs ys" "card (live_at ys) \<le> card (live_at xs)"
    "distinct k2" "set k2 = {take n b2 @ of_nat (c + 1 + i) # q |i m q. i < length xs \<and> xs ! i = Some m \<and> subs_at q m = {pipe}}"
    by (elim exE conjE) (rule that, assumption+)
  have st: "?lv + card (live_at ys) - card (live_at xs) = lv + card (live_at (y # ys)) - card (live_at (x # xs))"
    "Min (insert ?lo ((\<lambda>i. c + 1 + i) ` live_at ys)) = Min (insert lo ((\<lambda>i. c + i) ` live_at (y # ys)))"
    "Max (insert ?hi ((\<lambda>i. c + 1 + i) ` live_at ys)) = Max (insert hi ((\<lambda>i. c + i) ` live_at (y # ys)))"
    using k1(5) Cons.prems(5)
    by (auto simp: card_live_at_Cons image_live_at_Cons Min_insert_min Max_insert_max)
  have "mtrie_rm_table pipe (x # xs) c (lv, lo, hi) b n mx = Some (k1 @ k2, b3, y # ys,
      lv + card (live_at (y # ys)) - card (live_at (x # xs)),
      Min (insert lo ((\<lambda>i. c + i) ` live_at (y # ys))), Max (insert hi ((\<lambda>i. c + i) ` live_at (y # ys))))"
    unfolding mtrie_rm_table_Cons b1(1) using k1(1) k2(1) st by simp
  moreover have "set k1 \<inter> set k2 = {}"
  proof -
    have "(of_nat c :: byte) \<noteq> of_nat (c + 1 + i)" if "i < length xs" for i
    proof
      assume eq: "(of_nat c :: byte) = of_nat (c + 1 + i)"
      have "c < 256" "c + 1 + i < 256" using that Cons.prems(4) by auto
      then have "c = c + 1 + i" using eq unat_byte by metis
      then show False by simp
    qed
    then show ?thesis using k1(3) by (auto simp: k1(7) k2(7))
  qed
  moreover have "set (k1 @ k2) = {?p @ of_nat (c + i) # q |i m q. i < length (x # xs) \<and> (x # xs) ! i = Some m \<and> subs_at q m = {pipe}}" (is "_ = ?T")
  proof (rule set_eqI)
    fix z
    have "z \<in> ?T \<longleftrightarrow> (\<exists>i < length (x # xs). \<exists>m q. (x # xs) ! i = Some m \<and> subs_at q m = {pipe} \<and> z = ?p @ of_nat (c + i) # q)" by blast
    also have "\<dots> \<longleftrightarrow> (\<exists>m q. x = Some m \<and> subs_at q m = {pipe} \<and> z = ?p @ of_nat (c + 0) # q) \<or>
        (\<exists>i < length xs. \<exists>m q. xs ! i = Some m \<and> subs_at q m = {pipe} \<and> z = ?p @ of_nat (c + Suc i) # q)"
      by (rule ex_nth_Cons)
    also have "\<dots> \<longleftrightarrow> z \<in> set (k1 @ k2)" using k1(3) by (auto simp: k1(7) k2(7))
    finally show "z \<in> set (k1 @ k2) \<longleftrightarrow> z \<in> ?T" by blast
  qed
  ultimately show ?case using k1(3-6) k2(2-6) by (intro exI [of _ "k1 @ k2"] exI [of _ b3] exI [of _ "y # ys"])
    (auto simp: card_live_at_Cons)
qed (simp add: live_at_def)

lemma mtrie_compact_ok:
  assumes len: "length tb = cn" "1 < cn" "unat mn + cn \<le> 256"
    and lo: "lo = Min (insert (unat mn + cn - 1) ((\<lambda>i. unat mn + i) ` live_at tb))"
    and hi: "hi = Max (insert (unat mn) ((\<lambda>i. unat mn + i) ` live_at tb))"
  shows "\<exists>t'. mtrie_compact lo hi (Tnode v mn cn (card (live_at tb)) (Next_table tb)) = Some t' \<and>
    shape_ok t' \<and> payload t' = v \<and> kids t' = kids (Tnode v mn cn l (Next_table tb))"
proof (cases "live_at tb = {}")
  case True
  then have "tb ! i = None" if "i < cn" for i using that len(1) by (auto simp: live_at_def)
  then have "kids (Tnode v mn cn l (Next_table tb)) = (\<lambda>_. None)" using len by (auto simp: kids_table fun_eq_iff)
  then show ?thesis using True len(2) by simp
next
  case False
  define i where "i = Min (live_at tb)"
  define j where "j = Max (live_at tb)"
  have mem: "i \<in> live_at tb" "j \<in> live_at tb" using False by (simp_all add: i_def j_def)
  have bounds: "i \<le> x" "x \<le> j" if "x \<in> live_at tb" for x using that by (simp_all add: i_def j_def)
  have ends: "i \<le> j" "j < cn" "tb ! i \<noteq> None" "tb ! j \<noteq> None"
    using mem bounds len(1) by (auto simp: live_at_def)
  have out: "\<forall>x<cn. x < i \<or> j < x \<longrightarrow> tb ! x = None"
  proof (intro allI impI)
    fix x
    assume "x < cn" "x < i \<or> j < x"
    then have "x \<notin> live_at tb" using bounds [of x] by auto
    then show "tb ! x = None" using \<open>x < cn\<close> len(1) by (simp add: live_at_def)
  qed
  have "unat mn + i \<le> unat mn + cn - 1" using ends(1,2) by simp
  then have loi: "lo = unat mn + i" and hij: "hi = unat mn + j"
    unfolding lo hi using mem bounds by (auto intro!: Min_eqI Max_eqI)
  note win = window_shape [OF len ends out] window_kids [OF len ends(1,2) out]
  have nat: "(of_nat lo :: byte) = mn + of_nat i" unfolding loi by simp
  have pos: "card (live_at tb) \<noteq> 0" using False by simp
  show ?thesis
  proof (cases "i = j")
    case True
    let ?t = "Tnode v (mn + of_nat i) 1 1 (Next_node (tb ! i))"
    have "mtrie_compact lo hi (Tnode v mn cn (card (live_at tb)) (Next_table tb)) = Some ?t"
      using win(2) [OF True] len(2) ends True nat loi hij by simp
    moreover have "kids ?t = kids (Tnode v mn cn l (Next_table tb))" by (rule win(5) [OF True])
    ultimately show ?thesis using win(2) [OF True, of v] by (intro exI [of _ ?t]) (simp del: kids_single)
  next
    case False
    then have ij: "i < j" using ends(1) by simp
    have c1: "card (live_at tb) \<noteq> 1" using win(3) False by blast
    let ?t = "Tnode v (mn + of_nat i) (j + 1 - i) (card (live_at tb)) (Next_table (take (j + 1 - i) (drop i tb)))"
    show ?thesis
    proof (cases "0 < i \<or> j < cn - 1")
      case True
      have "mtrie_compact lo hi (Tnode v mn cn (card (live_at tb)) (Next_table tb)) = Some ?t"
      proof -
        have "hi - lo + 1 = j + 1 - i" "lo - unat mn = i" "int hi - int lo + 1 > 1" "hi - lo + 1 < cn"
          "unat mn < lo \<or> hi < unat mn + cn - 1" "hi \<le> unat mn + cn - 1" "unat mn \<le> lo"
          using ij True ends(2) loi hij by auto
        then show ?thesis using len(2) pos c1 nat by (simp add: Let_def)
      qed
      moreover have "kids ?t = kids (Tnode v mn cn l (Next_table tb))" by (rule win(4) [OF ij])
      ultimately show ?thesis using win(1) [OF ij, of v] by (intro exI [of _ ?t]) (simp del: shape_ok.simps)
    next
      case False
      then have "i = 0" "j = cn - 1" using ends by auto
      then have "mtrie_compact lo hi (Tnode v mn cn (card (live_at tb)) (Next_table tb)) =
          Some (Tnode v mn cn (card (live_at tb)) (Next_table tb))"
        using len(2) pos c1 loi hij by simp
      moreover have "shape_ok (Tnode v mn cn (card (live_at tb)) (Next_table tb))"
        using len ends \<open>i = 0\<close> \<open>j = cn - 1\<close> by (intro shape_tableI) auto
      moreover have "kids (Tnode v mn cn k (Next_table tb)) = kids (Tnode v mn cn l (Next_table tb))" for k
        using len by (auto simp: kids_table fun_eq_iff)
      ultimately show ?thesis by (simp del: shape_ok.simps)
    qed
  qed
qed

text \<open>The part of \<open>rm_helper\<close> below a node whose own set of pipes has been updated.\<close>

definition mtrie_rm_below ::
  "addr \<Rightarrow> mtrie_t \<Rightarrow> byte list \<Rightarrow> nat \<Rightarrow> nat \<Rightarrow> (byte list list \<times> byte list \<times> mtrie_t) option" where
  "mtrie_rm_below pipe t buff n mx = (case t of Tnode v mn cn lv nx \<Rightarrow>
     (if cn = 0 then Some ([], buff, Tnode v mn cn lv nx)
      else (case nx of
          Next_node x \<Rightarrow> (if cn \<noteq> 1 then None else do {
            buff \<leftarrow> buff_set n mn buff;
            (calls, buff, m) \<leftarrow> (case x of None \<Rightarrow> None | Some m \<Rightarrow> mtrie_rm_helper pipe m buff (n + 1) mx);
            if mtrie_is_redundant m
            then do { zmq_assert (lv - 1 = 0); Some (calls, buff, Tnode v mn 0 (lv - 1) (Next_node None)) }
            else Some (calls, buff, Tnode v mn cn lv (Next_node (Some m)))
          })
        | Next_table tb \<Rightarrow> (if cn = 1 then None else do {
            (calls, buff, tb, lv, new_min, new_max) \<leftarrow>
              mtrie_rm_table pipe tb (unat mn) (lv, (unat mn + cn - 1) mod 256, unat mn) buff n mx;
            t \<leftarrow> mtrie_compact new_min new_max (Tnode v mn cn lv (Next_table tb));
            Some (calls, buff, t)
          }))))"

lemma mtrie_rm_helper_below:
  "mtrie_rm_helper pipe t b n mx = do {
     let last = (case payload t of Some ps \<Rightarrow> pipe \<in> ps \<and> ps - {pipe} = {} | None \<Rightarrow> False);
     calls \<leftarrow> (if last then map_option (\<lambda>p. [p]) (buff_read n b) else Some []);
     let t1 = set_payload (if last then None else map_option (\<lambda>ps. ps - {pipe}) (payload t)) t;
     let r = (if n \<ge> mx then (buff_realloc (n + 256) b, n + 256) else (b, mx));
     (calls', b, t) \<leftarrow> mtrie_rm_below pipe t1 (fst r) n (snd r);
     Some (calls @ calls', b, t)
   }"
  by (cases t) (simp only: mtrie_rm_helper.simps mtrie_rm_below_def set_payload.simps tnode.sel tnode.case Let_def split_def)

text \<open>The effect below a node: every child is replaced by what is left of it.\<close>

definition below_ok :: "addr \<Rightarrow> mtrie_t \<Rightarrow> byte list \<Rightarrow> nat \<Rightarrow> nat \<Rightarrow> bool" where
  "below_ok pipe t b n mx \<longleftrightarrow> (\<exists>calls b' t'. mtrie_rm_below pipe t b n mx = Some (calls, b', t') \<and>
     mx \<le> length b' \<and> take n b' = take n b \<and> distinct calls \<and>
     set calls = {take n b @ c # q |c m q. kids t c = Some m \<and> subs_at q m = {pipe}} \<and>
     shape_ok t' \<and> payload t' = payload t \<and> (\<forall>c. left_of pipe (kids t c) (kids t' c)))"

lemma below_ok_single:
  assumes t: "t = Tnode v mn 1 1 (Next_node (Some m))" and "removes pipe m" and "n < mx" and "mx \<le> length b"
  shows "below_ok pipe t b n mx"
proof -
  from assms(2) [unfolded removes_def, rule_format, of "Suc n" mx "b[n := mn]"] assms(3,4)
  obtain k b' m' where k: "mtrie_rm_helper pipe m (b[n := mn]) (Suc n) mx = Some (k, b', m')" "mx \<le> length b'"
    "take (Suc n) b' = take (Suc n) (b[n := mn])" "distinct k"
    "set k = {take (Suc n) (b[n := mn]) @ q |q. subs_at q m = {pipe}}" "mtrie_inv m'"
    "\<forall>q. subs_at q m' = subs_at q m - {pipe}" by auto
  let ?t' = "if mtrie_is_redundant m' then Tnode v mn 0 0 (Next_node None) else Tnode v mn 1 1 (Next_node (Some m'))"
  have "mtrie_rm_below pipe t b n mx = Some (k, b', ?t')"
    using k(1) assms(3,4) by (simp add: mtrie_rm_below_def t buff_set_def)
  moreover have "take n b' = take n b" using take_snocD [OF k(3)] by simp
  moreover have "set k = {take n b @ c # q |c m q. kids t c = Some m \<and> subs_at q m = {pipe}}"
    using k(5) assms(3,4) by (auto simp: take_update_Suc t split: if_splits)
  moreover have "left_of pipe (kids t c) (kids ?t' c)" for c using k(6,7) by (auto simp: left_of_def t)
  moreover have "shape_ok ?t'" "payload ?t' = payload t" by (auto simp: t)
  ultimately show ?thesis unfolding below_ok_def using k(2,4) by blast
qed

lemma below_ok_table:
  assumes t: "t = Tnode v mn cn lv (Next_table tb)" and tb: "length tb = cn" "1 < cn" "unat mn + cn \<le> 256"
    "lv = card (live_at tb)" and rm: "\<forall>m. Some m \<in> set tb \<longrightarrow> removes pipe m" and "n < mx" and "mx \<le> length b"
  shows "below_ok pipe t b n mx"
proof -
  have "unat mn + length tb \<le> 256" "card (live_at tb) \<le> lv" using tb by auto
  from mtrie_rm_table_ok [OF rm assms(7,8) this, of "unat mn + cn - 1" "unat mn"]
  obtain k b' tb' where k: "mtrie_rm_table pipe tb (unat mn) (lv, unat mn + cn - 1, unat mn) b n mx =
      Some (k, b', tb', lv + card (live_at tb') - card (live_at tb),
        Min (insert (unat mn + cn - 1) ((\<lambda>i. unat mn + i) ` live_at tb')), Max (insert (unat mn) ((\<lambda>i. unat mn + i) ` live_at tb')))"
      (is "_ = Some (_, _, _, _, ?lo, ?hi)")
    "mx \<le> length b'" "take n b' = take n b" "list_all2 (left_of pipe) tb tb'" "distinct k"
    "set k = {take n b @ of_nat (unat mn + i) # q |i m q. i < length tb \<and> tb ! i = Some m \<and> subs_at q m = {pipe}}"
    by (elim exE conjE) (rule that, assumption+)
  have len: "length tb' = cn" using k(4) tb(1) by (simp add: list_all2_lengthD)
  obtain t' where t': "mtrie_compact ?lo ?hi (Tnode v mn cn (card (live_at tb')) (Next_table tb')) = Some t'"
    "shape_ok t'" "payload t' = v" "kids t' = kids (Tnode v mn cn 0 (Next_table tb'))"
    using mtrie_compact_ok [OF len tb(2,3) refl refl, of v 0] by blast
  have "mtrie_rm_below pipe t b n mx = Some (k, b', t')"
    using k(1) t'(1) tb by (simp add: mtrie_rm_below_def t)
  moreover have "left_of pipe (kids t c) (kids t' c)" for c
    using k(4) tb(1,2) len by (auto simp: t'(4) t kids_table list_all2_conv_all_nth)
  moreover have "set k = {take n b @ c # q |c m q. kids t c = Some m \<and> subs_at q m = {pipe}}"
  proof -
    have "kids t c = Some m \<longleftrightarrow> (\<exists>i < length tb. c = of_nat (unat mn + i) \<and> tb ! i = Some m)" for c m
    proof
      assume "kids t c = Some m"
      then have "unat mn \<le> unat c" "unat c < unat mn + cn" "tb ! (unat c - unat mn) = Some m"
        using tb(1,2) by (auto simp: t kids_table split: if_splits)
      moreover from this(1) have "c = of_nat (unat mn + (unat c - unat mn))" by simp
      ultimately show "\<exists>i < length tb. c = of_nat (unat mn + i) \<and> tb ! i = Some m"
        using tb(1) by (intro exI [of _ "unat c - unat mn"]) auto
    next
      assume "\<exists>i < length tb. c = of_nat (unat mn + i) \<and> tb ! i = Some m"
      then obtain i where i: "i < cn" "c = of_nat (unat mn + i)" "tb ! i = Some m" using tb(1) by blast
      then have "unat c = unat mn + i" using tb(3) by (simp only: unat_byte)
      then show "kids t c = Some m" using i tb(1,2) by (simp add: t kids_table)
    qed
    then show ?thesis unfolding k(6) by blast
  qed
  ultimately show ?thesis unfolding below_ok_def using k(2,3,5) t'(2,3) t by auto
qed

lemma below_ok_all:
  assumes "shape_ok t" and "\<And>c m. kids t c = Some m \<Longrightarrow> removes pipe m" and "n < mx" and "mx \<le> length b"
  shows "below_ok pipe t b n mx"
proof -
  obtain v mn cn lv nx where t: "t = Tnode v mn cn lv nx" by (cases t)
  consider "cn = 0" | m where "cn = 1" "lv = 1" "nx = Next_node (Some m)"
    | tb where "1 < cn" "length tb = cn" "nx = Next_table tb" "unat mn + cn \<le> 256" "lv = card (live_at tb)"
    using assms(1) t by (cases "cn = 0"; cases "cn = 1") auto
  then show ?thesis
  proof cases
    case 1
    then show ?thesis using assms(1,4) t by (auto simp: below_ok_def mtrie_rm_below_def left_of_def)
  next
    case 2
    then have "removes pipe m" using assms(2) [of mn] t by simp
    then show ?thesis using below_ok_single [of t v mn m] assms(3,4) t 2 by simp
  next
    case 3
    have "removes pipe m" if m: "Some m \<in> set tb" for m
    proof -
      obtain i where i: "i < cn" "tb ! i = Some m" using m 3(2) by (auto simp: in_set_conv_nth)
      then have "unat (of_nat (unat mn + i) :: byte) = unat mn + i" using 3(4) by (simp only: unat_byte)
      then have "kids t (of_nat (unat mn + i)) = Some m" using i 3 t by (simp add: kids_table)
      then show ?thesis by (rule assms(2))
    qed
    then show ?thesis using below_ok_table [OF _ 3(2,1,4,5)] assms(3,4) t 3(3) by blast
  qed
qed

lemma drop_pipe:
  assumes "payload_ok t"
    and "gone \<longleftrightarrow> (case payload t of Some ps \<Rightarrow> pipe \<in> ps \<and> ps - {pipe} = {} | None \<Rightarrow> False)"
    and "t1 = set_payload (if gone then None else map_option (\<lambda>ps. ps - {pipe}) (payload t)) t"
  shows "payload_ok t1" and "pipes_of t1 = pipes_of t - {pipe}" and "gone \<longleftrightarrow> pipes_of t = {pipe}"
  using assms by (cases "payload t"; force simp: payload_ok_def pipes_of_def)+

lemma removes_ok: "mtrie_inv t \<Longrightarrow> removes pipe t"
proof (induction rule: mtrie_inv.induct)
  case (1 t)
  show ?case unfolding removes_def
  proof (intro allI impI)
    fix b :: "byte list" and n mx
    assume b: "n \<le> mx" "mx \<le> length b"
    define r where "r = (if n \<ge> mx then (buff_realloc (n + 256) b, n + 256) else (b, mx))"
    have r: "n < snd r" "snd r \<le> length (fst r)" "mx \<le> snd r" "take n (fst r) = take n b"
      using b by (auto simp: r_def buff_realloc_def min_def)
    define gone where "gone \<longleftrightarrow> (case payload t of Some ps \<Rightarrow> pipe \<in> ps \<and> ps - {pipe} = {} | None \<Rightarrow> False)"
    define t1 where "t1 = set_payload (if gone then None else map_option (\<lambda>ps. ps - {pipe}) (payload t)) t"
    note dp = drop_pipe [OF 1(2) gone_def t1_def]
    have t1: "kids t1 = kids t" "shape_ok t1" using 1(1) by (simp_all add: t1_def)
    then have "below_ok pipe t1 (fst r) n (snd r)" using 1(3) by (intro below_ok_all [OF _ _ r(1,2)]) auto
    then obtain k b' t' where k: "mtrie_rm_below pipe t1 (fst r) n (snd r) = Some (k, b', t')" "snd r \<le> length b'"
      "take n b' = take n b" "distinct k" "set k = {take n b @ c # q |c m q. kids t c = Some m \<and> subs_at q m = {pipe}}"
      "shape_ok t'" "payload t' = payload t1" "\<forall>c. left_of pipe (kids t c) (kids t' c)"
      unfolding below_ok_def t1(1) r(4) by blast
    let ?k0 = "if gone then [take n b] else []"
    have run: "mtrie_rm_helper pipe t b n mx = Some (?k0 @ k, b', t')"
      unfolding mtrie_rm_helper_below Let_def gone_def [symmetric] t1_def [symmetric] r_def [symmetric] k(1)
      using b by (simp add: buff_read_def)
    have inv: "mtrie_inv t'"
    proof (rule mtrie_invI [OF k(6)])
      show "payload_ok t'" using dp(1) k(7) by (simp add: payload_ok_def)
    next
      fix c m
      assume "kids t' c = Some m"
      then show "mtrie_inv m \<and> \<not> mtrie_is_redundant m" using k(8) left_of_inv by metis
    qed
    have subs: "subs_at q t' = subs_at q t - {pipe}" for q
      using dp(2) k(7,8) left_of_subs by (cases q) (auto simp: pipes_of_def)
    have "set (?k0 @ k) = {take n b @ q |q. subs_at q t = {pipe}}"
    proof (rule set_eqI)
      fix z
      have "(\<exists>q. z = take n b @ q \<and> subs_at q t = {pipe}) \<longleftrightarrow> (z = take n b \<and> pipes_of t = {pipe}) \<or>
          (\<exists>c q. z = take n b @ c # q \<and> subs_at (c # q) t = {pipe})"
        by (metis append_Nil2 list.exhaust subs_at.simps(1))
      also have "\<dots> \<longleftrightarrow> z \<in> set (?k0 @ k)" unfolding set_append k(5) using dp(3) by (auto split: option.splits)
      finally show "z \<in> set (?k0 @ k) \<longleftrightarrow> z \<in> {take n b @ q |q. subs_at q t = {pipe}}" by blast
    qed
    moreover have "distinct (?k0 @ k)" using k(4,5) by auto
    ultimately show "\<exists>calls b' t'. mtrie_rm_helper pipe t b n mx = Some (calls, b', t') \<and> mx \<le> length b' \<and>
        take n b' = take n b \<and> distinct calls \<and> set calls = {take n b @ q |q. subs_at q t = {pipe}} \<and>
        mtrie_inv t' \<and> (\<forall>q. subs_at q t' = subs_at q t - {pipe})"
      using run inv subs k(2,3) r(3) by (intro exI [of _ "?k0 @ k"] exI [of _ b'] exI [of _ t']) auto
  qed
qed

subsection \<open>Properties of the multi-trie\<close>

text \<open>Pipe 1 subscribed to \<open>a\<close>, pipe 2 to \<open>a\<close> and \<open>ab\<close>: used to exercise the statements.\<close>

definition example_mtrie :: mtrie_t where
  "example_mtrie = snd (the (mtrie_add [97, 98] 2 (snd (the (mtrie_add [97] 2 (snd (the (mtrie_add [97] 1 mtrie_new))))))))"

lemma example_mtrie_inv: "mtrie_inv example_mtrie"
  and example_mtrie_subs: "subs_at q example_mtrie = (if q = [97] then {1, 2} else if q = [97, 98] then {2} else {})"
proof -
  obtain t1 where t1: "mtrie_add [97] 1 mtrie_new = Some (True, t1)" "mtrie_inv t1"
    "\<forall>q. subs_at q t1 = (if q = [97] then {1} else {})"
    using mtrie_add_ok [OF mtrie_new_inv, of "[97]" 1]
    by (auto simp: mtrie_add_def subs_at_new simp del: mtrie_add_helper.simps subs_at.simps)
  obtain t2 where t2: "mtrie_add [97] 2 t1 = Some (False, t2)" "mtrie_inv t2"
    "\<forall>q. subs_at q t2 = (if q = [97] then {1, 2} else {})"
    using mtrie_add_ok [OF t1(2), of "[97]" 2] t1(3)
    by (auto simp: mtrie_add_def insert_commute simp del: mtrie_add_helper.simps subs_at.simps)
  obtain t3 where t3: "mtrie_add [97, 98] 2 t2 = Some (True, t3)" "mtrie_inv t3"
    "\<forall>q. subs_at q t3 = (if q = [97, 98] then {2} else subs_at q t2)"
    using mtrie_add_ok [OF t2(2), of "[97, 98]" 2] t2(3)
    by (auto simp: mtrie_add_def simp del: mtrie_add_helper.simps subs_at.simps)
  have e: "example_mtrie = t3" using t1(1) t2(1) t3(1) by (simp add: example_mtrie_def)
  show "mtrie_inv example_mtrie" using t3(2) e by simp
  show "subs_at q example_mtrie = (if q = [97] then {1, 2} else if q = [97, 98] then {2} else {})"
    using t3(3) t2(3) e by simp
qed

text \<open>
  adding a subscription of a pipe to a sound multi-trie returns, keeps it sound, adds the pipe to
  exactly this prefix and reports whether no pipe was subscribed to it before.
\<close>

theorem mtrie_add_subscribes:
  assumes "mtrie_inv t"
  shows "\<exists>t'. mtrie_add p pipe t = Some (subs_at p t = {}, t') \<and> mtrie_inv t' \<and>
    (\<forall>q. subs_at q t' = (if q = p then insert pipe (subs_at p t) else subs_at q t))"
  unfolding mtrie_add_def by (rule mtrie_add_ok [OF assms])

theorem mtrie_add_subscribes_witness:
  "\<exists>t'. mtrie_add [97, 98] 7 example_mtrie = Some (False, t') \<and> mtrie_inv t' \<and> subs_at [97, 98] t' = {2, 7}"
  using mtrie_add_subscribes [OF example_mtrie_inv, of "[97, 98]" 7]
  by (auto simp: example_mtrie_subs insert_commute simp del: subs_at.simps)

text \<open>
  C12: removing one subscription. If the pipe holds it, the call returns, keeps the multi-trie sound,
  takes the pipe off exactly this prefix and reports whether it was the last one there. If the
  pipe does not hold it but another pipe does, the assertion that one pipe was erased fails
  and the process aborts.
\<close>

theorem mtrie_rm_one_subscription:
  assumes "mtrie_inv t" and "subs_at p t \<noteq> {}"
  shows "(pipe \<in> subs_at p t \<longrightarrow> (\<exists>t'. mtrie_rm_prefix p pipe t = Some (subs_at p t = {pipe}, t') \<and> mtrie_inv t' \<and>
            (\<forall>q. subs_at q t' = (if q = p then subs_at p t - {pipe} else subs_at q t)))) \<and>
         (pipe \<notin> subs_at p t \<longrightarrow> mtrie_rm_prefix p pipe t = None)"
  using mtrie_rm_prefix_ok [OF assms(1)] mtrie_rm_prefix_abort [OF assms] by blast

theorem mtrie_rm_one_subscription_witness:
  "(\<exists>t'. mtrie_rm_prefix [97, 98] 2 example_mtrie = Some (True, t') \<and> subs_at [97, 98] t' = {}) \<and>
   mtrie_rm_prefix [97, 98] 1 example_mtrie = None"
  using mtrie_rm_one_subscription [OF example_mtrie_inv, of "[97, 98]" 2]
    mtrie_rm_one_subscription [OF example_mtrie_inv, of "[97, 98]" 1]
  by (auto simp: example_mtrie_subs simp del: subs_at.simps mtrie_rm_prefix.simps)

lemma mtrie_rm_ok:
  assumes "mtrie_inv t"
  shows "\<exists>calls t'. mtrie_rm pipe t = Some (calls, t') \<and> mtrie_inv t' \<and> (\<forall>q. subs_at q t' = subs_at q t - {pipe}) \<and>
    distinct calls \<and> set calls = {p. subs_at p t = {pipe}}"
proof -
  have "removes pipe t" by (rule removes_ok [OF assms])
  from this [unfolded removes_def, rule_format, of 0 0 "[]"] show ?thesis by (auto simp: mtrie_rm_def)
qed

text \<open>
  C13: removing a pipe from the whole multi-trie returns without failing an assertion of the pruning
  and compaction code and without leaving the prefix buffer, keeps it sound, takes the pipe off
  every prefix, and calls the callback exactly once for each prefix it was the only pipe of.
\<close>

theorem mtrie_rm_pipe_everywhere:
  assumes "mtrie_inv t"
  shows "\<exists>calls t'. mtrie_rm pipe t = Some (calls, t') \<and> mtrie_inv t' \<and> (\<forall>q. subs_at q t' = subs_at q t - {pipe}) \<and>
    distinct calls \<and> set calls = {p. subs_at p t = {pipe}}"
  using assms by (rule mtrie_rm_ok)

theorem mtrie_rm_pipe_everywhere_witness:
  "\<exists>t'. mtrie_rm 2 example_mtrie = Some ([[97, 98]], t') \<and> subs_at [97] t' = {1} \<and> subs_at [97, 98] t' = {}"
proof -
  obtain calls t' where r: "mtrie_rm 2 example_mtrie = Some (calls, t')"
    "\<forall>q. subs_at q t' = subs_at q example_mtrie - {2}" "distinct calls" "set calls = {p. subs_at p example_mtrie = {2}}"
    using mtrie_rm_pipe_everywhere [OF example_mtrie_inv, of 2] by blast
  have "set calls = {[97, 98]}" unfolding r(4) by (auto simp: example_mtrie_subs split: if_splits)
  then have "calls = [[97, 98]]" using r(3) by (cases calls; cases "tl calls") auto
  then show ?thesis using r by (auto simp: example_mtrie_subs simp del: subs_at.simps)
qed

text \<open>
  C14: \<open>match\<close> signals, for each prefix of the message from the empty one to the whole of it, the pipes
  subscribed to that prefix, and no others.
\<close>

theorem mtrie_match_prefixes:
  assumes "mtrie_inv t"
  shows "mtrie_match d t = Some (concat (map (\<lambda>k. sorted_list_of_set (subs_at (take k d) t)) [0..<Suc (length d)]))"
  by (rule mtrie_match_ok [OF assms])

theorem mtrie_match_prefixes_witness: "mtrie_match [97, 98, 99] example_mtrie = Some [1, 2, 2]"
  using mtrie_match_prefixes [OF example_mtrie_inv, of "[97, 98, 99]"]
  by (simp add: example_mtrie_subs del: subs_at.simps mtrie_match.simps)

end
