(* ===== verification/Xpub.thy ===== *)
theory Xpub
  imports Socket_Common Mtrie
begin

text \<open>
  The publisher sockets \<open>xpub_t\<close> and \<open>pub_t\<close> (\<^verbatim>\<open>src/xpub.cpp\<close>, \<^verbatim>\<open>src/pub.cpp\<close>). Subscriptions arrive on
  the pipes as messages that start with the byte 1 (subscribe) or 0 (unsubscribe) and are kept in
  a multi-trie; a published message goes to the pipes subscribed to one of its prefixes.
\<close>

record xpub_t =
  xp_subscriptions :: mtrie_t
  xp_dist :: dist_t
  xp_verbose :: bool
  xp_more :: bool
  pending_data :: "blob_t list"
  pending_flags :: "byte list"
  xp_type :: socket_type

definition xpub_new :: xpub_t where
  "xpub_new = \<lparr>xp_subscriptions = mtrie_new, xp_dist = dist_new, xp_verbose = False, xp_more = False,
     pending_data = [], pending_flags = [], xp_type = ZMQ_XPUB\<rparr>"

text \<open>The subscriptions after a (un)subscription message, and whether it was unique.\<close>

definition xpub_update :: "addr \<Rightarrow> byte \<Rightarrow> blob_t \<Rightarrow> mtrie_t \<Rightarrow> (bool \<times> mtrie_t) option" where
  "xpub_update p c cs t = (if c = 0 then mtrie_rm_prefix cs p t else mtrie_add cs p t)"

text \<open>One round of the loop of \<open>xread_activated\<close>.\<close>

definition xpub_process :: "addr \<Rightarrow> msg_t \<Rightarrow> xpub_t \<Rightarrow> world \<Rightarrow> (xpub_t \<times> world) option" where
  "xpub_process p sub x w = do {
     d \<leftarrow> msg_data sub (mheap w);
     x \<leftarrow> (if 0 < length d \<and> (d ! 0 = 0 \<or> d ! 0 = 1)
          then do {
            (unique, t) \<leftarrow> xpub_update p (d ! 0) (drop 1 d) (xp_subscriptions x);
            let x = x\<lparr>xp_subscriptions := t\<rparr>;
            Some (if xp_type x = ZMQ_XPUB \<and> (unique \<or> (d ! 0 \<noteq> 0 \<and> xp_verbose x))
                  then x\<lparr>pending_data := pending_data x @ [d], pending_flags := pending_flags x @ [0]\<rparr>
                  else x)
          }
          else Some (x\<lparr>pending_data := pending_data x @ [d], pending_flags := pending_flags x @ [msg_flags sub]\<rparr>));
     w \<leftarrow> close_ignored sub w;
     Some (x, w)
   }"

partial_function (option) xpub_xread_activated :: "addr \<Rightarrow> xpub_t \<Rightarrow> world \<Rightarrow> (xpub_t \<times> world) option" where
  "xpub_xread_activated p x w =
     (case pipe_read p w of
        None \<Rightarrow> None
      | Some (None, w) \<Rightarrow> Some (x, w)
      | Some (Some sub, w) \<Rightarrow>
          (case xpub_process p sub x w of None \<Rightarrow> None | Some (x, w) \<Rightarrow> xpub_xread_activated p x w))"

definition xpub_xattach_pipe :: "addr \<Rightarrow> bool \<Rightarrow> xpub_t \<Rightarrow> world \<Rightarrow> (xpub_t \<times> world) option" where
  "xpub_xattach_pipe p subscribe_to_all x w = do {
     d \<leftarrow> dist_attach p (xp_dist x);
     let x = x\<lparr>xp_dist := d\<rparr>;
     x \<leftarrow> (if subscribe_to_all
          then do { (_, t) \<leftarrow> mtrie_add [] p (xp_subscriptions x); Some (x\<lparr>xp_subscriptions := t\<rparr>) }
          else Some x);
     xpub_xread_activated p x w
   }"

definition xpub_xwrite_activated :: "addr \<Rightarrow> xpub_t \<Rightarrow> xpub_t option" where
  "xpub_xwrite_activated p x = do { d \<leftarrow> dist_activated p (xp_dist x); Some (x\<lparr>xp_dist := d\<rparr>) }"

definition xpub_xsetsockopt :: "int \<Rightarrow> byte list \<Rightarrow> xpub_t \<Rightarrow> errno_t option \<times> xpub_t" where
  "xpub_xsetsockopt opt v x =
     (if opt \<noteq> ZMQ_XPUB_VERBOSE then (Some EINVAL, x)
      else (case opt_bool v of None \<Rightarrow> (Some EINVAL, x) | Some b \<Rightarrow> (None, x\<lparr>xp_verbose := b\<rparr>)))"

definition send_unsubscription :: "blob_t \<Rightarrow> xpub_t \<Rightarrow> xpub_t" where
  "send_unsubscription d x =
     (if xp_type x \<noteq> ZMQ_PUB
      then x\<lparr>pending_data := pending_data x @ [0 # d], pending_flags := pending_flags x @ [0]\<rparr>
      else x)"

definition xpub_xpipe_terminated :: "addr \<Rightarrow> xpub_t \<Rightarrow> xpub_t option" where
  "xpub_xpipe_terminated p x = do {
     (calls, t) \<leftarrow> mtrie_rm p (xp_subscriptions x);
     let x = fold send_unsubscription calls (x\<lparr>xp_subscriptions := t\<rparr>);
     d \<leftarrow> dist_pipe_terminated p (xp_dist x);
     Some (x\<lparr>xp_dist := d\<rparr>)
   }"

text \<open>The calls of \<open>mark_as_matching\<close>.\<close>

fun mark_as_matching :: "addr list \<Rightarrow> dist_t \<Rightarrow> dist_t option" where
  "mark_as_matching [] d = Some d"
| "mark_as_matching (p # ps) d = do { d \<leftarrow> dist_match p d; mark_as_matching ps d }"

definition xpub_xsend :: "msg_t \<Rightarrow> xpub_t \<Rightarrow> world \<Rightarrow> (errno_t option \<times> msg_t \<times> xpub_t \<times> world) option" where
  "xpub_xsend m x w = do {
     let more = msg_more m;
     d \<leftarrow> (if \<not> xp_more x
          then do { bs \<leftarrow> msg_data m (mheap w); ps \<leftarrow> mtrie_match bs (xp_subscriptions x); mark_as_matching ps (xp_dist x) }
          else Some (xp_dist x));
     (m, d, w) \<leftarrow> dist_send_to_matching m d w;
     let d = (if \<not> more then dist_unmatch d else d);
     Some (None, m, x\<lparr>xp_dist := d, xp_more := more\<rparr>, w)
   }"

definition xpub_xhas_out :: bool where
  "xpub_xhas_out = dist_has_out"

definition xpub_xrecv ::
  "(nat \<Rightarrow> bool) \<Rightarrow> msg_t \<Rightarrow> xpub_t \<Rightarrow> world \<Rightarrow> (errno_t option \<times> msg_t \<times> xpub_t \<times> world) option" where
  "xpub_xrecv oom m x w = (case pending_data x of
      [] \<Rightarrow> Some (Some EAGAIN, m, x, w)
    | d # ds \<Rightarrow> do {
        w \<leftarrow> close_in m w;
        (m, w) \<leftarrow> new_msg oom d w;
        fl \<leftarrow> (case pending_flags x of [] \<Rightarrow> None | f # _ \<Rightarrow> Some f);
        Some (None, msg_set_flags fl m, x\<lparr>pending_data := ds, pending_flags := tl (pending_flags x)\<rparr>, w)
      })"

definition xpub_xhas_in :: "xpub_t \<Rightarrow> bool" where
  "xpub_xhas_in x \<longleftrightarrow> pending_data x \<noteq> []"

text \<open>\<open>pub_t\<close> overrides attaching and receiving.\<close>

definition pub_new :: xpub_t where
  "pub_new = xpub_new\<lparr>xp_type := ZMQ_PUB\<rparr>"

definition pub_xattach_pipe :: "addr \<Rightarrow> bool \<Rightarrow> xpub_t \<Rightarrow> world \<Rightarrow> (xpub_t \<times> world) option" where
  "pub_xattach_pipe p subscribe_to_all x w = do {
     w \<leftarrow> pipe_set_nodelay p w;
     xpub_xattach_pipe p subscribe_to_all x w
   }"

definition pub_xrecv :: "msg_t \<Rightarrow> xpub_t \<Rightarrow> errno_t option \<times> msg_t \<times> xpub_t" where
  "pub_xrecv m x = (Some ENOTSUP, m, x)"

definition pub_xhas_in :: "xpub_t \<Rightarrow> bool" where
  "pub_xhas_in x = False"

subsection \<open>Invariant\<close>

definition xpub_inv :: "xpub_t \<Rightarrow> bool" where
  "xpub_inv x \<longleftrightarrow> mtrie_inv (xp_subscriptions x) \<and> dist_inv (xp_dist x) \<and> xp_more x = dist_more (xp_dist x) \<and>
     (\<not> xp_more x \<longrightarrow> matching (xp_dist x) = 0) \<and> (\<forall>q. subs_at q (xp_subscriptions x) \<subseteq> dist_all (xp_dist x)) \<and>
     length (pending_flags x) = length (pending_data x)"

lemma mark_as_matching_ok:
  assumes "dist_inv d" and "set ps \<subseteq> dist_all d" and "\<not> dist_more d"
  shows "\<exists>d'. mark_as_matching ps d = Some d' \<and> dist_inv d' \<and> dist_all d' = dist_all d \<and> eligibles d' = eligibles d \<and>
    actives d' = actives d \<and> matches d' = matches d \<union> (set ps \<inter> eligibles d) \<and> dist_more d' = dist_more d"
  using assms
proof (induction ps arbitrary: d)
  case (Cons p ps)
  obtain d1 where d1: "dist_match p d = Some d1" "dist_inv d1" "dist_all d1 = dist_all d" "eligibles d1 = eligibles d" "actives d1 = actives d"
    "matches d1 = matches d \<union> ({p} \<inter> eligibles d)" "dist_more d1 = dist_more d"
    using dist_match_ok [OF Cons.prems(1) _ Cons.prems(3), of p] Cons.prems(2) by auto
  then obtain d2 where "mark_as_matching ps d1 = Some d2" "dist_inv d2" "dist_all d2 = dist_all d1" "eligibles d2 = eligibles d1"
    "actives d2 = actives d1" "matches d2 = matches d1 \<union> (set ps \<inter> eligibles d1)" "dist_more d2 = dist_more d1"
    using Cons.IH [of d1] Cons.prems by auto
  then show ?case using d1 by (intro exI [of _ d2]) auto
qed simp

subsection \<open>Publishing\<close>

text \<open>The pipes a message part is for: those that already get the message, or the subscribers.\<close>

definition xpub_targets :: "xpub_t \<Rightarrow> blob_t \<Rightarrow> addr set" where
  "xpub_targets x d = (if xp_more x then matches (xp_dist x)
     else {p \<in> eligibles (xp_dist x). \<exists>k \<le> length d. p \<in> subs_at (take k d) (xp_subscriptions x)})"

lemma xpub_match_ok:
  assumes "xpub_inv x" and "msg_data m (mheap w) = Some bs"
  shows "\<exists>d. (if \<not> xp_more x
          then do { bs \<leftarrow> msg_data m (mheap w); ps \<leftarrow> mtrie_match bs (xp_subscriptions x); mark_as_matching ps (xp_dist x) }
          else Some (xp_dist x)) = Some d \<and> dist_inv d \<and> dist_all d = dist_all (xp_dist x) \<and> eligibles d = eligibles (xp_dist x) \<and>
     matches d = xpub_targets x bs \<and> dist_more d = xp_more x"
proof (cases "xp_more x")
  case True
  then show ?thesis using assms(1) by (simp add: xpub_inv_def xpub_targets_def)
next
  case False
  have inv: "mtrie_inv (xp_subscriptions x)" "dist_inv (xp_dist x)" "\<not> dist_more (xp_dist x)" "matching (xp_dist x) = 0"
    "\<forall>q. subs_at q (xp_subscriptions x) \<subseteq> dist_all (xp_dist x)" using assms(1) False by (auto simp: xpub_inv_def)
  define ps where "ps = concat (map (\<lambda>k. sorted_list_of_set (subs_at (take k bs) (xp_subscriptions x))) [0..<Suc (length bs)])"
  have mt: "mtrie_match bs (xp_subscriptions x) = Some ps" unfolding ps_def by (rule mtrie_match_ok [OF inv(1)])
  have fin: "finite (subs_at q (xp_subscriptions x))" for q using inv(5) finite_subset by (metis List.finite_set)
  have ps: "set ps = {p. \<exists>k \<le> length bs. p \<in> subs_at (take k bs) (xp_subscriptions x)}"
    by (auto simp: ps_def fin less_Suc_eq_le simp del: upt_Suc)
  then have "set ps \<subseteq> dist_all (xp_dist x)" using inv(5) by auto
  then obtain d where d: "mark_as_matching ps (xp_dist x) = Some d" "dist_inv d" "dist_all d = dist_all (xp_dist x)"
    "eligibles d = eligibles (xp_dist x)" "matches d = matches (xp_dist x) \<union> (set ps \<inter> eligibles (xp_dist x))" "dist_more d = dist_more (xp_dist x)"
    using mark_as_matching_ok [OF inv(2) _ inv(3)] by blast
  have "matches (xp_dist x) = {}" using inv(4) by (simp add: pfx_def)
  then have "matches d = xpub_targets x bs" using d(5) ps False by (auto simp: xpub_targets_def)
  then show ?thesis using False assms(2) mt d inv(3) by simp
qed

lemma xpub_targets_eligible: "xpub_inv x \<Longrightarrow> xpub_targets x d \<subseteq> eligibles (xp_dist x)"
  using pfx_mono [of "matching (xp_dist x)" "eligible (xp_dist x)" "xp_dist x"]
  by (auto simp: xpub_targets_def xpub_inv_def dist_inv_def dist_ok_def)

lemma matches_unmatch [simp]: "matches (dist_unmatch d) = {}" "matching (dist_unmatch d) = 0"
  by (simp_all add: dist_unmatch_def pfx_def)

lemma unmatch_simps [simp]:
  "eligibles (dist_unmatch d) = eligibles d" "dist_all (dist_unmatch d) = dist_all d" "dist_more (dist_unmatch d) = dist_more d"
  by (simp_all add: dist_unmatch_def pfx_def)

lemma dist_inv_unmatch: "dist_inv d \<Longrightarrow> dist_inv (dist_unmatch d)"
  by (simp add: dist_inv_def dist_ok_def dist_unmatch_def)

lemma card_matching: "dist_inv d \<Longrightarrow> matching d = card (matches d)"
  by (simp add: dist_inv_def card_matches)

text \<open>
  C25: Publishing. A message part always goes out, exactly once, to every subscriber that has room,
  and to nobody else: the first part to the active pipes subscribed to some prefix of it, the
  other parts to the pipes that took all the parts before. A pipe without room is dropped from
  the current message and not written to again before it has room. The invariant of the socket
  is kept, and the message body is shared with one counted reference per pipe that took it.
\<close>
theorem xpub_publishes:
  assumes "xpub_inv x" and "\<forall>p \<in> eligibles (xp_dist x). writable w p" and "msg_data m (mheap w) = Some d"
    and "refs_ok (mheap w) (add_mset m ms)" and "\<forall>a. nrefs a ms + card (xpub_targets x d) < 2 ^ 32"
  shows "\<exists>m1 x' w'. xpub_xsend m x w = Some (None, msg_init, x', w') \<and> msg_u m1 = msg_u m \<and> xpub_inv x' \<and>
    xp_subscriptions x' = xp_subscriptions x \<and> xp_more x' = msg_more m \<and>
    (msg_more m \<longrightarrow> (\<forall>d'. xpub_targets x' d' = {p \<in> xpub_targets x d. has_room w p})) \<and>
    eligibles (xp_dist x') = eligibles (xp_dist x) - {p \<in> xpub_targets x d. \<not> has_room w p} \<and>
    (\<forall>p xs. out_log w p xs \<longrightarrow> out_log w' p (if p \<in> xpub_targets x d \<and> has_room w p then xs @ [m1] else xs)) \<and>
    refs_ok (mheap w') (replicate_mset (card {p \<in> xpub_targets x d. has_room w p}) m1 + ms)"
proof -
  obtain d1 where d1: "(if \<not> xp_more x
          then do { bs \<leftarrow> msg_data m (mheap w); ps \<leftarrow> mtrie_match bs (xp_subscriptions x); mark_as_matching ps (xp_dist x) }
          else Some (xp_dist x)) = Some d1" "dist_inv d1" "dist_all d1 = dist_all (xp_dist x)" "eligibles d1 = eligibles (xp_dist x)"
     "matches d1 = xpub_targets x d" "dist_more d1 = xp_more x" using xpub_match_ok [OF assms(1,3)] by blast
  have wr: "\<forall>p \<in> matches d1. writable w p" using assms(2) xpub_targets_eligible [OF assms(1)] d1(5) by blast
  have chk: "msg_check m" using assms(3) by (auto simp: msg_check_def msg_data_def)
  have nr: "\<forall>a. points_to a m \<longrightarrow> nrefs a ms + matching d1 < 2 ^ 32" using assms(5) card_matching [OF d1(2)] d1(5) by simp
  obtain m1 d2 w' where d2: "dist_send_to_matching m d1 w = Some (msg_init, d2, w')" "msg_u m1 = msg_u m" "dist_inv d2"
    "dist_all d2 = dist_all d1" "matches d2 = {p \<in> matches d1. has_room w p}"
    "eligibles d2 = eligibles d1 - {p \<in> matches d1. \<not> has_room w p}"
    "\<forall>p xs. out_log w p xs \<longrightarrow> out_log w' p (if p \<in> matches d1 \<and> has_room w p then xs @ [m1] else xs)"
    "refs_ok (mheap w') (replicate_mset (card {p \<in> matches d1. has_room w p}) m1 + ms)" "dist_more d2 = msg_more m"
    using dist_send_to_matching_ok [OF d1(2) wr assms(4) chk nr] by (elim exE conjE) (rule that, assumption+)
  define d3 where "d3 = (if \<not> msg_more m then dist_unmatch d2 else d2)"
  define x' where "x' = x\<lparr>xp_dist := d3, xp_more := msg_more m\<rparr>"
  have run: "xpub_xsend m x w = Some (None, msg_init, x', w')"
    unfolding xpub_xsend_def Let_def d1(1) Option.bind.bind_lunit d2(1) by (simp add: x'_def d3_def)
  have d3: "dist_inv d3" "dist_all d3 = dist_all d2" "eligibles d3 = eligibles d2" "dist_more d3 = msg_more m" "msg_more m \<Longrightarrow> d3 = d2"
    "\<not> msg_more m \<Longrightarrow> matching d3 = 0" using d2(3,9) dist_inv_unmatch by (auto simp: d3_def)
  have "xpub_inv x'" using assms(1) d3 d2(4) d1(3) by (auto simp: xpub_inv_def x'_def)
  moreover have "eligibles (xp_dist x') = eligibles (xp_dist x) - {p \<in> xpub_targets x d. \<not> has_room w p}"
    using d3(3) d2(6) d1(4,5) by (simp add: x'_def)
  moreover have "xpub_targets x' d' = {p \<in> xpub_targets x d. has_room w p}" if "msg_more m" for d'
    using d3(5) [OF that] d2(5) d1(5) that by (simp add: x'_def xpub_targets_def)
  moreover have "xp_subscriptions x' = xp_subscriptions x" "xp_more x' = msg_more m" by (simp_all add: x'_def)
  ultimately show ?thesis using d2(7,8) unfolding d1(5)
    by (intro exI [of _ m1] exI [of _ x'] exI [of _ w'] conjI run d2(2)) (assumption | blast)+
qed

subsection \<open>Subscriptions\<close>

text \<open>The prefixes a pipe holds, and those anybody holds.\<close>

definition held :: "addr \<Rightarrow> mtrie_t \<Rightarrow> blob_t set" where
  "held p t = {q. p \<in> subs_at q t}"

definition topics :: "mtrie_t \<Rightarrow> blob_t set" where
  "topics t = {q. subs_at q t \<noteq> {}}"

text \<open>
  The meaning of a sequence of messages for the set of prefixes of their sender. Undefined if a
  prefix is unsubscribed that is not subscribed; user messages mean nothing.
\<close>

fun apply_subs :: "blob_t list \<Rightarrow> blob_t set \<Rightarrow> blob_t set option" where
  "apply_subs [] S = Some S"
| "apply_subs (d # ds) S =
     (if 0 < length d \<and> d ! 0 = 1 then apply_subs ds (insert (drop 1 d) S)
      else if 0 < length d \<and> d ! 0 = 0 then (if drop 1 d \<in> S then apply_subs ds (S - {drop 1 d}) else None)
      else apply_subs ds S)"

lemma apply_subs_append: "apply_subs (ds @ es) S = Option.bind (apply_subs ds S) (apply_subs es)"
  by (induction ds arbitrary: S) auto

lemma xpub_update_ok:
  assumes "mtrie_inv t" and "c = 0 \<longrightarrow> cs \<in> held p t"
  shows "\<exists>t'. xpub_update p c cs t = Some (if c = 0 then subs_at cs t = {p} else subs_at cs t = {}, t') \<and> mtrie_inv t' \<and>
    (\<forall>q. subs_at q t' = (if q = cs then (if c = 0 then subs_at cs t - {p} else insert p (subs_at cs t)) else subs_at q t))"
proof (cases "c = 0")
  case True
  then show ?thesis using mtrie_rm_prefix_ok [OF assms(1), of p cs] assms(2) by (auto simp: xpub_update_def held_def simp del: subs_at.simps)
next
  case False
  then show ?thesis using mtrie_add_ok [OF assms(1), of cs p] by (simp add: xpub_update_def mtrie_add_def del: subs_at.simps)
qed

text \<open>What one message does.\<close>

definition sub_effect :: "addr \<Rightarrow> blob_t list \<Rightarrow> xpub_t \<Rightarrow> xpub_t \<Rightarrow> bool" where
  "sub_effect p ds x x' \<longleftrightarrow> xpub_inv x' \<and> xp_dist x' = xp_dist x \<and> xp_type x' = xp_type x \<and> xp_more x' = xp_more x \<and>
     xp_verbose x' = xp_verbose x \<and>
     apply_subs ds (held p (xp_subscriptions x)) = Some (held p (xp_subscriptions x')) \<and>
     (\<forall>q. subs_at q (xp_subscriptions x') - {p} = subs_at q (xp_subscriptions x) - {p}) \<and>
     (\<exists>es. pending_data x' = pending_data x @ es \<and>
        (xp_type x = ZMQ_XPUB \<longrightarrow> apply_subs es (topics (xp_subscriptions x)) = Some (topics (xp_subscriptions x'))))"

lemma sub_effect_refl: "xpub_inv x \<Longrightarrow> sub_effect p [] x x"
  by (simp add: sub_effect_def)

lemma sub_effect_trans: "sub_effect p ds x y \<Longrightarrow> sub_effect p es y z \<Longrightarrow> sub_effect p (ds @ es) x z"
  unfolding sub_effect_def by (elim conjE exE) (simp add: apply_subs_append)

lemma xpub_process_ok:
  assumes "xpub_inv x" and "p \<in> dist_all (xp_dist x)" and "msg_data sub (mheap w) = Some d"
    and "refs_ok (mheap w) (add_mset sub ms)" and "apply_subs [d] (held p (xp_subscriptions x)) \<noteq> None"
  shows "\<exists>x' h. xpub_process p sub x w = Some (x', w\<lparr>mheap := h\<rparr>) \<and> refs_ok h ms \<and> (\<forall>m \<in># ms. msg_data m h = msg_data m (mheap w)) \<and>
    sub_effect p [d] x x'"
proof -
  let ?t = "xp_subscriptions x"
  have inv: "mtrie_inv ?t" "\<forall>q. subs_at q ?t \<subseteq> dist_all (xp_dist x)" using assms(1) by (auto simp: xpub_inv_def)
  have "msg_check sub" using assms(3) by (auto simp: msg_check_def msg_data_def)
  then obtain h where h: "close_ignored sub w = Some (w\<lparr>mheap := h\<rparr>)" "refs_ok h ms" "\<forall>m \<in># ms. msg_data m h = msg_data m (mheap w)"
    using msg_close_refs [OF assms(4)] by (auto simp: close_ignored_def)
  show ?thesis
  proof (cases "0 < length d \<and> (d ! 0 = 0 \<or> d ! 0 = 1)")
    case True
    let ?c = "d ! 0" and ?cs = "drop 1 d"
    have legal: "?c = 0 \<longrightarrow> ?cs \<in> held p ?t" using assms(5) True by (auto split: if_splits)
    from xpub_update_ok [OF inv(1) legal]
    obtain t where t: "xpub_update p ?c ?cs ?t = Some (if ?c = 0 then subs_at ?cs ?t = {p} else subs_at ?cs ?t = {}, t)" "mtrie_inv t"
      "\<forall>q. subs_at q t = (if q = ?cs then (if ?c = 0 then subs_at ?cs ?t - {p} else insert p (subs_at ?cs ?t)) else subs_at q ?t)"
      by (elim exE conjE) (rule that, assumption+)
    define u where "u \<longleftrightarrow> (if ?c = 0 then subs_at ?cs ?t = {p} else subs_at ?cs ?t = {})"
    define r where "r \<longleftrightarrow> xp_type x = ZMQ_XPUB \<and> (u \<or> (?c \<noteq> 0 \<and> xp_verbose x))"
    define x' where "x' = (if r then x\<lparr>xp_subscriptions := t, pending_data := pending_data x @ [d], pending_flags := pending_flags x @ [0]\<rparr>
      else x\<lparr>xp_subscriptions := t\<rparr>)"
    have run: "xpub_process p sub x w = Some (x', w\<lparr>mheap := h\<rparr>)"
      using True assms(3) t(1) h(1) by (simp add: xpub_process_def x'_def r_def u_def Let_def)
    have f: "xp_subscriptions x' = t" "xp_dist x' = xp_dist x" "xp_type x' = xp_type x" "xp_more x' = xp_more x" "xp_verbose x' = xp_verbose x"
      "pending_data x' = pending_data x @ (if r then [d] else [])" by (auto simp: x'_def)
    have "xpub_inv x'" using assms(1,2) t(2,3) by (auto simp: xpub_inv_def x'_def simp del: subs_at.simps split: if_splits)
    moreover have "apply_subs [d] (held p ?t) = Some (held p t)"
      using True t(3) assms(5) by (auto simp: held_def simp del: subs_at.simps split: if_splits)
    moreover have "subs_at q t - {p} = subs_at q ?t - {p}" for q using t(3) by auto
    moreover have "apply_subs (if r then [d] else []) (topics ?t) = Some (topics t)" if "xp_type x = ZMQ_XPUB"
    proof (cases "?c = 0")
      case c: True
      then have sub: "p \<in> subs_at ?cs ?t" using assms(5) True by (auto simp: held_def simp del: subs_at.simps split: if_splits)
      have "topics t = (if u then topics ?t - {?cs} else topics ?t)"
        using t(3) c sub by (auto simp: topics_def u_def simp del: subs_at.simps split: if_splits)
      then show ?thesis using c True sub that by (auto simp: r_def topics_def simp del: subs_at.simps)
    next
      case c: False
      then have "topics t = insert ?cs (topics ?t)" "\<not> u \<Longrightarrow> ?cs \<in> topics ?t"
        using t(3) by (auto simp: topics_def u_def simp del: subs_at.simps split: if_splits)
      then show ?thesis using c True that by (auto simp: r_def insert_absorb)
    qed
    ultimately have "sub_effect p [d] x x'" unfolding sub_effect_def f by blast
    then show ?thesis using run h(2,3) by blast
  next
    case False
    let ?x = "x\<lparr>pending_data := pending_data x @ [d], pending_flags := pending_flags x @ [msg_flags sub]\<rparr>"
    have "xpub_process p sub x w = Some (?x, w\<lparr>mheap := h\<rparr>)" using False assms(3) h(1) by (cases d) (auto simp: xpub_process_def)
    moreover have "sub_effect p [d] x ?x" using False assms(1) by (auto simp: sub_effect_def xpub_inv_def)
    ultimately show ?thesis using h(2,3) by blast
  qed
qed

lemma xpub_read_ok:
  assumes "xpub_inv x" and "p \<in> dist_all (xp_dist x)" and "delivers w p subs"
    and "map (\<lambda>m. msg_data m (mheap w)) subs = map Some ds" and "refs_ok (mheap w) (mset subs + ms)"
    and "apply_subs ds (held p (xp_subscriptions x)) \<noteq> None"
  shows "\<exists>x' w'. xpub_xread_activated p x w = Some (x', w') \<and> delivers w' p [] \<and> refs_ok (mheap w') ms \<and>
    (\<forall>q xs. q \<noteq> p \<longrightarrow> delivers w q xs \<longrightarrow> delivers w' q xs) \<and> sub_effect p ds x x'"
  using assms
proof (induction subs arbitrary: ds x w)
  case Nil
  then show ?case using pipe_source.rd_none [OF Nil.prems(3)] sub_effect_refl [OF Nil.prems(1)]
    by (subst xpub_xread_activated.simps) auto
next
  case (Cons sub subs)
  obtain d es where ds: "ds = d # es" using Cons.prems(4) by (cases ds) auto
  obtain w1 where w1: "pipe_read p w = Some (Some sub, w1)" "delivers w1 p subs" "\<forall>q xs. q \<noteq> p \<longrightarrow> delivers w q xs \<longrightarrow> delivers w1 q xs"
    "mheap w1 = mheap w" using pipe_source.rd_some [OF Cons.prems(3)] by blast
  have d: "msg_data sub (mheap w1) = Some d" "refs_ok (mheap w1) (add_mset sub (mset subs + ms))" using Cons.prems(4,5) ds w1(4) by auto
  have a: "apply_subs [d] (held p (xp_subscriptions x)) \<noteq> None"
    using Cons.prems(6) apply_subs_append [of "[d]" es] ds by (cases "apply_subs [d] (held p (xp_subscriptions x))") (auto simp del: apply_subs.simps)
  obtain x1 h where x1: "xpub_process p sub x w1 = Some (x1, w1\<lparr>mheap := h\<rparr>)" "refs_ok h (mset subs + ms)"
    "\<forall>m \<in># mset subs + ms. msg_data m h = msg_data m (mheap w1)" "sub_effect p [d] x x1"
    using xpub_process_ok [OF Cons.prems(1,2) d a] by (elim exE conjE) (rule that, assumption+)
  let ?w = "w1\<lparr>mheap := h\<rparr>"
  have e: "xpub_inv x1" "p \<in> dist_all (xp_dist x1)" "apply_subs [d] (held p (xp_subscriptions x)) = Some (held p (xp_subscriptions x1))"
    using x1(4) Cons.prems(2) by (simp_all add: sub_effect_def)
  have hw: "mheap ?w = h" by simp
  have "map (\<lambda>m. msg_data m h) subs = map (\<lambda>m. msg_data m (mheap w)) subs" using x1(3) w1(4) by (intro map_cong [OF refl]) simp
  also have "map (\<lambda>m. msg_data m (mheap w)) subs = map Some es" using Cons.prems(4) ds by simp
  finally have "map (\<lambda>m. msg_data m (mheap ?w)) subs = map Some es" unfolding hw .
  moreover have "apply_subs es (held p (xp_subscriptions x1)) \<noteq> None"
    using Cons.prems(6) apply_subs_append [of "[d]" es] e(3) ds by (simp del: apply_subs.simps)
  ultimately obtain x2 w2 where x2: "xpub_xread_activated p x1 ?w = Some (x2, w2)" "delivers w2 p []" "refs_ok (mheap w2) ms"
    "\<forall>q xs. q \<noteq> p \<longrightarrow> delivers ?w q xs \<longrightarrow> delivers w2 q xs" "sub_effect p es x1 x2"
    using Cons.IH [OF e(1,2), of ?w es] w1(2) x1(2) by auto
  have "xpub_xread_activated p x w = Some (x2, w2)" using w1(1) x1(1) x2(1) by (subst xpub_xread_activated.simps) simp
  moreover have "sub_effect p ds x x2" using sub_effect_trans [OF x1(4) x2(5)] ds by simp
  ultimately show ?case using x2(2-4) w1(3) by auto
qed

lemma send_unsubscription_fold:
  "xp_subscriptions (fold send_unsubscription ds x) = xp_subscriptions x" "xp_dist (fold send_unsubscription ds x) = xp_dist x"
  "xp_more (fold send_unsubscription ds x) = xp_more x" "xp_type (fold send_unsubscription ds x) = xp_type x"
  "pending_data (fold send_unsubscription ds x) = pending_data x @ (if xp_type x = ZMQ_PUB then [] else map ((#) 0) ds)"
  "length (pending_flags x) = length (pending_data x) \<Longrightarrow>
     length (pending_flags (fold send_unsubscription ds x)) = length (pending_data (fold send_unsubscription ds x))"
  by (induction ds arbitrary: x) (simp_all add: send_unsubscription_def)

lemma apply_unsubs: "distinct ds \<Longrightarrow> set ds \<subseteq> S \<Longrightarrow> apply_subs (map ((#) 0) ds) S = Some (S - set ds)"
proof (induction ds arbitrary: S)
  case (Cons d ds)
  then have "apply_subs (map ((#) 0) ds) (S - {d}) = Some (S - {d} - set ds)" by (intro Cons.IH) auto
  moreover have "S - {d} - set ds = S - set (d # ds)" by auto
  moreover have "apply_subs (map ((#) 0) (d # ds)) S = apply_subs (map ((#) 0) ds) (S - {d})" using Cons.prems by simp
  ultimately show ?case by (simp only:)
qed simp


text \<open>An XPUB socket with the pipes of \<open>dist_three\<close>; pipe 1 is subscribed to everything.\<close>

definition xpub_example :: xpub_t where
  "xpub_example = xpub_new\<lparr>xp_subscriptions := snd (the (mtrie_add [] 1 mtrie_new)), xp_dist := dist_unmatch dist_three\<rparr>"

lemma xpub_example_ok:
  shows "xpub_inv xpub_example" and "subs_at q (xp_subscriptions xpub_example) = (if q = [] then {1} else {})"
    and "xp_dist xpub_example = dist_unmatch dist_three" "\<not> xp_more xpub_example" "xp_type xpub_example = ZMQ_XPUB" "pending_data xpub_example = []"
proof -
  obtain t where t: "mtrie_add [] 1 mtrie_new = Some (True, t)" "mtrie_inv t" "\<forall>q. subs_at q t = (if q = [] then {1} else {})"
    using mtrie_add_ok [OF mtrie_new_inv, of "[]" 1] by (auto simp: mtrie_add_def subs_at_new simp del: mtrie_add_helper.simps subs_at.simps)
  then have s: "xp_subscriptions xpub_example = t" by (simp add: xpub_example_def)
  show d: "xp_dist xpub_example = dist_unmatch dist_three" "\<not> xp_more xpub_example" "xp_type xpub_example = ZMQ_XPUB" "pending_data xpub_example = []"
    by (simp_all add: xpub_example_def xpub_new_def)
  show q: "subs_at q (xp_subscriptions xpub_example) = (if q = [] then {1} else {})" for q using t(3) s by simp
  show "xpub_inv xpub_example" using t(2) s d(1,2) q dist_three_ok
    by (auto simp: xpub_inv_def xpub_example_def xpub_new_def dist_inv_unmatch dist_three_def simp del: subs_at.simps)
qed


theorem xpub_publishes_witness:
  "\<exists>w x' w' m. xpub_xsend msg_init xpub_example w = Some (None, msg_init, x', w') \<and> out_log w' 1 [m] \<and> out_log w' 3 []"
proof -
  obtain w where w: "mheap w = \<lparr>contents = Map.empty, msg_brk = 0, ffn_calls = []\<rparr>" "writable w 1" "has_room w 1" "out_log w 1 []"
    "writable w 3" "out_log w 3 []" using sinks_example by blast
  have wr: "\<forall>p \<in> eligibles (xp_dist xpub_example). writable w p" using w by (simp add: xpub_example_ok dist_three_ok)
  have r: "msg_data msg_init (mheap w) = Some []" "refs_ok (mheap w) {# msg_init #}"
    using w(1) by (simp_all add: msg_data_def msg_init_def refs_ok_none points_to_def)
  have t: "xpub_targets xpub_example [] = {1}" by (auto simp: xpub_targets_def xpub_example_ok dist_three_ok simp del: subs_at.simps)
  have n: "\<forall>a. nrefs a {#} + card (xpub_targets xpub_example []) < 2 ^ 32" by (simp add: t)
  obtain m x' w' where r: "xpub_xsend msg_init xpub_example w = Some (None, msg_init, x', w')"
    "\<forall>p xs. out_log w p xs \<longrightarrow> out_log w' p (if p \<in> {1} \<and> has_room w p then xs @ [m] else xs)"
    using xpub_publishes [OF xpub_example_ok(1) wr r n, unfolded t] by (elim exE conjE) (rule that, assumption+)
  have "out_log w' 1 [m]" "out_log w' 3 []" using r(2) [rule_format, OF w(4)] r(2) [rule_format, OF w(6)] w(3) by simp_all
  then show ?thesis using r(1) by (intro exI [of _ w] exI [of _ x'] exI [of _ w'] exI [of _ m] conjI)
qed

text \<open>
  A subscriber that goes away. Terminating a pipe returns, removes it from the subscriptions and
  from the distributor and leaves the other pipes' subscriptions alone; an XPUB socket passes on
  one unsubscription for each prefix that nobody is subscribed to any more.
\<close>
theorem xpub_subscriber_gone:
  assumes "xpub_inv x" and "p \<in> dist_all (xp_dist x)"
  shows "\<exists>x' es. xpub_xpipe_terminated p x = Some x' \<and> xpub_inv x' \<and> dist_all (xp_dist x') = dist_all (xp_dist x) - {p} \<and>
    (\<forall>q. subs_at q (xp_subscriptions x') = subs_at q (xp_subscriptions x) - {p}) \<and> pending_data x' = pending_data x @ es \<and>
    (xp_type x = ZMQ_PUB \<longrightarrow> es = []) \<and>
    (xp_type x \<noteq> ZMQ_PUB \<longrightarrow> apply_subs es (topics (xp_subscriptions x)) = Some (topics (xp_subscriptions x')) \<and>
       length es = card (topics (xp_subscriptions x) - topics (xp_subscriptions x')))"
proof -
  let ?t = "xp_subscriptions x"
  have inv: "mtrie_inv ?t" "dist_inv (xp_dist x)" using assms(1) by (auto simp: xpub_inv_def)
  obtain calls t where t: "mtrie_rm p ?t = Some (calls, t)" "mtrie_inv t" "\<forall>q. subs_at q t = subs_at q ?t - {p}"
    "distinct calls" "set calls = {q. subs_at q ?t = {p}}" using mtrie_rm_ok [OF inv(1), of p] by blast
  obtain d where d: "dist_pipe_terminated p (xp_dist x) = Some d" "dist_inv d" "dist_all d = dist_all (xp_dist x) - {p}"
    "matches d = matches (xp_dist x) - {p}" "dist_more d = dist_more (xp_dist x)"
    using dist_pipe_terminated_ok [OF inv(2) assms(2)] by blast
  define x1 where "x1 = fold send_unsubscription calls (x\<lparr>xp_subscriptions := t\<rparr>)"
  define x' where "x' = x1\<lparr>xp_dist := d\<rparr>"
  note f = send_unsubscription_fold [where ds = calls and x = "x\<lparr>xp_subscriptions := t\<rparr>", folded x1_def]
  have run: "xpub_xpipe_terminated p x = Some x'" using t(1) d(1) f(2) by (simp add: xpub_xpipe_terminated_def x1_def [symmetric] x'_def Let_def)
  have "matching d = 0" if "matching (xp_dist x) = 0"
  proof -
    have "matches d = {}" using d(4) that by (simp add: pfx_def)
    then show ?thesis using card_matching [OF d(2)] by (simp only: card.empty)
  qed
  then have "xpub_inv x'" using assms(1) t(2,3) d f by (auto simp: xpub_inv_def x'_def simp del: subs_at.simps)
  moreover have top: "topics t = topics ?t - set calls" "set calls \<subseteq> topics ?t" using t(3,5) by (auto simp: topics_def simp del: subs_at.simps)
  then have "topics ?t - topics t = set calls" by blast
  then have "length calls = card (topics ?t - topics t)" using t(4) by (simp add: distinct_card)
  ultimately show ?thesis using run t(3) d(3) f(1,5) apply_unsubs [OF t(4) top(2)] top(1)
    by (intro exI [of _ x'] exI [of _ "if xp_type x = ZMQ_PUB then [] else map ((#) 0) calls"]) (simp add: x'_def del: subs_at.simps)
qed

theorem xpub_subscriber_gone_witness:
  "\<exists>x' es. xpub_xpipe_terminated 1 xpub_example = Some x' \<and> pending_data x' = es \<and> length es = 1"
proof -
  have "topics (xp_subscriptions xpub_example) = {[]}" by (auto simp: topics_def xpub_example_ok simp del: subs_at.simps)
  moreover obtain x' es where r: "xpub_xpipe_terminated 1 xpub_example = Some x'" "\<forall>q. subs_at q (xp_subscriptions x') = subs_at q (xp_subscriptions xpub_example) - {1}"
    "pending_data x' = pending_data xpub_example @ es"
    "xp_type xpub_example \<noteq> ZMQ_PUB \<longrightarrow> length es = card (topics (xp_subscriptions xpub_example) - topics (xp_subscriptions x'))"
    using xpub_subscriber_gone [OF xpub_example_ok(1), of 1] by (auto simp: xpub_example_ok(3) dist_three_ok)
  moreover have "topics (xp_subscriptions x') = {}" using r(2) by (auto simp: topics_def xpub_example_ok simp del: subs_at.simps)
  ultimately show ?thesis by (simp add: xpub_example_ok)
qed

end
