(* ===== verification/Trie.thy ===== *)
theory Trie
  imports Trie_Table
begin

text \<open>
  The subscription trie \<open>trie_t\<close> of \<^verbatim>\<open>src/trie.cpp\<close>: the prefixes a SUB socket is subscribed to,
  each with the number of times it was subscribed. A node is a node of theory Trie_Table whose
  payload is the 32-bit reference count.

  \<open>trie_inv\<close> is the invariant: every node is laid out tightly and every node but the root
  carries a subscription or has children. \<open>refs_at\<close> is the meaning of a trie, the number of
  subscriptions of each prefix; every operation is shown to keep the invariant, never to run
  into one of its assertions and to act on the meaning as documented.
\<close>

type_synonym trie_t = "uint32 tnode"

definition trie_new :: trie_t where
  "trie_new = Tnode 0 0 0 0 (Next_node None)"

definition trie_is_redundant :: "trie_t \<Rightarrow> bool" where
  "trie_is_redundant t \<longleftrightarrow> payload t = 0 \<and> live_nodes t = 0"

fun trie_add :: "byte list \<Rightarrow> trie_t \<Rightarrow> (bool \<times> trie_t) option" where
  "trie_add [] t = (let r = payload t + 1 in Some (r = 1, set_payload r t))"
| "trie_add (c # cs) t = do {
     t \<leftarrow> extend c t;
     s \<leftarrow> slot_get c t;
     (t, n) \<leftarrow> (case s of
         Some n \<Rightarrow> Some (t, n)
       | None \<Rightarrow> do {
           let t = bump_live t;
           zmq_assert (if tcount t = 1 then live_nodes t = 1 else live_nodes t > 1);
           Some (t, trie_new)
         });
     (r, n) \<leftarrow> trie_add cs n;
     t \<leftarrow> slot_set c (Some n) t;
     Some (r, t)
   }"

text \<open>
  The second half of \<open>rm\<close>: the child at \<open>c\<close> has become redundant; drop it and compact the table.
\<close>

fun trie_prune :: "byte \<Rightarrow> trie_t \<Rightarrow> trie_t option" where
  "trie_prune c (Tnode v mn cn lv (Next_node n)) = do {
     zmq_assert (cn = 1);
     zmq_assert (lv - 1 = 0);
     Some (Tnode v mn 0 (lv - 1) (Next_node None))
   }"
| "trie_prune c (Tnode v mn cn lv (Next_table tb0)) = do {
     zmq_assert (cn > 1);
     let tb = tb0[unat c - unat mn := None];
     zmq_assert (lv > 1);
     let lv = lv - 1;
     if lv = 1 then do {
       let (node, mn) =
         (if c = mn then (tb ! (cn - 1), mn + of_nat (cn - 1))
          else if unat c = unat mn + cn - 1 then (tb ! 0, mn)
          else (None, mn));
       zmq_assert (node \<noteq> None);
       Some (Tnode v mn 1 lv (Next_node node))
     }
     else if c = mn then do {
       let i = (case find (\<lambda>i. tb ! i \<noteq> None) [1..<cn] of Some i \<Rightarrow> i | None \<Rightarrow> 0);
       zmq_assert (i \<noteq> 0);
       zmq_assert (i < cn);
       Some (Tnode v (mn + of_nat i) (cn - i) lv (Next_table (take (cn - i) (drop i tb))))
     }
     else if unat c = unat mn + cn - 1 then do {
       let new_count = (case find (\<lambda>i. tb ! (cn - 1 - i) \<noteq> None) [1..<cn] of Some i \<Rightarrow> cn - i | None \<Rightarrow> cn);
       zmq_assert (new_count \<noteq> cn);
       Some (Tnode v mn new_count lv (Next_table (take new_count tb)))
     }
     else Some (Tnode v mn cn lv (Next_table tb))
   }"

fun trie_rm :: "byte list \<Rightarrow> trie_t \<Rightarrow> (bool \<times> trie_t) option" where
  "trie_rm [] t =
     (if payload t = 0 then Some (False, t)
      else let r = payload t - 1 in Some (r = 0, set_payload r t))"
| "trie_rm (c # cs) t =
     (if tcount t = 0 \<or> \<not> in_range c t then Some (False, t)
      else do {
        s \<leftarrow> slot_get c t;
        (case s of
           None \<Rightarrow> Some (False, t)
         | Some n \<Rightarrow> do {
             (r, n) \<leftarrow> trie_rm cs n;
             if trie_is_redundant n then do { t \<leftarrow> trie_prune c t; Some (r, t) }
             else do { t \<leftarrow> slot_set c (Some n) t; Some (r, t) }
           })
      })"

fun trie_check :: "byte list \<Rightarrow> trie_t \<Rightarrow> bool option" where
  "trie_check [] t = Some (payload t \<noteq> 0)"
| "trie_check (c # cs) t =
     (if payload t \<noteq> 0 then Some True
      else if \<not> in_range c t then Some False
      else do {
        s \<leftarrow> slot_get c t;
        if tcount t = 1 then do { n \<leftarrow> s; trie_check cs n }
        else (case s of None \<Rightarrow> Some False | Some n \<Rightarrow> trie_check cs n)
      })"

text \<open>
  \<open>apply\<close> walks the trie and calls a function with every subscription; the model returns the
  arguments of the calls, in order.
\<close>

fun trie_apply_helper :: "trie_t \<Rightarrow> byte list \<Rightarrow> nat \<Rightarrow> nat \<Rightarrow> (byte list list \<times> byte list) option"
  and trie_apply_table :: "trie_t option list \<Rightarrow> byte \<Rightarrow> byte list \<Rightarrow> nat \<Rightarrow> nat \<Rightarrow> (byte list list \<times> byte list) option"
where
  "trie_apply_helper (Tnode v mn cn lv nx) buff n mx = do {
     calls \<leftarrow> (if v \<noteq> 0 then map_option (\<lambda>p. [p]) (buff_read n buff) else Some []);
     let (buff, mx) = (if n \<ge> mx then (buff_realloc (n + 256) buff, n + 256) else (buff, mx));
     (calls', buff) \<leftarrow>
       (if cn = 0 then Some ([], buff)
        else (case nx of
            Next_node x \<Rightarrow> (if cn \<noteq> 1 then None else do {
              buff \<leftarrow> buff_set n mn buff;
              (case x of None \<Rightarrow> None | Some m \<Rightarrow> trie_apply_helper m buff (n + 1) mx)
            })
          | Next_table tb \<Rightarrow> (if cn = 1 then None else trie_apply_table tb mn buff n mx)));
     Some (calls @ calls', buff)
   }"
| "trie_apply_table [] c buff n mx = Some ([], buff)"
| "trie_apply_table (x # xs) c buff n mx = do {
     buff \<leftarrow> buff_set n c buff;
     (calls, buff) \<leftarrow> (case x of None \<Rightarrow> Some ([], buff) | Some m \<Rightarrow> trie_apply_helper m buff (n + 1) mx);
     (calls', buff) \<leftarrow> trie_apply_table xs (c + 1) buff n mx;
     Some (calls @ calls', buff)
   }"

definition trie_apply :: "trie_t \<Rightarrow> byte list list option" where
  "trie_apply t = map_option fst (trie_apply_helper t [] 0 0)"

subsection \<open>The meaning of a trie\<close>

fun refs_at :: "byte list \<Rightarrow> trie_t \<Rightarrow> uint32" where
  "refs_at [] t = payload t"
| "refs_at (c # cs) t = (case kids t c of None \<Rightarrow> 0 | Some n \<Rightarrow> refs_at cs n)"

inductive trie_inv :: "trie_t \<Rightarrow> bool" where
  "shape_ok t \<Longrightarrow> (\<And>c n. kids t c = Some n \<Longrightarrow> trie_inv n \<and> \<not> trie_is_redundant n) \<Longrightarrow> trie_inv t"

inductive_simps trie_inv_iff: "trie_inv t"

lemma trie_inv_shape: "trie_inv t \<Longrightarrow> shape_ok t"
  by (simp add: trie_inv_iff [of t])

lemma trie_inv_kid: "trie_inv t \<Longrightarrow> kids t c = Some n \<Longrightarrow> trie_inv n \<and> \<not> trie_is_redundant n"
  by (simp add: trie_inv_iff [of t])

lemma trie_invI:
  "shape_ok t \<Longrightarrow> (\<And>c n. kids t c = Some n \<Longrightarrow> trie_inv n \<and> \<not> trie_is_redundant n) \<Longrightarrow> trie_inv t"
  by (rule trie_inv.intros)

lemma trie_new_inv: "trie_inv trie_new" and refs_at_new: "refs_at p trie_new = 0"
proof -
  have k: "kids trie_new = (\<lambda>_. None)" by (simp add: trie_new_def)
  show "trie_inv trie_new" by (rule trie_invI) (simp_all add: k, simp add: trie_new_def)
  show "refs_at p trie_new = 0" by (cases p) (auto simp: k, simp add: trie_new_def)
qed

text \<open>Replacing one child by a sound one keeps the invariant and changes what is below it only.\<close>

lemma trie_inv_child:
  assumes "trie_inv t" and "shape_ok t'" and "kids t' = (kids t)(c := x)"
    and "\<And>n. x = Some n \<Longrightarrow> trie_inv n \<and> \<not> trie_is_redundant n"
  shows "trie_inv t'"
proof (rule trie_invI [OF assms(2)])
  fix d n
  assume "kids t' d = Some n"
  then show "trie_inv n \<and> \<not> trie_is_redundant n"
    using assms(4) trie_inv_kid [OF assms(1), of d] by (simp add: assms(3) split: if_splits)
qed

lemma refs_at_child:
  assumes "kids t' = (kids t)(c := x)" and "payload t' = payload t"
    and "\<And>q. (case x of None \<Rightarrow> 0 | Some n \<Rightarrow> refs_at q n) = (if q = p then v else refs_at (c # q) t)"
  shows "refs_at q t' = (if q = c # p then v else refs_at q t)"
proof (cases q)
  case (Cons a r)
  then show ?thesis using assms(3) [of r] by (simp add: assms(1))
qed (simp add: assms(2))

lemma not_redundant_refs: "refs_at p t \<noteq> 0 \<Longrightarrow> shape_ok t \<Longrightarrow> \<not> trie_is_redundant t"
  by (cases p) (auto simp: trie_is_redundant_def dest: kids_live split: option.splits)

lemma trie_inv_set_payload: "trie_inv t \<Longrightarrow> trie_inv (set_payload v t)"
  by (rule trie_invI) (auto dest: trie_inv_shape trie_inv_kid)

lemma refs_at_set_payload: "refs_at q (set_payload v t) = (if q = [] then v else refs_at q t)"
  by (cases q) auto

subsection \<open>Adding a subscription\<close>

lemma trie_add_ok:
  assumes "trie_inv t" and "refs_at p t + 1 \<noteq> 0"
  shows "\<exists>t'. trie_add p t = Some (refs_at p t = 0, t') \<and> trie_inv t' \<and>
    (\<forall>q. refs_at q t' = (if q = p then refs_at p t + 1 else refs_at q t))"
  using assms
proof (induction p arbitrary: t)
  case Nil
  then show ?case by (simp add: Let_def trie_inv_set_payload refs_at_set_payload)
next
  case (Cons c p)
  have shape: "shape_ok t" using Cons.prems(1) by (rule trie_inv_shape)
  obtain t1 where o: "open_slot c t t1" using open_slot_exists [OF shape] by blast
  define n where "n = (case kids t c of None \<Rightarrow> trie_new | Some n \<Rightarrow> n)"
  have n: "trie_inv n" "refs_at q n = refs_at (c # q) t" for q
    using trie_inv_kid [OF Cons.prems(1), of c]
    by (auto simp: n_def trie_new_inv refs_at_new split: option.splits)
  obtain n' where n': "trie_add p n = Some (refs_at p n = 0, n')" "trie_inv n'"
    "\<forall>q. refs_at q n' = (if q = p then refs_at p n + 1 else refs_at q n)"
    using Cons.IH [OF n(1)] Cons.prems(2) n(2) by auto
  let ?t2 = "if kids t c = None then bump_live t1 else t1"
  obtain t3 where t3: "slot_set c (Some n') ?t2 = Some t3" "shape_ok t3" "kids t3 = (kids t)(c \<mapsto> n')"
    "payload t3 = payload t" using o unfolding open_slot_def by blast
  have "tcount (bump_live t1) = tcount t1" "live_nodes (bump_live t1) = Suc (live_nodes t1)" by (cases t1; simp)+
  then have "trie_add (c # p) t = Some (refs_at (c # p) t = 0, t3)"
    using o n'(1) t3(1) n(2) [of p]
    by (cases "kids t c") (auto simp: open_slot_def n_def Let_def split: if_splits)
  moreover have "refs_at p n' \<noteq> 0" using n'(3) Cons.prems(2) n(2) [of p] by simp
  then have "\<not> trie_is_redundant n'" using n'(2) by (intro not_redundant_refs trie_inv_shape)
  then have "trie_inv t3" using trie_inv_child [OF Cons.prems(1) t3(2,3)] n'(2) by simp
  moreover have "refs_at q t3 = (if q = c # p then refs_at (c # p) t + 1 else refs_at q t)" for q
    using refs_at_child [OF t3(3,4), of p] n'(3) n(2) by simp
  ultimately show ?case by blast
qed

subsection \<open>Removing a subscription\<close>

lemma trie_prune_table:
  assumes t: "t = Tnode v mn cn lv (Next_table tb0)" and shape: "shape_ok t" and kid: "kids t c = Some m"
  shows "\<exists>t'. trie_prune c t = Some t' \<and> pruned c t t'"
proof -
  define k where "k = unat c - unat mn"
  define tb where "tb = tb0[k := None]"
  note cs = clear_slot [OF shape [unfolded t] kid [unfolded t] k_def, folded tb_def]
  note compact = compact_slot [OF t shape kid k_def tb_def]
  note def = trie_prune.simps(2) [of c v mn cn lv tb0, folded t k_def, folded tb_def]
  have len: "length tb = cn" and tk: "tb ! k = None" using cs(1,5) by (simp_all add: tb_def)
  have c0: "c = mn \<longleftrightarrow> k = 0" and cl: "unat c = unat mn + cn - 1 \<longleftrightarrow> k = cn - 1"
    using cs(2,4,5) by (auto simp: byte_eq_iff)
  have first: "tb ! 0 \<noteq> None" if "k \<noteq> 0" using that cs(8) by auto
  have last: "tb ! (cn - 1) \<noteq> None" if "k \<noteq> cn - 1" using that cs(5,9) by auto
  consider "lv - 1 = 1" "k = cn - 1" | "lv - 1 = 1" "k = 0" "k \<noteq> cn - 1" | "lv - 1 \<noteq> 1" "k = 0"
    | "lv - 1 \<noteq> 1" "k = cn - 1" "k \<noteq> 0" | "lv - 1 \<noteq> 1" "k \<noteq> 0" "k \<noteq> cn - 1" using cs(10) by linarith
  then show ?thesis
  proof cases
    case 1
    then have "k \<noteq> 0" using cs(2) by simp
    have "\<forall>x<cn. x < 0 \<or> 0 < x \<longrightarrow> tb ! x = None"
      using live_single [of tb 0] first [OF \<open>k \<noteq> 0\<close>] cs(2,7) 1 len by simp
    then have "pruned c t (Tnode v mn 1 (lv - 1) (Next_node (tb ! 0)))"
      using compact(2) [of 0 0] first cs(2) 1 by simp
    then show ?thesis unfolding def using 1 \<open>k \<noteq> 0\<close> first cs(2,6) c0 cl by (simp add: Let_def)
  next
    case 2
    have "\<forall>x<cn. x < cn - 1 \<or> cn - 1 < x \<longrightarrow> tb ! x = None"
      by (rule live_single [of tb "cn - 1", unfolded len]) (use last [OF 2(3)] cs(2,7) 2(1) in simp_all)
    then have "pruned c t (Tnode v (mn + of_nat (cn - 1)) 1 (lv - 1) (Next_node (tb ! (cn - 1))))"
      using compact(2) [of "cn - 1" "cn - 1", OF order_refl _ last [OF 2(3)] last [OF 2(3)] _ 2(1)] cs(2) by simp
    then show ?thesis unfolding def using 2 last cs(2,6) c0 by (simp add: Let_def)
  next
    case 3
    then have "1 \<le> cn - 1" "cn - 1 < cn" "tb ! (cn - 1) \<noteq> None" using cs(2) last by auto
    from find_upt [of 1 "cn - 1" cn "\<lambda>i. tb ! i \<noteq> None", OF this] obtain i where i: "find (\<lambda>i. tb ! i \<noteq> None) [1..<cn] = Some i" "1 \<le> i" "i < cn" "tb ! i \<noteq> None"
      "\<forall>j. 1 \<le> j \<longrightarrow> j < i \<longrightarrow> \<not> tb ! j \<noteq> None" by blast
    have "tb ! x = None" if "x < cn" "x < i \<or> cn - 1 < x" for x
      using i(5) that tk 3 by (cases "x = 0") auto
    then have "pruned c t (Tnode v (mn + of_nat i) (cn - 1 + 1 - i) (lv - 1) (Next_table (take (cn - 1 + 1 - i) (drop i tb))))"
      using compact(1) [of i "cn - 1"] last 3 cs(2) i(3,4) by auto
    then show ?thesis unfolding def using 3 i cs(2,6) c0 by (simp add: Let_def)
  next
    case 4
    let ?P = "\<lambda>i. tb ! (cn - 1 - i) \<noteq> None"
    have "1 \<le> cn - 1" "cn - 1 < cn" "?P (cn - 1)" using 4 cs(2) first by auto
    from find_upt [of 1 "cn - 1" cn ?P, OF this] obtain i where i: "find ?P [1..<cn] = Some i" "1 \<le> i" "i < cn" "?P i" "\<forall>j. 1 \<le> j \<longrightarrow> j < i \<longrightarrow> \<not> ?P j" by blast
    have "tb ! x = None" if "x < cn" "x < 0 \<or> cn - 1 - i < x" for x
    proof (cases "x = cn - 1")
      case False
      then have "1 \<le> cn - 1 - x" "cn - 1 - x < i" "cn - 1 - (cn - 1 - x) = x" using that by auto
      then show ?thesis using i(5) by metis
    qed (use tk 4 in simp)
    then have "pruned c t (Tnode v (mn + of_nat 0) (cn - 1 - i + 1 - 0) (lv - 1) (Next_table (take (cn - 1 - i + 1 - 0) (drop 0 tb))))"
      using compact(1) [of 0 "cn - 1 - i"] first 4 cs(2) i(3,4) by auto
    moreover have "cn - 1 - i + 1 = cn - i" "cn - i \<noteq> cn" using i(2,3) by auto
    ultimately show ?thesis unfolding def using 4 i cs(2,6) c0 cl by (simp add: Let_def)
  next
    case 5
    then have "pruned c t (Tnode v (mn + of_nat 0) (cn - 1 + 1 - 0) (lv - 1) (Next_table (take (cn - 1 + 1 - 0) (drop 0 tb))))"
      using compact(1) [of 0 "cn - 1", OF _ _ first [OF 5(2)] last [OF 5(3)] _ 5(1)] cs(2) by fastforce
    then show ?thesis unfolding def using 5 cs(2,6) c0 cl len by (simp add: Let_def)
  qed
qed

lemma trie_prune_ok:
  assumes "shape_ok t" and "kids t c = Some m"
  shows "\<exists>t'. trie_prune c t = Some t' \<and> pruned c t t'"
proof (cases t)
  case (Tnode v mn cn lv nx)
  show ?thesis
  proof (cases nx)
    case (Next_node x)
    have "cn \<noteq> 0" using assms(2) Tnode by (auto simp: kids_def in_range_def split: if_splits)
    then have cn: "cn = 1" "lv = 1" using assms(1) Tnode Next_node by (auto split: if_splits)
    then have "c = mn" using assms(2) Tnode Next_node by (auto split: if_splits)
    then show ?thesis using Tnode Next_node cn by (simp add: pruned_def fun_eq_iff)
  next
    case (Next_table tb)
    then show ?thesis using trie_prune_table [OF _ assms] Tnode by blast
  qed
qed

lemma redundant_refs:
  assumes "trie_inv t" and "trie_is_redundant t"
  shows "refs_at p t = 0"
proof (cases p)
  case (Cons c q)
  have "kids t c = None"
    using kids_live [OF trie_inv_shape [OF assms(1)], of c] assms(2) by (cases "kids t c") (auto simp: trie_is_redundant_def)
  then show ?thesis using Cons by simp
qed (use assms(2) in \<open>simp add: trie_is_redundant_def\<close>)

lemma trie_rm_ok:
  assumes "trie_inv t"
  shows "\<exists>t'. trie_rm p t = Some (refs_at p t = 1, t') \<and> trie_inv t' \<and>
    (\<forall>q. refs_at q t' = (if q = p \<and> refs_at p t \<noteq> 0 then refs_at p t - 1 else refs_at q t))"
  using assms
proof (induction p arbitrary: t)
  case Nil
  then show ?case by (simp add: Let_def trie_inv_set_payload refs_at_set_payload)
next
  case (Cons c p)
  have shape: "shape_ok t" using Cons.prems by (rule trie_inv_shape)
  show ?case
  proof (cases "kids t c")
    case None
    then have "trie_rm (c # p) t = Some (False, t)"
      using slot_get_kids [OF shape, of c] by (cases "in_range c t") auto
    with None Cons.prems show ?thesis by simp
  next
    case (Some n)
    then have rng: "in_range c t" "tcount t \<noteq> 0" by (auto simp: kids_def in_range_def split: if_splits)
    have n: "trie_inv n" using trie_inv_kid [OF Cons.prems Some] by blast
    obtain n' where n': "trie_rm p n = Some (refs_at p n = 1, n')" "trie_inv n'"
      "\<forall>q. refs_at q n' = (if q = p \<and> refs_at p n \<noteq> 0 then refs_at p n - 1 else refs_at q n)"
      using Cons.IH [OF n] by blast
    define x where "x = (if trie_is_redundant n' then None else Some n')"
    have "\<exists>t'. trie_rm (c # p) t = Some (refs_at p n = 1, t') \<and> shape_ok t' \<and> kids t' = (kids t)(c := x) \<and>
        payload t' = payload t"
    proof (cases "trie_is_redundant n'")
      case True
      then show ?thesis
        using trie_prune_ok [OF shape Some] rng slot_get_kids [OF shape rng(1)] Some n'(1)
        by (auto simp: x_def pruned_def)
    next
      case False
      then show ?thesis
        using slot_set_kids [OF shape Some, of n'] rng slot_get_kids [OF shape rng(1)] Some n'(1)
        by (auto simp: x_def)
    qed
    then obtain t' where t': "trie_rm (c # p) t = Some (refs_at p n = 1, t')" "shape_ok t'"
      "kids t' = (kids t)(c := x)" "payload t' = payload t" by blast
    have "trie_inv t'"
    proof (rule trie_inv_child [OF Cons.prems t'(2,3)])
      fix y
      assume "x = Some y"
      then show "trie_inv y \<and> \<not> trie_is_redundant y" using n'(2) by (simp add: x_def split: if_splits)
    qed
    moreover have "(case x of None \<Rightarrow> 0 | Some n \<Rightarrow> refs_at q n) = refs_at q n'" for q
      using redundant_refs [OF n'(2)] by (simp add: x_def)
    then have "refs_at q t' = (if q = c # p then refs_at p n' else refs_at q t)" for q
      using refs_at_child [OF t'(3,4), of p] n'(3) Some by simp
    ultimately show ?thesis using t'(1) n'(3) Some by auto
  qed
qed

subsection \<open>Matching\<close>

lemma trie_check_ok:
  assumes "trie_inv t"
  shows "trie_check d t = Some (\<exists>k \<le> length d. refs_at (take k d) t \<noteq> 0)"
  using assms
proof (induction d arbitrary: t)
  case (Cons c d)
  have shape: "shape_ok t" using Cons.prems by (rule trie_inv_shape)
  have split: "(\<exists>k \<le> length (c # d). refs_at (take k (c # d)) t \<noteq> 0) \<longleftrightarrow>
      payload t \<noteq> 0 \<or> (\<exists>k \<le> length d. refs_at (c # take k d) t \<noteq> 0)" (is "?l \<longleftrightarrow> ?r")
  proof
    assume ?l
    then obtain k where "k \<le> length (c # d)" "refs_at (take k (c # d)) t \<noteq> 0" by blast
    then show ?r by (cases k) auto
  next
    assume ?r
    then show ?l
    proof
      assume "payload t \<noteq> 0"
      then show ?l by (intro exI [of _ 0]) simp
    next
      assume "\<exists>k \<le> length d. refs_at (c # take k d) t \<noteq> 0"
      then obtain k where "k \<le> length d" "refs_at (c # take k d) t \<noteq> 0" by blast
      then show ?l by (intro exI [of _ "Suc k"]) simp
    qed
  qed
  show ?case
  proof (cases "kids t c")
    case None
    have "tcount t \<noteq> 1" if "in_range c t" "kids t c = None"
      using that shape by (cases t) (auto simp: in_range_def byte_eq_iff fun_upd_def)
    then show ?thesis using None slot_get_kids [OF shape, of c] split
      by (cases "in_range c t") auto
  next
    case (Some n)
    then have rng: "in_range c t" by (simp add: kids_def split: if_splits)
    have "trie_check d n = Some (\<exists>k \<le> length d. refs_at (take k d) n \<noteq> 0)"
      using Cons.IH trie_inv_kid [OF Cons.prems Some] by blast
    then show ?thesis using Some rng slot_get_kids [OF shape rng] split by auto
  qed
qed simp

subsection \<open>Enumerating the subscriptions\<close>

definition applies :: "trie_t \<Rightarrow> bool" where
  "applies t \<longleftrightarrow> (\<forall>b n mx. n \<le> mx \<longrightarrow> mx \<le> length b \<longrightarrow> (\<exists>calls b'. trie_apply_helper t b n mx = Some (calls, b') \<and>
     mx \<le> length b' \<and> take n b' = take n b \<and> distinct calls \<and>
     set calls = {take n b @ q |q. refs_at q t \<noteq> 0}))"

lemma trie_apply_table_ok:
  assumes "\<And>m. Some m \<in> set tb \<Longrightarrow> applies m" and "n < mx" and "mx \<le> length b" and "unat c + length tb \<le> 256"
  shows "\<exists>calls b'. trie_apply_table tb c b n mx = Some (calls, b') \<and> mx \<le> length b' \<and> take n b' = take n b \<and>
     distinct calls \<and> set calls = {take n b @ (c + of_nat i) # q |i m q. i < length tb \<and> tb ! i = Some m \<and> refs_at q m \<noteq> 0}"
  using assms
proof (induction tb arbitrary: c b)
  case (Cons x xs)
  let ?b1 = "b[n := c]"
  have b1: "buff_set n c b = Some ?b1" "take (Suc n) ?b1 = take n b @ [c]"
    using Cons.prems(2,3) by (simp_all add: buff_set_def take_update_Suc)
  let ?S = "{take n b @ c # q |q m. x = Some m \<and> refs_at q m \<noteq> 0}"
  have "\<exists>k1 b2. (case x of None \<Rightarrow> Some ([], ?b1) | Some m \<Rightarrow> trie_apply_helper m ?b1 (n + 1) mx) = Some (k1, b2) \<and>
      mx \<le> length b2 \<and> take n b2 = take n b \<and> distinct k1 \<and> set k1 = ?S"
  proof (cases x)
    case (Some m)
    then have "applies m" using Cons.prems(1) by simp
    from this [unfolded applies_def, rule_format, of "Suc n" mx ?b1] Cons.prems(2,3)
    obtain k1 b2 where "trie_apply_helper m ?b1 (Suc n) mx = Some (k1, b2)" "mx \<le> length b2"
      "take (Suc n) b2 = take (Suc n) ?b1" "distinct k1" "set k1 = {take (Suc n) ?b1 @ q |q. refs_at q m \<noteq> 0}"
      by auto
    then show ?thesis using Some b1(2) take_snocD [of n b2 ?b1 b] by auto
  qed (use Cons.prems(3) in simp)
  then obtain k1 b2 where k1: "(case x of None \<Rightarrow> Some ([], ?b1) | Some m \<Rightarrow> trie_apply_helper m ?b1 (n + 1) mx) = Some (k1, b2)"
    "mx \<le> length b2" "take n b2 = take n b" "distinct k1" "set k1 = ?S" by blast
  have step: "unat c + Suc (length xs) \<le> 256" using Cons.prems(4) by simp
  obtain k2 b3 where k2: "trie_apply_table xs (c + 1) b2 n mx = Some (k2, b3)" "mx \<le> length b3" "take n b3 = take n b2"
    "distinct k2" "set k2 = {take n b2 @ (c + 1 + of_nat i) # q |i m q. i < length xs \<and> xs ! i = Some m \<and> refs_at q m \<noteq> 0}"
    using Cons.IH [of b2 "c + 1"] Cons.prems(1,2) k1(2) byte_step(1) [OF step] by fastforce
  have "trie_apply_table (x # xs) c b n mx = Some (k1 @ k2, b3)" using b1(1) k1(1) k2(1) by simp
  moreover have "set k1 \<inter> set k2 = {}"
    using byte_step(2) [OF step] k1(3) by (auto simp: k1(5) k2(5))
  moreover have "set (k1 @ k2) = {take n b @ (c + of_nat i) # q |i m q. i < length (x # xs) \<and> (x # xs) ! i = Some m \<and> refs_at q m \<noteq> 0}" (is "_ = ?T")
  proof -
    have "?T = ?S \<union> {take n b @ (c + of_nat (Suc i)) # q |i m q. i < length xs \<and> xs ! i = Some m \<and> refs_at q m \<noteq> 0}"
    proof (rule set_eqI)
      fix z
      have "z \<in> ?T \<longleftrightarrow> (\<exists>i < length (x # xs). \<exists>m q. (x # xs) ! i = Some m \<and> refs_at q m \<noteq> 0 \<and>
          z = take n b @ (c + of_nat i) # q)" by blast
      also have "\<dots> \<longleftrightarrow> (\<exists>m q. x = Some m \<and> refs_at q m \<noteq> 0 \<and> z = take n b @ (c + of_nat 0) # q) \<or>
          (\<exists>i < length xs. \<exists>m q. xs ! i = Some m \<and> refs_at q m \<noteq> 0 \<and> z = take n b @ (c + of_nat (Suc i)) # q)"
        by (rule ex_nth_Cons)
      also have "\<dots> \<longleftrightarrow> z \<in> ?S \<union> {take n b @ (c + of_nat (Suc i)) # q |i m q. i < length xs \<and> xs ! i = Some m \<and> refs_at q m \<noteq> 0}"
        by (auto simp del: of_nat_Suc)
      finally show "z \<in> ?T \<longleftrightarrow> z \<in> ?S \<union> {take n b @ (c + of_nat (Suc i)) # q |i m q. i < length xs \<and> xs ! i = Some m \<and> refs_at q m \<noteq> 0}" .
    qed
    then show ?thesis using k1(3) by (simp add: k1(5) k2(5) add.assoc)
  qed
  ultimately show ?case using k1(3,4) k2(2-4) by auto
qed simp

lemma size_table_child: "Some m \<in> set tb \<Longrightarrow> size m < size (Tnode v mn cn lv (Next_table tb))"
  by (induction tb) auto

lemma kids_table_refs:
  assumes "length tb = cn" and "cn \<noteq> 1" and "unat mn + cn \<le> 256"
  shows "{(mn + of_nat i) # q |i m q. i < length tb \<and> tb ! i = Some m \<and> refs_at q m \<noteq> 0} =
    {p. p \<noteq> [] \<and> refs_at p (Tnode v mn cn lv (Next_table tb)) \<noteq> 0}" (is "?A = ?B")
proof (rule set_eqI)
  fix p
  have un: "unat (mn + of_nat i) = unat mn + i" if "i < cn" for i
  proof -
    have "mn + of_nat i = of_nat (unat mn + i)" by simp
    then show ?thesis using that assms(3) by (simp only: unat_byte)
  qed
  have bk: "c = mn + of_nat (unat c - unat mn)" if "unat mn \<le> unat c" for c :: byte
    using that by (simp add: of_nat_diff)
  show "p \<in> ?A \<longleftrightarrow> p \<in> ?B"
  proof
    assume "p \<in> ?A"
    then show "p \<in> ?B" using assms un by (auto simp: kids_table)
  next
    assume B: "p \<in> ?B"
    then obtain c q where p: "p = c # q" by (cases p) auto
    then have c: "unat mn \<le> unat c" "unat c - unat mn < length tb"
      and "\<exists>m. tb ! (unat c - unat mn) = Some m \<and> refs_at q m \<noteq> 0"
      using B assms by (auto simp: kids_table split: option.splits if_splits)
    then show "p \<in> ?A" using bk [OF c(1)] p by blast
  qed
qed

text \<open>What the walk does below a node, once the buffer has room for one more character.\<close>

definition trie_apply_below :: "trie_t \<Rightarrow> byte list \<Rightarrow> nat \<Rightarrow> nat \<Rightarrow> (byte list list \<times> byte list) option" where
  "trie_apply_below t b n mx =
     (if tcount t = 0 then Some ([], b)
      else (case next_tab t of
          Next_node x \<Rightarrow> (if tcount t \<noteq> 1 then None else do {
            b \<leftarrow> buff_set n (tmin t) b;
            (case x of None \<Rightarrow> None | Some m \<Rightarrow> trie_apply_helper m b (n + 1) mx)
          })
        | Next_table tb \<Rightarrow> (if tcount t = 1 then None else trie_apply_table tb (tmin t) b n mx)))"

lemma trie_apply_helper_below:
  "trie_apply_helper t b n mx = do {
     calls \<leftarrow> (if payload t \<noteq> 0 then map_option (\<lambda>p. [p]) (buff_read n b) else Some []);
     let r = (if n \<ge> mx then (buff_realloc (n + 256) b, n + 256) else (b, mx));
     (calls', b) \<leftarrow> trie_apply_below t (fst r) n (snd r);
     Some (calls @ calls', b)
   }"
  by (cases t) (simp only: trie_apply_helper.simps trie_apply_below_def tnode.sel Let_def split_def)

lemma trie_apply_below_ok:
  assumes "shape_ok t" and "\<And>c m. kids t c = Some m \<Longrightarrow> applies m" and "n < mx" and "mx \<le> length b"
  shows "\<exists>calls b'. trie_apply_below t b n mx = Some (calls, b') \<and> mx \<le> length b' \<and> take n b' = take n b \<and>
    distinct calls \<and> set calls = {take n b @ q |q. q \<noteq> [] \<and> refs_at q t \<noteq> 0}"
proof -
  obtain v mn cn lv nx where t: "t = Tnode v mn cn lv nx" by (cases t)
  consider "cn = 0" | m where "cn = 1" "nx = Next_node (Some m)" | tb where "cn \<noteq> 1" "length tb = cn" "nx = Next_table tb"
    "unat mn + cn \<le> 256" using assms(1) t by (auto split: if_splits)
  then show ?thesis
  proof cases
    case 1
    then have "refs_at q t = 0" if "q \<noteq> []" for q using that t by (cases q) auto
    then show ?thesis using 1 t assms(4) by (auto simp: trie_apply_below_def)
  next
    case 2
    then have kids: "kids t = (\<lambda>_. None)(mn \<mapsto> m)" using t by simp
    then have "applies m" using assms(2) [of mn] by simp
    from this [unfolded applies_def, rule_format, of "Suc n" mx "b[n := mn]"] assms(3,4)
    obtain k b' where k: "trie_apply_helper m (b[n := mn]) (Suc n) mx = Some (k, b')" "mx \<le> length b'"
      "take (Suc n) b' = take (Suc n) (b[n := mn])" "distinct k"
      "set k = {take (Suc n) (b[n := mn]) @ q |q. refs_at q m \<noteq> 0}" by auto
    have "take n b' = take n b" using take_snocD [OF k(3)] by simp
    moreover have "{take (Suc n) (b[n := mn]) @ q |q. refs_at q m \<noteq> 0} = {take n b @ q |q. q \<noteq> [] \<and> refs_at q t \<noteq> 0}" (is "?A = ?B")
    proof (rule set_eqI)
      fix z
      have "z \<in> ?A \<longleftrightarrow> (\<exists>q. z = take n b @ mn # q \<and> refs_at q m \<noteq> 0)"
        using assms(3,4) by (simp add: take_update_Suc)
      also have "\<dots> \<longleftrightarrow> z \<in> ?B" by (force simp: kids neq_Nil_conv split: if_splits)
      finally show "z \<in> ?A \<longleftrightarrow> z \<in> ?B" .
    qed
    ultimately show ?thesis using k 2 t assms(3,4) by (simp add: trie_apply_below_def buff_set_def)
  next
    case 3
    have app: "applies m" if m: "Some m \<in> set tb" for m
    proof -
      obtain i where i: "i < cn" "tb ! i = Some m" using m 3(2) by (auto simp: in_set_conv_nth)
      have "unat (mn + of_nat i) = unat mn + i"
      proof -
        have "mn + of_nat i = of_nat (unat mn + i)" by simp
        then show ?thesis using i 3(4) by (simp only: unat_byte)
      qed
      then have "kids t (mn + of_nat i) = Some m" using i 3 t by (simp add: kids_table)
      then show ?thesis by (rule assms(2))
    qed
    have "{take n b @ (mn + of_nat i) # q |i m q. i < length tb \<and> tb ! i = Some m \<and> refs_at q m \<noteq> 0} =
        (\<lambda>p. take n b @ p) ` {(mn + of_nat i) # q |i m q. i < length tb \<and> tb ! i = Some m \<and> refs_at q m \<noteq> 0}" by blast
    also have "\<dots> = (\<lambda>p. take n b @ p) ` {p. p \<noteq> [] \<and> refs_at p t \<noteq> 0}"
      unfolding kids_table_refs [OF 3(2,1,4), of v lv] t 3(3) ..
    finally have "{take n b @ (mn + of_nat i) # q |i m q. i < length tb \<and> tb ! i = Some m \<and> refs_at q m \<noteq> 0} =
        {take n b @ q |q. q \<noteq> [] \<and> refs_at q t \<noteq> 0}" by blast
    moreover have "trie_apply_below t b n mx = (if cn = 0 then Some ([], b) else trie_apply_table tb mn b n mx)"
      using 3 t by (simp add: trie_apply_below_def)
    ultimately show ?thesis
      using trie_apply_table_ok [OF app assms(3,4), of tb mn] 3 by (cases "cn = 0") auto
  qed
qed

lemma trie_apply_helper_ok: "trie_inv t \<Longrightarrow> applies t"
proof (induction rule: trie_inv.induct)
  case (1 t)
  show ?case unfolding applies_def
  proof (intro allI impI)
    fix b :: "byte list" and n mx
    assume b: "n \<le> mx" "mx \<le> length b"
    define r where "r = (if n \<ge> mx then (buff_realloc (n + 256) b, n + 256) else (b, mx))"
    have r: "n < snd r" "snd r \<le> length (fst r)" "mx \<le> snd r" "take n (fst r) = take n b"
      using b by (auto simp: r_def buff_realloc_def min_def)
    obtain k b' where k: "trie_apply_below t (fst r) n (snd r) = Some (k, b')" "snd r \<le> length b'"
      "take n b' = take n (fst r)" "distinct k" "set k = {take n (fst r) @ q |q. q \<noteq> [] \<and> refs_at q t \<noteq> 0}"
      using trie_apply_below_ok [OF 1(1) _ r(1,2)] 1(2) by blast
    let ?k0 = "if payload t \<noteq> 0 then [take n b] else []"
    have "trie_apply_helper t b n mx = Some (?k0 @ k, b')"
      using k(1) b by (auto simp: trie_apply_helper_below r_def buff_read_def)
    moreover have "set (?k0 @ k) = {take n b @ q |q. refs_at q t \<noteq> 0}"
    proof (rule set_eqI)
      fix z
      have "(\<exists>q. z = take n b @ q \<and> refs_at q t \<noteq> 0) \<longleftrightarrow> (z = take n b \<and> payload t \<noteq> 0) \<or>
          (\<exists>q. z = take n b @ q \<and> q \<noteq> [] \<and> refs_at q t \<noteq> 0)" by (metis append_Nil2 refs_at.simps(1))
      then show "z \<in> set (?k0 @ k) \<longleftrightarrow> z \<in> {take n b @ q |q. refs_at q t \<noteq> 0}" using k(5) r(4) by auto
    qed
    moreover have "distinct (?k0 @ k)" using k(4,5) r(4) by auto
    ultimately show "\<exists>calls b'. trie_apply_helper t b n mx = Some (calls, b') \<and> mx \<le> length b' \<and>
        take n b' = take n b \<and> distinct calls \<and> set calls = {take n b @ q |q. refs_at q t \<noteq> 0}"
      using k(2,3) r(3,4) by (intro exI [of _ "?k0 @ k"] exI [of _ b']) auto
  qed
qed

subsection \<open>Properties of the subscription trie\<close>

text \<open>A trie with the subscriptions \<open>a\<close> (twice) and \<open>ac\<close>, used to exercise the statements.\<close>

definition example_trie :: trie_t where
  "example_trie = snd (the (trie_add [97, 99] (snd (the (trie_add [97] (snd (the (trie_add [97] trie_new))))))))"

lemma example_trie_inv: "trie_inv example_trie"
  and example_trie_refs: "refs_at q example_trie = (if q = [97] then 2 else if q = [97, 99] then 1 else 0)"
proof -
  obtain t1 where t1: "trie_add [97] trie_new = Some (True, t1)" "trie_inv t1"
    "\<forall>q. refs_at q t1 = (if q = [97] then 1 else 0)"
    using trie_add_ok [OF trie_new_inv, of "[97]"]
    by (auto simp: refs_at_new simp del: trie_add.simps refs_at.simps)
  obtain t2 where t2: "trie_add [97] t1 = Some (False, t2)" "trie_inv t2"
    "\<forall>q. refs_at q t2 = (if q = [97] then 2 else 0)"
    using trie_add_ok [OF t1(2), of "[97]"] t1(3) by (auto simp del: trie_add.simps refs_at.simps)
  obtain t3 where t3: "trie_add [97, 99] t2 = Some (True, t3)" "trie_inv t3"
    "\<forall>q. refs_at q t3 = (if q = [97, 99] then 1 else refs_at q t2)"
    using trie_add_ok [OF t2(2), of "[97, 99]"] t2(3) by (auto simp del: trie_add.simps refs_at.simps)
  have e: "example_trie = t3" using t1(1) t2(1) t3(1) by (simp add: example_trie_def del: trie_add.simps)
  show "trie_inv example_trie" using t3(2) e by simp
  show "refs_at q example_trie = (if q = [97] then 2 else if q = [97, 99] then 1 else 0)"
    using t3(3) t2(3) e by simp
qed

text \<open>
  C10: adding a subscription to a sound trie returns, keeps it sound (all tables tight, no redundant
  node), raises the count of exactly this prefix by one and reports whether it is new. The
  only thing excluded is that the 32-bit count of this prefix is already at its maximum.
\<close>

theorem trie_add_counts:
  assumes "trie_inv t" and "refs_at p t \<noteq> - 1"
  shows "\<exists>t'. trie_add p t = Some (refs_at p t = 0, t') \<and> trie_inv t' \<and>
    (\<forall>q. refs_at q t' = (if q = p then refs_at p t + 1 else refs_at q t))"
proof -
  have "refs_at p t + 1 \<noteq> 0" using assms(2) by (metis add_eq_0_iff2)
  then show ?thesis by (rule trie_add_ok [OF assms(1)])
qed

theorem trie_add_counts_witness:
  "\<exists>t'. trie_add [97] example_trie = Some (False, t') \<and> trie_inv t' \<and> refs_at [97] t' = 3 \<and> refs_at [97, 99] t' = 1"
  using trie_add_counts [OF example_trie_inv, of "[97]"]
  by (auto simp: example_trie_refs simp del: trie_add.simps refs_at.simps)

text \<open>
  C11: removing a subscription from a sound trie never fails one of the assertions of the pruning
  and compaction code, keeps the trie sound, lowers the count of exactly this prefix (if it was
  subscribed at all) and reports whether the last subscription of it went.
\<close>

theorem trie_rm_counts:
  assumes "trie_inv t"
  shows "\<exists>t'. trie_rm p t = Some (refs_at p t = 1, t') \<and> trie_inv t' \<and>
    (\<forall>q. refs_at q t' = (if q = p \<and> refs_at p t \<noteq> 0 then refs_at p t - 1 else refs_at q t))"
  by (rule trie_rm_ok [OF assms])

theorem trie_rm_counts_witness:
  "\<exists>t'. trie_rm [97, 99] example_trie = Some (True, t') \<and> trie_inv t' \<and> refs_at [97, 99] t' = 0 \<and> refs_at [97] t' = 2"
  using trie_rm_counts [OF example_trie_inv, of "[97, 99]"]
  by (auto simp: example_trie_refs simp del: trie_rm.simps refs_at.simps)

text \<open>
  \<open>check\<close> matches a message exactly when some prefix of its body is subscribed.
\<close>

theorem trie_check_prefix:
  assumes "trie_inv t"
  shows "trie_check d t = Some (\<exists>k \<le> length d. refs_at (take k d) t \<noteq> 0)"
  by (rule trie_check_ok [OF assms])

theorem trie_check_prefix_witness:
  "trie_check [97, 98, 98] example_trie = Some True \<and> trie_check [98] example_trie = Some False"
  using trie_check_prefix [OF example_trie_inv, of "[97, 98, 98]"] trie_check_prefix [OF example_trie_inv, of "[98]"]
  by (auto simp: example_trie_refs le_Suc_eq take_Cons' simp del: trie_check.simps refs_at.simps)

lemma trie_apply_ok:
  assumes "trie_inv t"
  shows "\<exists>calls. trie_apply t = Some calls \<and> distinct calls \<and> set calls = {p. refs_at p t \<noteq> 0}"
proof -
  have "applies t" by (rule trie_apply_helper_ok [OF assms])
  from this [unfolded applies_def, rule_format, of 0 0 "[]"] show ?thesis by (auto simp: trie_apply_def)
qed

text \<open>
  \<open>apply\<close> calls its function with every subscribed prefix exactly once and with nothing else,
  and never accesses its prefix buffer out of bounds, however deep the trie.
\<close>

theorem trie_apply_enumerates:
  assumes "trie_inv t"
  shows "\<exists>calls. trie_apply t = Some calls \<and> distinct calls \<and> set calls = {p. refs_at p t \<noteq> 0}"
  using assms by (rule trie_apply_ok)

theorem trie_apply_enumerates_witness:
  "\<exists>calls. trie_apply example_trie = Some calls \<and> distinct calls \<and> set calls = {[97], [97, 99]}"
  using trie_apply_enumerates [OF example_trie_inv] by (auto simp: example_trie_refs)

end
