(* ===== verification/Xsub.thy ===== *)
theory Xsub
  imports Socket_Common Trie
begin

text \<open>
  The subscriber sockets \<open>xsub_t\<close> and \<open>sub_t\<close> (\<^verbatim>\<open>src/xsub.cpp\<close>, \<^verbatim>\<open>src/sub.cpp\<close>). Subscriptions are counted in
  a trie and sent upstream to all pipes; received messages that match none of them are dropped.
\<close>

record xsub_t =
  xs_fq :: fq_t
  xs_dist :: dist_t
  xs_subscriptions :: trie_t
  has_message :: bool
  xs_message :: msg_t
  xs_more :: bool
  xs_filter :: bool

definition xsub_new :: xsub_t where
  "xsub_new = \<lparr>xs_fq = fq_new, xs_dist = dist_new, xs_subscriptions = trie_new, has_message = False, xs_message = msg_init,
     xs_more = False, xs_filter = False\<rparr>"

definition xsub_destroy :: "xsub_t \<Rightarrow> world \<Rightarrow> world option" where
  "xsub_destroy x w = close_in (xs_message x) w"

definition send_subscription :: "(nat \<Rightarrow> bool) \<Rightarrow> blob_t \<Rightarrow> addr \<Rightarrow> world \<Rightarrow> world option" where
  "send_subscription oom d p w = do {
     (m, w) \<leftarrow> new_msg oom (1 # d) w;
     (sent, m, w) \<leftarrow> pipe_write p m w;
     if sent then Some w else close_ignored m w
   }"

fun send_subscriptions :: "(nat \<Rightarrow> bool) \<Rightarrow> blob_t list \<Rightarrow> addr \<Rightarrow> world \<Rightarrow> world option" where
  "send_subscriptions oom [] p w = Some w"
| "send_subscriptions oom (d # ds) p w = do { w \<leftarrow> send_subscription oom d p w; send_subscriptions oom ds p w }"

text \<open>Sending all the cached subscriptions to a new or hiccuped pipe.\<close>

definition xsub_xhiccuped :: "(nat \<Rightarrow> bool) \<Rightarrow> addr \<Rightarrow> xsub_t \<Rightarrow> world \<Rightarrow> world option" where
  "xsub_xhiccuped oom p x w = do {
     calls \<leftarrow> trie_apply (xs_subscriptions x);
     w \<leftarrow> send_subscriptions oom calls p w;
     pipe_flush p w
   }"

definition xsub_xattach_pipe :: "(nat \<Rightarrow> bool) \<Rightarrow> addr \<Rightarrow> xsub_t \<Rightarrow> world \<Rightarrow> (xsub_t \<times> world) option" where
  "xsub_xattach_pipe oom p x w = do {
     f \<leftarrow> fq_attach p (xs_fq x);
     d \<leftarrow> dist_attach p (xs_dist x);
     calls \<leftarrow> trie_apply (xs_subscriptions x);
     w \<leftarrow> send_subscriptions oom calls p w;
     w \<leftarrow> pipe_flush p w;
     Some (x\<lparr>xs_fq := f, xs_dist := d\<rparr>, w)
   }"

definition xsub_xread_activated :: "addr \<Rightarrow> xsub_t \<Rightarrow> xsub_t option" where
  "xsub_xread_activated p x = do { f \<leftarrow> fq_activated p (xs_fq x); Some (x\<lparr>xs_fq := f\<rparr>) }"

definition xsub_xwrite_activated :: "addr \<Rightarrow> xsub_t \<Rightarrow> xsub_t option" where
  "xsub_xwrite_activated p x = do { d \<leftarrow> dist_activated p (xs_dist x); Some (x\<lparr>xs_dist := d\<rparr>) }"

definition xsub_xpipe_terminated :: "addr \<Rightarrow> xsub_t \<Rightarrow> xsub_t option" where
  "xsub_xpipe_terminated p x = do {
     f \<leftarrow> fq_pipe_terminated p (xs_fq x);
     d \<leftarrow> dist_pipe_terminated p (xs_dist x);
     Some (x\<lparr>xs_fq := f, xs_dist := d\<rparr>)
   }"

text \<open>The subscriptions after a message sent by the user, and whether it has to go upstream.\<close>

definition xsub_update :: "blob_t \<Rightarrow> trie_t \<Rightarrow> (bool \<times> trie_t) option" where
  "xsub_update d t =
     (if 0 < length d \<and> d ! 0 = 1 then do { (_, t) \<leftarrow> trie_add (drop 1 d) t; Some (True, t) }
      else if 0 < length d \<and> d ! 0 = 0 then trie_rm (drop 1 d) t
      else Some (True, t))"

definition xsub_xsend :: "msg_t \<Rightarrow> xsub_t \<Rightarrow> world \<Rightarrow> (errno_t option \<times> msg_t \<times> xsub_t \<times> world) option" where
  "xsub_xsend m x w = do {
     d \<leftarrow> msg_data m (mheap w);
     (upstream, t) \<leftarrow> xsub_update d (xs_subscriptions x);
     let x = x\<lparr>xs_subscriptions := t\<rparr>;
     if upstream
     then do { (m, d, w) \<leftarrow> dist_send_to_all m (xs_dist x) w; Some (None, m, x\<lparr>xs_dist := d\<rparr>, w) }
     else do { w \<leftarrow> close_in m w; Some (None, msg_init, x, w) }
   }"

definition xsub_xhas_out :: bool where
  "xsub_xhas_out = True"

definition xsub_match :: "trie_t \<Rightarrow> msg_t \<Rightarrow> world \<Rightarrow> bool option" where
  "xsub_match t m w = do { d \<leftarrow> msg_data m (mheap w); trie_check d t }"

text \<open>The inner loop, which pops the remaining parts of a message that does not match.\<close>

partial_function (option) xsub_skip :: "msg_t \<Rightarrow> fq_t \<Rightarrow> world \<Rightarrow> (msg_t \<times> fq_t \<times> world) option" where
  "xsub_skip m f w =
     (if \<not> msg_more m then Some (m, f, w)
      else (case fq_recv pipe_read close_in m f w of
          None \<Rightarrow> None
        | Some (rc, m, f, w) \<Rightarrow> if rc \<noteq> None then None else xsub_skip m f w))"

text \<open>The outer loop; \<open>pass\<close> is the condition under which a message is let through.\<close>

partial_function (option) xsub_recv_loop ::
  "(msg_t \<Rightarrow> world \<Rightarrow> bool option) \<Rightarrow> msg_t \<Rightarrow> fq_t \<Rightarrow> world \<Rightarrow> (errno_t option \<times> msg_t \<times> fq_t \<times> world) option" where
  "xsub_recv_loop pass m f w =
     (case fq_recv pipe_read close_in m f w of
        None \<Rightarrow> None
      | Some (rc, m, f, w) \<Rightarrow>
          if rc \<noteq> None then Some (rc, m, f, w)
          else (case pass m w of
              None \<Rightarrow> None
            | Some ok \<Rightarrow>
                if ok then Some (None, m, f, w)
                else (case xsub_skip m f w of None \<Rightarrow> None | Some (m, f, w) \<Rightarrow> xsub_recv_loop pass m f w)))"

definition xsub_xrecv :: "msg_t \<Rightarrow> xsub_t \<Rightarrow> world \<Rightarrow> (errno_t option \<times> msg_t \<times> xsub_t \<times> world) option" where
  "xsub_xrecv m x w =
     (if has_message x
      then do {
        (rc, m, src, h) \<leftarrow> msg_move m (xs_message x) (mheap w);
        zmq_assert (rc = None);
        Some (None, m, x\<lparr>xs_message := src, has_message := False, xs_more := msg_more m\<rparr>, w\<lparr>mheap := h\<rparr>)
      }
      else do {
        (rc, m, f, w) \<leftarrow> xsub_recv_loop (\<lambda>m w. if xs_more x \<or> \<not> xs_filter x then Some True else xsub_match (xs_subscriptions x) m w)
          m (xs_fq x) w;
        Some (rc, m, x\<lparr>xs_fq := f, xs_more := (if rc = None then msg_more m else xs_more x)\<rparr>, w)
      })"

definition xsub_xhas_in :: "xsub_t \<Rightarrow> world \<Rightarrow> (bool \<times> xsub_t \<times> world) option" where
  "xsub_xhas_in x w =
     (if xs_more x then Some (True, x, w)
      else if has_message x then Some (True, x, w)
      else do {
        (rc, m, f, w) \<leftarrow> xsub_recv_loop (\<lambda>m w. if \<not> xs_filter x then Some True else xsub_match (xs_subscriptions x) m w)
          (xs_message x) (xs_fq x) w;
        let x = x\<lparr>xs_message := m, xs_fq := f\<rparr>;
        if rc \<noteq> None then do { zmq_assert (rc = Some EAGAIN); Some (False, x, w) }
        else Some (True, x\<lparr>has_message := True\<rparr>, w)
      })"

text \<open>\<open>sub_t\<close> filters, and subscribes through a socket option.\<close>

definition sub_new :: xsub_t where
  "sub_new = xsub_new\<lparr>xs_filter := True\<rparr>"

definition sub_xsetsockopt ::
  "(nat \<Rightarrow> bool) \<Rightarrow> int \<Rightarrow> byte list \<Rightarrow> xsub_t \<Rightarrow> world \<Rightarrow> (errno_t option \<times> xsub_t \<times> world) option" where
  "sub_xsetsockopt oom opt v x w =
     (if opt \<noteq> ZMQ_SUBSCRIBE \<and> opt \<noteq> ZMQ_UNSUBSCRIBE then Some (Some EINVAL, x, w)
      else do {
        (m, w) \<leftarrow> new_msg oom ((if opt = ZMQ_SUBSCRIBE then 1 else 0) # v) w;
        (rc, m, x, w) \<leftarrow> xsub_xsend m x w;
        w \<leftarrow> close_in m w;
        Some (rc, x, w)
      })"

definition sub_xsend :: "msg_t \<Rightarrow> xsub_t \<Rightarrow> errno_t option \<times> msg_t \<times> xsub_t" where
  "sub_xsend m x = (Some ENOTSUP, m, x)"

definition sub_xhas_out :: bool where
  "sub_xhas_out = False"

subsection \<open>Filtering\<close>

text \<open>
  \<open>lost h acc old new\<close>: what was taken off the queue \<open>old\<close> to get \<open>new\<close> are whole messages whose first
  parts are not acceptable. Data are those of the heap \<open>h\<close>.
\<close>

definition lost :: "msg_heap \<Rightarrow> (blob_t \<Rightarrow> bool) \<Rightarrow> msg_t list \<Rightarrow> msg_t list \<Rightarrow> bool" where
  "lost h acc old new \<longleftrightarrow> (\<exists>mss. old = concat mss @ new \<and> (\<forall>ms \<in> set mss. whole ms \<and> (\<exists>d. msg_data (hd ms) h = Some d \<and> \<not> acc d)))"

lemma lost_refl [simp]: "lost h acc q q"
  unfolding lost_def by (intro exI [of _ "[]"]) simp

lemma lost_trans: "lost h acc a b \<Longrightarrow> lost h acc b c \<Longrightarrow> lost h acc a c"
proof -
  assume "lost h acc a b" "lost h acc b c"
  then obtain m1 m2 where "a = concat m1 @ b" "b = concat m2 @ c"
    "\<forall>ms \<in> set m1. whole ms \<and> (\<exists>d. msg_data (hd ms) h = Some d \<and> \<not> acc d)"
    "\<forall>ms \<in> set m2. whole ms \<and> (\<exists>d. msg_data (hd ms) h = Some d \<and> \<not> acc d)" unfolding lost_def by blast
  then show ?thesis unfolding lost_def by (intro exI [of _ "m1 @ m2"]) auto
qed

lemma lost_one: "whole (m # ms) \<Longrightarrow> msg_data m h = Some d \<Longrightarrow> \<not> acc d \<Longrightarrow> lost h acc (m # ms @ q) q"
  unfolding lost_def by (intro exI [of _ "[m # ms]"]) simp

lemma fq_recv_recvpipe:
  "fq_recvpipe rd cl old r w = Some (rc, m, src, r', w') \<Longrightarrow> fq_recv rd cl old r w = Some (rc, m, r', w')"
  by (simp add: fq_recv_def)

lemma xsub_skip_ok:
  assumes "feeds r w qs" and "rr_more r = msg_more m" and "refs_ok (mheap w) (add_mset m (queued r qs + R))" and "msg_check m"
    and "\<forall>x \<in># queued r qs + R. msg_data x (mheap w) = msg_data x h0"
  shows "\<exists>m' r' w' qs' rest. xsub_skip m r w = Some (m', r', w') \<and> feeds r' w' qs' \<and> rr_all r' = rr_all r \<and> \<not> rr_more r' \<and>
    refs_ok (mheap w') (add_mset m' (queued r' qs' + R)) \<and> msg_check m' \<and> (\<forall>x \<in># queued r' qs' + R. msg_data x (mheap w') = msg_data x h0) \<and>
    qs (rr_cur r) = rest @ qs' (rr_cur r) \<and> qs' = qs(rr_cur r := qs' (rr_cur r)) \<and> whole (m # rest)"
  using assms
proof (induction "length (qs (rr_cur r))" arbitrary: m r w qs)
  case (0 r qs m w)
  then have "\<not> msg_more m" by (auto simp: feeds_def)
  then show ?case using 0 whole_single [of m]
    by (intro exI [of _ m] exI [of _ r] exI [of _ w] exI [of _ qs] exI [of _ "[]"]) (simp add: xsub_skip.simps fun_upd_idem)
next
  case (Suc n r qs m w)
  show ?case
  proof (cases "msg_more m")
    case False
    then show ?thesis using Suc.prems whole_single [of m]
      by (intro exI [of _ m] exI [of _ r] exI [of _ w] exI [of _ qs] exI [of _ "[]"]) (simp add: xsub_skip.simps fun_upd_idem)
  next
    case True
    obtain rc m1 src r1 w1 qs1 where r1: "fq_recvpipe pipe_read close_in m r w = Some (rc, m1, src, r1, w1)" "feeds r1 w1 qs1"
      "rr_all r1 = rr_all r" "refs_ok (mheap w1) (add_mset m1 (queued r1 qs1 + R))" "msg_check m1" "\<not> msg_is_delimiter m1"
      "\<forall>x \<in># queued r qs + R. msg_data x (mheap w1) = msg_data x (mheap w)"
      "rc \<noteq> None \<longrightarrow> rc = Some EAGAIN \<and> m1 = msg_init \<and> src = None \<and> qs1 = qs \<and> (\<forall>p \<in> rr_all r. qs p = []) \<and> \<not> rr_more r1"
      "rc = None \<longrightarrow> (\<exists>p \<in> rr_all r. src = Some p \<and> qs p = m1 # qs1 p \<and> qs1 = qs(p := qs1 p) \<and> rr_more r1 = msg_more m1 \<and>
         (rr_more r1 \<longrightarrow> rr_cur r1 = p) \<and> (rr_more r \<longrightarrow> p = rr_cur r))"
      using feeds_recvpipe [OF Suc.prems(1,3,4)] by (elim exE conjE) (rule that, assumption+)
    have "rr_cur r \<in> rr_all r" using Suc.prems(1,2) True rr_cur_active [of r] rr_actives_sub [of r] by (auto simp: feeds_def)
    then have rc: "rc = None" using r1(8) Suc.hyps(2) by (cases rc) auto
    then have p: "qs (rr_cur r) = m1 # qs1 (rr_cur r)" "qs1 = qs(rr_cur r := qs1 (rr_cur r))" "rr_more r1 = msg_more m1"
      "msg_more m1 \<longrightarrow> rr_cur r1 = rr_cur r" using r1(9) Suc.prems(2) True by auto
    have cu: "rr_cur r \<in> rr_all r" by fact
    have sub: "x \<in># queued r qs + R" if "x \<in># queued r1 qs1 + R" for x
      using that queued_take [where qs = qs, OF cu p(1)] p(2) queued_cong [OF r1(3)] by (metis add_mset_add_single mset_subset_eqD mset_subset_eq_add_left subset_mset.add_right_mono union_commute union_iff)
    have dat: "\<forall>x \<in># queued r1 qs1 + R. msg_data x (mheap w1) = msg_data x h0" using sub r1(7) Suc.prems(5) by simp
    have step: "xsub_skip m r w = xsub_skip m1 r1 w1"
      using True fq_recv_recvpipe [OF r1(1)] rc by (subst xsub_skip.simps) simp
    show ?thesis
    proof (cases "msg_more m1")
      case False
      then have "xsub_skip m1 r1 w1 = Some (m1, r1, w1)" by (simp add: xsub_skip.simps)
      moreover have "whole [m, m1]" using whole_Cons [OF True whole_single [OF False]] .
      ultimately show ?thesis unfolding step using r1(2-5) p(1-3) False dat
        by (intro exI [of _ m1] exI [of _ r1] exI [of _ w1] exI [of _ qs1] exI [of _ "[m1]"]) simp
    next
      case m1: True
      then have cur: "rr_cur r1 = rr_cur r" using p(4) by blast
      then have "n = length (qs1 (rr_cur r1))" using Suc.hyps(2) p(1) by simp
      from Suc.hyps(1) [OF this r1(2) p(3) r1(4,5) dat]
      obtain m' r' w' qs' rest where i: "xsub_skip m1 r1 w1 = Some (m', r', w')" "feeds r' w' qs'" "rr_all r' = rr_all r1" "\<not> rr_more r'"
        "refs_ok (mheap w') (add_mset m' (queued r' qs' + R))" "msg_check m'" "\<forall>x \<in># queued r' qs' + R. msg_data x (mheap w') = msg_data x h0"
        "qs1 (rr_cur r1) = rest @ qs' (rr_cur r1)" "qs' = qs1(rr_cur r1 := qs' (rr_cur r1))" "whole (m1 # rest)"
        by (elim exE conjE) (rule that, assumption+)
      have "qs (rr_cur r) = (m1 # rest) @ qs' (rr_cur r)" using p(1) i(8) cur by simp
      moreover have "qs' = qs(rr_cur r := qs' (rr_cur r))" using i(9) p(2) cur by (metis fun_upd_upd)
      moreover have "whole (m # m1 # rest)" using whole_Cons [OF True i(10)] .
      ultimately show ?thesis unfolding step using i(1-7) r1(3)
        by (intro exI [of _ m'] exI [of _ r'] exI [of _ w'] exI [of _ qs'] exI [of _ "m1 # rest"]) simp
    qed
  qed
qed

text \<open>The outcome of the loop: the end of the queues, or an acceptable message.\<close>

definition filtered :: "msg_heap \<Rightarrow> (blob_t \<Rightarrow> bool) \<Rightarrow> addr set \<Rightarrow> (addr \<Rightarrow> msg_t list) \<Rightarrow> errno_t option \<Rightarrow> msg_t \<Rightarrow> (addr \<Rightarrow> msg_t list) \<Rightarrow> bool" where
  "filtered h acc P qs rc m qs' \<longleftrightarrow>
     (rc \<noteq> None \<longrightarrow> rc = Some EAGAIN \<and> m = msg_init \<and> (\<forall>p \<in> P. lost h acc (qs p) [] \<and> qs' p = [])) \<and>
     (rc = None \<longrightarrow> (\<exists>p \<in> P. \<exists>d. lost h acc (qs p) (m # qs' p) \<and> msg_data m h = Some d \<and> acc d \<and>
        (\<forall>q \<in> P - {p}. lost h acc (qs q) (qs' q))))"

lemma filtered_lost:
  assumes "\<forall>p \<in> P. lost h acc (qs p) (qs1 p)" and "filtered h acc P qs1 rc m qs'"
  shows "filtered h acc P qs rc m qs'"
proof (cases rc)
  case (Some e)
  then show ?thesis using assms lost_trans unfolding filtered_def by (metis option.distinct(1))
next
  case None
  then obtain p d where p: "p \<in> P" "lost h acc (qs1 p) (m # qs' p)" "msg_data m h = Some d" "acc d" "\<forall>q \<in> P - {p}. lost h acc (qs1 q) (qs' q)"
    using assms(2) unfolding filtered_def by blast
  have "lost h acc (qs p) (m # qs' p)" using lost_trans [OF _ p(2)] assms(1) p(1) by blast
  moreover have "\<forall>q \<in> P - {p}. lost h acc (qs q) (qs' q)" using lost_trans assms(1) p(5) by blast
  ultimately show ?thesis using None p(1,3,4) unfolding filtered_def by blast
qed

lemma xsub_recv_loop_ok:
  assumes "feeds r w qs" and "refs_ok (mheap w) (add_mset m (queued r qs + R))" and "msg_check m"
    and "\<forall>x \<in># queued r qs + R. msg_data x (mheap w) = msg_data x h0"
    and "\<And>m w d. msg_data m (mheap w) = Some d \<Longrightarrow> pass m w = Some (acc d)" and "rr_more r \<longrightarrow> (\<forall>d. acc d)"
  shows "\<exists>rc m' r' w' qs'. xsub_recv_loop pass m r w = Some (rc, m', r', w') \<and> feeds r' w' qs' \<and> rr_all r' = rr_all r \<and>
    refs_ok (mheap w') (add_mset m' (queued r' qs' + R)) \<and> msg_check m' \<and>
    (rc = None \<longrightarrow> rr_more r' = msg_more m' \<and> msg_data m' (mheap w') = msg_data m' h0) \<and> (rc \<noteq> None \<longrightarrow> \<not> rr_more r') \<and>
    (\<forall>x \<in># queued r' qs' + R. msg_data x (mheap w') = msg_data x h0) \<and>
    filtered h0 acc (rr_all r) qs rc m' qs'"
  using assms(1-4,6)
proof (induction "size (queued r qs)" arbitrary: m r w qs rule: less_induct)
  case (less r qs m w)
  obtain rc m1 src r1 w1 qs1 where r1: "fq_recvpipe pipe_read close_in m r w = Some (rc, m1, src, r1, w1)" "feeds r1 w1 qs1"
    "rr_all r1 = rr_all r" "refs_ok (mheap w1) (add_mset m1 (queued r1 qs1 + R))" "msg_check m1" "\<not> msg_is_delimiter m1"
    "\<forall>x \<in># queued r qs + R. msg_data x (mheap w1) = msg_data x (mheap w)"
    "rc \<noteq> None \<longrightarrow> rc = Some EAGAIN \<and> m1 = msg_init \<and> src = None \<and> qs1 = qs \<and> (\<forall>p \<in> rr_all r. qs p = []) \<and> \<not> rr_more r1"
    "rc = None \<longrightarrow> (\<exists>p \<in> rr_all r. src = Some p \<and> qs p = m1 # qs1 p \<and> qs1 = qs(p := qs1 p) \<and> rr_more r1 = msg_more m1 \<and>
       (rr_more r1 \<longrightarrow> rr_cur r1 = p) \<and> (rr_more r \<longrightarrow> p = rr_cur r))"
    using feeds_recvpipe [OF less.prems(1-3)] by (elim exE conjE) (rule that, assumption+)
  note rcv = fq_recv_recvpipe [OF r1(1)]
  show ?case
  proof (cases rc)
    case (Some e)
    have e: "rc = Some EAGAIN" "m1 = msg_init" "qs1 = qs" "\<forall>p \<in> rr_all r. qs p = []" "\<not> rr_more r1" using Some r1(8) by auto
    have "xsub_recv_loop pass m r w = Some (rc, m1, r1, w1)" using rcv Some by (subst xsub_recv_loop.simps) simp
    moreover have "filtered h0 acc (rr_all r) qs rc m1 qs1" using e by (simp add: filtered_def)
    moreover have "queued r1 qs1 = queued r qs" using e(3) queued_cong [OF r1(3)] by simp
    then have "\<forall>x \<in># queued r1 qs1 + R. msg_data x (mheap w1) = msg_data x h0" using r1(7) less.prems(4) by simp
    ultimately show ?thesis using r1(2-5) e Some
      by (intro exI [of _ rc] exI [of _ m1] exI [of _ r1] exI [of _ w1] exI [of _ qs1]) simp
  next
    case None
    then obtain p where p: "p \<in> rr_all r" "qs p = m1 # qs1 p" "qs1 = qs(p := qs1 p)" "rr_more r1 = msg_more m1"
      "rr_more r1 \<longrightarrow> rr_cur r1 = p" using r1(9) by blast
    have q1: "queued r qs = add_mset m1 (queued r1 qs1)"
      using queued_take [where qs = qs, OF p(1,2)] p(3) queued_cong [OF r1(3)] by simp
    have dat: "msg_data m1 (mheap w1) = msg_data m1 h0" "\<forall>x \<in># queued r1 qs1 + R. msg_data x (mheap w1) = msg_data x h0"
      using r1(7) less.prems(4) q1 by auto
    obtain d where d: "msg_data m1 (mheap w1) = Some d" using refs_ok_data [OF r1(4-6)] by blast
    note ps = assms(5) [OF d]
    have same: "lost h0 acc (qs q) (qs1 q)" if "q \<noteq> p" for q using p(3) that by (metis fun_upd_other lost_refl)
    show ?thesis
    proof (cases "acc d")
      case True
      have "xsub_recv_loop pass m r w = Some (None, m1, r1, w1)" using rcv None ps True by (subst xsub_recv_loop.simps) simp
      moreover have "lost h0 acc (qs p) (m1 # qs1 p)" unfolding p(2) by simp
      then have "filtered h0 acc (rr_all r) qs None m1 qs1" using p(1) same d dat(1) True by (auto simp: filtered_def)
      ultimately show ?thesis using r1(2-5) p(4) dat
        by (intro exI [of _ None] exI [of _ m1] exI [of _ r1] exI [of _ w1] exI [of _ qs1]) simp
    next
      case False
      obtain m2 r2 w2 qs2 rest where s: "xsub_skip m1 r1 w1 = Some (m2, r2, w2)" "feeds r2 w2 qs2" "rr_all r2 = rr_all r1" "\<not> rr_more r2"
        "refs_ok (mheap w2) (add_mset m2 (queued r2 qs2 + R))" "msg_check m2" "\<forall>x \<in># queued r2 qs2 + R. msg_data x (mheap w2) = msg_data x h0"
        "qs1 (rr_cur r1) = rest @ qs2 (rr_cur r1)" "qs2 = qs1(rr_cur r1 := qs2 (rr_cur r1))" "whole (m1 # rest)"
        using xsub_skip_ok [OF r1(2) p(4) r1(4,5) dat(2)] by (elim exE conjE) (rule that, assumption+)
      have ex: "qs1 p = rest @ qs2 p \<and> (\<forall>q. q \<noteq> p \<longrightarrow> qs2 q = qs1 q)"
      proof (cases "msg_more m1")
        case True
        then have "rr_cur r1 = p" using p(4,5) by simp
        then show ?thesis using s(8,9) by (metis fun_upd_other)
      next
        case False
        then have "rest = []" using whole_nomore [OF s(10)] by simp
        moreover from this have "qs2 = qs1" using s(8,9) by (metis append_Nil fun_upd_triv)
        ultimately show ?thesis by simp
      qed
      have "lost h0 acc (m1 # rest @ qs2 p) (qs2 p)" using lost_one [where q = "qs2 p" and acc = acc, OF s(10) _ False] d dat(1) by simp
      then have "lost h0 acc (qs p) (qs2 p)" using p(2) ex by simp
      then have lost: "\<forall>q \<in> rr_all r. lost h0 acc (qs q) (qs2 q)" using same ex by metis
      have le: "size (queued r2 qs2) \<le> size (queued r1 qs1)"
        unfolding queued_def s(3) using ex by (simp add: size_multiset_sum) (rule sum_mono, metis le_add2 length_append order_refl)
      have "size (queued r2 qs2) < size (queued r qs)" using le q1 by simp
      from less.hyps [OF this s(2,5,6,7)] s(4)
      obtain rc' m' r' w' qs' where i: "xsub_recv_loop pass m2 r2 w2 = Some (rc', m', r', w')" "feeds r' w' qs'" "rr_all r' = rr_all r2"
        "refs_ok (mheap w') (add_mset m' (queued r' qs' + R))" "msg_check m'"
        "rc' = None \<longrightarrow> rr_more r' = msg_more m' \<and> msg_data m' (mheap w') = msg_data m' h0" "rc' \<noteq> None \<longrightarrow> \<not> rr_more r'"
        "\<forall>x \<in># queued r' qs' + R. msg_data x (mheap w') = msg_data x h0" "filtered h0 acc (rr_all r2) qs2 rc' m' qs'" by auto
      have "xsub_recv_loop pass m r w = Some (rc', m', r', w')" using rcv None ps False s(1) i(1) by (subst xsub_recv_loop.simps) simp
      moreover have "filtered h0 acc (rr_all r) qs rc' m' qs'" using filtered_lost [OF lost] i(9) s(3) r1(3) by simp
      ultimately show ?thesis using i s(3) r1(3)
        by (intro exI [of _ rc'] exI [of _ m'] exI [of _ r'] exI [of _ w'] exI [of _ qs']) simp
    qed
  qed
qed

subsection \<open>Invariant\<close>

text \<open>A message prefetched by \<open>xhas_in\<close> is the first part of a message.\<close>

definition xsub_inv :: "xsub_t \<Rightarrow> bool" where
  "xsub_inv x \<longleftrightarrow> trie_inv (xs_subscriptions x) \<and> msg_check (xs_message x) \<and>
     (if has_message x then \<not> xs_more x \<and> rr_more (xs_fq x) = msg_more (xs_message x) else xs_more x = rr_more (xs_fq x))"

definition subscribed :: "trie_t \<Rightarrow> blob_t \<Rightarrow> bool" where
  "subscribed t d \<longleftrightarrow> (\<exists>k \<le> length d. refs_at (take k d) t \<noteq> 0)"

lemma xsub_match_ok: "trie_inv t \<Longrightarrow> msg_data m (mheap w) = Some d \<Longrightarrow> xsub_match t m w = Some (subscribed t d)"
  by (simp add: xsub_match_def trie_check_ok subscribed_def)

text \<open>What the socket lets through: parts of a message it has begun, and else what is subscribed.\<close>

definition lets_through :: "xsub_t \<Rightarrow> blob_t \<Rightarrow> bool" where
  "lets_through x d \<longleftrightarrow> xs_more x \<or> \<not> xs_filter x \<or> subscribed (xs_subscriptions x) d"


text \<open>A subscriber with one pipe and the subscriptions of \<open>example_trie\<close>.\<close>

definition xsub_example :: xsub_t where
  "xsub_example = sub_new\<lparr>xs_fq := \<lparr>rr_pipes = \<lparr>items = [1], array_index = (\<lambda>_. 0)\<rparr>, rr_active = 1, rr_current = 0, rr_more = False\<rparr>,
     xs_subscriptions := example_trie\<rparr>"

lemma whole_one: "whole ms \<Longrightarrow> m \<in> set ms \<Longrightarrow> \<forall>m \<in> set ms. \<not> msg_more m \<Longrightarrow> ms = [m]"
proof -
  assume a: "whole ms" "m \<in> set ms" "\<forall>m \<in> set ms. \<not> msg_more m"
  have "butlast ms = []"
  proof (rule ccontr)
    assume "butlast ms \<noteq> []"
    then have "hd (butlast ms) \<in> set (butlast ms)" by (rule hd_in_set)
    then show False using a(1,3) in_set_butlastD unfolding whole_def by metis
  qed
  then show "ms = [m]" using a(2) by (cases ms) (auto split: if_splits)
qed


end
