(* ===== verification/Pubsub.thy ===== *)
theory Pubsub
  imports Xpub Xsub
begin

text \<open>
  A subscriber and a publisher connected by a pipe: the subscriptions the one counts in its trie and
  those the other has for the pipe in its multi-trie, with the subscription messages that are
  under way between them.
\<close>

text \<open>
  The states that can be reached from the attachment of a pipe that the publisher does not know yet.
  The subscriber sends all its subscriptions when the pipe is attached (\<open>xattach_pipe\<close>), then its
  user subscribes and unsubscribes; the publisher processes the messages in order, and changes
  its other subscriptions at any time. The pipe has room for the subscription messages, and no
  subscription is counted \<open>2 ^ 32\<close> times.
\<close>

inductive pubsub :: "addr \<Rightarrow> trie_t \<Rightarrow> blob_t list \<Rightarrow> mtrie_t \<Rightarrow> bool" for p where
  attach: "trie_inv t \<Longrightarrow> trie_apply t = Some calls \<Longrightarrow> mtrie_inv mt \<Longrightarrow> held p mt = {} \<Longrightarrow> pubsub p t (map ((#) 1) calls) mt"
| send: "pubsub p t ds mt \<Longrightarrow> refs_at (drop 1 d) t \<noteq> - 1 \<Longrightarrow> xsub_update d t = Some (up, t') \<Longrightarrow>
    pubsub p t' (if up then ds @ [d] else ds) mt"
| subscription: "pubsub p t ((c # cs) # ds) mt \<Longrightarrow> c = 0 \<or> c = 1 \<Longrightarrow> xpub_update p c cs mt = Some (u, mt') \<Longrightarrow> pubsub p t ds mt'"
| user_message: "pubsub p t (d # ds) mt \<Longrightarrow> d = [] \<or> hd d \<notin> {0, 1} \<Longrightarrow> pubsub p t ds mt"
| others: "pubsub p t ds mt \<Longrightarrow> mtrie_inv mt' \<Longrightarrow> held p mt' = held p mt \<Longrightarrow> pubsub p t ds mt'"

definition counted_prefixes :: "trie_t \<Rightarrow> blob_t set" where
  "counted_prefixes t = {q. refs_at q t \<noteq> 0}"

lemma apply_subs_all: "apply_subs (map ((#) 1) ds) S = Some (S \<union> set ds)"
proof (induction ds arbitrary: S)
  case (Cons d ds)
  have "apply_subs (map ((#) 1) (d # ds)) S = apply_subs (map ((#) 1) ds) (insert d S)" by simp
  then show ?case using Cons [of "insert d S"] by simp
qed simp

lemma xsub_update_ok:
  assumes "trie_inv t" and "refs_at (drop 1 d) t \<noteq> - 1"
  shows "\<exists>up t'. xsub_update d t = Some (up, t') \<and> trie_inv t' \<and>
    apply_subs (if up then [d] else []) (counted_prefixes t) = Some (counted_prefixes t')"
proof -
  let ?q = "drop 1 d"
  consider "0 < length d \<and> d ! 0 = 1" | "0 < length d \<and> d ! 0 = 0" | "\<not> (0 < length d \<and> (d ! 0 = 0 \<or> d ! 0 = 1))" by blast
  then show ?thesis
  proof cases
    case 1
    have nz: "refs_at ?q t + 1 \<noteq> 0" using assms(2) by (metis add_eq_0_iff2)
    obtain t' where t': "trie_add ?q t = Some (refs_at ?q t = 0, t')" "trie_inv t'"
      "\<forall>q. refs_at q t' = (if q = ?q then refs_at ?q t + 1 else refs_at q t)" using trie_add_ok [OF assms(1) nz] by blast
    have "counted_prefixes t' = insert ?q (counted_prefixes t)" using t'(3) nz by (auto simp: counted_prefixes_def simp del: refs_at.simps)
    then show ?thesis using 1 t'(1,2) by (intro exI [of _ True] exI [of _ t']) (simp add: xsub_update_def)
  next
    case 2
    obtain t' where t': "trie_rm ?q t = Some (refs_at ?q t = 1, t')" "trie_inv t'"
      "\<forall>q. refs_at q t' = (if q = ?q \<and> refs_at ?q t \<noteq> 0 then refs_at ?q t - 1 else refs_at q t)" using trie_rm_ok [OF assms(1)] by blast
    have "counted_prefixes t' = (if refs_at ?q t = 1 then counted_prefixes t - {?q} else counted_prefixes t)"
      using t'(3) by (auto simp: counted_prefixes_def simp del: refs_at.simps split: if_splits)
    moreover have "refs_at ?q t = 1 \<Longrightarrow> ?q \<in> counted_prefixes t" by (simp add: counted_prefixes_def del: refs_at.simps)
    ultimately show ?thesis using 2 t'(1,2) by (auto simp: xsub_update_def)
  next
    case 3
    then show ?thesis using assms(1) by (auto simp: xsub_update_def)
  qed
qed

text \<open>The invariant: the messages under way lead from what the publisher knows to what the subscriber counts.\<close>

lemma pubsub_inv:
  assumes "pubsub p t ds mt"
  shows "trie_inv t \<and> mtrie_inv mt \<and> apply_subs ds (held p mt) = Some (counted_prefixes t)"
  using assms
proof induction
  case (attach t calls mt)
  obtain cs where cs: "trie_apply t = Some cs" "set cs = {q. refs_at q t \<noteq> 0}" using trie_apply_ok [OF attach(1)] by blast
  then have "set calls = counted_prefixes t" using attach(2) by (simp add: counted_prefixes_def)
  then show ?case using attach by (simp only: apply_subs_all) simp
next
  case (send t ds mt d up t')
  obtain t1 up1 where "xsub_update d t = Some (up1, t1)" "trie_inv t1"
    "apply_subs (if up1 then [d] else []) (counted_prefixes t) = Some (counted_prefixes t1)" using xsub_update_ok [OF _ send(2)] send.IH by blast
  then show ?case using send.IH send(3) apply_subs_append [of ds "[d]"] by (cases up) auto
next
  case (subscription t c cs ds mt u mt')
  have legal: "c = 0 \<longrightarrow> cs \<in> held p mt" using subscription by (auto split: if_splits)
  obtain t1 where "xpub_update p c cs mt = Some (if c = 0 then subs_at cs mt = {p} else subs_at cs mt = {}, t1)" "mtrie_inv t1"
    "\<forall>q. subs_at q t1 = (if q = cs then (if c = 0 then subs_at cs mt - {p} else insert p (subs_at cs mt)) else subs_at q mt)"
    using xpub_update_ok [OF _ legal] subscription.IH by blast
  then have m: "mtrie_inv mt'" "\<forall>q. subs_at q mt' = (if q = cs then (if c = 0 then subs_at cs mt - {p} else insert p (subs_at cs mt)) else subs_at q mt)"
    using subscription(3) by auto
  have "held p mt' = (if c = 0 then held p mt - {cs} else insert cs (held p mt))" using m(2) by (auto simp: held_def simp del: subs_at.simps)
  then show ?case using subscription.IH subscription(2) m(1) legal by auto
next
  case (user_message t d ds mt)
  then show ?case by (cases d) auto
qed simp



end
