(* ===== verification/Duplex.thy ===== *)
theory Duplex
  imports Feeds Lb
begin

text \<open>
  Sockets that read from and write to the same pipes: reading does not disturb what was written and
  the room for more, writing does not disturb what is to be read. The queues a set of pipes reads
  from are apart from those it writes to, as they are when the other ends belong to other sockets
  or to sessions.
\<close>

definition apart :: "addr set \<Rightarrow> world \<Rightarrow> bool" where
  "apart S w \<longleftrightarrow> (\<forall>p \<in> S. \<forall>q \<in> S. \<forall>x y a. pipes w p = Some x \<longrightarrow> pipes w q = Some y \<longrightarrow> inpipe x = Some a \<longrightarrow> outpipe y \<noteq> Some a)"

definition same_out :: "addr set \<Rightarrow> world \<Rightarrow> world \<Rightarrow> bool" where
  "same_out S w w' \<longleftrightarrow> (apart S w \<longrightarrow> apart S w') \<and>
     (\<forall>q \<in> S. (writable w q \<longrightarrow> writable w' q) \<and> has_room w' q = has_room w q \<and> (\<forall>xs. out_log w q xs \<longrightarrow> out_log w' q xs) \<and>
        pipe_get_identity q w' = pipe_get_identity q w)"

definition same_in :: "addr set \<Rightarrow> world \<Rightarrow> world \<Rightarrow> bool" where
  "same_in S w w' \<longleftrightarrow> (apart S w \<longrightarrow> apart S w') \<and>
     (\<forall>q \<in> S. (\<forall>ms. delivers w q ms \<longrightarrow> delivers w' q ms) \<and> pipe_get_identity q w' = pipe_get_identity q w)"

lemma same_refl [simp]: "same_out S w w" "same_in S w w"
  by (simp_all add: same_out_def same_in_def)

lemma same_out_trans [trans]: "same_out S w w1 \<Longrightarrow> same_out S w1 w2 \<Longrightarrow> same_out S w w2"
  by (simp add: same_out_def)

lemma same_in_trans [trans]: "same_in S w w1 \<Longrightarrow> same_in S w1 w2 \<Longrightarrow> same_in S w w2"
  by (simp add: same_in_def)

lemma heap_simps [simp]:
  "apart S (w\<lparr>mheap := h\<rparr>) = apart S w" "writable (w\<lparr>mheap := h\<rparr>) q = writable w q" "has_room (w\<lparr>mheap := h\<rparr>) q = has_room w q"
  "out_log (w\<lparr>mheap := h\<rparr>) q xs = out_log w q xs" "pipe_get_identity q (w\<lparr>mheap := h\<rparr>) = pipe_get_identity q w"
  by (simp_all add: apart_def writable_def has_room_def out_log_def pipe_get_identity_def sole_writer_def up_view_def)

lemma same_heap [simp]: "same_out S w (w\<lparr>mheap := h\<rparr>)" "same_in S w (w\<lparr>mheap := h\<rparr>)"
  by (simp_all add: same_out_def same_in_def)

text \<open>A step that changes one pipe and one queue, in what its ends see of it.\<close>

definition port_step :: "addr \<Rightarrow> pipe_t \<Rightarrow> pipe_t \<Rightarrow> world \<Rightarrow> world \<Rightarrow> bool" where
  "port_step p x x' w w' \<longleftrightarrow> pipes w p = Some x \<and> pipes w' = (pipes w)(p \<mapsto> x') \<and> inpipe x' = inpipe x \<and> outpipe x' = outpipe x \<and>
     peer x' = peer x \<and> state x' = state x"

lemma port_step_apart: "port_step p x x' w w' \<Longrightarrow> apart S w \<Longrightarrow> apart S w'"
  unfolding port_step_def apart_def by (auto split: if_splits)

lemma port_step_identity: "port_step p x x' w w' \<Longrightarrow> identity x' = identity x \<Longrightarrow> pipe_get_identity q w' = pipe_get_identity q w"
  by (auto simp: port_step_def pipe_get_identity_def)

lemma port_step_sole: 
  assumes "port_step p x x' w w'"
  shows "sole_reader w' q a = sole_reader w q a" "sole_writer w' q a = sole_writer w q a"
proof -
  have "Option.bind (pipes w' r) inpipe = Option.bind (pipes w r) inpipe" "Option.bind (pipes w' r) outpipe = Option.bind (pipes w r) outpipe" for r
    using assms by (cases "r = p"; simp add: port_step_def)+
  moreover have "sole_reader v q a = (\<forall>r. r \<noteq> q \<longrightarrow> Option.bind (pipes v r) inpipe \<noteq> Some a)"
    "sole_writer v q a = (\<forall>r. r \<noteq> q \<longrightarrow> Option.bind (pipes v r) outpipe \<noteq> Some a)" for v
    by (auto simp: sole_reader_def sole_writer_def bind_eq_Some_conv)
  ultimately show "sole_reader w' q a = sole_reader w q a" "sole_writer w' q a = sole_writer w q a" by simp_all
qed

lemma port_step_out:
  assumes "port_step p x x' w w'" and "out_active x' = out_active x" "hwm x' = hwm x" "msgs_written x' = msgs_written x"
    "peers_msgs_read x' = peers_msgs_read x" and "inpipe x = Some a" and "\<And>b. b \<noteq> a \<Longrightarrow> upipes w' b = upipes w b"
    and "p \<in> S" and "apart S w" and "q \<in> S"
  shows "writable w q \<Longrightarrow> writable w' q" "has_room w' q = has_room w q" "out_log w q xs \<Longrightarrow> out_log w' q xs"
proof -
  have p: "pipes w p = Some x" "pipes w' = (pipes w)(p \<mapsto> x')" "outpipe x' = outpipe x" "peer x' = peer x" "state x' = state x"
    using assms(1) by (auto simp: port_step_def)
  have pr: "\<exists>z. pipes w' q = Some z \<and> outpipe z = outpipe y \<and> peer z = peer y" if "pipes w q = Some y" for q y
    using that p by (cases "q = p") auto
  have na: "b \<noteq> a" if "q \<in> S" "pipes w q = Some y" "outpipe y = Some b" for q y b
    using that assms(6,8,9) p(1) unfolding apart_def by blast
  have v: "up_view w' b f un inc z = up_view w b f un inc z" if "b \<noteq> a" for b f un inc z using up_view_frame [OF assms(7) [OF that]] .
  show "has_room w' q = has_room w q"
    unfolding has_room_def using p assms(2-5) by (cases "q = p") auto
  show "writable w' q" if "writable w q"
  proof -
    obtain y b pp where y: "pipes w q = Some y" "outpipe y = Some b" "peer y = Some pp" "sole_writer w q b" "\<exists>f un inc z. up_view w b f un inc z"
      using \<open>writable w q\<close> unfolding writable_def by blast
    obtain y' where "pipes w' q = Some y'" "outpipe y' = Some b" "peer y' = Some pp" using pr [OF y(1)] y(2,3) by auto
    moreover from y(5) obtain f un inc z where "up_view w b f un inc z" by blast
    then have "up_view w' b f un inc z" using v [OF na [OF assms(10) y(1,2)]] by simp
    moreover have "sole_writer w' q b" using y(4) port_step_sole(2) [OF assms(1)] by simp
    ultimately show ?thesis unfolding writable_def by (intro exI conjI)
  qed
  show "out_log w' q xs" if "out_log w q xs"
  proof -
    obtain y b f un inc z where y: "pipes w q = Some y" "outpipe y = Some b" "sole_writer w q b" "up_view w b f un inc z" "xs = f @ un @ inc"
      using \<open>out_log w q xs\<close> unfolding out_log_def by blast
    obtain y' where "pipes w' q = Some y'" "outpipe y' = Some b" using pr [OF y(1)] y(2) by auto
    moreover have "up_view w' b f un inc z" using y(4) v [OF na [OF assms(10) y(1,2)]] by simp
    moreover have "sole_writer w' q b" using y(3) port_step_sole(2) [OF assms(1)] by simp
    ultimately show ?thesis using y(5) unfolding out_log_def by (intro exI conjI)
  qed
qed

lemma same_outI:
  assumes "port_step p x x' w w'" and "out_active x' = out_active x" "hwm x' = hwm x" "msgs_written x' = msgs_written x"
    "peers_msgs_read x' = peers_msgs_read x" and "inpipe x = Some a" and "\<And>b. b \<noteq> a \<Longrightarrow> upipes w' b = upipes w b"
    and "p \<in> S" and "apart S w" and "identity x' = identity x"
  shows "same_out S w w'"
  using port_step_out [OF assms(1-9)] port_step_identity [OF assms(1,10)] port_step_apart [OF assms(1)] unfolding same_out_def by simp

lemma port_step_in:
  assumes "port_step p x x' w w'" and "in_active x' = in_active x" and "outpipe x = Some a" and "\<And>b. b \<noteq> a \<Longrightarrow> upipes w' b = upipes w b"
    and "p \<in> S" and "apart S w" and "q \<in> S" and "delivers w q ms"
  shows "delivers w' q ms"
proof -
  have p: "pipes w p = Some x" "pipes w' = (pipes w)(p \<mapsto> x')" "inpipe x' = inpipe x" "peer x' = peer x" "state x' = state x"
    using assms(1) by (auto simp: port_step_def)
  have pr: "\<exists>z. pipes w' q = Some z \<and> inpipe z = inpipe y \<and> peer z = peer y \<and> state z = state y \<and> in_active z = in_active y"
    if "pipes w q = Some y" for q y using that p assms(2) by (cases "q = p") auto
  have na: "b \<noteq> a" if "q \<in> S" "pipes w q = Some y" "inpipe y = Some b" for q y b
    using that assms(3,5,6) p(1) unfolding apart_def by blast
  have v: "up_holds w' b ms = up_holds w b ms" if "b \<noteq> a" for b ms using up_view_frame [OF assms(4) [OF that]] unfolding up_holds_def by blast
  obtain y b pp where y: "pipes w q = Some y" "state y = active" "inpipe y = Some b" "peer y = Some pp" "sole_reader w q b"
    "\<forall>m \<in> set ms. \<not> msg_is_delimiter m" "in_active y \<longrightarrow> up_holds w b ms" "\<not> in_active y \<longrightarrow> ms = []"
    using assms(8) unfolding delivers_def by blast
  obtain y' where y': "pipes w' q = Some y'" "inpipe y' = Some b" "peer y' = Some pp" "state y' = active" "in_active y' = in_active y"
    using pr [OF y(1)] y(2-4) by auto
  have "sole_reader w' q b" using y(5) port_step_sole(1) [OF assms(1)] by simp
  then show ?thesis using y y' v [OF na [OF assms(7) y(1,3)]] unfolding delivers_def
    by (intro exI [of _ y'] exI [of _ b] exI [of _ pp]) simp
qed

lemma same_inI:
  assumes "port_step p x x' w w'" and "in_active x' = in_active x" and "outpipe x = Some a" and "\<And>b. b \<noteq> a \<Longrightarrow> upipes w' b = upipes w b"
    and "p \<in> S" and "apart S w" and "identity x' = identity x"
  shows "same_in S w w'"
  using port_step_in [OF assms(1-6)] port_step_identity [OF assms(1,7)] port_step_apart [OF assms(1)] unfolding same_in_def by simp

text \<open>Setting the identity of a pipe changes nothing else.\<close>

lemma pipe_set_identity_same:
  assumes "writable w p" and "delivers w p ms" and "p \<in> S" and "apart S w"
  shows "\<exists>w'. pipe_set_identity p d w = Some w' \<and> mheap w' = mheap w \<and> apart S w' \<and> pipe_get_identity p w' = Some d \<and>
    (\<forall>q. q \<noteq> p \<longrightarrow> pipe_get_identity q w' = pipe_get_identity q w) \<and>
    (\<forall>q \<in> S. (writable w q \<longrightarrow> writable w' q) \<and> has_room w' q = has_room w q \<and> (\<forall>xs. out_log w q xs \<longrightarrow> out_log w' q xs) \<and>
       (\<forall>xs. delivers w q xs \<longrightarrow> delivers w' q xs))"
proof -
  obtain x a where xa: "pipes w p = Some x" "outpipe x = Some a" using assms(1) unfolding writable_def by blast
  moreover obtain y b where "pipes w p = Some y" "inpipe y = Some b" using assms(2) unfolding delivers_def by blast
  ultimately have x: "pipes w p = Some x" "outpipe x = Some a" "inpipe x = Some b" by simp_all
  let ?x = "x\<lparr>identity := d\<rparr>" and ?w = "set_pipe p (x\<lparr>identity := d\<rparr>) w"
  have st: "port_step p x ?x w ?w" using x(1) by (simp add: port_step_def)
  have "writable w q \<longrightarrow> writable ?w q" "has_room ?w q = has_room w q" "out_log w q xs \<longrightarrow> out_log ?w q xs"
    "delivers w q xs \<longrightarrow> delivers ?w q xs" if "q \<in> S" for q xs
    using port_step_out [OF st _ _ _ _ x(3) _ assms(3,4) that] port_step_in [OF st _ x(2) _ assms(3,4) that] by simp_all
  moreover have "pipe_set_identity p d w = Some ?w" using x(1) by (simp add: pipe_set_identity_def)
  ultimately show ?thesis using port_step_apart [OF st assms(4)] by (intro exI [of _ ?w]) (simp add: pipe_get_identity_def)
qed

subsection \<open>Reading\<close>

lemma pipe_read_same_out:
  assumes "delivers w p ms" and "pipe_read p w = Some (res, w')" and "p \<in> S" and "apart S w"
  shows "same_out S w w'"
proof -
  obtain q a pr where q: "pipes w p = Some q" "state q = active" "inpipe q = Some a" "peer q = Some pr"
    "\<forall>m \<in> set ms. \<not> msg_is_delimiter m" "in_active q \<longrightarrow> (\<exists>un inc z. up_view w a ms un inc z)" "\<not> in_active q \<longrightarrow> ms = []"
    using assms(1) unfolding delivers_def up_holds_def by blast
  show ?thesis
  proof (cases "in_active q")
    case False
    then have "w' = w" using assms(2) q(1) by (simp add: pipe_read_def)
    then show ?thesis by simp
  next
    case True
    show ?thesis
    proof (cases ms)
      case Nil
      then obtain u where u: "up_read a w = Some (None, set_upipe a u w)" using q(6) True up_read_view(1) by blast
      have w': "w' = set_pipe p (q\<lparr>in_active := False\<rparr>) (set_upipe a u w)" using assms(2) True q u by (simp add: pipe_read_def)
      show ?thesis
        by (rule same_outI [of p q "q\<lparr>in_active := False\<rparr>" w w' a]) (use w' q(1,3) assms(3,4) in \<open>auto simp: port_step_def\<close>)
    next
      case (Cons m ms')
      then obtain u where u: "up_read a w = Some (Some m, set_upipe a u w)" using q(6) True up_read_view(2) by blast
      define n where "n = (if \<not> msg_more m \<and> \<not> msg_is_identity m then msgs_read q + 1 else msgs_read q)"
      have w': "pipes w' = (pipes w)(p \<mapsto> q\<lparr>msgs_read := n\<rparr>)" "\<And>b. b \<noteq> a \<Longrightarrow> upipes w' b = upipes w b"
        using assms(2) True q u Cons unfolding pipe_read_def by (auto simp: n_def [symmetric] Let_def send_cmd_def split: if_splits)
      show ?thesis
        by (rule same_outI [of p q "q\<lparr>msgs_read := n\<rparr>" w w' a]) (use w' q(1,3) assms(3,4) in \<open>auto simp: port_step_def\<close>)
    qed
  qed
qed

lemma fq_loop_same_out:
  assumes "fq_loop pipe_read r w = Some (res, r', w')"
    and "rr_all r \<subseteq> S" and "apart S w" and "\<forall>p \<in> rr_all r. \<exists>ms. delivers w p ms" and "rr_ok r"
  shows "same_out S w w'"
  using assms
proof (induction "rr_active r" arbitrary: r w)
  case 0
  then show ?case by (simp add: fq_loop.simps [of _ r])
next
  case (Suc n)
  let ?p = "rr_cur r"
  have pos: "0 < rr_active r" using Suc.hyps(2) by simp
  have p: "?p \<in> rr_all r" "?p \<in> S" using rr_cur_active [OF Suc.prems(5) pos] rr_actives_sub [of r] Suc.prems(2) by auto
  obtain ms where ms: "delivers w ?p ms" using Suc.prems(4) p(1) by blast
  have run: "fq_loop pipe_read r w = (case pipe_read ?p w of
              None \<Rightarrow> None
            | Some (Some m, w) \<Rightarrow> Some (Some (?p, m), fq_advance m r, w)
            | Some (None, w) \<Rightarrow> if rr_more r then None
                else (case rr_deactivate r of None \<Rightarrow> None | Some r \<Rightarrow> fq_loop pipe_read r w))"
    using pos arr_get_cur [OF Suc.prems(5) pos] by (subst fq_loop.simps) (simp add: fq_advance_def split: option.splits)
  show ?case
  proof (cases ms)
    case (Cons m ms')
    then obtain w1 where w1: "pipe_read ?p w = Some (Some m, w1)" using pipe_read_delivers ms by blast
    then have "w' = w1" using Suc.prems(1) unfolding run by simp
    then show ?thesis using pipe_read_same_out [OF ms w1 p(2) Suc.prems(3)] by simp
  next
    case Nil
    then obtain w1 where w1: "pipe_read ?p w = Some (None, w1)" "delivers w1 ?p []"
      "\<forall>q xs. q \<noteq> ?p \<longrightarrow> delivers w q xs \<longrightarrow> delivers w1 q xs" using pipe_read_delivers_nothing ms by blast
    obtain r1 where r1: "rr_deactivate r = Some r1" "rr_ok r1" "rr_all r1 = rr_all r" "rr_active r1 = rr_active r - 1"
      using rr_deactivate_ok [OF Suc.prems(5) pos] by auto
    have s: "same_out S w w1" using pipe_read_same_out [OF ms w1(1) p(2) Suc.prems(3)] .
    have del: "\<forall>q \<in> rr_all r1. \<exists>ms. delivers w1 q ms"
    proof
      fix q assume "q \<in> rr_all r1"
      then obtain xs where "delivers w q xs" using Suc.prems(4) r1(3) by auto
      then show "\<exists>ms. delivers w1 q ms" using w1(2,3) by (cases "q = ?p") blast+
    qed
    have "fq_loop pipe_read r1 w1 = Some (res, r', w')" using Suc.prems(1) w1(1) r1(1) unfolding run by (simp split: if_splits)
    moreover have "n = rr_active r1" using r1(4) Suc.hyps(2) by simp
    ultimately have "same_out S w1 w'" using Suc.hyps(1) [of r1 w1] r1(2,3) Suc.prems(2,3) s del unfolding same_out_def by blast
    then show ?thesis using s same_out_trans by blast
  qed
qed

lemma close_in_same: "close_in m w = Some w' \<Longrightarrow> same_out S w w' \<and> same_in S w w'"
  unfolding close_in_def by (auto split: Option.bind_splits)

lemma fq_recvpipe_same_out:
  assumes "fq_recvpipe pipe_read close_in m r w = Some (rc, m', src, r', w')" and "feeds r w qs" and "rr_all r \<subseteq> S" and "apart S w"
  shows "same_out S w w'"
proof -
  obtain w1 res where w1: "close_in m w = Some w1" "fq_loop pipe_read r w1 = Some (res, r', w')"
    using assms(1) unfolding fq_recvpipe_def by (auto split: Option.bind_splits option.splits)
  then obtain h where h: "w1 = w\<lparr>mheap := h\<rparr>" unfolding close_in_def by (auto split: Option.bind_splits)
  have "\<forall>p \<in> rr_all r. \<exists>ms. delivers w1 p ms" "rr_ok r" using assms(2) h unfolding feeds_def by auto
  then have "same_out S w1 w'" using fq_loop_same_out [OF w1(2) assms(3)] assms(4) h by simp
  moreover have "same_out S w w1" using h by simp
  ultimately show ?thesis using same_out_trans by blast
qed

subsection \<open>Writing\<close>

lemma pipe_check_write_same_in:
  assumes "pipe_check_write p w = Some (ok, w')" and "writable w p" and "p \<in> S" and "apart S w"
  shows "same_in S w w'"
proof -
  obtain q a where q: "pipes w p = Some q" "outpipe q = Some a" using assms(2) unfolding writable_def by blast
  consider "w' = w" | "w' = set_pipe p (q\<lparr>out_active := False\<rparr>) w"
    using assms(1) q(1) unfolding pipe_check_write_def by (auto split: if_splits)
  then show ?thesis
  proof cases
    case 2
    show ?thesis by (rule same_inI [of p q "q\<lparr>out_active := False\<rparr>" w w' a]) (use 2 q assms(3,4) in \<open>auto simp: port_step_def\<close>)
  qed simp
qed

lemma pipe_write_same_in:
  assumes "pipe_write p m w = Some (ok, m', w')" and "writable w p" and "p \<in> S" and "apart S w"
  shows "same_in S w w'"
proof -
  obtain w1 where w1: "pipe_check_write p w = Some (ok, w1)" "ok \<longrightarrow> w1 = w"
    using pipe_check_write_room [OF assms(2)] assms(1) unfolding pipe_write_def by (auto split: if_splits Option.bind_splits)
  show ?thesis
  proof (cases ok)
    case False
    then have "w' = w1" using assms(1) w1(1) by (simp add: pipe_write_def)
    then show ?thesis using pipe_check_write_same_in [OF w1(1) assms(2-4)] by simp
  next
    case True
    obtain q a f un inc z where q: "pipes w p = Some q" "outpipe q = Some a" "up_view w a f un inc z"
      using assms(2) unfolding writable_def by blast
    obtain u where u: "up_write a m (msg_more m) w = Some (m, set_upipe a u w)" using up_write_view [OF q(3)] by blast
    define q' where "q' = (if \<not> msg_more m \<and> \<not> msg_is_identity m then q\<lparr>msgs_written := msgs_written q + 1\<rparr> else q)"
    have w': "pipes w' = (pipes w)(p \<mapsto> q')" "\<And>b. b \<noteq> a \<Longrightarrow> upipes w' b = upipes w b"
      using assms(1) True w1 q u by (auto simp: pipe_write_def q'_def Let_def fun_upd_idem split: if_splits)
    show ?thesis by (rule same_inI [of p q q' w w' a]) (use w' q assms(3,4) in \<open>auto simp: port_step_def q'_def\<close>)
  qed
qed

lemma pipe_flush_same_in:
  assumes "pipe_flush p w = Some w'" and "writable w p" and "p \<in> S" and "apart S w"
  shows "same_in S w w'"
proof -
  obtain q a f un inc z pr where q: "pipes w p = Some q" "outpipe q = Some a" "up_view w a f un inc z" "peer q = Some pr"
    using assms(2) unfolding writable_def by blast
  show ?thesis
  proof (cases "state q = term_ack_sent")
    case True
    then have "w' = w" using assms(1) q(1) by (simp add: pipe_flush_def)
    then show ?thesis by simp
  next
    case False
    obtain u ok where u: "up_flush a w = Some (ok, set_upipe a u w)" using up_flush_view [OF q(3)] by blast
    have w': "pipes w' = (pipes w)(p \<mapsto> q)" "\<And>b. b \<noteq> a \<Longrightarrow> upipes w' b = upipes w b"
      using assms(1) False q u by (auto simp: pipe_flush_def send_cmd_def fun_upd_idem split: if_splits)
    show ?thesis by (rule same_inI [of p q q w w' a]) (use w' q assms(3,4) in \<open>auto simp: port_step_def\<close>)
  qed
qed

text \<open>A part that is not the last one of its message leaves room for the others.\<close>

lemma pipe_write_more_room:
  assumes "pipe_write p m w = Some (ok, m', w')" and "writable w p" and "has_room w p" and "msg_more m"
  shows "has_room w' p"
proof -
  have w1: "pipe_check_write p w = Some (True, w)" using pipe_check_write_room [OF assms(2)] assms(3) by auto
  obtain q a f un inc z where q: "pipes w p = Some q" "outpipe q = Some a" "up_view w a f un inc z"
    using assms(2) unfolding writable_def by blast
  obtain u where u: "up_write a m (msg_more m) w = Some (m, set_upipe a u w)" using up_write_view [OF q(3)] by blast
  have "w' = set_upipe a u w" using assms(1,4) w1 q u by (simp add: pipe_write_def)
  then show ?thesis using assms(3) by (simp add: has_room_def)
qed

end
