(* ===== verification/Router.thy ===== *)
theory Router
  imports Socket_Common Duplex "HOL-Library.AList"
begin

text \<open>
  The socket \<open>router_t\<close> (\<^verbatim>\<open>src/router.cpp\<close>). Each pipe gets the identity that its peer sends first, or a
  generated one. A received message is preceded by a part with the identity of its pipe; the first
  part of a message that is sent is the identity of the pipe for the rest.

  The map \<open>outpipes\<close> is an association list. \<open>ro_raw_option\<close> is \<open>options.raw_sock\<close> and
  \<open>ro_recv_identity\<close> is \<open>options.recv_identity\<close>.
\<close>

record router_t =
  ro_fq :: fq_t
  prefetched :: bool
  identity_sent :: bool
  prefetched_id :: msg_t
  prefetched_msg :: msg_t
  more_in :: bool
  anonymous_pipes :: "addr set"
  outpipes :: "(blob_t \<times> (addr \<times> bool)) list"
  current_out :: "addr option"
  more_out :: bool
  next_peer_id :: uint32
  ro_mandatory :: bool
  ro_raw_sock :: bool
  ro_probe_router :: bool
  ro_recv_identity :: bool
  ro_raw_option :: bool

text \<open>\<open>seed\<close> is the result of \<open>generate_random\<close>.\<close>

definition router_new :: "uint32 \<Rightarrow> router_t" where
  "router_new seed = \<lparr>ro_fq = fq_new, prefetched = False, identity_sent = False, prefetched_id = msg_init, prefetched_msg = msg_init,
     more_in = False, anonymous_pipes = {}, outpipes = [], current_out = None, more_out = False, next_peer_id = seed,
     ro_mandatory = False, ro_raw_sock = False, ro_probe_router = False, ro_recv_identity = True, ro_raw_option = False\<rparr>"

definition router_destroy :: "router_t \<Rightarrow> world \<Rightarrow> world option" where
  "router_destroy r w = do {
     zmq_assert (anonymous_pipes r = {});
     zmq_assert (outpipes r = []);
     w \<leftarrow> close_ignored (prefetched_id r) w;
     close_ignored (prefetched_msg r) w
   }"

text \<open>The five bytes of a generated identity.\<close>

definition generated_identity :: "uint32 \<Rightarrow> blob_t" where
  "generated_identity n = 0 # put_uint32 n"

text \<open>The identity of a peer, the next number to use, or nothing if the peer is not known yet or a duplicate.\<close>

definition peer_identity :: "addr \<Rightarrow> router_t \<Rightarrow> world \<Rightarrow> ((blob_t \<times> uint32) option \<times> world) option" where
  "peer_identity p r w =
     (if ro_raw_option r then Some (Some (generated_identity (next_peer_id r), next_peer_id r + 1), w)
      else do {
        (res, w) \<leftarrow> pipe_read p w;
        (case res of
           None \<Rightarrow> Some (None, w)
         | Some m \<Rightarrow> do {
             d \<leftarrow> msg_data m (mheap w);
             w \<leftarrow> close_ignored m w;
             Some (if length d = 0 then Some (generated_identity (next_peer_id r), next_peer_id r + 1)
                   else if map_of (outpipes r) d \<noteq> None then None
                   else Some (d, next_peer_id r), w)
           })
      })"

definition identify_peer :: "addr \<Rightarrow> router_t \<Rightarrow> world \<Rightarrow> (bool \<times> router_t \<times> world) option" where
  "identify_peer p r w = do {
     (res, w) \<leftarrow> peer_identity p r w;
     (case res of
        None \<Rightarrow> Some (False, r, w)
      | Some (ident, n) \<Rightarrow> do {
          w \<leftarrow> pipe_set_identity p ident w;
          zmq_assert (map_of (outpipes r) ident = None);
          Some (True, r\<lparr>next_peer_id := n, outpipes := AList.update ident (p, True) (outpipes r)\<rparr>, w)
        })
   }"

text \<open>The empty message that a socket with \<open>ZMQ_PROBE_ROUTER\<close> sends to a new peer.\<close>

definition send_probe :: "addr \<Rightarrow> world \<Rightarrow> world option" where
  "send_probe p w = do {
     (_, m, w) \<leftarrow> pipe_write p msg_init w;
     w \<leftarrow> pipe_flush p w;
     close_in m w
   }"

definition router_xattach_pipe :: "addr \<Rightarrow> router_t \<Rightarrow> world \<Rightarrow> (router_t \<times> world) option" where
  "router_xattach_pipe p r w = do {
     w \<leftarrow> (if ro_probe_router r then send_probe p w else Some w);
     (identity_ok, r, w) \<leftarrow> identify_peer p r w;
     if identity_ok then do { f \<leftarrow> fq_attach p (ro_fq r); Some (r\<lparr>ro_fq := f\<rparr>, w) }
     else Some (r\<lparr>anonymous_pipes := insert p (anonymous_pipes r)\<rparr>, w)
   }"

definition router_xsetsockopt :: "int \<Rightarrow> byte list \<Rightarrow> router_t \<Rightarrow> errno_t option \<times> router_t" where
  "router_xsetsockopt opt v r =
     (let value = opt_value v in
      if opt = ZMQ_ROUTER_RAW \<and> is_int v \<and> value \<ge> 0
      then (None, let r = r\<lparr>ro_raw_sock := (value \<noteq> 0)\<rparr> in if value \<noteq> 0 then r\<lparr>ro_recv_identity := False, ro_raw_option := True\<rparr> else r)
      else if opt = ZMQ_ROUTER_MANDATORY \<and> is_int v \<and> value \<ge> 0 then (None, r\<lparr>ro_mandatory := (value \<noteq> 0)\<rparr>)
      else if opt = ZMQ_PROBE_ROUTER \<and> is_int v \<and> value \<ge> 0 then (None, r\<lparr>ro_probe_router := (value \<noteq> 0)\<rparr>)
      else (Some EINVAL, r))"

definition router_xpipe_terminated :: "addr \<Rightarrow> router_t \<Rightarrow> world \<Rightarrow> router_t option" where
  "router_xpipe_terminated p r w =
     (if p \<in> anonymous_pipes r then Some (r\<lparr>anonymous_pipes := anonymous_pipes r - {p}\<rparr>)
      else do {
        ident \<leftarrow> pipe_get_identity p w;
        zmq_assert (map_of (outpipes r) ident \<noteq> None);
        f \<leftarrow> fq_pipe_terminated p (ro_fq r);
        Some (r\<lparr>outpipes := AList.delete ident (outpipes r), ro_fq := f,
               current_out := (if Some p = current_out r then None else current_out r)\<rparr>)
      })"

definition router_xread_activated :: "addr \<Rightarrow> router_t \<Rightarrow> world \<Rightarrow> (router_t \<times> world) option" where
  "router_xread_activated p r w =
     (if p \<notin> anonymous_pipes r then do { f \<leftarrow> fq_activated p (ro_fq r); Some (r\<lparr>ro_fq := f\<rparr>, w) }
      else do {
        (identity_ok, r, w) \<leftarrow> identify_peer p r w;
        if identity_ok
        then do { f \<leftarrow> fq_attach p (ro_fq r); Some (r\<lparr>anonymous_pipes := anonymous_pipes r - {p}, ro_fq := f\<rparr>, w) }
        else Some (r, w)
      })"

definition router_xwrite_activated :: "addr \<Rightarrow> router_t \<Rightarrow> router_t option" where
  "router_xwrite_activated p r =
     (case find (\<lambda>e. fst (snd e) = p) (outpipes r) of
        None \<Rightarrow> None
      | Some (ident, _, act) \<Rightarrow> do {
          zmq_assert (\<not> act);
          Some (r\<lparr>outpipes := AList.update ident (p, True) (outpipes r)\<rparr>)
        })"

text \<open>
  The first part of a message: the pipe of the identity is looked up, and the part is consumed. An
  error leaves it with the caller.
\<close>

definition router_route :: "msg_t \<Rightarrow> router_t \<Rightarrow> world \<Rightarrow> (errno_t option \<times> router_t \<times> world) option" where
  "router_route m r w = do {
     ident \<leftarrow> msg_data m (mheap w);
     (case map_of (outpipes r) ident of
        Some (p, _) \<Rightarrow> do {
          (ok, w) \<leftarrow> pipe_check_write p w;
          Some (if ok then (None, r\<lparr>more_out := True, current_out := Some p\<rparr>, w)
                else let r = r\<lparr>outpipes := AList.update ident (p, False) (outpipes r), current_out := None\<rparr>
                     in if ro_mandatory r then (Some EAGAIN, r\<lparr>more_out := False\<rparr>, w) else (None, r\<lparr>more_out := True\<rparr>, w))
        }
      | None \<Rightarrow> Some (if ro_mandatory r then (Some EHOSTUNREACH, r\<lparr>more_out := False\<rparr>, w) else (None, r\<lparr>more_out := True\<rparr>, w)))
   }"

definition router_xsend :: "msg_t \<Rightarrow> router_t \<Rightarrow> world \<Rightarrow> (errno_t option \<times> msg_t \<times> router_t \<times> world) option" where
  "router_xsend m r w =
     (if \<not> more_out r then do {
        zmq_assert (current_out r = None);
        (rc, r, w) \<leftarrow> (if msg_more m then router_route m r w else Some (None, r, w));
        if rc \<noteq> None then Some (rc, m, r, w)
        else do { w \<leftarrow> close_in m w; Some (None, msg_init, r, w) }
      }
      else do {
        let m = (if ro_raw_option r then msg_reset_flags flag_more m else m);
        let r = r\<lparr>more_out := msg_more m\<rparr>;
        (case current_out r of
           Some p \<Rightarrow> do {
             empty \<leftarrow> (if ro_raw_sock r then map_option ((=) 0) (msg_size m (mheap w)) else Some False);
             if empty then do {
               w \<leftarrow> pipe_terminate p False w;
               w \<leftarrow> close_in m w;
               Some (None, msg_init, r\<lparr>current_out := None\<rparr>, w)
             }
             else do {
               (ok, m, w) \<leftarrow> pipe_write p m w;
               if \<not> ok then Some (None, msg_init, r\<lparr>current_out := None\<rparr>, w)
               else if \<not> more_out r then do { w \<leftarrow> pipe_flush p w; Some (None, msg_init, r\<lparr>current_out := None\<rparr>, w) }
               else Some (None, msg_init, r, w)
             }
           }
         | None \<Rightarrow> do { w \<leftarrow> close_in m w; Some (None, msg_init, r, w) })
      })"

text \<open>Messages that carry an identity again, after a reconnection, are skipped.\<close>

partial_function (option) router_recvpipe ::
  "msg_t \<Rightarrow> fq_t \<Rightarrow> world \<Rightarrow> (errno_t option \<times> msg_t \<times> addr option \<times> fq_t \<times> world) option" where
  "router_recvpipe m f w =
     (case fq_recvpipe pipe_read close_in m f w of
        None \<Rightarrow> None
      | Some (rc, m, p, f, w) \<Rightarrow>
          if rc = None \<and> msg_is_identity m then router_recvpipe m f w else Some (rc, m, p, f, w))"

text \<open>A message part with the identity of a pipe.\<close>

definition identity_msg :: "(nat \<Rightarrow> bool) \<Rightarrow> addr option \<Rightarrow> world \<Rightarrow> (msg_t \<times> world) option" where
  "identity_msg oom p w = do {
     p \<leftarrow> p;
     ident \<leftarrow> pipe_get_identity p w;
     (m, w) \<leftarrow> new_msg oom ident w;
     Some (msg_set_flags flag_more m, w)
   }"

definition router_xrecv ::
  "(nat \<Rightarrow> bool) \<Rightarrow> msg_t \<Rightarrow> router_t \<Rightarrow> world \<Rightarrow> (errno_t option \<times> msg_t \<times> router_t \<times> world) option" where
  "router_xrecv oom m r w =
     (if prefetched r then do {
        (rc, m, src, h) \<leftarrow> msg_move m (if \<not> identity_sent r then prefetched_id r else prefetched_msg r) (mheap w);
        zmq_assert (rc = None);
        let r = (if \<not> identity_sent r then r\<lparr>prefetched_id := src, identity_sent := True\<rparr>
                 else r\<lparr>prefetched_msg := src, prefetched := False\<rparr>);
        Some (None, m, r\<lparr>more_in := msg_more m\<rparr>, w\<lparr>mheap := h\<rparr>)
      }
      else do {
        (rc, m, p, f, w) \<leftarrow> router_recvpipe m (ro_fq r) w;
        let r = r\<lparr>ro_fq := f\<rparr>;
        if rc \<noteq> None then Some (rc, m, r, w)
        else if more_in r then do { zmq_assert (p \<noteq> None); Some (None, m, r\<lparr>more_in := msg_more m\<rparr>, w) }
        else do {
          zmq_assert (p \<noteq> None);
          (rc, pm, _, h) \<leftarrow> msg_move (prefetched_msg r) m (mheap w);
          zmq_assert (rc = None);
          (m, w) \<leftarrow> identity_msg oom p (w\<lparr>mheap := h\<rparr>);
          Some (None, m, r\<lparr>prefetched_msg := pm, prefetched := True, identity_sent := True\<rparr>, w)
        }
      })"

definition router_rollback :: "router_t \<Rightarrow> world \<Rightarrow> (router_t \<times> world) option" where
  "router_rollback r w = (case current_out r of
      Some p \<Rightarrow> do { w \<leftarrow> pipe_rollback p w; Some (r\<lparr>current_out := None, more_out := False\<rparr>, w) }
    | None \<Rightarrow> Some (r, w))"

definition router_xhas_in :: "(nat \<Rightarrow> bool) \<Rightarrow> router_t \<Rightarrow> world \<Rightarrow> (bool \<times> router_t \<times> world) option" where
  "router_xhas_in oom r w =
     (if more_in r then Some (True, r, w)
      else if prefetched r then Some (True, r, w)
      else do {
        (rc, m, p, f, w) \<leftarrow> router_recvpipe (prefetched_msg r) (ro_fq r) w;
        let r = r\<lparr>ro_fq := f, prefetched_msg := m\<rparr>;
        if rc \<noteq> None then Some (False, r, w)
        else do {
          zmq_assert (p \<noteq> None);
          (im, w) \<leftarrow> identity_msg oom p w;
          Some (True, r\<lparr>prefetched_id := im, prefetched := True, identity_sent := False\<rparr>, w)
        }
      })"

definition router_xhas_out :: bool where
  "router_xhas_out = True"

subsection \<open>Sending\<close>

definition ro_pipes :: "router_t \<Rightarrow> addr set" where
  "ro_pipes r = (\<lambda>e. fst (snd e)) ` set (outpipes r)"

definition router_inv :: "router_t \<Rightarrow> world \<Rightarrow> bool" where
  "router_inv r w \<longleftrightarrow> rr_ok (ro_fq r) \<and> rr_all (ro_fq r) = ro_pipes r \<and> distinct (map fst (outpipes r)) \<and>
     (\<forall>e \<in> set (outpipes r). pipe_get_identity (fst (snd e)) w = Some (fst e)) \<and> anonymous_pipes r \<inter> ro_pipes r = {} \<and>
     (\<forall>p. current_out r = Some p \<longrightarrow> p \<in> ro_pipes r \<and> more_out r) \<and> (\<forall>p \<in> ro_pipes r. writable w p) \<and> apart (ro_pipes r) w"

text \<open>All parts of a message, as long as they are accepted.\<close>

fun router_send_all :: "msg_t list \<Rightarrow> router_t \<Rightarrow> world \<Rightarrow> (router_t \<times> world) option" where
  "router_send_all [] r w = Some (r, w)"
| "router_send_all (m # ms) r w = do {
     (rc, _, r, w) \<leftarrow> router_xsend m r w;
     if rc \<noteq> None then None else router_send_all ms r w
   }"

lemma router_inv_same:
  assumes "router_inv r w" and "same_in (ro_pipes r) w w'" and "\<forall>p \<in> ro_pipes r. writable w' p"
    and "ro_fq r' = ro_fq r" and "map fst (outpipes r') = map fst (outpipes r)" 
    and "map (\<lambda>e. fst (snd e)) (outpipes r') = map (\<lambda>e. fst (snd e)) (outpipes r)"
    and "anonymous_pipes r' = anonymous_pipes r" and "\<forall>p. current_out r' = Some p \<longrightarrow> p \<in> ro_pipes r \<and> more_out r'"
  shows "router_inv r' w' \<and> ro_pipes r' = ro_pipes r"
proof -
  have p: "ro_pipes r' = ro_pipes r" using arg_cong [OF assms(6), of set] by (simp add: ro_pipes_def)
  have "pipe_get_identity (fst (snd e)) w' = Some (fst e)" if e: "e \<in> set (outpipes r')" for e
  proof -
    obtain i where i: "i < length (outpipes r')" "e = outpipes r' ! i" using e by (auto simp: in_set_conv_nth)
    have l: "length (outpipes r') = length (outpipes r)" using assms(5) by (metis length_map)
    have f: "fst (outpipes r' ! i) = fst (outpipes r ! i)" "fst (snd (outpipes r' ! i)) = fst (snd (outpipes r ! i))"
      using arg_cong [OF assms(5), of "\<lambda>l. l ! i"] arg_cong [OF assms(6), of "\<lambda>l. l ! i"] i(1) l by simp_all
    have m: "outpipes r ! i \<in> set (outpipes r)" using i(1) l by simp
    then have "fst (snd (outpipes r ! i)) \<in> ro_pipes r" by (simp add: ro_pipes_def)
    then show ?thesis using assms(1,2) f i(2) m unfolding router_inv_def same_in_def by simp
  qed
  then show ?thesis using assms p unfolding router_inv_def same_in_def by simp
qed

lemma router_first_part:
  assumes "router_inv r w" and "\<not> more_out r" and "msg_more m" and "msg_data m (mheap w) = Some i"
    and "map_of (outpipes r) i = Some (p, act)" and "has_room w p"
    and "refs_ok (mheap w) (add_mset m R)" and "msg_check m"
  shows "\<exists>h. router_xsend m r w = Some (None, msg_init, r\<lparr>more_out := True, current_out := Some p\<rparr>, w\<lparr>mheap := h\<rparr>) \<and> refs_ok h R \<and>
    p \<in> ro_pipes r \<and> (\<forall>x \<in># R. msg_data x h = msg_data x (mheap w))"
proof -
  have p: "p \<in> ro_pipes r" using map_of_SomeD [OF assms(5)] by (force simp: ro_pipes_def)
  then have "writable w p" using assms(1) by (simp add: router_inv_def)
  then have cw: "pipe_check_write p w = Some (True, w)" using pipe_check_write_room [of w p] assms(6) by auto
  obtain h where h: "close_in m w = Some (w\<lparr>mheap := h\<rparr>)" "refs_ok h R" "\<forall>x \<in># R. msg_data x h = msg_data x (mheap w)"
    using close_in_refs_data [OF assms(7,8)] by blast
  have c: "current_out r = None" using assms(1,2) by (cases "current_out r") (auto simp: router_inv_def)
  have "router_xsend m r w = Some (None, msg_init, r\<lparr>more_out := True, current_out := Some p\<rparr>, w\<lparr>mheap := h\<rparr>)"
    using assms(2-5) cw h(1) c by (simp add: router_xsend_def router_route_def)
  with h p show ?thesis by blast
qed

lemma router_next_part:
  assumes "router_inv r w" and "more_out r" and "current_out r = Some p" and "has_room w p" and "\<not> ro_raw_option r" and "\<not> ro_raw_sock r"
  shows "\<exists>w'. router_xsend m r w = Some (None, msg_init, r\<lparr>more_out := msg_more m, current_out := (if msg_more m then Some p else None)\<rparr>, w') \<and>
    mheap w' = mheap w \<and> (\<forall>q xs. out_log w q xs \<longrightarrow> out_log w' q (if q = p then xs @ [m] else xs)) \<and>
    (msg_more m \<longrightarrow> has_room w' p) \<and> same_in (ro_pipes r) w w' \<and> (\<forall>q. writable w q \<longrightarrow> writable w' q)"
proof -
  have p: "p \<in> ro_pipes r" "writable w p" "apart (ro_pipes r) w" using assms(1,3) by (auto simp: router_inv_def)
  obtain w1 where w1: "pipe_write p m w = Some (True, m, w1)" "\<forall>q. writable w q \<longrightarrow> writable w1 q" using pipe_write_room [OF p(2), of m] assms(4) by auto
  note l1 = pipe_write_log [OF p(2) w1(1)]
  have s1: "same_in (ro_pipes r) w w1" by (rule pipe_write_same_in [OF w1(1) p(2,1,3)])
  show ?thesis
  proof (cases "msg_more m")
    case True
    have "router_xsend m r w = Some (None, msg_init, r\<lparr>more_out := True\<rparr>, w1)" using assms True w1(1) by (simp add: router_xsend_def)
    moreover have "r\<lparr>more_out := True\<rparr> = r\<lparr>more_out := msg_more m, current_out := (if msg_more m then Some p else None)\<rparr>"
      using True assms(3) by simp
    ultimately show ?thesis using l1 s1 w1(2) pipe_write_more_room [OF w1(1) p(2) assms(4) True] by auto
  next
    case False
    have wr: "writable w1 p" using w1(2) p(2) by blast
    obtain w2 where w2: "pipe_flush p w1 = Some w2" "\<forall>q. writable w1 q \<longrightarrow> writable w2 q" using pipe_flush_room [OF wr] by blast
    note l2 = pipe_flush_log [OF wr w2(1)]
    have "apart (ro_pipes r) w1" using s1 p(3) by (simp add: same_in_def)
    then have s2: "same_in (ro_pipes r) w w2" using pipe_flush_same_in [OF w2(1) wr p(1)] s1 same_in_trans by blast
    have "router_xsend m r w = Some (None, msg_init, r\<lparr>more_out := False, current_out := None\<rparr>, w2)"
      using assms False w1(1) w2(1) by (simp add: router_xsend_def)
    then show ?thesis using False l1 l2 s2 w1(2) w2(2) by auto
  qed
qed

lemma router_send_rest:
  assumes "router_inv r w" and "more_out r" and "current_out r = Some p" and "has_room w p" and "\<not> ro_raw_option r" and "\<not> ro_raw_sock r"
    and "whole ms"
  shows "\<exists>w'. router_send_all ms r w = Some (r\<lparr>more_out := False, current_out := None\<rparr>, w') \<and>
    mheap w' = mheap w \<and> (\<forall>q xs. out_log w q xs \<longrightarrow> out_log w' q (if q = p then xs @ ms else xs)) \<and>
    same_in (ro_pipes r) w w' \<and> (\<forall>q. writable w q \<longrightarrow> writable w' q)"
  using assms
proof (induction ms arbitrary: r w)
  case Nil
  then show ?case by (simp add: whole_def)
next
  case (Cons m ms)
  let ?r = "r\<lparr>more_out := msg_more m, current_out := (if msg_more m then Some p else None)\<rparr>"
  obtain w1 where w1: "router_xsend m r w = Some (None, msg_init, ?r, w1)" "mheap w1 = mheap w"
    "\<forall>q xs. out_log w q xs \<longrightarrow> out_log w1 q (if q = p then xs @ [m] else xs)"
    "msg_more m \<longrightarrow> has_room w1 p" "same_in (ro_pipes r) w w1" "\<forall>q. writable w q \<longrightarrow> writable w1 q"
    using router_next_part [OF Cons.prems(1-6), of m] by blast
  show ?case
  proof (cases "msg_more m")
    case False
    then have "ms = []" using whole_nomore [OF Cons.prems(7)] by blast
    then show ?thesis using w1 False unfolding \<open>ms = []\<close> by (intro exI [of _ w1]) (simp split del: if_split)
  next
    case True
    have ne: "ms \<noteq> []" using Cons.prems(7) True by (auto simp: whole_def)
    then have wh: "whole ms" using Cons.prems(7) by (simp add: whole_def)
    have r: "?r = r" using True Cons.prems(2,3) by simp
    have "router_inv r w1" using router_inv_same [OF Cons.prems(1) w1(5), of r] w1(6) Cons.prems(1) by (simp add: router_inv_def)
    from Cons.IH [OF this Cons.prems(2,3) _ Cons.prems(5,6) wh] w1(4) True
    obtain w2 where w2: "router_send_all ms r w1 = Some (r\<lparr>more_out := False, current_out := None\<rparr>, w2)" "mheap w2 = mheap w1"
      "\<forall>q xs. out_log w1 q xs \<longrightarrow> out_log w2 q (if q = p then xs @ ms else xs)" "same_in (ro_pipes r) w1 w2"
      "\<forall>q. writable w1 q \<longrightarrow> writable w2 q" by blast
    have "out_log w2 q (if q = p then xs @ m # ms else xs)" if "out_log w q xs" for q xs
      using w2(3) [rule_format, OF w1(3) [rule_format, OF that]] by (cases "q = p") simp_all
    moreover have "router_send_all (m # ms) r w = router_send_all ms r w1" using w1(1) r by simp
    moreover have "same_in (ro_pipes r) w w2" using w1(5) w2(4) same_in_trans by blast
    ultimately show ?thesis using w1(2,6) w2(1,2,5) by (intro exI [of _ w2]) (simp split del: if_split)
  qed
qed

lemma router_send_message:
  assumes "router_inv r w" and "\<not> more_out r" and "\<not> ro_raw_option r" and "\<not> ro_raw_sock r"
    and "msg_more m" and "msg_data m (mheap w) = Some i" and "map_of (outpipes r) i = Some (p, act)" and "has_room w p"
    and "refs_ok (mheap w) (add_mset m (mset ms + R))" and "msg_check m" and "whole ms"
  shows "\<exists>w'. router_send_all (m # ms) r w = Some (r, w') \<and> router_inv r w' \<and>
    (\<forall>q xs. out_log w q xs \<longrightarrow> out_log w' q (if q = p then xs @ ms else xs)) \<and> refs_ok (mheap w') (mset ms + R) \<and>
    (\<forall>x \<in># mset ms + R. msg_data x (mheap w') = msg_data x (mheap w)) \<and> same_in (ro_pipes r) w w'"
proof -
  obtain h where h: "router_xsend m r w = Some (None, msg_init, r\<lparr>more_out := True, current_out := Some p\<rparr>, w\<lparr>mheap := h\<rparr>)"
    "refs_ok h (mset ms + R)" "p \<in> ro_pipes r" "\<forall>x \<in># mset ms + R. msg_data x h = msg_data x (mheap w)"
    using router_first_part [OF assms(1,2,5-10)] by blast
  let ?r = "r\<lparr>more_out := True, current_out := Some p\<rparr>" and ?w = "w\<lparr>mheap := h\<rparr>"
  have wr: "\<forall>p \<in> ro_pipes r. writable w p" using assms(1) by (simp add: router_inv_def)
  have i: "router_inv ?r ?w" "ro_pipes ?r = ro_pipes r"
    using router_inv_same [OF assms(1), of ?w ?r] h(3) wr by simp_all
  obtain w' where w': "router_send_all ms ?r ?w = Some (?r\<lparr>more_out := False, current_out := None\<rparr>, w')" "mheap w' = h"
    "\<forall>q xs. out_log w q xs \<longrightarrow> out_log w' q (if q = p then xs @ ms else xs)" "same_in (ro_pipes r) ?w w'" "\<forall>q. writable w q \<longrightarrow> writable w' q"
    using router_send_rest [OF i(1) _ _ _ _ _ assms(11), of p] assms(3,4,8) i(2)
    by (simp split del: if_split) (elim exE conjE, rule that, (assumption | simp)+)
  have s: "same_in (ro_pipes r) w w'" using same_in_trans [OF _ w'(4), of w] by simp
  have r: "?r\<lparr>more_out := False, current_out := None\<rparr> = r"
    using assms(1,2) by (cases "current_out r") (auto simp: router_inv_def)
  have cur: "\<forall>p. current_out r = Some p \<longrightarrow> p \<in> ro_pipes r \<and> more_out r" using assms(1) by (simp add: router_inv_def)
  have "router_inv r w'" using router_inv_same [OF assms(1) s _ refl refl refl refl] w'(5) wr cur by blast
  moreover have "router_send_all (m # ms) r w = Some (r, w')" using h(1) w'(1) r by simp
  ultimately show ?thesis using w'(2,3) h(2,4) s by (intro exI [of _ w']) (simp split del: if_split)
qed

text \<open>A first part without a route: the identity is unknown or its pipe is full.\<close>

lemma router_refused:
  assumes "router_inv r w" and "\<not> more_out r" and "msg_data m (mheap w) = Some i"
    and "\<forall>p act. map_of (outpipes r) i = Some (p, act) \<longrightarrow> \<not> has_room w p"
  shows "\<exists>r1 w1. router_route m r w =
      Some (if ro_mandatory r then (Some (if map_of (outpipes r) i = None then EHOSTUNREACH else EAGAIN), r1, w1) else (None, r1, w1)) \<and>
    r1 = r\<lparr>outpipes := outpipes r1, more_out := \<not> ro_mandatory r\<rparr> \<and> router_inv r1 w1 \<and> mheap w1 = mheap w \<and>
    (\<forall>q xs. out_log w q xs \<longrightarrow> out_log w1 q xs) \<and> map fst (outpipes r1) = map fst (outpipes r) \<and> ro_pipes r1 = ro_pipes r \<and>
    same_in (ro_pipes r) w w1 \<and> (\<forall>q. has_room w1 q = has_room w q)"
proof -
  have c: "current_out r = None" using assms(1,2) by (cases "current_out r") (auto simp: router_inv_def)
  have wr: "\<forall>p \<in> ro_pipes r. writable w p" and ap: "apart (ro_pipes r) w" using assms(1) by (simp_all add: router_inv_def)
  show ?thesis
  proof (cases "map_of (outpipes r) i")
    case None
    let ?r = "r\<lparr>more_out := \<not> ro_mandatory r\<rparr>"
    have ro: "r\<lparr>outpipes := outpipes ?r, more_out := \<not> ro_mandatory r\<rparr> = ?r" by simp
    have "router_inv ?r w" using router_inv_same [OF assms(1) same_refl(2), of ?r] wr c by simp
    then show ?thesis using None assms(3) c ro
      by (intro exI [of _ ?r] exI [of _ w]) (simp add: router_route_def ro_pipes_def)
  next
    case (Some pa)
    obtain p act where pa: "pa = (p, act)" by (cases pa)
    have p: "p \<in> ro_pipes r" "\<not> has_room w p" using map_of_SomeD [OF Some] assms(4) Some pa by (force simp: ro_pipes_def)+
    then obtain w1 where w1: "pipe_check_write p w = Some (False, w1)" "\<forall>q. writable w q \<longrightarrow> writable w1 q" "\<forall>q. has_room w1 q = has_room w q"
      using pipe_check_write_room [of w p] wr by auto
    obtain q a where q: "pipes w p = Some q" "outpipe q = Some a" using wr p(1) unfolding writable_def by blast
    have s1: "same_in (ro_pipes r) w w1" using pipe_check_write_same_in [OF w1(1) _ p(1) ap] wr p(1) by blast
    have w1w: "pipe_write p msg_init w = Some (False, msg_init, w1)" using w1(1) by (simp add: pipe_write_def)
    have wp: "writable w p" using wr p(1) by blast
    note l1 = pipe_write_log [OF wp w1w]
    let ?r = "r\<lparr>outpipes := AList.update i (p, False) (outpipes r), current_out := None, more_out := \<not> ro_mandatory r\<rparr>"
    have d: "distinct (map fst (outpipes r))" using assms(1) by (simp add: router_inv_def)
    have u: "map fst (AList.update k (x, b) xs) = map fst xs \<and> map (\<lambda>e. fst (snd e)) (AList.update k (x, b) xs) = map (\<lambda>e. fst (snd e)) xs"
      if "map_of xs k = Some (x, y)" for k x b y and xs :: "(blob_t \<times> addr \<times> bool) list" using that by (induction xs) (auto split: if_splits)
    have "router_inv ?r w1 \<and> ro_pipes ?r = ro_pipes r"
      using router_inv_same [OF assms(1) s1, of ?r] u [OF Some [unfolded pa]] w1(2) wr c by simp
    moreover have "?r = r\<lparr>outpipes := outpipes ?r, more_out := \<not> ro_mandatory r\<rparr>" using c by (cases r) simp
    ultimately show ?thesis using Some pa assms(3) w1(1,3) l1 s1 u [OF Some [unfolded pa]]
      by (intro exI [of _ ?r] exI [of _ w1]) (simp add: router_route_def Let_def)
  qed
qed

text \<open>Messages without a route.\<close>

lemma router_drop_rest:
  assumes "more_out r" and "current_out r = None" and "\<not> ro_raw_option r" and "whole ms"
    and "refs_ok (mheap w) (mset ms + R)" and "\<forall>m \<in> set ms. msg_check m"
  shows "\<exists>h. router_send_all ms r w = Some (r\<lparr>more_out := False\<rparr>, w\<lparr>mheap := h\<rparr>) \<and> refs_ok h R \<and>
    (\<forall>x \<in># R. msg_data x h = msg_data x (mheap w))"
  using assms
proof (induction ms arbitrary: r w)
  case Nil
  then show ?case by (simp add: whole_def)
next
  case (Cons m ms)
  obtain h where h: "close_in m w = Some (w\<lparr>mheap := h\<rparr>)" "refs_ok h (mset ms + R)"
    "\<forall>x \<in># mset ms + R. msg_data x h = msg_data x (mheap w)"
    using close_in_refs_data [of w m "mset ms + R"] Cons.prems(5,6) by auto
  have run: "router_xsend m r w = Some (None, msg_init, r\<lparr>more_out := msg_more m\<rparr>, w\<lparr>mheap := h\<rparr>)"
    using Cons.prems(1-3) h(1) by (simp add: router_xsend_def)
  show ?case
  proof (cases "msg_more m")
    case False
    then have "ms = []" using whole_nomore [OF Cons.prems(4)] by blast
    then show ?thesis using run h(2,3) False by (intro exI [of _ h]) simp
  next
    case True
    have "ms \<noteq> []" using Cons.prems(4) True by (auto simp: whole_def)
    then have wh: "whole ms" using Cons.prems(4) by (simp add: whole_def)
    have r: "r\<lparr>more_out := msg_more m\<rparr> = r" using True Cons.prems(1) by simp
    obtain h2 where "router_send_all ms r (w\<lparr>mheap := h\<rparr>) = Some (r\<lparr>more_out := False\<rparr>, w\<lparr>mheap := h2\<rparr>)" "refs_ok h2 R"
      "\<forall>x \<in># R. msg_data x h2 = msg_data x h"
      using Cons.IH [of r "w\<lparr>mheap := h\<rparr>"] Cons.prems wh h(2) by auto
    then show ?thesis using run r h(3) by (intro exI [of _ h2]) simp
  qed
qed

subsection \<open>Attaching\<close>

lemma apart_mono: "apart S w \<Longrightarrow> T \<subseteq> S \<Longrightarrow> apart T w"
  unfolding apart_def by blast

lemma distinct_update_new: "map_of xs k = None \<Longrightarrow> AList.update k v xs = xs @ [(k, v)]"
  by (induction xs) (auto split: if_splits)

lemma map_of_None_notin: "map_of xs k = None \<Longrightarrow> k \<notin> fst ` set xs"
  by (simp add: map_of_eq_None_iff)

text \<open>A pipe from which an identity can be read and that is not in use.\<close>

lemma router_identify:
  assumes "router_inv r w" and "\<not> ro_raw_option r" and "p \<notin> ro_pipes r" and "writable w p" and "apart S w" and "insert p (ro_pipes r) \<subseteq> S"
    and "delivers w p (m # ms)" and "msg_data m (mheap w) = Some d" and "refs_ok (mheap w) (add_mset m R)" and "msg_check m"
    and "ident = (if d = [] then generated_identity (next_peer_id r) else d)" and "map_of (outpipes r) ident = None"
  shows "\<exists>w' n. identify_peer p r w = Some (True, r\<lparr>next_peer_id := n, outpipes := outpipes r @ [(ident, (p, True))]\<rparr>, w') \<and>
    (d \<noteq> [] \<longrightarrow> n = next_peer_id r) \<and> refs_ok (mheap w') R \<and> delivers w' p ms \<and> (\<forall>q \<in> S. q \<noteq> p \<longrightarrow> (\<forall>xs. delivers w q xs \<longrightarrow> delivers w' q xs)) \<and>
    (\<forall>x \<in># R. msg_data x (mheap w') = msg_data x (mheap w)) \<and> apart S w' \<and>
    pipe_get_identity p w' = Some ident \<and> (\<forall>q. q \<noteq> p \<longrightarrow> q \<in> S \<longrightarrow> pipe_get_identity q w' = pipe_get_identity q w) \<and>
    (\<forall>q \<in> S. (writable w q \<longrightarrow> writable w' q) \<and> has_room w' q = has_room w q \<and> (\<forall>xs. out_log w q xs \<longrightarrow> out_log w' q xs))"
proof -
  have pS: "p \<in> S" using assms(6) by simp
  obtain w1 where w1: "pipe_read p w = Some (Some m, w1)" "delivers w1 p ms" "\<forall>q xs. q \<noteq> p \<longrightarrow> delivers w q xs \<longrightarrow> delivers w1 q xs" "mheap w1 = mheap w"
    using pipe_read_delivers [OF assms(7)] by blast
  have s1: "same_out S w w1" by (rule pipe_read_same_out [OF assms(7) w1(1) pS assms(5)])
  obtain h where h: "close_in m w1 = Some (w1\<lparr>mheap := h\<rparr>)" "refs_ok h R" "\<forall>x \<in># R. msg_data x h = msg_data x (mheap w)"
    using close_in_refs_data [of w1 m R] assms(9,10) w1(4) by auto
  let ?w2 = "w1\<lparr>mheap := h\<rparr>"
  have c: "close_ignored m w1 = Some ?w2" using h(1) close_ignored_close_in [OF assms(10)] by simp
  have o: "writable w1 p" "apart S w1" using s1 assms(4,5) pS by (simp_all add: same_out_def)
  have "\<exists>w'. pipe_set_identity p ident ?w2 = Some w' \<and> mheap w' = mheap ?w2 \<and> apart S w' \<and> pipe_get_identity p w' = Some ident \<and>
    (\<forall>q. q \<noteq> p \<longrightarrow> pipe_get_identity q w' = pipe_get_identity q ?w2) \<and>
    (\<forall>q \<in> S. (writable ?w2 q \<longrightarrow> writable w' q) \<and> has_room w' q = has_room ?w2 q \<and> (\<forall>xs. out_log ?w2 q xs \<longrightarrow> out_log w' q xs) \<and>
       (\<forall>xs. delivers ?w2 q xs \<longrightarrow> delivers w' q xs))"
    by (rule pipe_set_identity_same) (use o w1(2) pS in simp_all)
  then obtain w3 where w3: "pipe_set_identity p ident ?w2 = Some w3" "mheap w3 = h" "apart S w3" "pipe_get_identity p w3 = Some ident"
    "\<forall>q. q \<noteq> p \<longrightarrow> pipe_get_identity q w3 = pipe_get_identity q w1"
    "\<forall>q \<in> S. (writable w1 q \<longrightarrow> writable w3 q) \<and> has_room w3 q = has_room w1 q \<and> (\<forall>xs. out_log w1 q xs \<longrightarrow> out_log w3 q xs) \<and>
       (\<forall>xs. delivers w1 q xs \<longrightarrow> delivers w3 q xs)" by auto
  define n where "n = (if d = [] then next_peer_id r + 1 else next_peer_id r)"
  have "peer_identity p r w = Some (Some (ident, n), ?w2)"
    using assms(2,8,11,12) w1(1,4) c by (cases "d = []") (simp_all add: peer_identity_def n_def)
  then have run: "identify_peer p r w = Some (True, r\<lparr>next_peer_id := n, outpipes := outpipes r @ [(ident, (p, True))]\<rparr>, w3)"
    using w3(1) assms(12) by (simp add: identify_peer_def distinct_update_new)
  have del: "delivers w3 q xs" if "q \<in> S" "q \<noteq> p" "delivers w q xs" for q xs using that w1(3) w3(6) by simp
  have out: "(writable w q \<longrightarrow> writable w3 q) \<and> has_room w3 q = has_room w q \<and> (\<forall>xs. out_log w q xs \<longrightarrow> out_log w3 q xs)" if "q \<in> S" for q
    using bspec [OF conjunct2 [OF s1 [unfolded same_out_def]] that] bspec [OF w3(6) that] by simp
  have idn: "pipe_get_identity q w3 = pipe_get_identity q w" if "q \<noteq> p" "q \<in> S" for q
    using s1 w3(5) that unfolding same_out_def by simp
  have "delivers w3 p ms" using w3(6) w1(2) pS by simp
  then show ?thesis using run h(2,3) w3(2-4) del out idn by (intro exI [of _ w3] exI [of _ n]) (simp add: n_def)
qed

lemma router_attach_ok:
  assumes "router_inv r w" and "\<not> ro_raw_option r" and "\<not> ro_probe_router r" and "p \<notin> anonymous_pipes r"
    and "p \<notin> ro_pipes r" and "writable w p" and "apart S w" and "insert p (ro_pipes r) \<subseteq> S"
    and "delivers w p (m # ms)" and "msg_data m (mheap w) = Some d" and "refs_ok (mheap w) (add_mset m R)" and "msg_check m"
    and "ident = (if d = [] then generated_identity (next_peer_id r) else d)" and "map_of (outpipes r) ident = None"
  shows "\<exists>r' w'. router_xattach_pipe p r w = Some (r', w') \<and> router_inv r' w' \<and> ro_pipes r' = insert p (ro_pipes r) \<and>
    map_of (outpipes r') ident = Some (p, True) \<and> (\<forall>i. i \<noteq> ident \<longrightarrow> map_of (outpipes r') i = map_of (outpipes r) i) \<and>
    refs_ok (mheap w') R \<and> delivers w' p ms \<and> (\<forall>q \<in> S. q \<noteq> p \<longrightarrow> (\<forall>xs. delivers w q xs \<longrightarrow> delivers w' q xs)) \<and>
    (\<forall>q \<in> S. has_room w' q = has_room w q \<and> (\<forall>xs. out_log w q xs \<longrightarrow> out_log w' q xs)) \<and>
    r' = r\<lparr>next_peer_id := next_peer_id r', outpipes := outpipes r @ [(ident, (p, True))], ro_fq := ro_fq r'\<rparr> \<and>
    rr_actives (ro_fq r') = insert p (rr_actives (ro_fq r)) \<and> rr_more (ro_fq r') = rr_more (ro_fq r) \<and> (d \<noteq> [] \<longrightarrow> next_peer_id r' = next_peer_id r) \<and>
    (\<forall>x \<in># R. msg_data x (mheap w') = msg_data x (mheap w))"
proof -
  obtain w' n where i: "identify_peer p r w = Some (True, r\<lparr>next_peer_id := n, outpipes := outpipes r @ [(ident, (p, True))]\<rparr>, w')"
    "d \<noteq> [] \<longrightarrow> n = next_peer_id r" "refs_ok (mheap w') R" "delivers w' p ms" "\<forall>q \<in> S. q \<noteq> p \<longrightarrow> (\<forall>xs. delivers w q xs \<longrightarrow> delivers w' q xs)"
    "\<forall>x \<in># R. msg_data x (mheap w') = msg_data x (mheap w)" "apart S w'"
    "pipe_get_identity p w' = Some ident" "\<forall>q. q \<noteq> p \<longrightarrow> q \<in> S \<longrightarrow> pipe_get_identity q w' = pipe_get_identity q w"
    "\<forall>q \<in> S. (writable w q \<longrightarrow> writable w' q) \<and> has_room w' q = has_room w q \<and> (\<forall>xs. out_log w q xs \<longrightarrow> out_log w' q xs)"
    using router_identify [OF assms(1,2,5-14)] by (elim exE conjE) (rule that, assumption+)
  have inv: "rr_ok (ro_fq r)" "rr_all (ro_fq r) = ro_pipes r" "distinct (map fst (outpipes r))" "anonymous_pipes r \<inter> ro_pipes r = {}"
    "\<forall>e \<in> set (outpipes r). pipe_get_identity (fst (snd e)) w = Some (fst e)"
    "\<forall>p. current_out r = Some p \<longrightarrow> p \<in> ro_pipes r \<and> more_out r" "\<forall>p \<in> ro_pipes r. writable w p"
    using assms(1) unfolding router_inv_def by blast+
  obtain f where f: "fq_attach p (ro_fq r) = Some f" "rr_ok f" "rr_all f = insert p (ro_pipes r)"
    "rr_actives f = insert p (rr_actives (ro_fq r))" "rr_more f = rr_more (ro_fq r)"
    using fq_attach_ok [OF inv(1), of p] inv(2) assms(5) by (auto simp: rr_like_def)
  define r' where "r' = r\<lparr>next_peer_id := n, outpipes := outpipes r @ [(ident, (p, True))], ro_fq := f\<rparr>"
  have run: "router_xattach_pipe p r w = Some (r', w')" using assms(3) i(1) f(1) by (simp add: router_xattach_pipe_def r'_def)
  have pi: "ro_pipes r' = insert p (ro_pipes r)" by (simp add: ro_pipes_def r'_def)
  have "pipe_get_identity (fst (snd e)) w' = Some (fst e)" if "e \<in> set (outpipes r')" for e
  proof (cases "e = (ident, (p, True))")
    case False
    then have e: "e \<in> set (outpipes r)" using that by (simp add: r'_def)
    then have "fst (snd e) \<in> ro_pipes r" by (simp add: ro_pipes_def)
    then show ?thesis using inv(5) e i(9) assms(5,8) by (metis insert_subset subsetD)
  qed (use i(8) in simp)
  moreover have "distinct (map fst (outpipes r'))" using inv(3) map_of_None_notin [OF assms(14)] by (simp add: r'_def)
  moreover have "anonymous_pipes r' \<inter> ro_pipes r' = {}" using inv(4) assms(4) pi by (simp add: r'_def)
  moreover have "\<forall>q. current_out r' = Some q \<longrightarrow> q \<in> ro_pipes r' \<and> more_out r'" using inv(6) pi by (simp add: r'_def)
  moreover have "\<forall>q \<in> ro_pipes r'. writable w' q" using inv(7) assms(6,8) i(10) pi by auto
  moreover have "rr_ok (ro_fq r')" "rr_all (ro_fq r') = ro_pipes r'" using f pi by (simp_all add: r'_def)
  moreover have "apart (ro_pipes r') w'" using apart_mono [OF i(7)] assms(8) pi by simp
  ultimately have "router_inv r' w'" using pi unfolding router_inv_def by simp
  moreover have "map_of (outpipes r') ident = Some (p, True)" "\<forall>i. i \<noteq> ident \<longrightarrow> map_of (outpipes r') i = map_of (outpipes r) i"
    using assms(14) by (auto simp: r'_def map_add_def split: option.splits)
  ultimately show ?thesis using run pi i(2-6,10) f(4,5) by (intro exI [of _ r'] exI [of _ w']) (simp add: r'_def)
qed

subsection \<open>Receiving\<close>

text \<open>What was taken from the queues: identities, and the message \<open>m\<close> from the pipe \<open>src\<close>.\<close>

definition taken :: "addr set \<Rightarrow> (addr \<Rightarrow> msg_t list) \<Rightarrow> addr option \<Rightarrow> msg_t \<Rightarrow> (addr \<Rightarrow> msg_t list) \<Rightarrow> bool" where
  "taken P qs src m qs' \<longleftrightarrow> (\<forall>q \<in> P. \<exists>ids. (\<forall>i \<in> set ids. msg_is_identity i) \<and> qs q = ids @ (if src = Some q then m # qs' q else qs' q))"

lemma taken_step:
  assumes "qs p = i # qs1 p" and "qs1 = qs(p := qs1 p)" and "msg_is_identity i" and "taken P qs1 src m qs'"
  shows "taken P qs src m qs'"
  unfolding taken_def
proof
  fix q assume q: "q \<in> P"
  then obtain ids where ids: "\<forall>i \<in> set ids. msg_is_identity i" "qs1 q = ids @ (if src = Some q then m # qs' q else qs' q)"
    using assms(4) unfolding taken_def by blast
  show "\<exists>ids. (\<forall>i \<in> set ids. msg_is_identity i) \<and> qs q = ids @ (if src = Some q then m # qs' q else qs' q)"
  proof (cases "q = p")
    case True
    then show ?thesis using ids assms(1,3) by (intro exI [of _ "i # ids"]) simp
  next
    case False
    then have "qs1 q = qs q" using assms(2) by (metis fun_upd_other)
    then show ?thesis using ids by (intro exI [of _ ids]) simp
  qed
qed

lemma router_recvpipe_ok:
  assumes "feeds r w qs" and "refs_ok (mheap w) (add_mset m (queued r qs + R))" and "msg_check m"
    and "rr_all r \<subseteq> S" and "apart S w"
  shows "\<exists>rc m' src r' w' qs'. router_recvpipe m r w = Some (rc, m', src, r', w') \<and> feeds r' w' qs' \<and> rr_all r' = rr_all r \<and>
    refs_ok (mheap w') (add_mset m' (queued r' qs' + R)) \<and> msg_check m' \<and> \<not> msg_is_delimiter m' \<and> same_out S w w' \<and>
    (\<forall>x \<in># queued r' qs' + R. msg_data x (mheap w') = msg_data x (mheap w)) \<and> taken (rr_all r) qs src m' qs' \<and>
    (rc \<noteq> None \<longrightarrow> rc = Some EAGAIN \<and> m' = msg_init \<and> src = None \<and> \<not> rr_more r' \<and> (\<forall>q \<in> rr_all r. qs' q = [])) \<and>
    (rc = None \<longrightarrow> \<not> msg_is_identity m' \<and> msg_data m' (mheap w') = msg_data m' (mheap w) \<and> rr_more r' = msg_more m' \<and>
      (\<exists>p \<in> rr_all r. src = Some p \<and> (msg_more m' \<longrightarrow> rr_cur r' = p) \<and>
        (rr_more r \<longrightarrow> \<not> msg_is_identity (hd (qs (rr_cur r))) \<longrightarrow> p = rr_cur r \<and> qs' = qs(p := tl (qs p)) \<and> m' = hd (qs p))))"
  using assms
proof (induction "size (queued r qs)" arbitrary: m r w qs rule: less_induct)
  case less
  obtain rc m1 src r1 w1 qs1 where r1: "fq_recvpipe pipe_read close_in m r w = Some (rc, m1, src, r1, w1)" "feeds r1 w1 qs1"
    "rr_all r1 = rr_all r" "refs_ok (mheap w1) (add_mset m1 (queued r1 qs1 + R))" "msg_check m1" "\<not> msg_is_delimiter m1"
    "\<forall>x \<in># queued r qs + R. msg_data x (mheap w1) = msg_data x (mheap w)"
    "rc \<noteq> None \<longrightarrow> rc = Some EAGAIN \<and> m1 = msg_init \<and> src = None \<and> qs1 = qs \<and> (\<forall>p \<in> rr_all r. qs p = []) \<and> \<not> rr_more r1"
    "rc = None \<longrightarrow> (\<exists>p \<in> rr_all r. src = Some p \<and> qs p = m1 # qs1 p \<and> qs1 = qs(p := qs1 p) \<and> rr_more r1 = msg_more m1 \<and>
       (rr_more r1 \<longrightarrow> rr_cur r1 = p) \<and> (rr_more r \<longrightarrow> p = rr_cur r))"
    using feeds_recvpipe [OF less.prems(1-3)] by (elim exE conjE) (rule that, assumption+)
  have s1: "same_out S w w1" using fq_recvpipe_same_out [OF r1(1) less.prems(1,4,5)] .
  show ?case
  proof (cases rc)
    case (Some e)
    have "router_recvpipe m r w = Some (rc, m1, src, r1, w1)" using r1(1) Some by (simp add: router_recvpipe.simps)
    moreover have "taken (rr_all r) qs src m1 qs1" using Some r1(8) by (auto simp: taken_def intro: exI [of _ "[]"])
    moreover have "\<forall>x \<in># queued r1 qs1 + R. msg_data x (mheap w1) = msg_data x (mheap w)"
      using Some r1(7,8) queued_cong [OF r1(3)] by simp
    ultimately show ?thesis using r1(2-6,8) s1 Some
      by (intro exI [of _ rc] exI [of _ m1] exI [of _ src] exI [of _ r1] exI [of _ w1] exI [of _ qs1]) simp
  next
    case None
    then obtain p where p: "p \<in> rr_all r" "src = Some p" "qs p = m1 # qs1 p" "qs1 = qs(p := qs1 p)" "rr_more r1 = msg_more m1"
       "rr_more r1 \<longrightarrow> rr_cur r1 = p" "rr_more r \<longrightarrow> p = rr_cur r" using r1(9) by blast
    have q: "queued r qs = add_mset m1 (queued r1 qs1)"
      using queued_take [where qs = qs, OF p(1,3)] p(4) queued_cong [OF r1(3)] by metis
    have dat: "\<forall>x \<in># queued r1 qs1 + R. msg_data x (mheap w1) = msg_data x (mheap w)" "msg_data m1 (mheap w1) = msg_data m1 (mheap w)"
      using r1(7) q by simp_all
    show ?thesis
    proof (cases "msg_is_identity m1")
      case False
      have "router_recvpipe m r w = Some (rc, m1, src, r1, w1)" using r1(1) False by (simp add: router_recvpipe.simps)
      moreover have "taken (rr_all r) qs src m1 qs1" unfolding taken_def
      proof
        fix q assume "q \<in> rr_all r"
        have "qs q = (if src = Some q then m1 # qs1 q else qs1 q)" using p(2-4) by (metis fun_upd_other option.inject)
        then show "\<exists>ids. (\<forall>i \<in> set ids. msg_is_identity i) \<and> qs q = ids @ (if src = Some q then m1 # qs1 q else qs1 q)"
          by (intro exI [of _ "[]"]) simp
      qed
      moreover have "qs1 = qs(p := tl (qs p))" "m1 = hd (qs p)" using p(3,4) by simp_all
      then have "rr_more r \<longrightarrow> p = rr_cur r \<and> qs1 = qs(p := tl (qs p)) \<and> m1 = hd (qs p)" using p(7) by blast
      ultimately show ?thesis using r1(2-6) s1 None False dat p(1,2,5,6)
        by (intro exI [of _ rc] exI [of _ m1] exI [of _ src] exI [of _ r1] exI [of _ w1] exI [of _ qs1]) simp
    next
      case True
      have step: "router_recvpipe m r w = router_recvpipe m1 r1 w1" using r1(1) None True by (simp add: router_recvpipe.simps)
      have lt: "size (queued r1 qs1) < size (queued r qs)" using q by simp
      have ap: "apart S w1" "rr_all r1 \<subseteq> S" using s1 less.prems(4,5) r1(3) by (simp_all add: same_out_def)
      obtain rc2 m2 src2 r2 w2 qs2 where i: "router_recvpipe m1 r1 w1 = Some (rc2, m2, src2, r2, w2)" "feeds r2 w2 qs2" "rr_all r2 = rr_all r1"
        "refs_ok (mheap w2) (add_mset m2 (queued r2 qs2 + R))" "msg_check m2" "\<not> msg_is_delimiter m2" "same_out S w1 w2"
        "\<forall>x \<in># queued r2 qs2 + R. msg_data x (mheap w2) = msg_data x (mheap w1)" "taken (rr_all r1) qs1 src2 m2 qs2"
        "rc2 \<noteq> None \<longrightarrow> rc2 = Some EAGAIN \<and> m2 = msg_init \<and> src2 = None \<and> \<not> rr_more r2 \<and> (\<forall>q \<in> rr_all r1. qs2 q = [])"
        "rc2 = None \<longrightarrow> \<not> msg_is_identity m2 \<and> msg_data m2 (mheap w2) = msg_data m2 (mheap w1) \<and> rr_more r2 = msg_more m2 \<and>
          (\<exists>p \<in> rr_all r1. src2 = Some p \<and> (msg_more m2 \<longrightarrow> rr_cur r2 = p) \<and>
        (rr_more r1 \<longrightarrow> \<not> msg_is_identity (hd (qs1 (rr_cur r1))) \<longrightarrow> p = rr_cur r1 \<and> qs2 = qs1(p := tl (qs1 p)) \<and> m2 = hd (qs1 p)))"
        using less.hyps [OF lt r1(2,4,5) ap(2,1)] by (elim exE conjE) (rule that, assumption+)
      have tk: "taken (rr_all r) qs src2 m2 qs2" using taken_step [OF p(3,4) True] i(9) r1(3) by simp
      have m2: "m2 \<in># queued r1 qs1" if rc: "rc2 = None"
      proof -
        obtain p2 where p2: "p2 \<in> rr_all r1" "src2 = Some p2" using i(11) rc by blast
        then have "m2 \<in> set (qs1 p2)" using i(9) unfolding taken_def by fastforce
        then show ?thesis using queued_mem [OF p2(1)] by blast
      qed
      have sub: "x \<in># queued r1 qs1 + R" if "x \<in># queued r2 qs2 + R" for x
      proof (cases "x \<in># R")
        case False
        then have "x \<in># queued r2 qs2" using that by simp
        then obtain y where y: "y \<in> rr_all r2" "x \<in> set (qs2 y)" by (auto simp: queued_def set_mset_sum)
        then have "y \<in> rr_all r1" using i(3) by simp
        moreover from this have "x \<in> set (qs1 y)" using i(9) y(2) unfolding taken_def by fastforce
        ultimately show ?thesis using queued_mem by fastforce
      qed simp
      have cur: "rr_more r \<Longrightarrow> msg_is_identity (hd (qs (rr_cur r)))" using p(3,7) True by simp
      have "\<forall>x \<in># queued r2 qs2 + R. msg_data x (mheap w2) = msg_data x (mheap w)" using i(8) sub dat(1) by simp
      moreover have "rc2 = None \<longrightarrow> msg_data m2 (mheap w2) = msg_data m2 (mheap w)" using i(11) m2 dat(1) by simp
      moreover have "same_out S w w2" using s1 i(7) same_out_trans by blast
      ultimately show ?thesis unfolding step using i(1-6,10,11) tk cur r1(3)
        by (intro exI [of _ rc2] exI [of _ m2] exI [of _ src2] exI [of _ r2] exI [of _ w2] exI [of _ qs2]) auto
    qed
  qed
qed

lemma router_identity_of:
  assumes "router_inv r w" and "p \<in> ro_pipes r"
  shows "\<exists>i act. pipe_get_identity p w = Some i \<and> map_of (outpipes r) i = Some (p, act)"
proof -
  obtain i act where e: "(i, (p, act)) \<in> set (outpipes r)" using assms(2) by (auto simp: ro_pipes_def)
  then have "pipe_get_identity p w = Some i" using assms(1) by (fastforce simp: router_inv_def)
  moreover have "map_of (outpipes r) i = Some (p, act)" using e assms(1) by (simp add: router_inv_def)
  ultimately show ?thesis by blast
qed

lemma router_inv_recv:
  assumes "router_inv r w" and "same_out (ro_pipes r) w w'" and "rr_ok f" and "rr_all f = rr_all (ro_fq r)"
    and "ro_fq r' = f" and "outpipes r' = outpipes r" and "anonymous_pipes r' = anonymous_pipes r" and "current_out r' = current_out r"
    and "more_out r' = more_out r"
  shows "router_inv r' w'" "ro_pipes r' = ro_pipes r"
proof -
  show p: "ro_pipes r' = ro_pipes r" using assms(6) by (simp add: ro_pipes_def)
  have "pipe_get_identity (fst (snd e)) w' = Some (fst e)" if "e \<in> set (outpipes r)" for e
  proof -
    have "fst (snd e) \<in> ro_pipes r" using that by (simp add: ro_pipes_def)
    then show ?thesis using that assms(1,2) by (simp add: router_inv_def same_out_def)
  qed
  then show "router_inv r' w'" using assms p unfolding router_inv_def same_out_def by simp
qed

text \<open>The first part that is received of a message is the identity of its pipe.\<close>

lemma router_recv_first:
  assumes "router_inv r w" and "feeds (ro_fq r) w qs" and "refs_ok (mheap w) (add_mset m (queued (ro_fq r) qs + R))" and "msg_check m"
    and "\<not> prefetched r" and "\<not> more_in r" and "prefetched_msg r = msg_init" and "\<forall>n. \<not> oom n"
    and "\<forall>e \<in> set (outpipes r). length (fst e) + sizeof_content \<le> size_t_max"
  shows "\<exists>rc m' r' w' qs'. router_xrecv oom m r w = Some (rc, m', r', w') \<and> router_inv r' w' \<and> outpipes r' = outpipes r \<and>
    same_out (ro_pipes r) w w' \<and> feeds (ro_fq r') w' qs' \<and> msg_check m' \<and>
    (rc \<noteq> None \<longrightarrow> rc = Some EAGAIN \<and> taken (ro_pipes r) qs None msg_init qs' \<and> (\<forall>q \<in> ro_pipes r. qs' q = []) \<and>
       r' = r\<lparr>ro_fq := ro_fq r'\<rparr> \<and> refs_ok (mheap w') (add_mset m' R)) \<and>
    (rc = None \<longrightarrow> (\<exists>p act i x. map_of (outpipes r) i = Some (p, act) \<and> p \<in> ro_pipes r \<and> msg_data m' (mheap w') = Some i \<and> msg_flags m' = flag_more \<and>
       taken (ro_pipes r) qs (Some p) x qs' \<and> \<not> msg_is_identity x \<and> msg_check x \<and> rr_more (ro_fq r') = msg_more x \<and>
       (msg_more x \<longrightarrow> rr_cur (ro_fq r') = p) \<and> msg_data x (mheap w') = msg_data x (mheap w) \<and>
       (\<forall>y \<in># queued (ro_fq r') qs' + R. msg_data y (mheap w') = msg_data y (mheap w)) \<and>
       r' = r\<lparr>ro_fq := ro_fq r', prefetched_msg := x, prefetched := True, identity_sent := True\<rparr> \<and>
       refs_ok (mheap w') (add_mset m' (add_mset x (queued (ro_fq r') qs' + R)))))"
proof -
  have inv: "rr_all (ro_fq r) = ro_pipes r" "apart (ro_pipes r) w" using assms(1) by (simp_all add: router_inv_def)
  obtain rc m1 src f w1 qs' where r1: "router_recvpipe m (ro_fq r) w = Some (rc, m1, src, f, w1)" "feeds f w1 qs'" "rr_all f = rr_all (ro_fq r)"
    "refs_ok (mheap w1) (add_mset m1 (queued f qs' + R))" "msg_check m1" "\<not> msg_is_delimiter m1" "same_out (ro_pipes r) w w1"
    "\<forall>x \<in># queued f qs' + R. msg_data x (mheap w1) = msg_data x (mheap w)" "taken (rr_all (ro_fq r)) qs src m1 qs'"
    "rc \<noteq> None \<longrightarrow> rc = Some EAGAIN \<and> m1 = msg_init \<and> src = None \<and> \<not> rr_more f \<and> (\<forall>q \<in> rr_all (ro_fq r). qs' q = [])"
    "rc = None \<longrightarrow> \<not> msg_is_identity m1 \<and> msg_data m1 (mheap w1) = msg_data m1 (mheap w) \<and> rr_more f = msg_more m1 \<and>
      (\<exists>p \<in> rr_all (ro_fq r). src = Some p \<and> (msg_more m1 \<longrightarrow> rr_cur f = p) \<and>
        (rr_more (ro_fq r) \<longrightarrow> \<not> msg_is_identity (hd (qs (rr_cur (ro_fq r)))) \<longrightarrow> p = rr_cur (ro_fq r) \<and> qs' = qs(p := tl (qs p)) \<and> m1 = hd (qs p)))"
    using router_recvpipe_ok [OF assms(2-4) equalityD1 [OF inv(1)] inv(2)] by (elim exE conjE) (rule that, assumption+)
  have fo: "rr_ok f" using r1(2) by (simp add: feeds_def)
  show ?thesis
  proof (cases rc)
    case (Some e)
    let ?r = "r\<lparr>ro_fq := f\<rparr>"
    have "router_xrecv oom m r w = Some (rc, m1, ?r, w1)" using assms(5) r1(1) Some by (simp add: router_xrecv_def)
    moreover have "router_inv ?r w1" by (rule router_inv_recv [OF assms(1) r1(7) fo r1(3)]) simp_all
    moreover have "queued f qs' = {#}" using r1(3,10) Some by (intro queued_empty) simp
    ultimately show ?thesis using r1 Some inv(1)
      by (intro exI [of _ rc] exI [of _ m1] exI [of _ ?r] exI [of _ w1] exI [of _ qs']) simp
  next
    case None
    then obtain p where p: "p \<in> ro_pipes r" "src = Some p" "msg_more m1 \<longrightarrow> rr_cur f = p" "rr_more f = msg_more m1" "\<not> msg_is_identity m1"
      using r1(11) inv(1) by blast
    have inv1: "router_inv (r\<lparr>ro_fq := f\<rparr>) w1" by (rule router_inv_recv [OF assms(1) r1(7) fo r1(3)]) simp_all
    have pp: "ro_pipes (r\<lparr>ro_fq := f\<rparr>) = ro_pipes r" by (simp add: ro_pipes_def)
    obtain i act where i: "pipe_get_identity p w1 = Some i" "map_of (outpipes r) i = Some (p, act)"
      using router_identity_of [OF inv1, of p] p(1) pp by auto
    have len: "length i + sizeof_content \<le> size_t_max" using map_of_SomeD [OF i(2)] assms(9) by force
    have mv: "msg_move msg_init m1 (mheap w1) = Some (None, m1, msg_init, mheap w1)"
      using r1(5) by (simp add: msg_move_def msg_close_def msg_init_def msg_check_def)
    obtain m2 h where m2: "new_msg oom i w1 = Some (m2, w1\<lparr>mheap := h\<rparr>)" "refs_ok h (add_mset m2 (add_mset m1 (queued f qs' + R)))"
      "msg_data m2 h = Some i" "msg_flags m2 = 0" "msg_check m2" "\<forall>m' \<in># add_mset m1 (queued f qs' + R). msg_data m' h = msg_data m' (mheap w1)"
      using new_msg_ok [OF r1(4) len, of oom] assms(8) by blast
    let ?m = "msg_set_flags flag_more m2" and ?w = "w1\<lparr>mheap := h\<rparr>"
    let ?r = "r\<lparr>ro_fq := f, prefetched_msg := m1, prefetched := True, identity_sent := True\<rparr>"
    have "router_xrecv oom m r w = Some (None, ?m, ?r, ?w)"
      using assms(5-7) r1(1) None p(2) mv i(1) m2(1) by (simp add: router_xrecv_def identity_msg_def)
    moreover have so: "same_out (ro_pipes r) w ?w" using same_out_trans [OF r1(7), of ?w] by simp
    moreover have "router_inv ?r ?w" by (rule router_inv_recv [OF assms(1) so fo r1(3)]) simp_all
    moreover have "refs_ok h (add_mset ?m (add_mset m1 (queued f qs' + R)))" using m2(2) by simp
    moreover have "msg_flags ?m = flag_more" "msg_check ?m" "msg_data ?m h = Some i"
      using m2(3-5) by (simp_all add: msg_set_flags_def msg_check_def msg_data_def)
    moreover have "feeds f ?w qs'" using r1(2) by (simp add: feeds_def)
    moreover have "msg_data m1 h = msg_data m1 (mheap w)" using m2(6) r1(11) None by simp
    moreover have "\<forall>y \<in># queued f qs' + R. msg_data y h = msg_data y (mheap w)" using m2(6) r1(8) by simp
    moreover have "taken (ro_pipes r) qs (Some p) m1 qs'" using r1(9) inv(1) p(2) by simp
    ultimately show ?thesis using p i(2) r1(5) None
      by (intro exI [of _ "None"] exI [of _ ?m] exI [of _ ?r] exI [of _ ?w] exI [of _ qs'])
        (simp, intro exI [of _ act] exI [of _ i] exI [of _ m1] conjI, simp_all)
  qed
qed

lemma msg_close_heap:
  assumes "close_in m w = Some (w\<lparr>mheap := h\<rparr>)" and "msg_check m"
  shows "\<exists>m'. msg_close m (mheap w) = Some (None, m', h)"
proof -
  obtain m' h' where c: "msg_close m (mheap w) = Some (None, m', h')" "w\<lparr>mheap := h'\<rparr> = w\<lparr>mheap := h\<rparr>"
    using assms unfolding close_in_def by (auto split: Option.bind_splits)
  then have "h' = h" using arg_cong [OF c(2), of mheap] by simp
  with c(1) show ?thesis by blast
qed

lemma router_recv_prefetched:
  assumes "prefetched r" and "identity_sent r" and "msg_check m" and "msg_check (prefetched_msg r)"
    and "refs_ok (mheap w) (add_mset m (add_mset (prefetched_msg r) R))"
  shows "\<exists>h. router_xrecv oom m r w = Some (None, prefetched_msg r,
      r\<lparr>prefetched_msg := msg_init, prefetched := False, more_in := msg_more (prefetched_msg r)\<rparr>, w\<lparr>mheap := h\<rparr>) \<and>
    refs_ok h (add_mset (prefetched_msg r) R) \<and> (\<forall>x \<in># add_mset (prefetched_msg r) R. msg_data x h = msg_data x (mheap w))"
proof -
  obtain h where h: "close_in m w = Some (w\<lparr>mheap := h\<rparr>)" "refs_ok h (add_mset (prefetched_msg r) R)"
    "\<forall>x \<in># add_mset (prefetched_msg r) R. msg_data x h = msg_data x (mheap w)" using close_in_refs_data [OF assms(5,3)] by blast
  have "msg_move m (prefetched_msg r) (mheap w) = Some (None, prefetched_msg r, msg_init, h)"
    using msg_close_heap [OF h(1) assms(3)] assms(3,4) by (auto simp: msg_move_def)
  then have "router_xrecv oom m r w = Some (None, prefetched_msg r,
      r\<lparr>prefetched_msg := msg_init, prefetched := False, more_in := msg_more (prefetched_msg r)\<rparr>, w\<lparr>mheap := h\<rparr>)"
    using assms(1,2) by (simp add: router_xrecv_def)
  with h(2,3) show ?thesis by blast
qed

lemma router_recv_more:
  assumes "router_inv r w" and "feeds (ro_fq r) w qs" and "refs_ok (mheap w) (add_mset m (queued (ro_fq r) qs + R))" and "msg_check m"
    and "\<not> prefetched r" and "more_in r" and "rr_more (ro_fq r)" and "rr_cur (ro_fq r) = p" and "qs p = x # xs" and "\<not> msg_is_identity x"
  shows "\<exists>r' w'. router_xrecv oom m r w = Some (None, x, r', w') \<and> router_inv r' w' \<and>
    same_out (ro_pipes r) w w' \<and> feeds (ro_fq r') w' (qs(p := xs)) \<and> msg_check x \<and> r' = r\<lparr>ro_fq := ro_fq r', more_in := msg_more x\<rparr> \<and>
    rr_more (ro_fq r') = msg_more x \<and> (msg_more x \<longrightarrow> rr_cur (ro_fq r') = p) \<and> rr_all (ro_fq r') = rr_all (ro_fq r) \<and>
    refs_ok (mheap w') (add_mset x (queued (ro_fq r') (qs(p := xs)) + R)) \<and> msg_data x (mheap w') = msg_data x (mheap w) \<and>
    (\<forall>y \<in># queued (ro_fq r') (qs(p := xs)) + R. msg_data y (mheap w') = msg_data y (mheap w))"
proof -
  have inv: "rr_all (ro_fq r) = ro_pipes r" "apart (ro_pipes r) w" using assms(1) by (simp_all add: router_inv_def)
  have ne: "\<not> msg_is_identity (hd (qs (rr_cur (ro_fq r))))" using assms(8-10) by simp
  obtain rc m1 src f w1 qs' where r1: "router_recvpipe m (ro_fq r) w = Some (rc, m1, src, f, w1)" "feeds f w1 qs'" "rr_all f = rr_all (ro_fq r)"
    "refs_ok (mheap w1) (add_mset m1 (queued f qs' + R))" "msg_check m1" "same_out (ro_pipes r) w w1"
    "\<forall>x \<in># queued f qs' + R. msg_data x (mheap w1) = msg_data x (mheap w)"
    "taken (rr_all (ro_fq r)) qs src m1 qs'"
    "rc \<noteq> None \<longrightarrow> rc = Some EAGAIN \<and> m1 = msg_init \<and> src = None \<and> \<not> rr_more f \<and> (\<forall>q \<in> rr_all (ro_fq r). qs' q = [])"
    "rc = None \<longrightarrow> \<not> msg_is_identity m1 \<and> msg_data m1 (mheap w1) = msg_data m1 (mheap w) \<and> rr_more f = msg_more m1 \<and>
      (\<exists>p \<in> rr_all (ro_fq r). src = Some p \<and> (msg_more m1 \<longrightarrow> rr_cur f = p) \<and>
        (rr_more (ro_fq r) \<longrightarrow> \<not> msg_is_identity (hd (qs (rr_cur (ro_fq r)))) \<longrightarrow> p = rr_cur (ro_fq r) \<and> qs' = qs(p := tl (qs p)) \<and> m1 = hd (qs p)))"
    using router_recvpipe_ok [OF assms(2-4) equalityD1 [OF inv(1)] inv(2)] by (elim exE conjE) (rule that, assumption+)
  have "0 < rr_active (ro_fq r)" "rr_ok (ro_fq r)" using assms(2,7) by (auto simp: feeds_def)
  then have pa: "p \<in> rr_all (ro_fq r)" using rr_cur_active assms(8) rr_actives_sub by blast
  have "rc = None"
  proof (rule ccontr)
    assume "rc \<noteq> None"
    then have "src = None" "qs' p = []" using r1(9) pa by auto
    then have "\<forall>i \<in> set (qs p). msg_is_identity i" using r1(8) pa unfolding taken_def by fastforce
    then show False using assms(9,10) by simp
  qed
  then have m1: "src = Some p" "qs' = qs(p := xs)" "m1 = x" "rr_more f = msg_more x" "msg_more x \<longrightarrow> rr_cur f = p" "msg_data x (mheap w1) = msg_data x (mheap w)"
    using r1(10) assms(7-9) ne by auto
  let ?r = "r\<lparr>ro_fq := f, more_in := msg_more x\<rparr>"
  have fo: "rr_ok f" using r1(2) by (simp add: feeds_def)
  have "router_xrecv oom m r w = Some (None, x, ?r, w1)"
    using assms(5,6) r1(1) \<open>rc = None\<close> m1(1,3) by (simp add: router_xrecv_def)
  moreover have "router_inv ?r w1" by (rule router_inv_recv [OF assms(1) r1(6) fo r1(3)]) simp_all
  ultimately show ?thesis using r1(2-7) m1 by (intro exI [of _ ?r] exI [of _ w1]) simp
qed

subsection \<open>Properties\<close>

text \<open>
  C28: Routing. A message that begins with the identity of a connected peer whose pipe has room goes to
  this pipe: all parts but the identity, in order, and nothing to any other pipe. The identity
  part is freed, the invariant of the socket and what can be received are kept.
\<close>
theorem router_routes:
  assumes "router_inv r w" and "\<not> more_out r" and "\<not> ro_raw_option r" and "\<not> ro_raw_sock r"
    and "msg_more m" and "msg_data m (mheap w) = Some i" and "map_of (outpipes r) i = Some (p, act)" and "has_room w p"
    and "refs_ok (mheap w) (add_mset m (mset ms + R))" and "msg_check m" and "whole ms"
  shows "\<exists>w'. router_send_all (m # ms) r w = Some (r, w') \<and> router_inv r w' \<and>
    (\<forall>q xs. out_log w q xs \<longrightarrow> out_log w' q (if q = p then xs @ ms else xs)) \<and> refs_ok (mheap w') (mset ms + R) \<and>
    (\<forall>x \<in># mset ms + R. msg_data x (mheap w') = msg_data x (mheap w)) \<and> same_in (ro_pipes r) w w'"
  by (rule router_send_message [OF assms])

text \<open>
  C29: Messages without a route: the identity is unknown, or its pipe has no room. A socket that is
  mandatory reports it and leaves the message with the caller, any other one frees all parts of
  the message. Nothing is written to any pipe, and the next message is routed afresh.
\<close>
theorem router_unroutable:
  assumes "router_inv r w" and "\<not> more_out r" and "\<not> ro_raw_option r"
    and "msg_more m" and "msg_data m (mheap w) = Some i" and "\<forall>p act. map_of (outpipes r) i = Some (p, act) \<longrightarrow> \<not> has_room w p"
    and "refs_ok (mheap w) (mset (m # ms) + R)" and "\<forall>x \<in> set (m # ms). msg_check x" and "whole ms"
  shows "if ro_mandatory r
    then \<exists>r' w'. router_xsend m r w = Some (Some (if map_of (outpipes r) i = None then EHOSTUNREACH else EAGAIN), m, r', w') \<and>
      \<not> more_out r' \<and> router_inv r' w' \<and> mheap w' = mheap w \<and> (\<forall>q xs. out_log w q xs \<longrightarrow> out_log w' q xs)
    else \<exists>r' w'. router_send_all (m # ms) r w = Some (r', w') \<and> \<not> more_out r' \<and> router_inv r' w' \<and> refs_ok (mheap w') R \<and>
      (\<forall>q xs. out_log w q xs \<longrightarrow> out_log w' q xs)"
proof -
  have c: "current_out r = None" using assms(1,2) by (cases "current_out r") (auto simp: router_inv_def)
  have wr: "\<forall>p \<in> ro_pipes r. writable w p" and ap: "apart (ro_pipes r) w" using assms(1) by (simp_all add: router_inv_def)
  define e where "e = (if map_of (outpipes r) i = None then EHOSTUNREACH else EAGAIN)"
  obtain r1 w1 where r1: "router_route m r w = Some (if ro_mandatory r then (Some e, r1, w1) else (None, r1, w1))"
    "r1 = r\<lparr>outpipes := outpipes r1, more_out := \<not> ro_mandatory r\<rparr>" "router_inv r1 w1" "mheap w1 = mheap w"
    "\<forall>q xs. out_log w q xs \<longrightarrow> out_log w1 q xs"
    using router_refused [OF assms(1,2,5,6), folded e_def] by (elim exE conjE) (rule that, assumption+)
  have f: "more_out r1 = (\<not> ro_mandatory r)" "current_out r1 = None" "ro_raw_option r1 = ro_raw_option r"
    using c by (subst r1(2), simp)+
  show ?thesis
  proof (cases "ro_mandatory r")
    case True
    have "router_xsend m r w = Some (Some e, m, r1, w1)" using assms(2,4) c r1(1) True by (simp add: router_xsend_def)
    then show ?thesis using True r1 f(1) unfolding e_def by (simp del: not_None_eq)
  next
    case False
    obtain h where h: "close_in m w1 = Some (w1\<lparr>mheap := h\<rparr>)" "refs_ok h (mset ms + R)"
      using close_in_refs_data [of w1 m "mset ms + R"] assms(7,8) r1(4) by auto
    have x: "router_xsend m r w = Some (None, msg_init, r1, w1\<lparr>mheap := h\<rparr>)"
      using assms(2,4) c r1(1) False h(1) by (simp add: router_xsend_def)
    obtain h2 where h2: "router_send_all ms r1 (w1\<lparr>mheap := h\<rparr>) = Some (r1\<lparr>more_out := False\<rparr>, w1\<lparr>mheap := h2\<rparr>)" "refs_ok h2 R"
      using router_drop_rest [of r1 ms "w1\<lparr>mheap := h\<rparr>" R] f False assms(3,8,9) h(2) by auto
    have "\<forall>p \<in> ro_pipes r1. writable w1 p" using r1(3) by (simp add: router_inv_def)
    then have "router_inv (r1\<lparr>more_out := False\<rparr>) (w1\<lparr>mheap := h2\<rparr>)"
      using router_inv_same [OF r1(3), of "w1\<lparr>mheap := h2\<rparr>" "r1\<lparr>more_out := False\<rparr>"] f(2) by simp
    moreover have "router_send_all (m # ms) r w = Some (r1\<lparr>more_out := False\<rparr>, w1\<lparr>mheap := h2\<rparr>)" using x h2(1) by simp
    ultimately show ?thesis using False h2(2) r1(5) by simp
  qed
qed

text \<open>
  C30: Receiving. With whole messages in the queues, a receive returns: either nothing but identities was
  queued and it reports \<open>EAGAIN\<close>, or the next message's pipe is found, and its identity, as it is
  registered for sending, comes first, and then the message part itself.
\<close>
theorem router_receives:
  assumes "router_inv r w" and "feeds (ro_fq r) w qs" and "refs_ok (mheap w) (add_mset m (queued (ro_fq r) qs + R))" and "msg_check m"
    and "\<not> prefetched r" and "\<not> more_in r" and "prefetched_msg r = msg_init" and "\<forall>n. \<not> oom n"
    and "\<forall>e \<in> set (outpipes r). length (fst e) + sizeof_content \<le> size_t_max"
  shows "\<exists>rc m' r' w' qs'. router_xrecv oom m r w = Some (rc, m', r', w') \<and> router_inv r' w' \<and> feeds (ro_fq r') w' qs' \<and>
    (rc \<noteq> None \<longrightarrow> rc = Some EAGAIN \<and> taken (ro_pipes r) qs None msg_init qs' \<and> (\<forall>q \<in> ro_pipes r. qs' q = [])) \<and>
    (rc = None \<longrightarrow> (\<exists>p act i x r'' w''. map_of (outpipes r) i = Some (p, act) \<and> msg_data m' (mheap w') = Some i \<and> msg_more m' \<and>
       router_xrecv oom m' r' w' = Some (None, x, r'', w'') \<and> taken (ro_pipes r) qs (Some p) x qs' \<and> \<not> msg_is_identity x \<and>
       msg_data x (mheap w'') = msg_data x (mheap w) \<and> \<not> prefetched r'' \<and> more_in r'' = msg_more x \<and>
       router_inv r'' w'' \<and> feeds (ro_fq r'') w'' qs' \<and> refs_ok (mheap w'') (add_mset x (queued (ro_fq r'') qs' + R))))"
proof -
  obtain rc m' r' w' qs' where r1: "router_xrecv oom m r w = Some (rc, m', r', w')" "router_inv r' w'" "outpipes r' = outpipes r"
    "same_out (ro_pipes r) w w'" "feeds (ro_fq r') w' qs'" "msg_check m'"
    "rc \<noteq> None \<longrightarrow> rc = Some EAGAIN \<and> taken (ro_pipes r) qs None msg_init qs' \<and> (\<forall>q \<in> ro_pipes r. qs' q = []) \<and>
       r' = r\<lparr>ro_fq := ro_fq r'\<rparr> \<and> refs_ok (mheap w') (add_mset m' R)"
    "rc = None \<longrightarrow> (\<exists>p act i x. map_of (outpipes r) i = Some (p, act) \<and> p \<in> ro_pipes r \<and> msg_data m' (mheap w') = Some i \<and> msg_flags m' = flag_more \<and>
       taken (ro_pipes r) qs (Some p) x qs' \<and> \<not> msg_is_identity x \<and> msg_check x \<and> rr_more (ro_fq r') = msg_more x \<and>
       (msg_more x \<longrightarrow> rr_cur (ro_fq r') = p) \<and> msg_data x (mheap w') = msg_data x (mheap w) \<and>
       (\<forall>y \<in># queued (ro_fq r') qs' + R. msg_data y (mheap w') = msg_data y (mheap w)) \<and>
       r' = r\<lparr>ro_fq := ro_fq r', prefetched_msg := x, prefetched := True, identity_sent := True\<rparr> \<and>
       refs_ok (mheap w') (add_mset m' (add_mset x (queued (ro_fq r') qs' + R))))"
    using router_recv_first [OF assms] by (elim exE conjE) (rule that, assumption+)
  show ?thesis
  proof (cases rc)
    case (Some e)
    then show ?thesis using r1(1,2,5,7) by (intro exI [of _ rc] exI [of _ m'] exI [of _ r'] exI [of _ w'] exI [of _ qs']) simp
  next
    case None
    obtain p act i x where x: "map_of (outpipes r) i = Some (p, act)" "msg_data m' (mheap w') = Some i" "msg_flags m' = flag_more"
       "taken (ro_pipes r) qs (Some p) x qs'" "\<not> msg_is_identity x" "msg_check x" "msg_data x (mheap w') = msg_data x (mheap w)"
       "r' = r\<lparr>ro_fq := ro_fq r', prefetched_msg := x, prefetched := True, identity_sent := True\<rparr>"
       "refs_ok (mheap w') (add_mset m' (add_mset x (queued (ro_fq r') qs' + R)))" using r1(8) None by blast
    have f: "prefetched r'" "identity_sent r'" "prefetched_msg r' = x" by (subst x(8), simp)+
    let ?r = "r'\<lparr>prefetched_msg := msg_init, prefetched := False, more_in := msg_more x\<rparr>"
    obtain h where h: "router_xrecv oom m' r' w' = Some (None, x, ?r, w'\<lparr>mheap := h\<rparr>)" "refs_ok h (add_mset x (queued (ro_fq r') qs' + R))"
      "msg_data x h = msg_data x (mheap w')"
      using router_recv_prefetched [OF f(1,2) r1(6), of w' "queued (ro_fq r') qs' + R"] f(3) x(6,9) by auto
    have "router_inv ?r (w'\<lparr>mheap := h\<rparr>)"
      by (rule router_inv_recv [OF r1(2), of _ "ro_fq r'"]) (use r1(2) in \<open>simp_all add: router_inv_def\<close>)
    moreover have "feeds (ro_fq r') (w'\<lparr>mheap := h\<rparr>) qs'" using r1(5) by (simp add: feeds_def)
    moreover have "msg_more m'" using x(3) by (simp add: msg_more_def flag_more_def)
    ultimately have E: "\<exists>p act i x r'' w''. map_of (outpipes r) i = Some (p, act) \<and> msg_data m' (mheap w') = Some i \<and> msg_more m' \<and>
       router_xrecv oom m' r' w' = Some (None, x, r'', w'') \<and> taken (ro_pipes r) qs (Some p) x qs' \<and> \<not> msg_is_identity x \<and>
       msg_data x (mheap w'') = msg_data x (mheap w) \<and> \<not> prefetched r'' \<and> more_in r'' = msg_more x \<and>
       router_inv r'' w'' \<and> feeds (ro_fq r'') w'' qs' \<and> refs_ok (mheap w'') (add_mset x (queued (ro_fq r'') qs' + R))"
      using x(1,2,4,5,7) h
      by (intro exI [of _ p], intro exI [of _ act], intro exI [of _ i], intro exI [of _ x], intro exI [of _ ?r], intro exI [of _ "w'\<lparr>mheap := h\<rparr>"]) simp
    show ?thesis
      by (intro exI [of _ rc], intro exI [of _ m'], intro exI [of _ r'], intro exI [of _ w'], intro exI [of _ qs'])
        (use None r1(1,2,5) E in simp)
  qed
qed

text \<open>
  A peer can make the socket abort. Identities are generated by counting up from a random number;
  nothing keeps a peer from sending such an identity itself. If a peer sends the one that is next,
  the next peer without an identity makes \<open>identify_peer\<close> fail its assertion that the identity is new.
\<close>
theorem router_identity_collision:
  assumes "router_inv r w" and "\<not> ro_raw_option r" and "\<not> ro_probe_router r" and "p \<noteq> q"
    and "{p, q} \<inter> (anonymous_pipes r \<union> ro_pipes r) = {}" and "writable w p" and "writable w q" and "apart ({p, q} \<union> ro_pipes r) w"
    and "delivers w p (m # ms)" and "msg_data m (mheap w) = Some (generated_identity (next_peer_id r))"
    and "map_of (outpipes r) (generated_identity (next_peer_id r)) = None"
    and "delivers w q (e # es)" and "msg_data e (mheap w) = Some []"
    and "refs_ok (mheap w) (add_mset m (add_mset e R))" and "msg_check m" and "msg_check e"
  shows "\<exists>r' w'. router_xattach_pipe p r w = Some (r', w') \<and> router_inv r' w' \<and> router_xattach_pipe q r' w' = None"
proof -
  let ?S = "{p, q} \<union> ro_pipes r" and ?g = "generated_identity (next_peer_id r)"
  have g: "?g \<noteq> []" by (simp add: generated_identity_def)
  have a: "p \<notin> anonymous_pipes r" "p \<notin> ro_pipes r" "insert p (ro_pipes r) \<subseteq> ?S" "?g = (if ?g = [] then ?g else ?g)" using assms(5) by auto
  obtain r' w' where r': "router_xattach_pipe p r w = Some (r', w')" "router_inv r' w'" "map_of (outpipes r') ?g = Some (p, True)"
    "refs_ok (mheap w') (add_mset e R)" "\<forall>q \<in> ?S. q \<noteq> p \<longrightarrow> (\<forall>xs. delivers w q xs \<longrightarrow> delivers w' q xs)"
    "r' = r\<lparr>next_peer_id := next_peer_id r', outpipes := outpipes r @ [(?g, (p, True))], ro_fq := ro_fq r'\<rparr>" 
    "?g \<noteq> [] \<longrightarrow> next_peer_id r' = next_peer_id r" "\<forall>x \<in># add_mset e R. msg_data x (mheap w') = msg_data x (mheap w)"
    using router_attach_ok [OF assms(1-3) a(1,2) assms(6,8) a(3) assms(9,10,14,15) a(4) assms(11)] by (elim exE conjE) (rule that, assumption+)
  have o: "ro_raw_option r' = ro_raw_option r" "ro_probe_router r' = ro_probe_router r" by (subst r'(6), simp)+
  have "delivers w' q (e # es)" using r'(5) assms(4,12) by simp
  then obtain w2 where w2: "pipe_read q w' = Some (Some e, w2)" "mheap w2 = mheap w'" using pipe_read_delivers by blast
  obtain h where h: "close_in e w2 = Some (w2\<lparr>mheap := h\<rparr>)" using close_in_refs_data [of w2 e R] r'(4) w2(2) assms(16) by auto
  have d: "msg_data e (mheap w2) = Some []" using r'(8) w2(2) assms(13) by simp
  have "peer_identity q r' w' = Some (Some (?g, next_peer_id r + 1), w2\<lparr>mheap := h\<rparr>)"
    using o assms(2) w2(1) d h close_ignored_close_in [OF assms(16)] r'(7) g by (simp add: peer_identity_def)
  then have "identify_peer q r' w' = None" using r'(3) by (auto simp: identify_peer_def split: Option.bind_splits)
  then have "router_xattach_pipe q r' w' = None" using o assms(3) by (simp add: router_xattach_pipe_def)
  with r'(1,2) show ?thesis by blast
qed

subsection \<open>Examples\<close>

lemma router_new_inv: "router_inv (router_new n) w"
  by (simp add: router_inv_def router_new_def ro_pipes_def fq_new_def rr_ok_def rr_all_def arr_ok_def apart_def)

text \<open>A router with one peer, whose identity is 7 and who has sent \<open>ms\<close>.\<close>

lemma apart_example: "pipes w 1 = Some open_pipe \<Longrightarrow> pipes w 3 = Some full_pipe \<Longrightarrow> apart {1, 3} w"
  by (auto simp: apart_def open_pipe_def full_pipe_def pipe_new_def)

text \<open>A router with one peer, on the pipe 1, which has room, or 3, which is full.\<close>

lemma router_example_of:
  assumes "\<forall>m \<in> set ms. \<not> msg_is_delimiter m" and "p = 1 \<or> p = 3"
  shows "\<exists>r w. router_inv r w \<and> outpipes r = [([7], (p, True))] \<and> ro_pipes r = {p} \<and>
    r = (router_new 0)\<lparr>next_peer_id := next_peer_id r, outpipes := outpipes r, ro_fq := ro_fq r\<rparr> \<and> has_room w p = (p = 1) \<and> out_log w p [] \<and>
    delivers w p ms \<and> refs_ok (mheap w) {#} \<and> rr_actives (ro_fq r) = {p} \<and> \<not> rr_more (ro_fq r)"
proof -
  let ?i = "\<lparr>msg_u = Vsm [7], msg_flags = flag_identity\<rparr>" and ?h = "\<lparr>contents = Map.empty, msg_brk = 0, ffn_calls = []\<rparr>"
  obtain w where w: "pipes w 1 = Some open_pipe" "pipes w 3 = Some full_pipe" "mheap w = ?h" "writable w p" "has_room w p = (p = 1)" "out_log w p []"
    "delivers w p (?i # ms)" using pipes_example [of "?i # ms" "?i # ms" ?h] assms by (auto simp: msg_is_delimiter_def)
  have a: "p \<notin> anonymous_pipes (router_new 0)" "p \<notin> ro_pipes (router_new 0)" "insert p (ro_pipes (router_new 0)) \<subseteq> {1, 3}"
    "\<not> ro_raw_option (router_new 0)" "\<not> ro_probe_router (router_new 0)" "map_of (outpipes (router_new 0)) [7] = None"
    using assms(2) by (auto simp: router_new_def ro_pipes_def)
  have m: "msg_data ?i (mheap w) = Some [7]" "refs_ok (mheap w) (add_mset ?i {#})" "msg_check ?i"
    using w(3) by (simp_all add: msg_data_def msg_check_def refs_ok_none)
  have d: "[7] = (if [7] = [] then generated_identity (next_peer_id (router_new 0)) else [7 :: byte])" by simp
  obtain r' w' where r': "router_inv r' w'" "ro_pipes r' = insert p (ro_pipes (router_new 0))" "refs_ok (mheap w') {#}" "delivers w' p ms"
    "\<forall>q \<in> {1, 3}. has_room w' q = has_room w q \<and> (\<forall>xs. out_log w q xs \<longrightarrow> out_log w' q xs)"
    "r' = (router_new 0)\<lparr>next_peer_id := next_peer_id r', outpipes := outpipes (router_new 0) @ [([7], (p, True))], ro_fq := ro_fq r'\<rparr>"
    "rr_actives (ro_fq r') = insert p (rr_actives (ro_fq (router_new 0)))" "rr_more (ro_fq r') = rr_more (ro_fq (router_new 0))"
    using router_attach_ok [OF router_new_inv a(4,5,1,2) w(4) apart_example [OF w(1,2)] a(3) w(7) m d a(6)]
    by (elim exE conjE) (rule that, assumption+)
  have o: "outpipes r' = [([7], (p, True))]" by (subst r'(6)) (simp add: router_new_def)
  have "r' = (router_new 0)\<lparr>next_peer_id := next_peer_id r', outpipes := outpipes r', ro_fq := ro_fq r'\<rparr>"
    unfolding o by (subst r'(6)) (simp add: router_new_def)
  moreover have "ro_pipes r' = {p}" "rr_actives (ro_fq r') = {p}" "\<not> rr_more (ro_fq r')" using r'(2,7,8) a(2)
    by (simp_all add: router_new_def ro_pipes_def fq_new_def rr_actives_def)
  moreover have "has_room w' p = (p = 1)" "out_log w' p []" using r'(5) w(5,6) assms(2) by auto
  ultimately show ?thesis using r'(1,3,4) o by (intro exI [of _ r'] exI [of _ w'] conjI) simp_all
qed

lemmas router_example = router_example_of [where p = 1, simplified]

theorem router_routes_witness:
  "\<exists>r w r' w'. router_send_all [\<lparr>msg_u = Vsm [7], msg_flags = flag_more\<rparr>, \<lparr>msg_u = Vsm [1, 2], msg_flags = 0\<rparr>] r w = Some (r', w') \<and>
     out_log w 1 [] \<and> out_log w' 1 [\<lparr>msg_u = Vsm [1, 2], msg_flags = 0\<rparr>]"
proof -
  let ?m = "\<lparr>msg_u = Vsm [7], msg_flags = flag_more\<rparr>" and ?b = "\<lparr>msg_u = Vsm [1, 2], msg_flags = 0\<rparr>"
  obtain r w where r: "router_inv r w" "outpipes r = [([7], (1, True))]"
    "r = (router_new 0)\<lparr>next_peer_id := next_peer_id r, outpipes := outpipes r, ro_fq := ro_fq r\<rparr>" "has_room w 1" "out_log w 1 []" "refs_ok (mheap w) {#}"
    using router_example [of "[]"] by auto
  have f: "\<not> more_out r" "\<not> ro_raw_option r" "\<not> ro_raw_sock r" by (subst r(3), simp add: router_new_def)+
  have m: "msg_more ?m" "msg_data ?m (mheap w) = Some [7]" "map_of (outpipes r) [7] = Some (1, True)" "msg_check ?m" "whole [?b]"
    "refs_ok (mheap w) (add_mset ?m (mset [?b] + {#}))"
    using r(2,6) by (simp_all add: msg_more_def flag_more_def msg_data_def msg_check_def whole_def refs_ok_none)
  obtain w' where "router_send_all [?m, ?b] r w = Some (r, w')" "\<forall>q xs. out_log w q xs \<longrightarrow> out_log w' q (if q = 1 then xs @ [?b] else xs)"
    using router_routes [OF r(1) f m(1-3) r(4) m(6,4,5)] by (elim exE conjE) (rule that, assumption+)
  moreover from spec [OF spec [OF this(2), of 1], of "[]"] r(5) have "out_log w' 1 [?b]" by simp
  ultimately show ?thesis using r(5) by (intro exI conjI)
qed

theorem router_unroutable_witness:
  "\<exists>r w r' w'. router_xsend \<lparr>msg_u = Vsm [8], msg_flags = flag_more\<rparr> (r\<lparr>ro_mandatory := True\<rparr>) w =
     Some (Some EHOSTUNREACH, \<lparr>msg_u = Vsm [8], msg_flags = flag_more\<rparr>, r', w')"
proof -
  let ?m = "\<lparr>msg_u = Vsm [8], msg_flags = flag_more\<rparr>" and ?b = "\<lparr>msg_u = Vsm [1, 2], msg_flags = 0\<rparr>"
  obtain r w where r: "router_inv r w" "outpipes r = [([7], (1, True))]"
    "r = (router_new 0)\<lparr>next_peer_id := next_peer_id r, outpipes := outpipes r, ro_fq := ro_fq r\<rparr>" "refs_ok (mheap w) {#}"
    using router_example [of "[]"] by auto
  let ?r = "r\<lparr>ro_mandatory := True\<rparr>"
  have f: "\<not> more_out ?r" "\<not> ro_raw_option ?r" by (subst r(3), simp add: router_new_def)+
  have i: "router_inv ?r w" using r(1) by (simp add: router_inv_def ro_pipes_def)
  have m: "msg_more ?m" "msg_data ?m (mheap w) = Some [8]" "\<forall>p act. map_of (outpipes ?r) [8] = Some (p, act) \<longrightarrow> \<not> has_room w p"
    "refs_ok (mheap w) (mset [?m, ?b] + {#})" "\<forall>x \<in> set [?m, ?b]. msg_check x" "whole [?b]"
    using r(2,4) by (simp_all add: msg_more_def flag_more_def msg_data_def msg_check_def whole_def refs_ok_none)
  have n: "map_of (outpipes ?r) [8] = None" "ro_mandatory ?r" using r(2) by simp_all
  show ?thesis using router_unroutable [OF i f m] unfolding n by auto
qed

theorem router_receives_witness:
  "\<exists>r w m' r' w' x r'' w''. router_xrecv (\<lambda>_. False) msg_init r w = Some (None, m', r', w') \<and> msg_data m' (mheap w') = Some [7] \<and>
     router_xrecv (\<lambda>_. False) m' r' w' = Some (None, x, r'', w'') \<and> msg_data x (mheap w'') = Some [1, 2]"
proof -
  let ?b = "\<lparr>msg_u = Vsm [1, 2], msg_flags = 0\<rparr>"
  obtain r w where r: "router_inv r w" "outpipes r = [([7], (1, True))]" "ro_pipes r = {1}"
    "r = (router_new 0)\<lparr>next_peer_id := next_peer_id r, outpipes := outpipes r, ro_fq := ro_fq r\<rparr>" "delivers w 1 [?b]" "refs_ok (mheap w) {#}"
    "rr_actives (ro_fq r) = {1}" "\<not> rr_more (ro_fq r)"
    using router_example [of "[?b]"] by (auto simp: msg_is_delimiter_def)
  let ?qs = "\<lambda>p :: addr. [?b]"
  have all: "rr_all (ro_fq r) = {1}" "rr_ok (ro_fq r)" using r(1,3) by (simp_all add: router_inv_def)
  have f: "feeds (ro_fq r) w ?qs" using r(5,7,8) all by (simp add: feeds_def msg_check_def msg_more_def)
  have rf: "refs_ok (mheap w) (add_mset msg_init (queued (ro_fq r) ?qs + {#}))"
    using r(6) all by (simp add: queued_def refs_ok_none msg_init_def)
  have s: "\<not> prefetched r" "\<not> more_in r" "prefetched_msg r = msg_init" by (subst r(4), simp add: router_new_def)+
  have o: "\<forall>n. \<not> (\<lambda>_ :: nat. False) n" "\<forall>e \<in> set (outpipes r). length (fst e) + sizeof_content \<le> size_t_max" "msg_check msg_init"
    using r(2) by (simp_all add: sizeof_content_def size_t_max_def msg_check_def msg_init_def)
  obtain rc m' r' w' qs' where R: "router_xrecv (\<lambda>_. False) msg_init r w = Some (rc, m', r', w')"
    "rc \<noteq> None \<longrightarrow> rc = Some EAGAIN \<and> taken (ro_pipes r) ?qs None msg_init qs' \<and> (\<forall>q \<in> ro_pipes r. qs' q = [])"
    "rc = None \<longrightarrow> (\<exists>p act i x r'' w''. map_of (outpipes r) i = Some (p, act) \<and> msg_data m' (mheap w') = Some i \<and> msg_more m' \<and>
       router_xrecv (\<lambda>_. False) m' r' w' = Some (None, x, r'', w'') \<and> taken (ro_pipes r) ?qs (Some p) x qs' \<and> \<not> msg_is_identity x \<and>
       msg_data x (mheap w'') = msg_data x (mheap w) \<and> \<not> prefetched r'' \<and> more_in r'' = msg_more x \<and>
       router_inv r'' w'' \<and> feeds (ro_fq r'') w'' qs' \<and> refs_ok (mheap w'') (add_mset x (queued (ro_fq r'') qs' + {#})))"
    using router_receives [where oom = "\<lambda>_. False", OF r(1) f rf o(3) s o(1,2)] by (elim exE conjE) (rule that, assumption+)
  have b: "\<not> msg_is_identity ?b" by (simp add: msg_is_identity_def flag_identity_def)
  have "rc = None" using R(2) b r(3) by (auto simp: taken_def)
  then obtain p act i x r'' w'' where x: "map_of (outpipes r) i = Some (p, act)" "msg_data m' (mheap w') = Some i"
    "router_xrecv (\<lambda>_. False) m' r' w' = Some (None, x, r'', w'')" "taken (ro_pipes r) ?qs (Some p) x qs'"
    "msg_data x (mheap w'') = msg_data x (mheap w)" using R(3) by blast
  have p: "p = 1" "i = [7]" using x(1) r(2) by (auto split: if_splits)
  then have "x = ?b" using x(4) r(3) b by (auto simp: taken_def Cons_eq_append_conv)
  then have "msg_data x (mheap w'') = Some [1, 2]" using x(5) by (simp add: msg_data_def)
  then show ?thesis using R(1) \<open>rc = None\<close> x(2,3) p(2) by (intro exI conjI) simp_all
qed

theorem router_identity_collision_witness:
  "\<exists>w r' w'. router_xattach_pipe 1 (router_new 5) w = Some (r', w') \<and> router_xattach_pipe 3 r' w' = None"
proof -
  let ?i = "\<lparr>msg_u = Vsm [0, 0, 0, 0, 5], msg_flags = flag_identity\<rparr>" and ?e = "\<lparr>msg_u = Vsm [], msg_flags = flag_identity\<rparr>"
  let ?h = "\<lparr>contents = Map.empty, msg_brk = 0, ffn_calls = []\<rparr>" and ?r = "router_new 5"
  obtain w where w: "pipes w 1 = Some open_pipe" "pipes w 3 = Some full_pipe" "mheap w = ?h" "writable w 1" "writable w 3"
    "delivers w 1 [?i]" "delivers w 3 [?e]" using pipes_example [of "[?i]" "[?e]" ?h] by (auto simp: msg_is_delimiter_def)
  have g: "generated_identity (next_peer_id ?r) = [0, 0, 0, 0, 5]" by (simp add: generated_identity_def router_new_def put_uint32_def)
  have m: "msg_data ?i (mheap w) = Some (generated_identity (next_peer_id ?r))" "map_of (outpipes ?r) (generated_identity (next_peer_id ?r)) = None"
    "msg_data ?e (mheap w) = Some []" "refs_ok (mheap w) (add_mset ?i (add_mset ?e {#}))" "msg_check ?i" "msg_check ?e"
    using w(3) unfolding g by (simp_all add: msg_data_def msg_check_def refs_ok_none router_new_def)
  have r: "\<not> ro_raw_option ?r" "\<not> ro_probe_router ?r" "{1, 3} \<inter> (anonymous_pipes ?r \<union> ro_pipes ?r) = {}" "(1 :: addr) \<noteq> 3"
    "apart ({1, 3} \<union> ro_pipes ?r) w" using apart_example [OF w(1,2)] by (simp_all add: router_new_def ro_pipes_def)
  show ?thesis
    using router_identity_collision [OF router_new_inv r(1,2,4,3) w(4,5) r(5) w(6) m(1,2) w(7) m(3-6)] by blast
qed

end
