(* ===== verification/Rep.thy ===== *)
theory Rep
  imports Router
begin

text \<open>
  The socket \<open>rep_t\<close> (\<^verbatim>\<open>src/rep.cpp\<close>): a router that receives requests and sends replies in turn. The
  envelope of a request, which ends with an empty part, is copied to the pipe of the reply while it
  is received.
\<close>

record rep_t =
  rp_router :: router_t
  sending_reply :: bool
  request_begins :: bool

definition rep_new :: "uint32 \<Rightarrow> rep_t" where
  "rep_new seed = \<lparr>rp_router = router_new seed, sending_reply = False, request_begins = True\<rparr>"

definition rep_xsend :: "msg_t \<Rightarrow> rep_t \<Rightarrow> world \<Rightarrow> (errno_t option \<times> msg_t \<times> rep_t \<times> world) option" where
  "rep_xsend m x w =
     (if \<not> sending_reply x then Some (Some EFSM, m, x, w)
      else do {
        let more = msg_more m;
        (rc, m, r, w) \<leftarrow> router_xsend m (rp_router x) w;
        let x = x\<lparr>rp_router := r\<rparr>;
        Some (rc, m, if rc = None \<and> \<not> more then x\<lparr>sending_reply := False\<rparr> else x, w)
      })"

text \<open>The loop of \<open>xrecv\<close> that copies the envelope.\<close>

partial_function (option) rep_envelope ::
  "(nat \<Rightarrow> bool) \<Rightarrow> msg_t \<Rightarrow> router_t \<Rightarrow> world \<Rightarrow> (errno_t option \<times> msg_t \<times> router_t \<times> world) option" where
  "rep_envelope oom m r w =
     (case router_xrecv oom m r w of
        None \<Rightarrow> None
      | Some (rc, m, r, w) \<Rightarrow>
          if rc \<noteq> None then Some (rc, m, r, w)
          else if msg_more m then
            (case msg_size m (mheap w) of
               None \<Rightarrow> None
             | Some sz \<Rightarrow> (case router_xsend m r w of
                  None \<Rightarrow> None
                | Some (rc, m, r, w) \<Rightarrow>
                    if rc \<noteq> None then None
                    else if sz = 0 then Some (None, m, r, w)
                    else rep_envelope oom m r w))
          else (case router_rollback r w of
               None \<Rightarrow> None
             | Some (r, w) \<Rightarrow> rep_envelope oom m r w))"

definition rep_xrecv ::
  "(nat \<Rightarrow> bool) \<Rightarrow> msg_t \<Rightarrow> rep_t \<Rightarrow> world \<Rightarrow> (errno_t option \<times> msg_t \<times> rep_t \<times> world) option" where
  "rep_xrecv oom m x w =
     (if sending_reply x then Some (Some EFSM, m, x, w)
      else do {
        (rc, m, r, w) \<leftarrow> (if request_begins x then rep_envelope oom m (rp_router x) w else Some (None, m, rp_router x, w));
        if rc \<noteq> None then Some (rc, m, x\<lparr>rp_router := r\<rparr>, w)
        else do {
          let x = x\<lparr>request_begins := False\<rparr>;
          (rc, m, r, w) \<leftarrow> router_xrecv oom m r w;
          let x = x\<lparr>rp_router := r\<rparr>;
          Some (rc, m, if rc = None \<and> \<not> msg_more m then x\<lparr>sending_reply := True, request_begins := True\<rparr> else x, w)
        }
      })"

definition rep_xhas_in :: "(nat \<Rightarrow> bool) \<Rightarrow> rep_t \<Rightarrow> world \<Rightarrow> (bool \<times> rep_t \<times> world) option" where
  "rep_xhas_in oom x w =
     (if sending_reply x then Some (False, x, w)
      else do { (ok, r, w) \<leftarrow> router_xhas_in oom (rp_router x) w; Some (ok, x\<lparr>rp_router := r\<rparr>, w) })"

definition rep_xhas_out :: "rep_t \<Rightarrow> bool" where
  "rep_xhas_out x = (sending_reply x \<and> router_xhas_out)"

subsection \<open>Copying the envelope\<close>

lemma feeds_same_in:
  assumes "feeds f w qs" and "same_in S w w'" and "rr_all f \<subseteq> S"
  shows "feeds f w' qs"
  using assms unfolding feeds_def same_in_def by blast

lemma feeds_cong:
  assumes "feeds f w qs" and "\<forall>y \<in> rr_all f. qs' y = qs y"
  shows "feeds f w qs'"
proof -
  have f: "rr_ok f" "\<forall>p \<in> rr_all f. delivers w p (qs p) \<and> (\<forall>m \<in> set (qs p). msg_check m) \<and> (qs p \<noteq> [] \<longrightarrow> \<not> msg_more (last (qs p)))"
    "\<forall>p \<in> rr_all f - rr_actives f. qs p = []" "rr_more f \<longrightarrow> 0 < rr_active f \<and> qs (rr_cur f) \<noteq> []"
    using assms(1) by (simp_all add: feeds_def)
  have "rr_cur f \<in> rr_all f" if "rr_more f" using rr_cur_active [OF f(1)] f(4) that rr_actives_sub [of f] by auto
  then show ?thesis using f assms(2) unfolding feeds_def by simp
qed

text \<open>The parts of an envelope below the identity: labels, which are not empty, and the empty part.\<close>

definition label :: "msg_heap \<Rightarrow> msg_t \<Rightarrow> bool" where
  "label h m \<longleftrightarrow> msg_more m \<and> \<not> msg_is_identity m \<and> (\<exists>d. msg_data m h = Some d \<and> d \<noteq> [])"

definition bottom_part :: "msg_heap \<Rightarrow> msg_t \<Rightarrow> bool" where
  "bottom_part h m \<longleftrightarrow> msg_more m \<and> \<not> msg_is_identity m \<and> msg_data m h = Some []"

lemma rep_push:
  assumes "router_inv r w" and "feeds (ro_fq r) w qs" and "refs_ok (mheap w) (add_mset m (queued (ro_fq r) qs + R))"
    and "msg_more m" and "more_out r" and "current_out r = Some p" and "has_room w p" and "\<not> ro_raw_option r" and "\<not> ro_raw_sock r"
  shows "\<exists>w'. router_xsend m r w = Some (None, msg_init, r, w') \<and> router_inv r w' \<and> feeds (ro_fq r) w' qs \<and> has_room w' p \<and>
    mheap w' = mheap w \<and> refs_ok (mheap w') (add_mset msg_init (queued (ro_fq r) qs + add_mset m R)) \<and>
    (\<forall>q xs. out_log w q xs \<longrightarrow> out_log w' q (if q = p then xs @ [m] else xs))"
proof -
  obtain w' where w': "router_xsend m r w = Some (None, msg_init, r\<lparr>more_out := msg_more m, current_out := (if msg_more m then Some p else None)\<rparr>, w')"
    "mheap w' = mheap w" "\<forall>q xs. out_log w q xs \<longrightarrow> out_log w' q (if q = p then xs @ [m] else xs)" "msg_more m \<longrightarrow> has_room w' p"
    "same_in (ro_pipes r) w w'" "\<forall>q. writable w q \<longrightarrow> writable w' q" using router_next_part [OF assms(1,5-9), of m] by blast
  have r: "r\<lparr>more_out := msg_more m, current_out := (if msg_more m then Some p else None)\<rparr> = r" using assms(4-6) by simp
  have wr: "\<forall>p \<in> ro_pipes r. writable w p" "\<forall>p. current_out r = Some p \<longrightarrow> p \<in> ro_pipes r \<and> more_out r" and al: "rr_all (ro_fq r) = ro_pipes r"
    using assms(1) by (simp_all add: router_inv_def)
  have "router_inv r w'" using router_inv_same [OF assms(1) w'(5) _ refl refl refl refl] w'(6) wr by blast
  moreover have "feeds (ro_fq r) w' qs" using feeds_same_in [OF assms(2) w'(5)] al by simp
  moreover have "refs_ok (mheap w') (add_mset msg_init (queued (ro_fq r) qs + add_mset m R))"
    using assms(3) w'(2) refs_ok_none [of msg_init] by (simp add: msg_init_def)
  ultimately show ?thesis using w'(1-4) assms(4) r by (intro exI [of _ w']) (simp split del: if_split)
qed

text \<open>One round: a part is received from the current pipe and copied to it.\<close>

lemma rep_round:
  assumes "router_inv r w" and "feeds (ro_fq r) w qs" and "refs_ok (mheap w) (add_mset m (queued (ro_fq r) qs + R))" and "msg_check m"
    and "\<not> prefetched r" and "more_in r" and "rr_more (ro_fq r)" and "rr_cur (ro_fq r) = p" and "qs p = x # xs"
    and "\<not> msg_is_identity x" and "msg_more x"
    and "more_out r" and "current_out r = Some p" and "has_room w p" and "\<not> ro_raw_option r" and "\<not> ro_raw_sock r"
  shows "\<exists>r' w1 w'. router_xrecv oom m r w = Some (None, x, r', w1) \<and> msg_data x (mheap w1) = msg_data x (mheap w) \<and>
    router_xsend x r' w1 = Some (None, msg_init, r', w') \<and> router_inv r' w' \<and> feeds (ro_fq r') w' (qs(p := xs)) \<and>
    refs_ok (mheap w') (add_mset msg_init (queued (ro_fq r') (qs(p := xs)) + add_mset x R)) \<and>
    r' = r\<lparr>ro_fq := ro_fq r'\<rparr> \<and> rr_more (ro_fq r') \<and> rr_cur (ro_fq r') = p \<and> has_room w' p \<and> ro_pipes r' = ro_pipes r \<and>
    (\<forall>q \<in> ro_pipes r. \<forall>ys. out_log w q ys \<longrightarrow> out_log w' q (if q = p then ys @ [x] else ys)) \<and> rr_all (ro_fq r') = rr_all (ro_fq r) \<and>
    (\<forall>y \<in># queued (ro_fq r') (qs(p := xs)) + add_mset x R. msg_data y (mheap w') = msg_data y (mheap w))"
proof -
  obtain r' w1 where r1: "router_xrecv oom m r w = Some (None, x, r', w1)" "router_inv r' w1" "same_out (ro_pipes r) w w1"
    "feeds (ro_fq r') w1 (qs(p := xs))" "r' = r\<lparr>ro_fq := ro_fq r', more_in := msg_more x\<rparr>" "rr_more (ro_fq r') = msg_more x"
    "msg_more x \<longrightarrow> rr_cur (ro_fq r') = p" "rr_all (ro_fq r') = rr_all (ro_fq r)"
    "refs_ok (mheap w1) (add_mset x (queued (ro_fq r') (qs(p := xs)) + R))" "msg_data x (mheap w1) = msg_data x (mheap w)"
    "\<forall>y \<in># queued (ro_fq r') (qs(p := xs)) + R. msg_data y (mheap w1) = msg_data y (mheap w)"
    using router_recv_more [where oom = oom, OF assms(1-10)] by (elim exE conjE) (rule that, assumption+)
  have "r\<lparr>ro_fq := f, more_in := msg_more x\<rparr> = r\<lparr>ro_fq := f\<rparr>" for f using assms(6,11) by (cases r) simp
  then have r: "r' = r\<lparr>ro_fq := ro_fq r'\<rparr>" using r1(5) by metis
  have f: "more_out r'" "current_out r' = Some p" "\<not> ro_raw_option r'" "\<not> ro_raw_sock r'" "ro_pipes r' = ro_pipes r"
    using assms(12,13,15,16) by (subst r, simp add: ro_pipes_def)+
  have pp: "p \<in> ro_pipes r" using assms(1,13) by (simp add: router_inv_def)
  have room: "has_room w1 p" using r1(3) assms(14) pp by (simp add: same_out_def)
  obtain w' where w': "router_xsend x r' w1 = Some (None, msg_init, r', w')" "router_inv r' w'" "feeds (ro_fq r') w' (qs(p := xs))" "has_room w' p"
    "mheap w' = mheap w1" "refs_ok (mheap w') (add_mset msg_init (queued (ro_fq r') (qs(p := xs)) + add_mset x R))"
    "\<forall>q ys. out_log w1 q ys \<longrightarrow> out_log w' q (if q = p then ys @ [x] else ys)"
    using rep_push [OF r1(2,4,9) assms(11) f(1,2) room f(3,4)] by (elim exE conjE) (rule that, assumption+)
  have lg: "\<forall>q \<in> ro_pipes r. \<forall>ys. out_log w q ys \<longrightarrow> out_log w' q (if q = p then ys @ [x] else ys)"
    using w'(7) r1(3) unfolding same_out_def by blast
  show ?thesis using r1(1,6-8,10,11) r w' lg f(5) assms(11)
    by (intro exI [of _ r'] exI [of _ w1] exI [of _ w']) (simp split del: if_split)
qed

lemma rep_envelope_rest:
  assumes "router_inv r w" and "feeds (ro_fq r) w qs" and "refs_ok (mheap w) (add_mset m (queued (ro_fq r) qs + R))" and "msg_check m"
    and "\<not> prefetched r" and "more_in r" and "rr_more (ro_fq r)" and "rr_cur (ro_fq r) = p" and "qs p = ls @ e # rest"
    and "\<forall>l \<in> set ls. label (mheap w) l" and "bottom_part (mheap w) e"
    and "more_out r" and "current_out r = Some p" and "has_room w p" and "\<not> ro_raw_option r" and "\<not> ro_raw_sock r"
  shows "\<exists>r' w'. rep_envelope oom m r w = Some (None, msg_init, r', w') \<and> router_inv r' w' \<and> feeds (ro_fq r') w' (qs(p := rest)) \<and>
    refs_ok (mheap w') (add_mset msg_init (queued (ro_fq r') (qs(p := rest)) + (mset (ls @ [e]) + R))) \<and>
    r' = r\<lparr>ro_fq := ro_fq r'\<rparr> \<and> rr_more (ro_fq r') \<and> rr_cur (ro_fq r') = p \<and> has_room w' p \<and>
    (\<forall>q \<in> ro_pipes r. \<forall>xs. out_log w q xs \<longrightarrow> out_log w' q (if q = p then xs @ ls @ [e] else xs)) \<and>
    (\<forall>y \<in># queued (ro_fq r') (qs(p := rest)) + R. msg_data y (mheap w') = msg_data y (mheap w))"
  using assms
proof (induction ls arbitrary: m r w qs R)
  case Nil
  have q: "qs p = e # rest" and e: "\<not> msg_is_identity e" "msg_more e" "msg_data e (mheap w) = Some []"
    using Nil.prems(9,11) by (simp_all add: bottom_part_def)
  obtain r' w1 w' where s: "router_xrecv oom m r w = Some (None, e, r', w1)" "msg_data e (mheap w1) = msg_data e (mheap w)"
    "router_xsend e r' w1 = Some (None, msg_init, r', w')" "router_inv r' w'" "feeds (ro_fq r') w' (qs(p := rest))"
    "refs_ok (mheap w') (add_mset msg_init (queued (ro_fq r') (qs(p := rest)) + add_mset e R))"
    "r' = r\<lparr>ro_fq := ro_fq r'\<rparr>" "rr_more (ro_fq r')" "rr_cur (ro_fq r') = p" "has_room w' p"
    "\<forall>q \<in> ro_pipes r. \<forall>ys. out_log w q ys \<longrightarrow> out_log w' q (if q = p then ys @ [e] else ys)"
    "\<forall>y \<in># queued (ro_fq r') (qs(p := rest)) + add_mset e R. msg_data y (mheap w') = msg_data y (mheap w)"
    using rep_round [where oom = oom, OF Nil.prems(1-8) q e(1,2) Nil.prems(12-16)] by (elim exE conjE) (rule that, assumption+)
  have "rep_envelope oom m r w = Some (None, msg_init, r', w')"
    using s(1-3) e by (subst rep_envelope.simps) (simp add: msg_size_def)
  then show ?case using s unfolding append_Nil by (intro exI [of _ r'] exI [of _ w']) (simp split del: if_split del: fun_upd_apply)
next
  case (Cons l ls)
  have l: "\<not> msg_is_identity l" "msg_more l" "\<exists>d. msg_data l (mheap w) = Some d \<and> d \<noteq> []" using Cons.prems(10) by (auto simp: label_def)
  have q: "qs p = l # (ls @ e # rest)" using Cons.prems(9) by simp
  let ?qs = "qs(p := ls @ e # rest)"
  obtain r' w1 w' where s: "router_xrecv oom m r w = Some (None, l, r', w1)" "msg_data l (mheap w1) = msg_data l (mheap w)"
    "router_xsend l r' w1 = Some (None, msg_init, r', w')" "router_inv r' w'" "feeds (ro_fq r') w' ?qs"
    "refs_ok (mheap w') (add_mset msg_init (queued (ro_fq r') ?qs + add_mset l R))"
    "r' = r\<lparr>ro_fq := ro_fq r'\<rparr>" "rr_more (ro_fq r')" "rr_cur (ro_fq r') = p" "has_room w' p" "ro_pipes r' = ro_pipes r"
    "\<forall>q \<in> ro_pipes r. \<forall>ys. out_log w q ys \<longrightarrow> out_log w' q (if q = p then ys @ [l] else ys)" "rr_all (ro_fq r') = rr_all (ro_fq r)"
    "\<forall>y \<in># queued (ro_fq r') ?qs + add_mset l R. msg_data y (mheap w') = msg_data y (mheap w)"
    using rep_round [where oom = oom, OF Cons.prems(1-8) q l(1,2) Cons.prems(12-16)] by (elim exE conjE) (rule that, assumption+)
  have st: "rep_envelope oom m r w = rep_envelope oom msg_init r' w'"
    using s(1-3) l by (subst rep_envelope.simps) (auto simp: msg_size_def)
  have f: "\<not> prefetched r'" "more_in r'" "more_out r'" "current_out r' = Some p" "\<not> ro_raw_option r'" "\<not> ro_raw_sock r'"
    using Cons.prems(5,6,12,13,15,16) by (subst s(7), simp)+
  have pp: "p \<in> ro_pipes r'" "rr_all (ro_fq r') = ro_pipes r'" using s(4) f(4) by (simp_all add: router_inv_def)
  have mem: "y \<in># queued (ro_fq r') ?qs" if "y \<in> set (ls @ e # rest)" for y using queued_mem [of p "ro_fq r'" y ?qs] pp that by simp
  have dat: "msg_data y (mheap w') = msg_data y (mheap w)" if "y \<in> set (ls @ e # rest)" for y
    using s(14) mem [OF that] by (simp del: fun_upd_apply)
  have lab: "\<forall>y \<in> set ls. label (mheap w') y" using Cons.prems(10) dat by (auto simp: label_def)
  have bot: "bottom_part (mheap w') e" using Cons.prems(11) dat by (simp add: bottom_part_def)
  have ini: "msg_check msg_init" by (simp add: msg_check_def msg_init_def)
  have qq: "?qs p = ls @ e # rest" by simp
  obtain r2 w2 where i: "rep_envelope oom msg_init r' w' = Some (None, msg_init, r2, w2)" "router_inv r2 w2" "feeds (ro_fq r2) w2 (?qs(p := rest))"
    "refs_ok (mheap w2) (add_mset msg_init (queued (ro_fq r2) (?qs(p := rest)) + (mset (ls @ [e]) + add_mset l R)))"
    "r2 = r'\<lparr>ro_fq := ro_fq r2\<rparr>" "rr_more (ro_fq r2)" "rr_cur (ro_fq r2) = p" "has_room w2 p"
    "\<forall>q \<in> ro_pipes r'. \<forall>xs. out_log w' q xs \<longrightarrow> out_log w2 q (if q = p then xs @ ls @ [e] else xs)"
    "\<forall>y \<in># queued (ro_fq r2) (?qs(p := rest)) + add_mset l R. msg_data y (mheap w2) = msg_data y (mheap w')"
    using Cons.IH [OF s(4-6) ini f(1,2) s(8,9) qq lab bot f(3,4) s(10) f(5,6)] by (elim exE conjE) (rule that, assumption+)
  have "r2 = r\<lparr>ro_fq := ro_fq r2\<rparr>" by (subst i(5), subst s(7)) simp
  moreover have "\<forall>q \<in> ro_pipes r. \<forall>xs. out_log w q xs \<longrightarrow> out_log w2 q (if q = p then xs @ (l # ls) @ [e] else xs)"
  proof (intro ballI allI impI)
    fix q xs assume "q \<in> ro_pipes r" "out_log w q xs"
    then show "out_log w2 q (if q = p then xs @ (l # ls) @ [e] else xs)"
      using i(9) [unfolded s(11), rule_format, of q "if q = p then xs @ [l] else xs"] s(12) by (cases "q = p") auto
  qed
  moreover have "y \<in># queued (ro_fq r') ?qs" if y: "y \<in># queued (ro_fq r2) (qs(p := rest))" for y
  proof -
    obtain z where z: "z \<in> rr_all (ro_fq r2)" "y \<in> set ((qs(p := rest)) z)" using y by (auto simp: queued_def set_mset_sum)
    have "rr_all (ro_fq r2) = ro_pipes r2" using i(2) by (simp add: router_inv_def)
    also have "ro_pipes r2 = ro_pipes r'" by (subst i(5)) (simp add: ro_pipes_def)
    finally have "z \<in> rr_all (ro_fq r')" using z(1) pp(2) by simp
    moreover have "y \<in> set (?qs z)" using z(2) by (cases "z = p") auto
    ultimately show ?thesis using queued_mem by blast
  qed
  then have "\<forall>y \<in># queued (ro_fq r2) (qs(p := rest)) + R. msg_data y (mheap w2) = msg_data y (mheap w)"
    using i(10) s(14) by (simp del: fun_upd_apply add: ball_Un)
  ultimately show ?case unfolding st using i(1-4,6-8)
    by (intro exI [of _ r2] exI [of _ w2]) (simp split del: if_split del: fun_upd_apply)
qed

subsection \<open>Requests and replies\<close>

text \<open>A socket between two requests.\<close>

definition rep_ready :: "rep_t \<Rightarrow> bool" where
  "rep_ready x \<longleftrightarrow> \<not> sending_reply x \<and> request_begins x \<and> \<not> prefetched (rp_router x) \<and> \<not> more_in (rp_router x) \<and>
     prefetched_msg (rp_router x) = msg_init \<and> \<not> more_out (rp_router x) \<and> \<not> ro_raw_option (rp_router x) \<and> \<not> ro_raw_sock (rp_router x)"

text \<open>A request: the envelope and one part.\<close>

definition request :: "msg_heap \<Rightarrow> msg_t list \<Rightarrow> msg_t \<Rightarrow> msg_t \<Rightarrow> msg_t list \<Rightarrow> bool" where
  "request h ls e b ms \<longleftrightarrow> (\<forall>l \<in> set ls. label h l) \<and> bottom_part h e \<and> \<not> msg_more b \<and> \<not> msg_is_identity b \<and>
     (\<exists>rest. ms = ls @ e # b # rest \<and> (\<forall>m \<in> set rest. \<not> msg_is_identity m))"

lemma request_no_identity: "request h ls e b ms \<Longrightarrow> \<forall>m \<in> set ms. \<not> msg_is_identity m"
  by (auto simp: request_def label_def bottom_part_def)

lemma taken_no_identity:
  assumes "taken P qs src m qs'" and "\<forall>q \<in> P. \<forall>i \<in> set (qs q). \<not> msg_is_identity i" and "q \<in> P"
  shows "qs q = (if src = Some q then m # qs' q else qs' q)"
proof -
  obtain ids where "\<forall>i \<in> set ids. msg_is_identity i" "qs q = ids @ (if src = Some q then m # qs' q else qs' q)"
    using assms(1,3) unfolding taken_def by blast
  moreover from this have "ids = []" using assms(2,3) by (cases ids) auto
  ultimately show ?thesis by simp
qed

text \<open>The first two receives, when something is queued: the identity and the first part.\<close>

lemma rep_recv_some:
  assumes "router_inv r w" and "feeds (ro_fq r) w qs" and "refs_ok (mheap w) (add_mset m (queued (ro_fq r) qs + R))" and "msg_check m"
    and st: "\<not> prefetched r" "\<not> more_in r" "prefetched_msg r = msg_init"
    and "\<forall>n. \<not> oom n" and ids: "\<forall>e \<in> set (outpipes r). length (fst e) + sizeof_content \<le> size_t_max"
    and some: "\<exists>q \<in> ro_pipes r. qs q \<noteq> []" and noid: "\<forall>q \<in> ro_pipes r. \<forall>i \<in> set (qs q). \<not> msg_is_identity i"
  shows "\<exists>p act i x xs m1 r1 w1. router_xrecv oom m r w = Some (None, m1, r1, w1) \<and> router_inv r1 w1 \<and> outpipes r1 = outpipes r \<and>
    same_out (ro_pipes r) w w1 \<and> feeds (ro_fq r1) w1 (qs(p := xs)) \<and> msg_check m1 \<and> p \<in> ro_pipes r \<and> qs p = x # xs \<and>
    map_of (outpipes r) i = Some (p, act) \<and> msg_data m1 (mheap w1) = Some i \<and> msg_more m1 \<and> msg_check x \<and>
    rr_more (ro_fq r1) = msg_more x \<and> (msg_more x \<longrightarrow> rr_cur (ro_fq r1) = p) \<and> rr_all (ro_fq r1) = ro_pipes r \<and>
    r1 = r\<lparr>ro_fq := ro_fq r1, prefetched_msg := x, prefetched := True, identity_sent := True\<rparr> \<and>
    refs_ok (mheap w1) (add_mset m1 (add_mset x (queued (ro_fq r1) (qs(p := xs)) + R))) \<and>
    (\<forall>y \<in># add_mset x (queued (ro_fq r1) (qs(p := xs)) + R). msg_data y (mheap w1) = msg_data y (mheap w))"
proof -
  obtain rc m1 r1 w1 qs' where a: "router_xrecv oom m r w = Some (rc, m1, r1, w1)" "router_inv r1 w1" "outpipes r1 = outpipes r"
    "same_out (ro_pipes r) w w1" "feeds (ro_fq r1) w1 qs'" "msg_check m1"
    "rc \<noteq> None \<longrightarrow> rc = Some EAGAIN \<and> taken (ro_pipes r) qs None msg_init qs' \<and> (\<forall>q \<in> ro_pipes r. qs' q = []) \<and>
       r1 = r\<lparr>ro_fq := ro_fq r1\<rparr> \<and> refs_ok (mheap w1) (add_mset m1 R)"
    "rc = None \<longrightarrow> (\<exists>p act i x. map_of (outpipes r) i = Some (p, act) \<and> p \<in> ro_pipes r \<and> msg_data m1 (mheap w1) = Some i \<and> msg_flags m1 = flag_more \<and>
       taken (ro_pipes r) qs (Some p) x qs' \<and> \<not> msg_is_identity x \<and> msg_check x \<and> rr_more (ro_fq r1) = msg_more x \<and>
       (msg_more x \<longrightarrow> rr_cur (ro_fq r1) = p) \<and> msg_data x (mheap w1) = msg_data x (mheap w) \<and>
       (\<forall>y \<in># queued (ro_fq r1) qs' + R. msg_data y (mheap w1) = msg_data y (mheap w)) \<and>
       r1 = r\<lparr>ro_fq := ro_fq r1, prefetched_msg := x, prefetched := True, identity_sent := True\<rparr> \<and>
       refs_ok (mheap w1) (add_mset m1 (add_mset x (queued (ro_fq r1) qs' + R))))"
    using router_recv_first [where oom = oom, OF assms(1-9)] by (elim exE conjE) (rule that, assumption+)
  have rc: "rc = None"
  proof (rule ccontr)
    assume "rc \<noteq> None"
    then have t: "taken (ro_pipes r) qs None msg_init qs'" "\<forall>q \<in> ro_pipes r. qs' q = []" using a(7) by auto
    then have "\<forall>q \<in> ro_pipes r. qs q = []" using taken_no_identity [OF t(1) noid] by simp
    then show False using some by blast
  qed
  then obtain p act i x where b: "map_of (outpipes r) i = Some (p, act)" "p \<in> ro_pipes r" "msg_data m1 (mheap w1) = Some i" "msg_flags m1 = flag_more"
       "taken (ro_pipes r) qs (Some p) x qs'" "msg_check x" "rr_more (ro_fq r1) = msg_more x"
       "msg_more x \<longrightarrow> rr_cur (ro_fq r1) = p" "msg_data x (mheap w1) = msg_data x (mheap w)"
       "\<forall>y \<in># queued (ro_fq r1) qs' + R. msg_data y (mheap w1) = msg_data y (mheap w)"
       "r1 = r\<lparr>ro_fq := ro_fq r1, prefetched_msg := x, prefetched := True, identity_sent := True\<rparr>"
       "refs_ok (mheap w1) (add_mset m1 (add_mset x (queued (ro_fq r1) qs' + R)))" using a(8) by blast
  have q: "qs p = x # qs' p" "\<forall>q \<in> ro_pipes r. q \<noteq> p \<longrightarrow> qs q = qs' q" using taken_no_identity [OF b(5) noid] b(2) by auto
  have al: "rr_all (ro_fq r1) = ro_pipes r" using a(2,3) by (simp add: router_inv_def ro_pipes_def)
  have qq: "(qs(p := qs' p)) y = qs' y" if "y \<in> rr_all (ro_fq r1)" for y using that q(2) al by simp
  have fq: "feeds (ro_fq r1) w1 (qs(p := qs' p))"
    by (rule feeds_cong [OF a(5)]) (use qq in simp)
  have qd: "queued (ro_fq r1) (qs(p := qs' p)) = queued (ro_fq r1) qs'" unfolding queued_def by (rule sum.cong) (use qq in simp_all)
  have mm: "msg_more m1" using b(4) by (simp add: msg_more_def flag_more_def)
  show ?thesis
    by (rule exI [of _ p], rule exI [of _ act], rule exI [of _ i], rule exI [of _ x], rule exI [of _ "qs' p"], rule exI [of _ m1],
        rule exI [of _ r1], rule exI [of _ w1])
      (intro conjI, use a(1-6) b rc q(1) al fq qd mm in \<open>simp_all del: fun_upd_apply\<close>)
qed

text \<open>After the identity and the first part, which is held back while the identity is returned.\<close>

lemma rep_envelope_begin:
  assumes "router_inv r w" and "feeds (ro_fq r) w qs" and "refs_ok (mheap w) (add_mset m (queued (ro_fq r) qs + R))" and "msg_check m"
    and st: "\<not> prefetched r" "\<not> more_in r" "prefetched_msg r = msg_init" "\<not> more_out r" "\<not> ro_raw_option r" "\<not> ro_raw_sock r"
    and "\<forall>n. \<not> oom n" and ids: "\<forall>e \<in> set (outpipes r). length (fst e) + sizeof_content \<le> size_t_max \<and> fst e \<noteq> []"
    and room: "\<forall>q \<in> ro_pipes r. has_room w q"
    and some: "\<exists>q \<in> ro_pipes r. qs q \<noteq> []" and noid: "\<forall>q \<in> ro_pipes r. \<forall>i \<in> set (qs q). \<not> msg_is_identity i"
    and "\<forall>q \<in> ro_pipes r. qs q \<noteq> [] \<longrightarrow> msg_more (hd (qs q))"
  shows "\<exists>p x xs r3 w4. p \<in> ro_pipes r \<and> qs p = x # xs \<and> router_inv r3 w4 \<and> feeds (ro_fq r3) w4 (qs(p := xs)) \<and> 
    rep_envelope oom m r w = (case msg_size x (mheap w) of None \<Rightarrow> None | Some sz \<Rightarrow>
      if sz = 0 then Some (None, msg_init, r3, w4) else rep_envelope oom msg_init r3 w4) \<and>
    r3 = r\<lparr>ro_fq := ro_fq r3, identity_sent := True, more_in := True, more_out := True, current_out := Some p\<rparr> \<and>
    rr_more (ro_fq r3) \<and> rr_cur (ro_fq r3) = p \<and> has_room w4 p \<and>
    refs_ok (mheap w4) (add_mset msg_init (queued (ro_fq r3) (qs(p := xs)) + add_mset x R)) \<and>
    (\<forall>q \<in> ro_pipes r. \<forall>ys. out_log w q ys \<longrightarrow> out_log w4 q (if q = p then ys @ [x] else ys)) \<and>
    (\<forall>y \<in># add_mset x (queued (ro_fq r3) (qs(p := xs)) + R). msg_data y (mheap w4) = msg_data y (mheap w))"
proof -
  have ids': "\<forall>e \<in> set (outpipes r). length (fst e) + sizeof_content \<le> size_t_max" using ids by blast
  obtain p act i x xs m1 r1 w1 where a: "router_xrecv oom m r w = Some (None, m1, r1, w1)" "router_inv r1 w1" "outpipes r1 = outpipes r"
    "same_out (ro_pipes r) w w1" "feeds (ro_fq r1) w1 (qs(p := xs))" "msg_check m1" "p \<in> ro_pipes r" "qs p = x # xs"
    "map_of (outpipes r) i = Some (p, act)" "msg_data m1 (mheap w1) = Some i" "msg_more m1" "msg_check x"
    "rr_more (ro_fq r1) = msg_more x" "msg_more x \<longrightarrow> rr_cur (ro_fq r1) = p" "rr_all (ro_fq r1) = ro_pipes r"
    "r1 = r\<lparr>ro_fq := ro_fq r1, prefetched_msg := x, prefetched := True, identity_sent := True\<rparr>"
    "refs_ok (mheap w1) (add_mset m1 (add_mset x (queued (ro_fq r1) (qs(p := xs)) + R)))"
    "\<forall>y \<in># add_mset x (queued (ro_fq r1) (qs(p := xs)) + R). msg_data y (mheap w1) = msg_data y (mheap w)"
    using rep_recv_some [where oom = oom, OF assms(1-4) st(1-3) assms(11) ids' some noid] by (elim exE conjE) (rule that, assumption+)
  have mx: "msg_more x" using assms(16) a(7,8) by (metis list.distinct(1) list.sel(1))
  have f1: "\<not> more_out r1" "\<not> ro_raw_option r1" "\<not> ro_raw_sock r1" "prefetched r1" "identity_sent r1" "prefetched_msg r1 = x"
    using st by (subst a(16), simp)+
  have mp: "map_of (outpipes r1) i = Some (p, act)" using a(3,9) by simp
  have rm: "has_room w1 p" using a(4,7) room by (simp add: same_out_def)
  obtain h where h: "router_xsend m1 r1 w1 = Some (None, msg_init, r1\<lparr>more_out := True, current_out := Some p\<rparr>, w1\<lparr>mheap := h\<rparr>)"
    "refs_ok h (add_mset x (queued (ro_fq r1) (qs(p := xs)) + R))"
    "\<forall>y \<in># add_mset x (queued (ro_fq r1) (qs(p := xs)) + R). msg_data y h = msg_data y (mheap w1)"
    using router_first_part [OF a(2) f1(1) a(11,10) mp rm a(17) a(6)] by blast
  let ?r2 = "r1\<lparr>more_out := True, current_out := Some p\<rparr>" and ?w2 = "w1\<lparr>mheap := h\<rparr>"
  have wr: "\<forall>p \<in> ro_pipes r1. writable w1 p" using a(2) by (simp add: router_inv_def)
  have pp: "ro_pipes r1 = ro_pipes r" using a(3) by (simp add: ro_pipes_def)
  have i2: "router_inv ?r2 ?w2" using router_inv_same [OF a(2), of ?w2 ?r2] wr a(7) pp by simp
  have ini: "msg_check msg_init" by (simp add: msg_check_def msg_init_def)
  have rf: "refs_ok (mheap ?w2) (add_mset msg_init (add_mset (prefetched_msg ?r2) (queued (ro_fq r1) (qs(p := xs)) + R)))"
    using h(2) f1(6) refs_ok_none [of msg_init] by (simp add: msg_init_def)
  obtain h3 where h3: "router_xrecv oom msg_init ?r2 ?w2 = Some (None, x,
      ?r2\<lparr>prefetched_msg := msg_init, prefetched := False, more_in := msg_more x\<rparr>, w1\<lparr>mheap := h3\<rparr>)"
    "refs_ok h3 (add_mset x (queued (ro_fq r1) (qs(p := xs)) + R))"
    "\<forall>y \<in># add_mset x (queued (ro_fq r1) (qs(p := xs)) + R). msg_data y h3 = msg_data y h"
    using router_recv_prefetched [where oom = oom, OF _ _ ini _ rf] f1(4-6) a(12) by auto
  let ?r3 = "?r2\<lparr>prefetched_msg := msg_init, prefetched := False, more_in := msg_more x\<rparr>" and ?w3 = "w1\<lparr>mheap := h3\<rparr>"
  have rro: "rr_ok (ro_fq r1)" using a(2) by (simp add: router_inv_def)
  have s23: "same_out (ro_pipes ?r2) ?w2 ?w3" by (simp add: same_out_def)
  have i3: "router_inv ?r3 ?w3" by (rule router_inv_recv [OF i2 s23 rro]) simp_all
  have f3: "feeds (ro_fq ?r3) ?w3 (qs(p := xs))" using a(5) by (simp add: feeds_def)
  have rf3: "refs_ok (mheap ?w3) (add_mset x (queued (ro_fq ?r3) (qs(p := xs)) + R))" using h3(2) by simp
  have g3: "more_out ?r3" "current_out ?r3 = Some p" "\<not> ro_raw_option ?r3" "\<not> ro_raw_sock ?r3" "has_room ?w3 p" using f1 rm by simp_all
  obtain w4 where w4: "router_xsend x ?r3 ?w3 = Some (None, msg_init, ?r3, w4)" "router_inv ?r3 w4" "feeds (ro_fq ?r3) w4 (qs(p := xs))"
    "has_room w4 p" "mheap w4 = mheap ?w3" "refs_ok (mheap w4) (add_mset msg_init (queued (ro_fq ?r3) (qs(p := xs)) + add_mset x R))"
    "\<forall>q ys. out_log ?w3 q ys \<longrightarrow> out_log w4 q (if q = p then ys @ [x] else ys)"
    using rep_push [OF i3 f3 rf3 mx g3(1,2,5,3,4)] by (elim exE conjE) (rule that, assumption+)
  have dx: "msg_data x h3 = msg_data x (mheap w)" using h3(3) h(3) a(18) by simp
  have "i \<noteq> []" using ids map_of_SomeD [OF a(9)] by force
  then have e1: "rep_envelope oom m r w = rep_envelope oom msg_init ?r2 ?w2"
    using a(1,10,11) h(1) by (subst rep_envelope.simps) (simp add: msg_size_def)
  have e2: "rep_envelope oom msg_init ?r2 ?w2 = (case msg_size x (mheap w) of None \<Rightarrow> None | Some sz \<Rightarrow>
      if sz = 0 then Some (None, msg_init, ?r3, w4) else rep_envelope oom msg_init ?r3 w4)"
    using h3(1) mx w4(1) dx by (subst rep_envelope.simps) (simp add: msg_size_def split: option.splits)
  have r3: "?r3 = r\<lparr>ro_fq := ro_fq ?r3, identity_sent := True, more_in := True, more_out := True, current_out := Some p\<rparr>"
    using st(1,3) mx by (subst a(16)) (cases r, simp)
  have lg: "\<forall>q \<in> ro_pipes r. \<forall>ys. out_log w q ys \<longrightarrow> out_log w4 q (if q = p then ys @ [x] else ys)"
    using w4(7) a(4) unfolding same_out_def by (simp split del: if_split)
  have dat: "\<forall>y \<in># add_mset x (queued (ro_fq ?r3) (qs(p := xs)) + R). msg_data y (mheap w4) = msg_data y (mheap w)"
    using w4(5) h3(3) h(3) a(18) by simp
  show ?thesis
    by (rule exI [of _ p], rule exI [of _ x], rule exI [of _ "xs"], rule exI [of _ ?r3], rule exI [of _ w4])
      (intro conjI, use a(7,8,13,14) w4 e1 e2 r3 mx lg dat in \<open>simp_all split del: if_split del: fun_upd_apply\<close>)
qed

lemma rep_envelope_all:
  assumes "router_inv r w" and "feeds (ro_fq r) w qs" and "refs_ok (mheap w) (add_mset m (queued (ro_fq r) qs + R))" and "msg_check m"
    and st: "\<not> prefetched r" "\<not> more_in r" "prefetched_msg r = msg_init" "\<not> more_out r" "\<not> ro_raw_option r" "\<not> ro_raw_sock r"
    and "\<forall>n. \<not> oom n" and ids: "\<forall>e \<in> set (outpipes r). length (fst e) + sizeof_content \<le> size_t_max \<and> fst e \<noteq> []"
    and room: "\<forall>q \<in> ro_pipes r. has_room w q"
    and some: "\<exists>q \<in> ro_pipes r. qs q \<noteq> []" and req: "\<forall>q \<in> ro_pipes r. qs q \<noteq> [] \<longrightarrow> (\<exists>ls e b. request (mheap w) ls e b (qs q))"
  shows "\<exists>p ls e b rest r' w'. p \<in> ro_pipes r \<and> qs p = ls @ e # b # rest \<and> request (mheap w) ls e b (qs p) \<and>
    rep_envelope oom m r w = Some (None, msg_init, r', w') \<and> router_inv r' w' \<and> feeds (ro_fq r') w' (qs(p := b # rest)) \<and>
    refs_ok (mheap w') (add_mset msg_init (queued (ro_fq r') (qs(p := b # rest)) + (mset (ls @ [e]) + R))) \<and>
    r' = r\<lparr>ro_fq := ro_fq r', identity_sent := True, more_in := True, more_out := True, current_out := Some p\<rparr> \<and>
    rr_more (ro_fq r') \<and> rr_cur (ro_fq r') = p \<and> has_room w' p \<and>
    (\<forall>q \<in> ro_pipes r. \<forall>ys. out_log w q ys \<longrightarrow> out_log w' q (if q = p then ys @ ls @ [e] else ys)) \<and>
    (\<forall>y \<in># queued (ro_fq r') (qs(p := b # rest)) + R. msg_data y (mheap w') = msg_data y (mheap w))"
proof -
  have noid: "\<forall>q \<in> ro_pipes r. \<forall>i \<in> set (qs q). \<not> msg_is_identity i"
  proof (intro ballI)
    fix q i assume q: "q \<in> ro_pipes r" "i \<in> set (qs q)"
    then obtain ls e b where "request (mheap w) ls e b (qs q)" using req by fastforce
    then show "\<not> msg_is_identity i" using request_no_identity q(2) by blast
  qed
  have more: "\<forall>q \<in> ro_pipes r. qs q \<noteq> [] \<longrightarrow> msg_more (hd (qs q))"
  proof (intro ballI impI)
    fix q assume "q \<in> ro_pipes r" "qs q \<noteq> []"
    then obtain ls e b where "request (mheap w) ls e b (qs q)" using req by blast
    then show "msg_more (hd (qs q))" by (cases ls) (auto simp: request_def label_def bottom_part_def)
  qed
  obtain p x xs r3 w4 where a: "p \<in> ro_pipes r" "qs p = x # xs" "router_inv r3 w4" "feeds (ro_fq r3) w4 (qs(p := xs))"
    "rep_envelope oom m r w = (case msg_size x (mheap w) of None \<Rightarrow> None | Some sz \<Rightarrow>
      if sz = 0 then Some (None, msg_init, r3, w4) else rep_envelope oom msg_init r3 w4)"
    "r3 = r\<lparr>ro_fq := ro_fq r3, identity_sent := True, more_in := True, more_out := True, current_out := Some p\<rparr>"
    "rr_more (ro_fq r3)" "rr_cur (ro_fq r3) = p" "has_room w4 p"
    "refs_ok (mheap w4) (add_mset msg_init (queued (ro_fq r3) (qs(p := xs)) + add_mset x R))"
    "\<forall>q \<in> ro_pipes r. \<forall>ys. out_log w q ys \<longrightarrow> out_log w4 q (if q = p then ys @ [x] else ys)"
    "\<forall>y \<in># add_mset x (queued (ro_fq r3) (qs(p := xs)) + R). msg_data y (mheap w4) = msg_data y (mheap w)"
    using rep_envelope_begin [where oom = oom, OF assms(1-4) st assms(11) ids room some noid more] by (elim exE conjE) (rule that, assumption+)
  obtain ls e b where rq: "request (mheap w) ls e b (qs p)" using bspec [OF req a(1)] a(2) by auto
  then obtain rest where rest: "qs p = ls @ e # b # rest" by (auto simp: request_def)
  have be: "bottom_part (mheap w) e" and la: "\<forall>l \<in> set ls. label (mheap w) l" using rq by (auto simp: request_def)
  show ?thesis
  proof (cases ls)
    case Nil
    then have x: "x = e" "xs = b # rest" using rest a(2) by auto
    have n1: "rep_envelope oom m r w = Some (None, msg_init, r3, w4)" using a(5) be x(1) by (simp add: bottom_part_def msg_size_def)
    have n2: "\<forall>q \<in> ro_pipes r. \<forall>ys. out_log w q ys \<longrightarrow> out_log w4 q (if q = p then ys @ ls @ [e] else ys)"
      using a(11) x(1) unfolding Nil append_Nil by blast
    have n3: "refs_ok (mheap w4) (add_mset msg_init (queued (ro_fq r3) (qs(p := b # rest)) + (mset (ls @ [e]) + R)))"
      using a(10) x unfolding Nil append_Nil by (simp del: fun_upd_apply)
    show ?thesis
      by (rule exI [of _ p], rule exI [of _ ls], rule exI [of _ e], rule exI [of _ b], rule exI [of _ rest], rule exI [of _ r3], rule exI [of _ w4])
        (intro conjI, use a(1,3,4,6-9,12) rest rq n1 n2 n3 x in \<open>simp_all split del: if_split del: fun_upd_apply\<close>)
  next
    case (Cons l ls')
    then have x: "x = l" "xs = ls' @ e # b # rest" using rest a(2) by auto
    have step: "rep_envelope oom m r w = rep_envelope oom msg_init r3 w4" using a(5) la Cons x(1) by (auto simp: label_def msg_size_def)
    have f: "\<not> prefetched r3" "more_in r3" "more_out r3" "current_out r3 = Some p" "\<not> ro_raw_option r3" "\<not> ro_raw_sock r3" "ro_pipes r3 = ro_pipes r"
      using st by (subst a(6), simp add: ro_pipes_def)+
    have al: "rr_all (ro_fq r3) = ro_pipes r" using a(3) f(7) by (simp add: router_inv_def)
    have dat: "msg_data y (mheap w4) = msg_data y (mheap w)" if "y \<in> set xs" for y
      using a(12) queued_mem [of p "ro_fq r3" y "qs(p := xs)"] al a(1) that by simp
    have lab: "\<forall>y \<in> set ls'. label (mheap w4) y" using la Cons dat x(2) by (auto simp: label_def)
    have bot: "bottom_part (mheap w4) e" using be dat x(2) by (simp add: bottom_part_def)
    have ini: "msg_check msg_init" by (simp add: msg_check_def msg_init_def)
    have qq: "(qs(p := xs)) p = ls' @ e # b # rest" using x(2) by simp
    obtain r' w' where i: "rep_envelope oom msg_init r3 w4 = Some (None, msg_init, r', w')" "router_inv r' w'"
      "feeds (ro_fq r') w' (qs(p := xs, p := b # rest))"
      "refs_ok (mheap w') (add_mset msg_init (queued (ro_fq r') (qs(p := xs, p := b # rest)) + (mset (ls' @ [e]) + add_mset x R)))"
      "r' = r3\<lparr>ro_fq := ro_fq r'\<rparr>" "rr_more (ro_fq r')" "rr_cur (ro_fq r') = p" "has_room w' p"
      "\<forall>q \<in> ro_pipes r3. \<forall>ys. out_log w4 q ys \<longrightarrow> out_log w' q (if q = p then ys @ ls' @ [e] else ys)"
      "\<forall>y \<in># queued (ro_fq r') (qs(p := xs, p := b # rest)) + add_mset x R. msg_data y (mheap w') = msg_data y (mheap w4)"
      using rep_envelope_rest [where oom = oom, OF a(3,4,10) ini f(1,2) a(7,8) qq lab bot f(3,4) a(9) f(5,6)]
      by (elim exE conjE) (rule that, assumption+)
    have r': "r' = r\<lparr>ro_fq := ro_fq r', identity_sent := True, more_in := True, more_out := True, current_out := Some p\<rparr>"
      by (subst i(5), subst a(6)) simp
    have "ro_pipes r' = ro_pipes r3" by (subst i(5)) (simp add: ro_pipes_def)
    then have al': "rr_all (ro_fq r') = ro_pipes r" using i(2) f(7) by (simp add: router_inv_def)
    have lg: "\<forall>q \<in> ro_pipes r. \<forall>ys. out_log w q ys \<longrightarrow> out_log w' q (if q = p then ys @ ls @ [e] else ys)"
    proof (intro ballI allI impI)
      fix q ys assume "q \<in> ro_pipes r" "out_log w q ys"
      then show "out_log w' q (if q = p then ys @ ls @ [e] else ys)"
        using i(9) [unfolded f(7), rule_format, of q "if q = p then ys @ [x] else ys"] a(11) Cons x(1) by (cases "q = p") auto
    qed
    have sub: "y \<in># queued (ro_fq r3) (qs(p := xs))" if y: "y \<in># queued (ro_fq r') (qs(p := b # rest))" for y
    proof -
      obtain z where z: "z \<in> rr_all (ro_fq r')" "y \<in> set ((qs(p := b # rest)) z)" using y by (auto simp: queued_def set_mset_sum)
      then have "z \<in> rr_all (ro_fq r3)" using al al' by simp
      moreover have "y \<in> set ((qs(p := xs)) z)" using z(2) x(2) by (cases "z = p") auto
      ultimately show ?thesis using queued_mem by blast
    qed
    have dd: "\<forall>y \<in># queued (ro_fq r') (qs(p := b # rest)) + R. msg_data y (mheap w') = msg_data y (mheap w)"
      using i(10) a(12) sub by (simp del: fun_upd_apply add: ball_Un)
    have rf: "refs_ok (mheap w') (add_mset msg_init (queued (ro_fq r') (qs(p := b # rest)) + (mset (ls @ [e]) + R)))"
      using i(4) Cons x(1) by (simp del: fun_upd_apply)
    show ?thesis
      by (rule exI [of _ p], rule exI [of _ ls], rule exI [of _ e], rule exI [of _ b], rule exI [of _ rest], rule exI [of _ r'], rule exI [of _ w'])
        (intro conjI, use a(1) rest rq step i(1-3,6-8) rf r' lg dd in \<open>simp_all split del: if_split del: fun_upd_apply\<close>)
  qed
qed



text \<open>
  A socket after a request without an envelope, from a pipe without room: the identity was not routed,
  and \<open>router_rollback\<close> does nothing without a current pipe.
\<close>

definition rep_stuck :: "rep_t \<Rightarrow> bool" where
  "rep_stuck x \<longleftrightarrow> \<not> sending_reply x \<and> request_begins x \<and> \<not> prefetched (rp_router x) \<and> \<not> more_in (rp_router x) \<and>
     prefetched_msg (rp_router x) = msg_init \<and> more_out (rp_router x) \<and> current_out (rp_router x) = None \<and>
     \<not> ro_raw_option (rp_router x) \<and> \<not> ro_raw_sock (rp_router x)"

lemma router_drop:
  assumes "more_out r" and "current_out r = None" and "\<not> ro_raw_option r" and "refs_ok (mheap w) (add_mset m R)" and "msg_check m"
  shows "\<exists>h. router_xsend m r w = Some (None, msg_init, r\<lparr>more_out := msg_more m\<rparr>, w\<lparr>mheap := h\<rparr>) \<and> refs_ok h R \<and>
    (\<forall>x \<in># R. msg_data x h = msg_data x (mheap w))"
proof -
  obtain h where "close_in m w = Some (w\<lparr>mheap := h\<rparr>)" "refs_ok h R" "\<forall>x \<in># R. msg_data x h = msg_data x (mheap w)"
    using close_in_refs_data [OF assms(4,5)] by blast
  then show ?thesis using assms(1-3) by (intro exI [of _ h]) (simp add: router_xsend_def)
qed

text \<open>
  A request without an envelope is dropped, but it leaves a trace: when it comes from a pipe without
  room, the router still believes that a message is being sent.
\<close>
lemma rep_malformed_stuck:
  assumes "rep_ready x" and "router_inv (rp_router x) w" and "feeds (ro_fq (rp_router x)) w qs" and "msg_check m"
    and "refs_ok (mheap w) (add_mset m (queued (ro_fq (rp_router x)) qs + R))" and "\<forall>n. \<not> oom n"
    and "\<forall>e \<in> set (outpipes (rp_router x)). length (fst e) + sizeof_content \<le> size_t_max \<and> fst e \<noteq> []"
    and "\<not> ro_mandatory (rp_router x)" and "p \<in> ro_pipes (rp_router x)" and "\<not> has_room w p"
    and "qs p = [b]" and "\<not> msg_more b" and "\<not> msg_is_identity b" and "\<forall>q \<in> ro_pipes (rp_router x) - {p}. qs q = []"
  shows "\<exists>m' x' w'. rep_xrecv oom m x w = Some (Some EAGAIN, m', x', w') \<and> msg_check m' \<and> rep_stuck x' \<and> router_inv (rp_router x') w' \<and>
    map fst (outpipes (rp_router x')) = map fst (outpipes (rp_router x)) \<and> ro_pipes (rp_router x') = ro_pipes (rp_router x) \<and>
    refs_ok (mheap w') (add_mset m' R) \<and> (\<forall>q ys. q \<in> ro_pipes (rp_router x) \<longrightarrow> out_log w q ys \<longrightarrow> out_log w' q ys)"
proof -
  let ?r = "rp_router x"
  have x: "\<not> sending_reply x" "request_begins x" and st: "\<not> prefetched ?r" "\<not> more_in ?r" "prefetched_msg ?r = msg_init" "\<not> more_out ?r"
    "\<not> ro_raw_option ?r" "\<not> ro_raw_sock ?r" using assms(1) by (simp_all add: rep_ready_def)
  have ids: "\<forall>e \<in> set (outpipes ?r). length (fst e) + sizeof_content \<le> size_t_max" using assms(7) by blast
  have some: "\<exists>q \<in> ro_pipes ?r. qs q \<noteq> []" and noid: "\<forall>q \<in> ro_pipes ?r. \<forall>i \<in> set (qs q). \<not> msg_is_identity i"
    using assms(9,11,13,14) by (force, metis Diff_iff empty_iff empty_set list.set(2) singleton_iff)
  obtain p' act i b' xs m1 r1 w1 where a: "router_xrecv oom m ?r w = Some (None, m1, r1, w1)" "router_inv r1 w1" "outpipes r1 = outpipes ?r"
    "same_out (ro_pipes ?r) w w1" "feeds (ro_fq r1) w1 (qs(p' := xs))" "msg_check m1" "p' \<in> ro_pipes ?r" "qs p' = b' # xs"
    "map_of (outpipes ?r) i = Some (p', act)" "msg_data m1 (mheap w1) = Some i" "msg_more m1" "msg_check b'"
    "rr_all (ro_fq r1) = ro_pipes ?r"
    "r1 = ?r\<lparr>ro_fq := ro_fq r1, prefetched_msg := b', prefetched := True, identity_sent := True\<rparr>"
    "refs_ok (mheap w1) (add_mset m1 (add_mset b' (queued (ro_fq r1) (qs(p' := xs)) + R)))"
    using rep_recv_some [where oom = oom, OF assms(2,3,5,4) st(1-3) assms(6) ids some noid] by (elim exE conjE) (rule that, assumption+)
  have e: "p' = p" "b' = b" "xs = []" using a(7,8) assms(11,14) by (cases "p' = p"; force)+
  have qe: "\<forall>q \<in> rr_all (ro_fq r1). (qs(p := [])) q = []" using assms(14) a(13) by simp
  then have q0: "queued (ro_fq r1) (qs(p := [])) = {#}" by (rule queued_empty)
  have f1: "\<not> more_out r1" "\<not> ro_raw_option r1" "\<not> ro_raw_sock r1" "prefetched r1" "identity_sent r1" "prefetched_msg r1 = b" "\<not> ro_mandatory r1"
    "current_out r1 = current_out ?r" using st assms(8) e by (subst a(14), simp)+
  have c: "current_out r1 = None" using a(2) f1(1) by (cases "current_out r1") (auto simp: router_inv_def)
  have nr: "\<forall>q act. map_of (outpipes r1) i = Some (q, act) \<longrightarrow> \<not> has_room w1 q"
    using a(3,4,9) e(1) assms(9,10) by (simp add: same_out_def)
  obtain r2 w2 where r2: "router_route m1 r1 w1 = Some (None, r2, w2)"
    "r2 = r1\<lparr>outpipes := outpipes r2, more_out := True\<rparr>" "router_inv r2 w2" "mheap w2 = mheap w1"
    "\<forall>q xs. out_log w1 q xs \<longrightarrow> out_log w2 q xs" "map fst (outpipes r2) = map fst (outpipes r1)" "ro_pipes r2 = ro_pipes r1"
    "same_in (ro_pipes r1) w1 w2"
    using router_refused [OF a(2) f1(1) a(10) nr] f1(7) by auto
  have "refs_ok (mheap w2) (add_mset m1 (add_mset b R))" using a(15) r2(4) q0 unfolding e by simp
  then obtain h where h: "close_in m1 w2 = Some (w2\<lparr>mheap := h\<rparr>)" "refs_ok h (add_mset b R)"
    using close_in_refs_data [OF _ a(6)] by blast
  have s1: "router_xsend m1 r1 w1 = Some (None, msg_init, r2, w2\<lparr>mheap := h\<rparr>)"
    using a(11) f1(1) c r2(1) h(1) by (simp add: router_xsend_def)
  have "i \<noteq> []" using assms(7) map_of_SomeD [OF a(9)] by force
  then have e1: "rep_envelope oom m ?r w = rep_envelope oom msg_init r2 (w2\<lparr>mheap := h\<rparr>)"
    using a(1,10,11) s1 by (subst rep_envelope.simps) (simp add: msg_size_def)
  have f2: "more_out r2" "current_out r2 = None" "\<not> ro_raw_option r2" "\<not> ro_raw_sock r2" "prefetched r2" "identity_sent r2" "prefetched_msg r2 = b"
    "ro_fq r2 = ro_fq r1" using f1 c by (subst r2(2), simp)+
  have ini: "msg_check msg_init" by (simp add: msg_check_def msg_init_def)
  have bc: "msg_check (prefetched_msg r2)" using a(12) e(2) f2(7) by simp
  have rf2: "refs_ok (mheap (w2\<lparr>mheap := h\<rparr>)) (add_mset msg_init (add_mset (prefetched_msg r2) R))"
    using h(2) f2(7) refs_ok_none [of msg_init] by (simp add: msg_init_def)
  obtain h3 where h3: "router_xrecv oom msg_init r2 (w2\<lparr>mheap := h\<rparr>) =
      Some (None, b, r2\<lparr>prefetched_msg := msg_init, prefetched := False, more_in := msg_more b\<rparr>, w2\<lparr>mheap := h3\<rparr>)" "refs_ok h3 (add_mset b R)"
    using router_recv_prefetched [where oom = oom, OF f2(5,6) ini bc rf2] f2(7) by auto
  let ?r3 = "r2\<lparr>prefetched_msg := msg_init, prefetched := False, more_in := msg_more b\<rparr>" and ?w3 = "w2\<lparr>mheap := h3\<rparr>"
  have e2: "rep_envelope oom msg_init r2 (w2\<lparr>mheap := h\<rparr>) = rep_envelope oom b ?r3 ?w3"
    using h3(1) assms(12) f2(2) by (subst rep_envelope.simps) (simp add: router_rollback_def)
  have rro: "rr_ok (ro_fq r2)" using r2(3) by (simp add: router_inv_def)
  have s23: "same_out (ro_pipes r2) w2 ?w3" by (simp add: same_out_def)
  have i3: "router_inv ?r3 ?w3" by (rule router_inv_recv [OF r2(3) s23 rro]) simp_all
  have fd: "feeds (ro_fq ?r3) ?w3 (qs(p := []))"
    using feeds_same_in [OF a(5) r2(8)] a(2,13) e f2(8) by (simp add: router_inv_def feeds_def)
  have r3: "\<not> prefetched ?r3" "\<not> more_in ?r3" "prefetched_msg ?r3 = msg_init" using assms(12) by simp_all
  have rf3: "refs_ok (mheap ?w3) (add_mset b (queued (ro_fq ?r3) (qs(p := [])) + R))" using h3(2) q0 f2(8) by simp
  have "\<forall>k \<in> set (map fst (outpipes ?r3)). length k + sizeof_content \<le> size_t_max" using ids r2(6) a(3) by simp
  then have ids3: "\<forall>e \<in> set (outpipes ?r3). length (fst e) + sizeof_content \<le> size_t_max" by simp
  have bc': "msg_check b" using bc f2(7) by simp
  obtain rc m4 r4 w4 qs' where g: "router_xrecv oom b ?r3 ?w3 = Some (rc, m4, r4, w4)" "router_inv r4 w4" "outpipes r4 = outpipes ?r3"
    "same_out (ro_pipes ?r3) ?w3 w4" "msg_check m4"
    "rc \<noteq> None \<longrightarrow> rc = Some EAGAIN \<and> taken (ro_pipes ?r3) (qs(p := [])) None msg_init qs' \<and> (\<forall>q \<in> ro_pipes ?r3. qs' q = []) \<and>
       r4 = ?r3\<lparr>ro_fq := ro_fq r4\<rparr> \<and> refs_ok (mheap w4) (add_mset m4 R)"
    "rc = None \<longrightarrow> (\<exists>p' act i y. map_of (outpipes ?r3) i = Some (p', act) \<and> p' \<in> ro_pipes ?r3 \<and> msg_data m4 (mheap w4) = Some i \<and> msg_flags m4 = flag_more \<and>
       taken (ro_pipes ?r3) (qs(p := [])) (Some p') y qs' \<and> \<not> msg_is_identity y \<and> msg_check y \<and> rr_more (ro_fq r4) = msg_more y \<and>
       (msg_more y \<longrightarrow> rr_cur (ro_fq r4) = p') \<and> msg_data y (mheap w4) = msg_data y (mheap ?w3) \<and>
       (\<forall>z \<in># queued (ro_fq r4) qs' + R. msg_data z (mheap w4) = msg_data z (mheap ?w3)) \<and>
       r4 = ?r3\<lparr>ro_fq := ro_fq r4, prefetched_msg := y, prefetched := True, identity_sent := True\<rparr> \<and>
       refs_ok (mheap w4) (add_mset m4 (add_mset y (queued (ro_fq r4) qs' + R))))"
    using router_recv_first [where oom = oom, OF i3 fd rf3 bc' r3 assms(6) ids3] by (elim exE conjE) (rule that, assumption+)
  have pp: "ro_pipes r1 = ro_pipes ?r" "ro_pipes ?r3 = ro_pipes ?r" using a(3) r2(7) by (simp_all add: ro_pipes_def)
  have rc: "rc = Some EAGAIN"
  proof (cases rc)
    case None
    then obtain q y where "q \<in> ro_pipes ?r" "taken (ro_pipes ?r) (qs(p := [])) (Some q) y qs'" using g(7) pp(2) by auto
    then have "(qs(p := [])) q \<noteq> []" unfolding taken_def by fastforce
    then show ?thesis using \<open>q \<in> ro_pipes ?r\<close> qe a(13) by simp
  qed (use g(6) in auto)
  have r4: "r4 = ?r3\<lparr>ro_fq := ro_fq r4\<rparr>" "refs_ok (mheap w4) (add_mset m4 R)" using g(6) rc by simp_all
  have "rep_envelope oom b ?r3 ?w3 = Some (rc, m4, r4, w4)" using g(1) rc by (subst rep_envelope.simps) simp
  then have run: "rep_xrecv oom m x w = Some (Some EAGAIN, m4, x\<lparr>rp_router := r4\<rparr>, w4)" using x e1 e2 rc by (simp add: rep_xrecv_def)
  have f4: "\<not> prefetched r4" "\<not> more_in r4" "prefetched_msg r4 = msg_init" "more_out r4" "current_out r4 = None" "\<not> ro_raw_option r4" "\<not> ro_raw_sock r4"
    "outpipes r4 = outpipes r2" "ro_pipes r4 = ro_pipes ?r" using f2 assms(12) pp(2) by (subst r4(1), simp add: ro_pipes_def)+
  have "rep_stuck (x\<lparr>rp_router := r4\<rparr>)" using x f4 by (simp add: rep_stuck_def)
  moreover have "out_log w4 q ys" if "q \<in> ro_pipes ?r" "out_log w q ys" for q ys
    using that a(4) g(4) r2(5) pp(2) by (simp add: same_out_def)
  ultimately show ?thesis using run g(2,5) r4(2) f4(8,9) r2(6) a(3)
    by (intro exI [of _ m4] exI [of _ "x\<lparr>rp_router := r4\<rparr>"] exI [of _ w4]) simp
qed

lemma request_minimal:
  assumes "request h [] e b (x # xs)"
  shows "x = e \<and> (\<exists>rest. xs = b # rest) \<and> bottom_part h x \<and> \<not> msg_more b \<and> \<not> msg_is_identity b"
  using assms by (auto simp: request_def)


text \<open>An example state: the router has one peer, on the pipe \<open>p\<close>, with the messages \<open>ms\<close>.\<close>

lemma rep_example:
  assumes "\<forall>m \<in> set ms. \<not> msg_is_delimiter m \<and> msg_check m \<and> refs_ok \<lparr>contents = Map.empty, msg_brk = 0, ffn_calls = []\<rparr> {#m#}"
    and "p = 1 \<or> p = 3" and "ms \<noteq> [] \<longrightarrow> \<not> msg_more (last ms)" and "\<forall>m \<in> set ms. \<exists>d. msg_u m = Vsm d"
  shows "\<exists>r w. router_inv r w \<and> outpipes r = [([7], (p, True))] \<and> ro_pipes r = {p} \<and> has_room w p = (p = 1) \<and> out_log w p [] \<and>
    feeds (ro_fq r) w (\<lambda>_. ms) \<and> refs_ok (mheap w) (add_mset msg_init (queued (ro_fq r) (\<lambda>_. ms) + {#})) \<and>
    \<not> prefetched r \<and> \<not> more_in r \<and> prefetched_msg r = msg_init \<and> \<not> more_out r \<and> current_out r = None \<and> \<not> ro_raw_option r \<and> \<not> ro_raw_sock r \<and>
    \<not> ro_mandatory r"
proof -
  have dl: "\<forall>m \<in> set ms. \<not> msg_is_delimiter m" using assms(1) by simp
  obtain r w where r: "router_inv r w" "outpipes r = [([7], (p, True))]" "ro_pipes r = {p}"
    "r = (router_new 0)\<lparr>next_peer_id := next_peer_id r, outpipes := outpipes r, ro_fq := ro_fq r\<rparr>" "has_room w p = (p = 1)" "out_log w p []"
    "delivers w p ms" "refs_ok (mheap w) {#}" "rr_actives (ro_fq r) = {p}" "\<not> rr_more (ro_fq r)"
    using router_example_of [OF dl assms(2)] by (elim exE conjE) (rule that, assumption+)
  have all: "rr_all (ro_fq r) = {p}" "rr_ok (ro_fq r)" using r(1,3) by (simp_all add: router_inv_def)
  have f: "feeds (ro_fq r) w (\<lambda>_. ms)" using r(7,9,10) all assms(1,3) by (simp add: feeds_def)
  have "refs_ok (mheap w) (mset ms)" using r(8) assms(4)
  proof (induction ms)
    case (Cons m ms)
    then show ?case by (cases m) (auto simp: refs_ok_none)
  qed simp
  then have rf: "refs_ok (mheap w) (add_mset msg_init (queued (ro_fq r) (\<lambda>_. ms) + {#}))"
    using all by (simp add: queued_def refs_ok_none msg_init_def)
  have "\<not> prefetched r" "\<not> more_in r" "prefetched_msg r = msg_init" "\<not> more_out r" "current_out r = None" "\<not> ro_raw_option r" "\<not> ro_raw_sock r" "\<not> ro_mandatory r"
    by (subst r(4), simp add: router_new_def)+
  then show ?thesis using r(1-3,5,6) f rf by (intro exI [of _ r] exI [of _ w]) simp
qed

lemma rep_malformed_stuck_witness:
  "\<exists>x w m' x' w'. rep_xrecv (\<lambda>_. False) msg_init x w = Some (Some EAGAIN, m', x', w') \<and> rep_ready x \<and> rep_stuck x'"
proof -
  let ?b = "\<lparr>msg_u = Vsm [1, 2], msg_flags = 0\<rparr>"
  have b: "\<forall>m \<in> set [?b]. \<not> msg_is_delimiter m \<and> msg_check m \<and> refs_ok \<lparr>contents = Map.empty, msg_brk = 0, ffn_calls = []\<rparr> {#m#}"
    "[?b] \<noteq> [] \<longrightarrow> \<not> msg_more (last [?b])" "\<forall>m \<in> set [?b]. \<exists>d. msg_u m = Vsm d"
    by (simp_all add: msg_is_delimiter_def msg_check_def refs_ok_none msg_more_def)
  obtain r w where r: "router_inv r w" "outpipes r = [([7], (3, True))]" "ro_pipes r = {3}" "has_room w 3 = (3 = (1 :: addr))" "out_log w 3 []"
    "feeds (ro_fq r) w (\<lambda>_. [?b])" "refs_ok (mheap w) (add_mset msg_init (queued (ro_fq r) (\<lambda>_. [?b]) + {#}))"
    "\<not> prefetched r" "\<not> more_in r" "prefetched_msg r = msg_init" "\<not> more_out r" "current_out r = None" "\<not> ro_raw_option r" "\<not> ro_raw_sock r" "\<not> ro_mandatory r"
    using rep_example [OF b(1) disjI2 [OF refl] b(2,3)] by (elim exE conjE) (rule that, assumption+)
  let ?x = "(rep_new 0)\<lparr>rp_router := r\<rparr>"
  have x: "rep_ready ?x" "router_inv (rp_router ?x) w" "feeds (ro_fq (rp_router ?x)) w (\<lambda>_. [?b])" "\<not> ro_mandatory (rp_router ?x)" "3 \<in> ro_pipes (rp_router ?x)"
    "refs_ok (mheap w) (add_mset msg_init (queued (ro_fq (rp_router ?x)) (\<lambda>_. [?b]) + {#}))" "(\<lambda>_. [?b]) 3 = [?b]"
    "\<forall>q \<in> ro_pipes (rp_router ?x) - {3}. (\<lambda>_. [?b]) q = []"
    using r by (simp_all add: rep_ready_def rep_new_def)
  have m: "msg_check msg_init" "\<not> msg_more ?b" "\<not> msg_is_identity ?b" "\<forall>n. \<not> (\<lambda>_ :: nat. False) n"
    "\<forall>e \<in> set (outpipes (rp_router ?x)). length (fst e) + sizeof_content \<le> size_t_max \<and> fst e \<noteq> []"
    using r(2) by (simp_all add: msg_check_def msg_init_def msg_more_def msg_is_identity_def flag_identity_def sizeof_content_def size_t_max_def)
  have nr: "\<not> has_room w 3" using r(4) by simp
  show ?thesis using rep_malformed_stuck [OF x(1-3) m(1) x(6) m(4,5) x(4,5) nr x(7) m(2,3) x(8)] x(1) by blast
qed


end
