(* ===== verification/Mechanism.thy ===== *)
theory Mechanism
  imports Socket_Common
begin

text \<open>
  The base class of the security mechanisms (\<^verbatim>\<open>src/mechanism.cpp\<close>), the session's link to the
  authentication handler (\<^verbatim>\<open>src/session_base.cpp\<close>), and the reply of the handler, which the mechanisms
  treat alike.

  A handshake command is a message; the mechanisms only look at its bytes. Names and fixed parts of
  commands are written as the bytes of strings.
\<close>

definition ascii :: "string \<Rightarrow> blob_t" where
  "ascii s = map of_char s"

lemma length_ascii [simp]: "length (ascii s) = length s"
  by (simp add: ascii_def)

lemma ascii_append [simp]: "take (length s) (ascii s @ b) = ascii s" "drop (length s) (ascii s @ b) = b"
  by (simp_all add: ascii_def)

text \<open>The number of a socket type.\<close>

definition socket_type_int :: "socket_type \<Rightarrow> int" where
  "socket_type_int t = (case t of ZMQ_PAIR \<Rightarrow> 0 | ZMQ_PUB \<Rightarrow> 1 | ZMQ_SUB \<Rightarrow> 2 | ZMQ_REQ \<Rightarrow> 3 | ZMQ_REP \<Rightarrow> 4 | ZMQ_DEALER \<Rightarrow> 5
     | ZMQ_ROUTER \<Rightarrow> 6 | ZMQ_PULL \<Rightarrow> 7 | ZMQ_PUSH \<Rightarrow> 8 | ZMQ_XPUB \<Rightarrow> 9 | ZMQ_XSUB \<Rightarrow> 10 | ZMQ_STREAM \<Rightarrow> 11)"

record 'mask mechanism_base =
  mc_options :: "'mask options_t"
  mc_identity :: blob_t

abbreviation has_type :: "('mask, 'z) mechanism_base_scheme \<Rightarrow> socket_type \<Rightarrow> bool" where
  "has_type m t \<equiv> o_type (mc_options m) = socket_type_int t"

definition set_peer_identity :: "blob_t \<Rightarrow> ('mask, 'z) mechanism_base_scheme \<Rightarrow> ('mask, 'z) mechanism_base_scheme" where
  "set_peer_identity d m = m\<lparr>mc_identity := d\<rparr>"

definition peer_identity_msg :: "('mask, 'z) mechanism_base_scheme \<Rightarrow> wire_msg" where
  "peer_identity_msg m = \<lparr>wm_flags = flag_identity, wm_data = mc_identity m\<rparr>"

definition socket_type_string :: "int \<Rightarrow> blob_t option" where
  "socket_type_string t = do {
     zmq_assert (0 \<le> t \<and> t \<le> 10);
     Some (ascii ([''PAIR'', ''PUB'', ''SUB'', ''REQ'', ''REP'', ''DEALER'', ''ROUTER'', ''PULL'', ''PUSH'', ''XPUB'', ''XSUB'', ''STREAM''] ! nat t))
   }"

definition add_property :: "string \<Rightarrow> blob_t \<Rightarrow> byte list option" where
  "add_property name v = do {
     zmq_assert (length name \<le> 255);
     zmq_assert (length v \<le> 0x7FFFFFFF);
     Some (of_nat (length name) # ascii name @ put_uint32 (of_nat (length v)) @ v)
   }"

definition check_socket_type :: "blob_t \<Rightarrow> ('mask, 'z) mechanism_base_scheme \<Rightarrow> bool" where
  "check_socket_type t m =
     (if has_type m ZMQ_REQ then t = ascii ''REP'' \<or> t = ascii ''ROUTER''
      else if has_type m ZMQ_REP then t = ascii ''REQ'' \<or> t = ascii ''DEALER''
      else if has_type m ZMQ_DEALER then t = ascii ''REP'' \<or> t = ascii ''DEALER'' \<or> t = ascii ''ROUTER''
      else if has_type m ZMQ_ROUTER then t = ascii ''REQ'' \<or> t = ascii ''DEALER'' \<or> t = ascii ''ROUTER''
      else if has_type m ZMQ_PUSH then t = ascii ''PULL''
      else if has_type m ZMQ_PULL then t = ascii ''PUSH''
      else if has_type m ZMQ_PUB then t = ascii ''SUB'' \<or> t = ascii ''XSUB''
      else if has_type m ZMQ_SUB then t = ascii ''PUB'' \<or> t = ascii ''XPUB''
      else if has_type m ZMQ_XPUB then t = ascii ''SUB'' \<or> t = ascii ''XSUB''
      else if has_type m ZMQ_XSUB then t = ascii ''PUB'' \<or> t = ascii ''XPUB''
      else if has_type m ZMQ_PAIR then t = ascii ''PAIR''
      else False)"

text \<open>The virtual function \<open>property\<close>, which no mechanism overrides.\<close>

definition mech_property :: "blob_t \<Rightarrow> blob_t \<Rightarrow> errno_t option" where
  "mech_property name v = None"

text \<open>What is done with one property.\<close>

definition handle_property ::
  "blob_t \<Rightarrow> blob_t \<Rightarrow> ('mask, 'z) mechanism_base_scheme \<Rightarrow> errno_t option \<times> ('mask, 'z) mechanism_base_scheme" where
  "handle_property name v m =
     (if name = ascii ''Identity'' \<and> o_recv_identity (mc_options m) then (None, set_peer_identity v m)
      else if name = ascii ''Socket-Type'' then (if check_socket_type v m then None else Some EINVAL, m)
      else (mech_property name v, m))"

text \<open>The list holds the bytes that are left.\<close>

function parse_metadata ::
  "byte list \<Rightarrow> ('mask, 'z) mechanism_base_scheme \<Rightarrow> errno_t option \<times> ('mask, 'z) mechanism_base_scheme" where
  "parse_metadata b m =
     (let end_check = (\<lambda>b. (if length b > 0 then Some EPROTO else None)) in
      if length b > 1 then
        let name_length = unat (b ! 0); b = drop 1 b in
        if length b < name_length then (end_check b, m)
        else let name = take name_length b; b = drop name_length b in
        if length b < 4 then (end_check b, m)
        else let value_length = unat (get_uint32 b); b = drop 4 b in
        if length b < value_length then (end_check b, m)
        else let v = take value_length b; b = drop value_length b in
        (case handle_property name v m of
           (None, m) \<Rightarrow> parse_metadata b m
         | (Some e, m) \<Rightarrow> (Some e, m))
      else (end_check b, m))"
  by pat_completeness auto
termination
  by (relation "measure (\<lambda>(b, m). length b)") auto

declare parse_metadata.simps [simp del]

subsection \<open>The properties of a list\<close>

lemma parse_metadata_Nil [simp]: "parse_metadata [] m = (None, m)"
  by (simp add: parse_metadata.simps)

lemma unat_of_nat_byte: "n \<le> 255 \<Longrightarrow> unat (of_nat n :: byte) = n"
  by (simp add: unat_of_nat take_bit_nat_eq_self)

lemma get_uint32_append: "length b = 4 \<Longrightarrow> get_uint32 (b @ c) = get_uint32 b"
  by (simp add: get_uint32_def nth_append)

lemma length_put_uint32 [simp]: "length (put_uint32 v) = 4"
  by (simp add: put_uint32_def)

lemma unat_length_word: "n \<le> 0x7FFFFFFF \<Longrightarrow> unat (of_nat n :: uint32) = n"
  by (simp add: unat_of_nat take_bit_nat_eq_self)

text \<open>Parsing ends, or handles a property and goes on with a shorter list.\<close>

lemma parse_metadata_step:
  "(\<exists>e. parse_metadata b m = (e, m)) \<or> (\<exists>n v b'. length b' < length b \<and> parse_metadata b m =
     (case handle_property n v m of (None, m) \<Rightarrow> parse_metadata b' m | (Some e, m) \<Rightarrow> (Some e, m)))"
proof -
  let ?b1 = "drop 1 b" let ?n = "unat (b ! 0)" let ?b2 = "drop ?n ?b1" let ?b3 = "drop 4 ?b2" let ?k = "unat (get_uint32 ?b2)"
  show ?thesis
  proof (cases "1 < length b \<and> \<not> length ?b1 < ?n \<and> \<not> length ?b2 < 4 \<and> \<not> length ?b3 < ?k")
    case True
    then have "parse_metadata b m = (case handle_property (take ?n ?b1) (take ?k ?b3) m of
        (None, m) \<Rightarrow> parse_metadata (drop ?k ?b3) m | (Some e, m) \<Rightarrow> (Some e, m))"
      by (subst parse_metadata.simps) (simp add: Let_def split: prod.split option.split)
    moreover have "length (drop ?k ?b3) < length b" using True by auto
    ultimately show ?thesis by blast
  next
    case False
    then show ?thesis by (subst parse_metadata.simps) (auto simp: Let_def)
  qed
qed

lemma parse_metadata_keeps:
  assumes "parse_metadata b m = (rc, m')"
  shows "m' = m\<lparr>mc_identity := mc_identity m'\<rparr>"
  using assms
proof (induction "length b" arbitrary: b m rule: less_induct)
  case less
  have h: "snd (handle_property n v x) = x\<lparr>mc_identity := mc_identity (snd (handle_property n v x))\<rparr>" for n v and x :: "('a, 'b) mechanism_base_scheme"
    by (simp add: handle_property_def set_peer_identity_def)
  from parse_metadata_step [of b m] show ?case
  proof (elim disjE exE conjE)
    fix e assume "parse_metadata b m = (e, m)"
    then show ?thesis using less.prems by simp
  next
    fix n v b' assume b': "length b' < length b" "parse_metadata b m =
      (case handle_property n v m of (None, m) \<Rightarrow> parse_metadata b' m | (Some e, m) \<Rightarrow> (Some e, m))"
    obtain e x where x: "handle_property n v m = (e, x)" by (cases "handle_property n v m")
    have xm: "x = m\<lparr>mc_identity := mc_identity x\<rparr>" using h [of n v m] x by simp
    show ?thesis
    proof (cases e)
      case None
      then have "m' = x\<lparr>mc_identity := mc_identity m'\<rparr>" using less.hyps [OF b'(1)] less.prems b'(2) x by simp
      then show ?thesis by (subst (asm) xm) simp
    next
      case (Some e')
      then show ?thesis using less.prems b'(2) x xm by simp
    qed
  qed
qed

text \<open>A property that was added is handled, and parsing goes on behind it.\<close>

lemma parse_property:
  assumes "add_property name v = Some p"
  shows "parse_metadata (p @ b) m = (case handle_property (ascii name) v m of
      (None, m) \<Rightarrow> parse_metadata b m | (Some e, m) \<Rightarrow> (Some e, m))"
proof -
  have l: "length name \<le> 255" "length v \<le> 0x7FFFFFFF" and p: "p = of_nat (length name) # ascii name @ put_uint32 (of_nat (length v)) @ v"
    using assms by (auto simp: add_property_def split: Option.bind_splits)
  have n: "unat ((p @ b) ! 0) = length name" using l(1) by (simp add: p unat_of_nat_byte)
  have g: "unat (get_uint32 (put_uint32 (of_nat (length v)) @ v @ b)) = length v"
    using l(2) by (simp add: get_uint32_append get_put_uint32 unat_length_word)
  have d: "drop 1 (p @ b) = ascii name @ put_uint32 (of_nat (length v)) @ v @ b" by (simp add: p)
  have len: "1 < length (p @ b)" by (simp add: p)
  show ?thesis
    by (subst parse_metadata.simps) (simp only: Let_def n d if_P [OF len], simp add: g split: prod.split option.split)
qed

subsection \<open>Commands with properties\<close>

definition command_name :: "string \<Rightarrow> blob_t" where
  "command_name s = of_nat (length s) # ascii s"

text \<open>The properties \<open>Socket-Type\<close> and, for some types, \<open>Identity\<close> behind the name of the command, in a buffer of 512 bytes.\<close>

definition metadata_command :: "string \<Rightarrow> ('mask, 'z) mechanism_base_scheme \<Rightarrow> byte list option" where
  "metadata_command name m = do {
     t \<leftarrow> socket_type_string (o_type (mc_options m));
     p \<leftarrow> add_property ''Socket-Type'' t;
     i \<leftarrow> (if has_type m ZMQ_REQ \<or> has_type m ZMQ_DEALER \<or> has_type m ZMQ_ROUTER
          then add_property ''Identity'' (o_identity (mc_options m)) else Some []);
     let c = command_name name @ p @ i;
     if length c \<le> 512 then Some c else None
   }"

text \<open>\<open>size < n || memcmp (data, name, n)\<close> of the functions that process a command.\<close>

definition is_command :: "string \<Rightarrow> blob_t \<Rightarrow> bool" where
  "is_command name d \<longleftrightarrow> \<not> (length d < length name + 1 \<or> take (length name + 1) d \<noteq> command_name name)"

lemma length_command_name [simp]: "length (command_name s) = Suc (length s)"
  by (simp add: command_name_def)

lemma is_command_append [simp]: "is_command name (command_name name @ d)"
  by (simp add: is_command_def command_name_def)

lemma drop_command_name: "k = length name + 1 \<Longrightarrow> drop k (command_name name @ d) = d"
  by (simp add: command_name_def)

text \<open>Which socket types may be connected, and which send their identity.\<close>

definition peer_types :: "(socket_type \<times> socket_type) list" where
  "peer_types = [(ZMQ_PAIR, ZMQ_PAIR), (ZMQ_REQ, ZMQ_REP), (ZMQ_REQ, ZMQ_ROUTER), (ZMQ_DEALER, ZMQ_REP), (ZMQ_DEALER, ZMQ_DEALER),
     (ZMQ_DEALER, ZMQ_ROUTER), (ZMQ_ROUTER, ZMQ_ROUTER), (ZMQ_PUSH, ZMQ_PULL), (ZMQ_PUB, ZMQ_SUB), (ZMQ_PUB, ZMQ_XSUB),
     (ZMQ_XPUB, ZMQ_SUB), (ZMQ_XPUB, ZMQ_XSUB)]"

definition compatible :: "socket_type \<Rightarrow> socket_type \<Rightarrow> bool" where
  "compatible s t \<longleftrightarrow> (s, t) \<in> set peer_types \<or> (t, s) \<in> set peer_types"

definition sends_identity :: "socket_type \<Rightarrow> bool" where
  "sends_identity t \<longleftrightarrow> t \<in> {ZMQ_REQ, ZMQ_DEALER, ZMQ_ROUTER}"

lemma compatible_sym: "compatible s t \<longleftrightarrow> compatible t s"
  by (auto simp: compatible_def)

lemma socket_type_string_ok:
  assumes "t \<noteq> ZMQ_STREAM"
  shows "\<exists>s. socket_type_string (socket_type_int t) = Some s \<and> length s \<le> 6"
  using assms by (cases t) (simp_all add: socket_type_string_def socket_type_int_def)

lemma type_int_inj [simp]: "socket_type_int s = socket_type_int t \<longleftrightarrow> s = t"
  by (cases s; cases t; simp add: socket_type_int_def)

lemma of_char_byte_inj [simp]: "(of_char c :: byte) = of_char d \<longleftrightarrow> c = d"
proof -
  have "(of_char x :: byte) = of_nat (of_char x)" for x by (simp only: of_nat_of_char)
  then have u: "unat (of_char x :: byte) = of_char x" for x by (simp add: unat_of_nat take_bit_eq_mod)
  show ?thesis
  proof
    assume e: "(of_char c :: byte) = of_char d"
    have "(of_char c :: nat) = of_char d" unfolding u [symmetric] e ..
    then show "c = d" by (rule of_char_eqI)
  qed simp
qed

lemma ascii_inj [simp]: "ascii s = ascii t \<longleftrightarrow> s = t"
  unfolding ascii_def by (rule inj_map_eq_map) (simp add: inj_def)

lemma check_socket_type_compatible:
  assumes "socket_type_string (socket_type_int s) = Some n" and "has_type m t"
  shows "check_socket_type n m = compatible s t"
proof -
  have n: "n = ascii ([''PAIR'', ''PUB'', ''SUB'', ''REQ'', ''REP'', ''DEALER'', ''ROUTER'', ''PULL'', ''PUSH'', ''XPUB'', ''XSUB'', ''STREAM''] ! nat (socket_type_int s))"
    "s \<noteq> ZMQ_STREAM" using assms(1) by (auto simp: socket_type_string_def socket_type_int_def split: Option.bind_splits)
  show ?thesis using n(2) assms(2) unfolding n(1)
    by (cases s; cases t; simp add: socket_type_int_def check_socket_type_def compatible_def peer_types_def)
qed

text \<open>What a command with properties says: the type of the sender, and its identity.\<close>

definition learn ::
  "socket_type \<Rightarrow> blob_t \<Rightarrow> socket_type \<Rightarrow> ('mask, 'z) mechanism_base_scheme \<Rightarrow> errno_t option \<times> ('mask, 'z) mechanism_base_scheme" where
  "learn s d t m = (if compatible s t
     then (None, if sends_identity s \<and> o_recv_identity (mc_options m) then m\<lparr>mc_identity := d\<rparr> else m)
     else (Some EINVAL, m))"

lemma metadata_command_ok:
  assumes "has_type m s" and "s \<noteq> ZMQ_STREAM" and "length (o_identity (mc_options m)) \<le> 255" and "length name \<le> 8"
  shows "\<exists>c. metadata_command name m = Some (command_name name @ c) \<and>
    (\<forall>m' :: ('n, 'z) mechanism_base_scheme. \<forall>t. has_type m' t \<longrightarrow> parse_metadata c m' = learn s (o_identity (mc_options m)) t m')"
proof -
  obtain n where n: "socket_type_string (socket_type_int s) = Some n" "length n \<le> 6" using socket_type_string_ok [OF assms(2)] by blast
  obtain p where p: "add_property ''Socket-Type'' n = Some p" "length p = 16 + length n" using n(2) by (simp add: add_property_def)
  let ?d = "o_identity (mc_options m)"
  obtain i where i: "(if sends_identity s then add_property ''Identity'' ?d else Some []) = Some i" "length i \<le> 13 + length ?d"
    using assms(3) by (cases "sends_identity s") (simp_all add: add_property_def)
  have c: "metadata_command name m = Some (command_name name @ p @ i)"
    using assms n p i by (simp add: metadata_command_def sends_identity_def command_name_def)
  have "parse_metadata (p @ i) m' = learn s ?d t m'" if t: "has_type m' t" for t and m' :: "('n, 'z) mechanism_base_scheme"
  proof -
    have h: "handle_property (ascii ''Socket-Type'') n m' = (if compatible s t then None else Some EINVAL, m')"
      using check_socket_type_compatible [OF n(1) t] by (simp add: handle_property_def)
    have "parse_metadata i m' = (None, if sends_identity s \<and> o_recv_identity (mc_options m') then m'\<lparr>mc_identity := ?d\<rparr> else m')"
    proof (cases "sends_identity s")
      case True
      then have "parse_metadata (i @ []) m' = (case handle_property (ascii ''Identity'') ?d m' of
          (None, m') \<Rightarrow> parse_metadata [] m' | (Some e, m') \<Rightarrow> (Some e, m'))" using i(1) by (intro parse_property) simp
      then show ?thesis using True by (simp add: handle_property_def set_peer_identity_def mech_property_def)
    qed (use i(1) in simp)
    then show ?thesis using parse_property [OF p(1), of i m'] h by (simp add: learn_def)
  qed
  with c show ?thesis by blast
qed

text \<open>
  Truncated properties are not always noticed: a list that ends right behind the name of a property,
  or behind the length of its value, is accepted.
\<close>

lemma parse_metadata_truncated:
  assumes "0 < length name" and "length name \<le> 255"
  shows "parse_metadata (of_nat (length name) # ascii name) m = (None, m)"
    and "v \<noteq> 0 \<Longrightarrow> parse_metadata (of_nat (length name) # ascii name @ put_uint32 v) m = (None, m)"
proof -
  have n: "unat (of_nat (length name) :: byte) = length name" using assms(2) by (rule unat_of_nat_byte)
  have len: "1 < length (of_nat (length name) # ascii name :: byte list)" using assms(1) by simp
  show "parse_metadata (of_nat (length name) # ascii name) m = (None, m)"
    by (subst parse_metadata.simps) (simp only: Let_def if_P [OF len], simp add: n)
  assume v: "v \<noteq> 0"
  have len2: "1 < length (of_nat (length name) # ascii name @ put_uint32 v :: byte list)" by simp
  have "0 < unat v" using v by (simp add: unat_gt_0)
  then show "parse_metadata (of_nat (length name) # ascii name @ put_uint32 v) m = (None, m)"
    by (subst parse_metadata.simps) (simp only: Let_def if_P [OF len2], simp add: n get_put_uint32)
qed

subsection \<open>The authentication handler\<close>

text \<open>
  \<open>zap_endpoint\<close> is the socket that is bound to \<^verbatim>\<open>inproc://zeromq.zap.01\<close>, if any: its type and whether it
  expects an identity. The pipe to it is seen as the frames that were written, how many of them
  were flushed, and the frames that can be read; it has no high water mark.
\<close>

record zap_t =
  zap_endpoint :: "(int \<times> bool) option"
  zap_pipe :: bool
  zap_out :: "wire_msg list"
  zap_flushed :: nat
  zap_in :: "wire_msg list"

definition zap_connect :: "zap_t \<Rightarrow> (errno_t option \<times> zap_t) option" where
  "zap_connect z = do {
     zmq_assert (\<not> zap_pipe z);
     (case zap_endpoint z of
        None \<Rightarrow> Some (Some ECONNREFUSED, z)
      | Some (t, recv_identity) \<Rightarrow>
          if t \<noteq> socket_type_int ZMQ_REP \<and> t \<noteq> socket_type_int ZMQ_ROUTER then Some (Some ECONNREFUSED, z)
          else Some (None, z\<lparr>zap_pipe := True, zap_in := [],
            zap_out := (if recv_identity then [\<lparr>wm_flags = flag_identity, wm_data = []\<rparr>] else []), zap_flushed := (if recv_identity then 1 else 0)\<rparr>))
   }"

definition read_zap_msg :: "zap_t \<Rightarrow> errno_t option \<times> wire_msg \<times> zap_t" where
  "read_zap_msg z = (let empty = \<lparr>wm_flags = 0, wm_data = []\<rparr> in
     if \<not> zap_pipe z then (Some ENOTCONN, empty, z)
     else case zap_in z of [] \<Rightarrow> (Some EAGAIN, empty, z) | m # ms \<Rightarrow> (None, m, z\<lparr>zap_in := ms\<rparr>))"

definition write_zap_msg :: "wire_msg \<Rightarrow> zap_t \<Rightarrow> errno_t option \<times> zap_t" where
  "write_zap_msg m z =
     (if \<not> zap_pipe z then (Some ENOTCONN, z)
      else let z = z\<lparr>zap_out := zap_out z @ [m]\<rparr>
           in (None, if wm_flags m AND flag_more = 0 then z\<lparr>zap_flushed := length (zap_out z)\<rparr> else z))"

text \<open>The frames of a request, each written with an assertion on the result.\<close>

fun write_zap_frames :: "wire_msg list \<Rightarrow> zap_t \<Rightarrow> zap_t option" where
  "write_zap_frames [] z = Some z"
| "write_zap_frames (m # ms) z = (case write_zap_msg m z of (rc, z) \<Rightarrow> do { zmq_assert (rc = None); write_zap_frames ms z })"

abbreviation zap_part :: "blob_t \<Rightarrow> wire_msg" where
  "zap_part d \<equiv> \<lparr>wm_flags = flag_more, wm_data = d\<rparr>"

abbreviation zap_last :: "blob_t \<Rightarrow> wire_msg" where
  "zap_last d \<equiv> \<lparr>wm_flags = 0, wm_data = d\<rparr>"

text \<open>The loop that reads the frames of a reply; \<open>k\<close> frames are to come.\<close>

fun read_zap_reply :: "nat \<Rightarrow> zap_t \<Rightarrow> errno_t option \<times> wire_msg list \<times> zap_t" where
  "read_zap_reply 0 z = (None, [], z)"
| "read_zap_reply (Suc k) z = (case read_zap_msg z of
     (Some e, _, z) \<Rightarrow> (Some e, [], z)
   | (None, m, z) \<Rightarrow>
       if wm_flags m AND flag_more = (if k > 0 then 0 else flag_more) then (Some EPROTO, [], z)
       else (case read_zap_reply k z of (rc, ms, z) \<Rightarrow> (rc, m # ms, z)))"

definition receive_and_process_zap_reply ::
  "('mask, 'z) mechanism_base_scheme \<Rightarrow> zap_t \<Rightarrow> errno_t option \<times> ('mask, 'z) mechanism_base_scheme \<times> zap_t" where
  "receive_and_process_zap_reply m z =
     (case read_zap_reply 7 z of
        (Some e, _, z) \<Rightarrow> (Some e, m, z)
      | (None, f, z) \<Rightarrow>
          if length (wm_data (f ! 0)) > 0 then (Some EPROTO, m, z)
          else if wm_data (f ! 1) \<noteq> ascii ''1.0'' then (Some EPROTO, m, z)
          else if wm_data (f ! 2) \<noteq> ascii ''1'' then (Some EPROTO, m, z)
          else if wm_data (f ! 3) \<noteq> ascii ''200'' then (Some EACCES, m, z)
          else (case parse_metadata (wm_data (f ! 6)) m of (rc, m) \<Rightarrow> (rc, m, z)))"

text \<open>A handler is there and its type is accepted.\<close>

definition zap_handler :: "zap_t \<Rightarrow> bool" where
  "zap_handler z \<longleftrightarrow> (\<exists>t i. zap_endpoint z = Some (socket_type_int t, i) \<and> t \<in> {ZMQ_REP, ZMQ_ROUTER})"

text \<open>The frames of a reply that grants access, without user metadata to speak of.\<close>

definition granted :: "wire_msg list \<Rightarrow> bool" where
  "granted f \<longleftrightarrow> length f = 7 \<and> (\<forall>i < 6. wm_flags (f ! i) AND flag_more \<noteq> 0) \<and> wm_flags (f ! 6) AND flag_more = 0 \<and>
     wm_data (f ! 0) = [] \<and> wm_data (f ! 1) = ascii ''1.0'' \<and> wm_data (f ! 2) = ascii ''1'' \<and> wm_data (f ! 3) = ascii ''200''"

lemma read_zap_reply_ok:
  assumes "read_zap_reply k z = (None, f, z')"
  shows "length f = k \<and> zap_in z = f @ zap_in z' \<and> z' = z\<lparr>zap_in := zap_in z'\<rparr> \<and>
    (\<forall>i < k. wm_flags (f ! i) AND flag_more = 0 \<longleftrightarrow> Suc i = k)"
  using assms
proof (induction k arbitrary: z f)
  case (Suc k)
  obtain m z1 where m: "read_zap_msg z = (None, m, z1)" using Suc.prems by (auto split: prod.splits option.splits)
  then have z1: "zap_in z = m # zap_in z1" "z1 = z\<lparr>zap_in := zap_in z1\<rparr>"
    by (auto simp: read_zap_msg_def Let_def split: if_splits list.splits)
  have fl: "wm_flags m AND flag_more \<noteq> (if k > 0 then 0 else flag_more)" using Suc.prems m by (auto split: if_splits)
  then obtain ms where ms: "read_zap_reply k z1 = (None, ms, z')" "f = m # ms" using Suc.prems m by (auto split: prod.splits if_splits)
  note IH = Suc.IH [OF ms(1)]
  have b: "wm_flags m AND flag_more = 0 \<longleftrightarrow> k = 0"
  proof (cases "wm_flags m AND flag_more = 0")
    case False
    then have "wm_flags m AND flag_more = flag_more" by (simp add: flag_more_def and_one_eq odd_iff_mod_2_eq_one)
    then show ?thesis using fl False by (auto split: if_splits)
  qed (use fl in \<open>auto split: if_splits\<close>)
  have "z' = z\<lparr>zap_in := zap_in z'\<rparr>" using IH z1(2) by (metis zap_t.update_convs(5) zap_t.surjective)
  moreover have "wm_flags (f ! i) AND flag_more = 0 \<longleftrightarrow> Suc i = Suc k" if "i < Suc k" for i
    using that IH b ms(2) by (cases i) auto
  ultimately show ?case using IH z1(1) ms(2) by simp
qed simp

text \<open>A reply that is accepted grants access; nothing but the frames of the reply is taken from the pipe.\<close>

lemma zap_reply_accepted:
  assumes "receive_and_process_zap_reply m z = (None, m', z')"
  shows "\<exists>f. zap_in z = f @ zap_in z' \<and> granted f \<and> z' = z\<lparr>zap_in := zap_in z'\<rparr> \<and> parse_metadata (wm_data (f ! 6)) m = (None, m')"
proof -
  obtain f where f: "read_zap_reply 7 z = (None, f, z')" "length (wm_data (f ! 0)) = 0" "wm_data (f ! 1) = ascii ''1.0''"
    "wm_data (f ! 2) = ascii ''1''" "wm_data (f ! 3) = ascii ''200''" "parse_metadata (wm_data (f ! 6)) m = (None, m')"
    using assms by (auto simp: receive_and_process_zap_reply_def split: prod.splits option.splits if_splits)
  from read_zap_reply_ok [OF f(1)] f(2-6) show ?thesis by (intro exI [of _ f]) (auto simp: granted_def)
qed

lemma read_zap_reply_takes:
  assumes "read_zap_reply k z = (rc, f, z')"
  shows "z' = z\<lparr>zap_in := zap_in z'\<rparr> \<and> (\<exists>g. zap_in z = g @ zap_in z')"
  using assms
proof (induction k arbitrary: z rc f)
  case (Suc k)
  obtain e m z1 where m: "read_zap_msg z = (e, m, z1)" by (cases "read_zap_msg z")
  then have z1: "z1 = z\<lparr>zap_in := zap_in z1\<rparr> \<and> (\<exists>g. zap_in z = g @ zap_in z1)"
    by (auto simp: read_zap_msg_def Let_def split: if_splits list.splits)
  show ?case
  proof (cases "e = None \<and> wm_flags m AND flag_more \<noteq> (if k > 0 then 0 else flag_more)")
    case True
    then obtain rc' ms where "read_zap_reply k z1 = (rc', ms, z')" using Suc.prems m by (cases "read_zap_reply k z1") (auto split: if_splits)
    from Suc.IH [OF this] have i: "z' = z1\<lparr>zap_in := zap_in z'\<rparr>" "\<exists>g. zap_in z1 = g @ zap_in z'" by blast+
    have "z' = z\<lparr>zap_in := zap_in z'\<rparr>" using i(1) z1 by (metis zap_t.update_convs(5) zap_t.surjective)
    then show ?thesis using i(2) z1 by (metis append.assoc)
  next
    case False
    then have "z' = z1" using Suc.prems m by (cases e) (auto split: if_splits)
    then show ?thesis using z1 by blast
  qed
qed simp

lemma zap_reply_takes:
  assumes "receive_and_process_zap_reply m z = (rc, m', z')"
  shows "z' = z\<lparr>zap_in := zap_in z'\<rparr> \<and> (\<exists>g. zap_in z = g @ zap_in z') \<and> m' = m\<lparr>mc_identity := mc_identity m'\<rparr>"
proof -
  obtain e f z1 where r: "read_zap_reply 7 z = (e, f, z1)" by (cases "read_zap_reply 7 z")
  have "z' = z1" using assms r by (auto simp: receive_and_process_zap_reply_def split: option.splits if_splits prod.splits)
  moreover have "m' = m\<lparr>mc_identity := mc_identity m'\<rparr>"
    using assms r parse_metadata_keeps [of "wm_data (f ! 6)" m]
    by (auto simp: receive_and_process_zap_reply_def split: option.splits if_splits prod.splits)
  ultimately show ?thesis using read_zap_reply_takes [OF r] by blast
qed

lemma read_zap_reply_granted:
  assumes "zap_pipe z" and "zap_in z = f @ r" and "length f = k" and "\<forall>i < k. wm_flags (f ! i) AND flag_more = 0 \<longleftrightarrow> Suc i = k"
  shows "read_zap_reply k z = (None, f, z\<lparr>zap_in := r\<rparr>)"
  using assms
proof (induction k arbitrary: z f)
  case (Suc k)
  then obtain m ms where f: "f = m # ms" by (cases f) auto
  let ?z = "z\<lparr>zap_in := ms @ r\<rparr>"
  have "read_zap_msg z = (None, m, ?z)" using Suc.prems(1,2) f by (simp add: read_zap_msg_def)
  moreover have "wm_flags m AND flag_more \<noteq> (if k > 0 then 0 else flag_more)"
    using Suc.prems(4) f by (fastforce simp: flag_more_def)
  moreover have "\<forall>i < k. wm_flags (ms ! i) AND flag_more = 0 \<longleftrightarrow> Suc i = k" using Suc.prems(4) f by fastforce
  then have "read_zap_reply k ?z = (None, ms, ?z\<lparr>zap_in := r\<rparr>)" using Suc.prems(1,3) f by (intro Suc.IH) auto
  ultimately show ?case using f by simp
qed simp

lemma zap_reply_granted:
  assumes "zap_pipe z" and "zap_in z = f @ r" and "granted f" and "parse_metadata (wm_data (f ! 6)) m = (rc, m')"
  shows "receive_and_process_zap_reply m z = (rc, m', z\<lparr>zap_in := r\<rparr>)"
proof -
  have "wm_flags (f ! i) AND flag_more = 0 \<longleftrightarrow> Suc i = 7" if "i < 7" for i
    using that assms(3) by (cases "i = 6") (auto simp: granted_def)
  then have "read_zap_reply 7 z = (None, f, z\<lparr>zap_in := r\<rparr>)"
    using read_zap_reply_granted [OF assms(1,2), of 7] assms(3) by (auto simp: granted_def)
  then show ?thesis using assms(3,4) by (simp add: receive_and_process_zap_reply_def granted_def)
qed

lemma write_zap_frames_ok:
  assumes "zap_pipe z" and "ms \<noteq> []" and "wm_flags (last ms) AND flag_more = 0"
  shows "write_zap_frames ms z = Some (z\<lparr>zap_out := zap_out z @ ms, zap_flushed := length (zap_out z @ ms)\<rparr>)"
  using assms
proof (induction ms arbitrary: z)
  case (Cons m ms)
  show ?case
  proof (cases "ms = []")
    case True
    then show ?thesis using Cons.prems by (simp add: write_zap_msg_def)
  next
    case False
    obtain z1 where z1: "write_zap_msg m z = (None, z1)" "zap_pipe z1" "zap_out z1 = zap_out z @ [m]" "z1 = z\<lparr>zap_out := zap_out z1, zap_flushed := zap_flushed z1\<rparr>"
      using Cons.prems(1) by (simp add: write_zap_msg_def Let_def)
    have w: "write_zap_frames ms z1 = Some (z1\<lparr>zap_out := zap_out z1 @ ms, zap_flushed := length (zap_out z1 @ ms)\<rparr>)"
      using Cons.IH [OF z1(2)] Cons.prems(3) False by simp
    have "z1\<lparr>zap_out := x, zap_flushed := n\<rparr> = z\<lparr>zap_out := x, zap_flushed := n\<rparr>" for x n by (subst z1(4)) simp
    then show ?thesis using z1(1,3) w by simp
  qed
qed simp

end
