(* ===== verification/Null.thy ===== *)
theory Null
  imports Mechanism
begin

text \<open>
  The mechanism NULL (\<^verbatim>\<open>src/null_mechanism.cpp\<close>): both peers send one command \<open>READY\<close>. With a ZAP domain the
  handler is asked first. \<open>arrived\<close> are the frames of the handler that have come in by the time the
  mechanism tries to read the reply.
\<close>

record 'mask null_mechanism_t = "'mask mechanism_base" +
  n_peer_address :: blob_t
  ready_command_sent :: bool
  ready_command_received :: bool
  n_zap_connected :: bool
  n_zap_request_sent :: bool
  n_zap_reply_received :: bool

definition null_new :: "blob_t \<Rightarrow> 'mask options_t \<Rightarrow> zap_t \<Rightarrow> ('mask null_mechanism_t \<times> zap_t) option" where
  "null_new addr opts z = do {
     let m = \<lparr>mc_options = opts, mc_identity = [], n_peer_address = addr, ready_command_sent = False, ready_command_received = False,
       n_zap_connected = False, n_zap_request_sent = False, n_zap_reply_received = False\<rparr>;
     if length (o_zap_domain opts) > 0
     then do { (rc, z) \<leftarrow> zap_connect z; Some (if rc = None then m\<lparr>n_zap_connected := True\<rparr> else m, z) }
     else Some (m, z)
   }"

definition null_zap_frames :: "'mask null_mechanism_t \<Rightarrow> wire_msg list" where
  "null_zap_frames m = [zap_part [], zap_part (ascii ''1.0''), zap_part (ascii ''1''), zap_part (o_zap_domain (mc_options m)),
     zap_part (n_peer_address m), zap_part (o_identity (mc_options m)), zap_last (ascii ''NULL'')]"

definition null_send_zap_request :: "'mask null_mechanism_t \<Rightarrow> zap_t \<Rightarrow> zap_t option" where
  "null_send_zap_request m z = write_zap_frames (null_zap_frames m) z"

text \<open>The part of \<open>next_handshake_command\<close> that asks the handler.\<close>

definition null_authenticate ::
  "wire_msg list \<Rightarrow> 'mask null_mechanism_t \<Rightarrow> zap_t \<Rightarrow> (errno_t option \<times> 'mask null_mechanism_t \<times> zap_t) option" where
  "null_authenticate arrived m z =
     (if n_zap_connected m \<and> \<not> n_zap_reply_received m then
        if n_zap_request_sent m then Some (Some EAGAIN, m, z)
        else do {
          z \<leftarrow> null_send_zap_request m z;
          let m = m\<lparr>n_zap_request_sent := True\<rparr>;
          let z = z\<lparr>zap_in := zap_in z @ arrived\<rparr>;
          (case receive_and_process_zap_reply m z of
             (Some e, m, z) \<Rightarrow> Some (Some e, m, z)
           | (None, m, z) \<Rightarrow> Some (None, m\<lparr>n_zap_reply_received := True\<rparr>, z))
        }
      else Some (None, m, z))"

definition null_next_handshake_command :: "wire_msg list \<Rightarrow> wire_msg \<Rightarrow> 'mask null_mechanism_t \<Rightarrow> zap_t \<Rightarrow>
    (errno_t option \<times> wire_msg \<times> 'mask null_mechanism_t \<times> zap_t) option" where
  "null_next_handshake_command arrived msg m z =
     (if ready_command_sent m then Some (Some EAGAIN, msg, m, z)
      else do {
        (rc, m, z) \<leftarrow> null_authenticate arrived m z;
        if rc \<noteq> None then Some (rc, msg, m, z)
        else do {
          c \<leftarrow> metadata_command ''READY'' m;
          Some (None, \<lparr>wm_flags = 0, wm_data = c\<rparr>, m\<lparr>ready_command_sent := True\<rparr>, z)
        }
      })"

definition null_process_handshake_command ::
  "wire_msg \<Rightarrow> 'mask null_mechanism_t \<Rightarrow> errno_t option \<times> wire_msg \<times> 'mask null_mechanism_t" where
  "null_process_handshake_command msg m =
     (if ready_command_received m then (Some EPROTO, msg, m)
      else if \<not> is_command ''READY'' (wm_data msg) then (Some EPROTO, msg, m)
      else (case parse_metadata (drop 6 (wm_data msg)) m of
         (rc, m) \<Rightarrow> (rc, if rc = None then \<lparr>wm_flags = 0, wm_data = []\<rparr> else msg, m\<lparr>ready_command_received := True\<rparr>)))"

definition null_zap_msg_available :: "'mask null_mechanism_t \<Rightarrow> zap_t \<Rightarrow> errno_t option \<times> 'mask null_mechanism_t \<times> zap_t" where
  "null_zap_msg_available m z =
     (if n_zap_reply_received m then (Some EFSM, m, z)
      else (case receive_and_process_zap_reply m z of
         (rc, m, z) \<Rightarrow> (rc, if rc = None then m\<lparr>n_zap_reply_received := True\<rparr> else m, z)))"

definition null_is_handshake_complete :: "'mask null_mechanism_t \<Rightarrow> bool" where
  "null_is_handshake_complete m \<longleftrightarrow> ready_command_received m \<and> ready_command_sent m"

subsection \<open>The handshake\<close>

text \<open>
  Two peers and the commands on their way. Each sends its command at any time, before or after the
  command of the other has come in. An error, which tears down the connection, is not a step.
\<close>

record 'mask null_pair =
  np_a :: "'mask null_mechanism_t"
  np_b :: "'mask null_mechanism_t"
  np_ab :: "wire_msg list"
  np_ba :: "wire_msg list"

inductive null_step :: "'mask null_pair \<Rightarrow> 'mask null_pair \<Rightarrow> bool" where
  send_a: "null_next_handshake_command f m (np_a s) z = Some (None, c, a, z') \<Longrightarrow> null_step s (s\<lparr>np_a := a, np_ab := np_ab s @ [c]\<rparr>)"
| send_b: "null_next_handshake_command f m (np_b s) z = Some (None, c, b, z') \<Longrightarrow> null_step s (s\<lparr>np_b := b, np_ba := np_ba s @ [c]\<rparr>)"
| recv_a: "np_ba s = c # cs \<Longrightarrow> null_process_handshake_command c (np_a s) = (None, m, a) \<Longrightarrow> null_step s (s\<lparr>np_a := a, np_ba := cs\<rparr>)"
| recv_b: "np_ab s = c # cs \<Longrightarrow> null_process_handshake_command c (np_b s) = (None, m, b) \<Longrightarrow> null_step s (s\<lparr>np_b := b, np_ab := cs\<rparr>)"

text \<open>A mechanism without a ZAP domain, of a socket with sensible options.\<close>

definition fresh_null :: "socket_type \<Rightarrow> 'mask null_mechanism_t \<Rightarrow> bool" where
  "fresh_null t m \<longleftrightarrow> has_type m t \<and> t \<noteq> ZMQ_STREAM \<and> length (o_identity (mc_options m)) \<le> 255 \<and> \<not> n_zap_connected m \<and>
     \<not> ready_command_sent m \<and> \<not> ready_command_received m"

text \<open>The states of a peer, by what it has sent and received; \<open>d\<close> is the identity of the other, of type \<open>s\<close>.\<close>

definition null_at :: "socket_type \<Rightarrow> blob_t \<Rightarrow> 'mask null_mechanism_t \<Rightarrow> bool \<Rightarrow> bool \<Rightarrow> 'mask null_mechanism_t" where
  "null_at s d m snt rcv = m\<lparr>mc_identity := (if rcv \<and> sends_identity s \<and> o_recv_identity (mc_options m) then d else mc_identity m),
     ready_command_sent := snt, ready_command_received := rcv\<rparr>"

definition null_ready :: "'mask null_mechanism_t \<Rightarrow> wire_msg" where
  "null_ready m = \<lparr>wm_flags = 0, wm_data = the (metadata_command ''READY'' m)\<rparr>"

lemma metadata_command_cong: "mc_options m = mc_options m' \<Longrightarrow> metadata_command name m = metadata_command name m'"
  by (simp add: metadata_command_def)

lemma null_at_simps [simp]:
  "ready_command_sent (null_at s d m snt rcv) = snt" "ready_command_received (null_at s d m snt rcv) = rcv"
  "n_zap_connected (null_at s d m snt rcv) = n_zap_connected m" "mc_options (null_at s d m snt rcv) = mc_options m"
  "(null_at s d m snt rcv)\<lparr>ready_command_sent := x\<rparr> = null_at s d m x rcv"
  by (simp_all add: null_at_def)

lemma null_next_at:
  assumes "fresh_null t m"
  shows "null_next_handshake_command f msg (null_at s d m snt rcv) z =
    (if snt then Some (Some EAGAIN, msg, null_at s d m snt rcv, z) else Some (None, null_ready m, null_at s d m True rcv, z))"
proof -
  have a: "has_type m t" "t \<noteq> ZMQ_STREAM" "length (o_identity (mc_options m)) \<le> 255" using assms by (simp_all add: fresh_null_def)
  obtain c where c: "metadata_command ''READY'' m = Some c" using metadata_command_ok [OF a, of "''READY''"] by auto
  have "metadata_command ''READY'' (null_at s d m snt rcv) = metadata_command ''READY'' m" for snt
    by (rule metadata_command_cong) simp
  then show ?thesis using assms c
    by (cases snt) (simp_all add: null_next_handshake_command_def null_authenticate_def fresh_null_def null_ready_def)
qed

lemma null_process_at:
  fixes m m' :: "'mask null_mechanism_t"
  assumes "fresh_null s m'" and "fresh_null t m" and "d = o_identity (mc_options m')"
  shows "null_process_handshake_command (null_ready m') (null_at s d m snt rcv) =
    (if rcv then (Some EPROTO, null_ready m', null_at s d m snt rcv)
     else if compatible s t then (None, \<lparr>wm_flags = 0, wm_data = []\<rparr>, null_at s d m snt True)
     else (Some EINVAL, null_ready m', (null_at s d m snt False)\<lparr>ready_command_received := True\<rparr>))"
proof -
  have a: "has_type m' s" "s \<noteq> ZMQ_STREAM" "length (o_identity (mc_options m')) \<le> 255" and ty: "has_type m t"
    using assms(1,2) by (simp_all add: fresh_null_def)
  obtain c where c: "metadata_command ''READY'' m' = Some (command_name ''READY'' @ c)"
    "\<forall>m'' :: 'mask null_mechanism_t. \<forall>t. has_type m'' t \<longrightarrow> parse_metadata c m'' = learn s d t m''"
    using metadata_command_ok [OF a, of "''READY''"] assms(3) by auto
  have "drop 6 (command_name ''READY'' @ c) = c" by (rule drop_command_name) simp
  moreover have "parse_metadata c (null_at s d m snt rcv) = learn s d t (null_at s d m snt rcv)"
    using c(2) ty by (simp add: null_at_def)
  moreover have "(if sends_identity s \<and> o_recv_identity (mc_options m) then (null_at s d m snt False)\<lparr>mc_identity := d\<rparr> else null_at s d m snt False)
    \<lparr>ready_command_received := True\<rparr> = null_at s d m snt True" by (simp add: null_at_def)
  ultimately show ?thesis using c(1) by (cases rcv) (simp_all add: null_process_handshake_command_def null_ready_def learn_def)
qed

lemma null_next_atD:
  assumes "fresh_null t m" and "null_next_handshake_command f msg (null_at s d m snt rcv) z = Some (None, c, m', z')"
  shows "\<not> snt \<and> c = null_ready m \<and> m' = null_at s d m True rcv"
  using assms(2) unfolding null_next_at [OF assms(1)] by (cases snt) simp_all

lemma null_process_atD:
  fixes m m' :: "'mask null_mechanism_t"
  assumes "fresh_null s m'" and "fresh_null t m" and "d = o_identity (mc_options m')"
    and "null_process_handshake_command (null_ready m') (null_at s d m snt rcv) = (None, msg, r)"
  shows "\<not> rcv \<and> compatible s t \<and> r = null_at s d m snt True"
  using assms(4) unfolding null_process_at [OF assms(1-3)] by (cases rcv; cases "compatible s t") simp_all

definition null_inv :: "socket_type \<Rightarrow> socket_type \<Rightarrow> 'mask null_mechanism_t \<Rightarrow> 'mask null_mechanism_t \<Rightarrow> 'mask null_pair \<Rightarrow> bool" where
  "null_inv s t a b p \<longleftrightarrow> (\<exists>sa ra sb rb. (ra \<longrightarrow> sb \<and> compatible s t) \<and> (rb \<longrightarrow> sa \<and> compatible s t) \<and>
     p = \<lparr>np_a = null_at t (o_identity (mc_options b)) a sa ra, np_b = null_at s (o_identity (mc_options a)) b sb rb,
       np_ab = (if sa \<and> \<not> rb then [null_ready a] else []), np_ba = (if sb \<and> \<not> ra then [null_ready b] else [])\<rparr>)"

lemma null_invI:
  assumes "ra \<longrightarrow> sb \<and> compatible s t" and "rb \<longrightarrow> sa \<and> compatible s t" and "np_a p = null_at t (o_identity (mc_options b)) a sa ra"
    and "np_b p = null_at s (o_identity (mc_options a)) b sb rb" and "np_ab p = (if sa \<and> \<not> rb then [null_ready a] else [])"
    and "np_ba p = (if sb \<and> \<not> ra then [null_ready b] else [])"
  shows "null_inv s t a b p"
  unfolding null_inv_def
  by (rule exI [of _ sa], rule exI [of _ ra], rule exI [of _ sb], rule exI [of _ rb], intro conjI) (use assms in \<open>simp_all (no_asm_simp)\<close>)

lemma null_inv_step:
  assumes "fresh_null s a" and "fresh_null t b" and "null_inv s t a b p" and "null_step p q"
  shows "null_inv s t a b q"
proof -
  obtain sa ra sb rb where i: "ra \<longrightarrow> sb \<and> compatible s t" "rb \<longrightarrow> sa \<and> compatible s t" and
    pa: "np_a p = null_at t (o_identity (mc_options b)) a sa ra" and pb: "np_b p = null_at s (o_identity (mc_options a)) b sb rb" and
    ab: "np_ab p = (if sa \<and> \<not> rb then [null_ready a] else [])" and ba: "np_ba p = (if sb \<and> \<not> ra then [null_ready b] else [])"
    using assms(3) unfolding null_inv_def by (elim exE conjE) (rule that, simp_all)
  from assms(4) show ?thesis
  proof cases
    case (send_a f m z c a' z')
    have c: "\<not> sa" "c = null_ready a" "a' = null_at t (o_identity (mc_options b)) a True ra"
      using null_next_atD [OF assms(1) send_a(2) [unfolded pa]] by blast+
    with i have "\<not> rb" by blast
    then show ?thesis unfolding send_a(1) by (intro null_invI [of ra sb s t rb True]) (use i pb ab ba c in simp_all)
  next
    case (send_b f m z c b' z')
    have c: "\<not> sb" "c = null_ready b" "b' = null_at s (o_identity (mc_options a)) b True rb"
      using null_next_atD [OF assms(2) send_b(2) [unfolded pb]] by blast+
    with i have "\<not> ra" by blast
    then show ?thesis unfolding send_b(1) by (intro null_invI [of ra True s t rb sa]) (use i pa ab ba c in simp_all)
  next
    case (recv_a c cs m a')
    have c: "sb" "\<not> ra" "c = null_ready b" "cs = []" using recv_a(2) ba by (auto split: if_splits)
    note d = null_process_atD [OF assms(2,1) refl recv_a(3) [unfolded pa c(3)]]
    show ?thesis unfolding recv_a(1) by (intro null_invI [of True sb s t rb sa]) (use i pb ab c d compatible_sym [of s t] in simp_all)
  next
    case (recv_b c cs m b')
    have c: "sa" "\<not> rb" "c = null_ready a" "cs = []" using recv_b(2) ab by (auto split: if_splits)
    note d = null_process_atD [OF assms(1,2) refl recv_b(3) [unfolded pb c(3)]]
    show ?thesis unfolding recv_b(1) by (intro null_invI [of ra sb s t True sa]) (use i pa ba c d in simp_all)
  qed
qed

definition null_start :: "'mask null_mechanism_t \<Rightarrow> 'mask null_mechanism_t \<Rightarrow> 'mask null_pair" where
  "null_start a b = \<lparr>np_a = a, np_b = b, np_ab = [], np_ba = []\<rparr>"

lemma null_at_start: "fresh_null t m \<Longrightarrow> null_at s d m False False = m"
  by (simp add: null_at_def fresh_null_def)

lemma null_inv_reachable:
  assumes "null_step\<^sup>*\<^sup>* (null_start a b) p" and "fresh_null s a" and "fresh_null t b"
  shows "null_inv s t a b p"
  using assms(1)
proof (induction rule: rtranclp_induct)
  case base
  show ?case using null_at_start [OF assms(2)] null_at_start [OF assms(3)]
    by (intro null_invI [of False False s t False False]) (simp_all add: null_start_def)
next
  case (step p q)
  then show ?case using null_inv_step [OF assms(2,3)] by blast
qed

lemma null_step_enabled:
  assumes "fresh_null s a" and "fresh_null t b" and "null_inv s t a b p" and "compatible s t"
    and "\<not> (null_is_handshake_complete (np_a p) \<and> null_is_handshake_complete (np_b p))"
  shows "\<exists>q. null_step p q"
proof -
  obtain sa ra sb rb where i: "ra \<longrightarrow> sb \<and> compatible s t" "rb \<longrightarrow> sa \<and> compatible s t" and
    pa: "np_a p = null_at t (o_identity (mc_options b)) a sa ra" and pb: "np_b p = null_at s (o_identity (mc_options a)) b sb rb" and
    ab: "np_ab p = (if sa \<and> \<not> rb then [null_ready a] else [])" and ba: "np_ba p = (if sb \<and> \<not> ra then [null_ready b] else [])"
    using assms(3) unfolding null_inv_def by (elim exE conjE) (rule that, simp_all)
  note n = null_next_at [OF assms(1)] null_next_at [OF assms(2)] null_process_at [OF assms(1,2) refl] null_process_at [OF assms(2,1) refl]
  consider "\<not> sa" | "\<not> sb" | "sa" "sb" "\<not> ra" | "sa" "sb" "\<not> rb" using assms(5) pa pb by (auto simp: null_is_handshake_complete_def)
  then show ?thesis
  proof cases
    case 1
    then show ?thesis using null_step.send_a [of _ _ p] n(1) pa by metis
  next
    case 2
    then show ?thesis using null_step.send_b [of _ _ p] n(2) pb by metis
  next
    case 3
    then show ?thesis using null_step.recv_a [of p "null_ready b" "[]"] n(4) [of sa ra] pa ba assms(4) compatible_sym [of s t] by auto
  next
    case 4
    then show ?thesis using null_step.recv_b [of p "null_ready a" "[]"] n(3) [of sb rb] pb ab assms(4) by auto
  qed
qed

text \<open>
  C35: In every interleaving of the two handshakes: a peer whose handshake is complete is connected to a
  socket of a type that fits and, if it asks for identities, knows that of its peer; a command of
  a socket that does not fit is refused; and as long as the types fit, some step is possible until
  both handshakes are complete.
\<close>
theorem null_handshake_agrees:
  assumes "fresh_null s a" and "fresh_null t b" and "null_step\<^sup>*\<^sup>* (null_start a b) p"
  shows "(null_is_handshake_complete (np_a p) \<longrightarrow> compatible s t \<and>
      (sends_identity t \<and> o_recv_identity (mc_options a) \<longrightarrow> mc_identity (np_a p) = o_identity (mc_options b))) \<and>
    (null_is_handshake_complete (np_b p) \<longrightarrow> compatible s t \<and>
      (sends_identity s \<and> o_recv_identity (mc_options b) \<longrightarrow> mc_identity (np_b p) = o_identity (mc_options a))) \<and>
    (\<forall>c cs. np_ba p = c # cs \<longrightarrow> fst (null_process_handshake_command c (np_a p)) = (if compatible s t then None else Some EINVAL)) \<and>
    (\<forall>c cs. np_ab p = c # cs \<longrightarrow> fst (null_process_handshake_command c (np_b p)) = (if compatible s t then None else Some EINVAL)) \<and>
    (compatible s t \<longrightarrow> (null_is_handshake_complete (np_a p) \<and> null_is_handshake_complete (np_b p)) \<or> (\<exists>q. null_step p q))"
proof -
  have inv: "null_inv s t a b p" by (rule null_inv_reachable [OF assms(3,1,2)])
  obtain sa ra sb rb where i: "ra \<longrightarrow> sb \<and> compatible s t" "rb \<longrightarrow> sa \<and> compatible s t" and
    pa: "np_a p = null_at t (o_identity (mc_options b)) a sa ra" and pb: "np_b p = null_at s (o_identity (mc_options a)) b sb rb" and
    ab: "np_ab p = (if sa \<and> \<not> rb then [null_ready a] else [])" and ba: "np_ba p = (if sb \<and> \<not> ra then [null_ready b] else [])"
    using inv unfolding null_inv_def by (elim exE conjE) (rule that, simp_all)
  have id: "mc_identity (null_at t (o_identity (mc_options b)) a sa ra) = (if ra \<and> sends_identity t \<and> o_recv_identity (mc_options a) then o_identity (mc_options b) else mc_identity a)"
    "mc_identity (null_at s (o_identity (mc_options a)) b sb rb) = (if rb \<and> sends_identity s \<and> o_recv_identity (mc_options b) then o_identity (mc_options a) else mc_identity b)"
    by (simp_all add: null_at_def)
  have f1: "fst (null_process_handshake_command c (np_a p)) = (if compatible s t then None else Some EINVAL)" if "np_ba p = c # cs" for c cs
  proof -
    have "c = null_ready b" "\<not> ra" using that ba by (auto split: if_splits)
    then show ?thesis using null_process_at [OF assms(2,1) refl, of sa ra] pa compatible_sym [of s t] by simp
  qed
  have f2: "fst (null_process_handshake_command c (np_b p)) = (if compatible s t then None else Some EINVAL)" if "np_ab p = c # cs" for c cs
  proof -
    have "c = null_ready a" "\<not> rb" using that ab by (auto split: if_splits)
    then show ?thesis using null_process_at [OF assms(1,2) refl, of sb rb] pb by simp
  qed
  have f3: "(null_is_handshake_complete (np_a p) \<and> null_is_handshake_complete (np_b p)) \<or> (\<exists>q. null_step p q)" if "compatible s t"
    using null_step_enabled [OF assms(1,2) inv that] by blast
  have f4: "null_is_handshake_complete (np_a p) \<longrightarrow> compatible s t \<and>
      (sends_identity t \<and> o_recv_identity (mc_options a) \<longrightarrow> mc_identity (np_a p) = o_identity (mc_options b))"
    using i(1) unfolding pa id null_is_handshake_complete_def null_at_simps by auto
  have f5: "null_is_handshake_complete (np_b p) \<longrightarrow> compatible s t \<and>
      (sends_identity s \<and> o_recv_identity (mc_options b) \<longrightarrow> mc_identity (np_b p) = o_identity (mc_options a))"
    using i(2) unfolding pb id null_is_handshake_complete_def null_at_simps by auto
  show ?thesis by (intro conjI f4 f5 allI impI; rule f1 f2 f3; assumption)
qed


text \<open>All steps of a handshake whose types fit.\<close>

lemma null_run_complete:
  assumes "fresh_null s a" and "fresh_null t b" and "compatible s t"
  shows "null_step\<^sup>*\<^sup>* (null_start a b) \<lparr>np_a = null_at t (o_identity (mc_options b)) a True True,
    np_b = null_at s (o_identity (mc_options a)) b True True, np_ab = [], np_ba = []\<rparr>"
proof -
  let ?a = "null_at t (o_identity (mc_options b)) a" and ?b = "null_at s (o_identity (mc_options a)) b"
  let ?p = "\<lambda>a b ab ba. \<lparr>np_a = a, np_b = b, np_ab = ab, np_ba = ba\<rparr>"
  note n = null_next_at [OF assms(1)] null_next_at [OF assms(2)] null_process_at [OF assms(1,2) refl] null_process_at [OF assms(2,1) refl]
  have s0: "null_start a b = ?p (?a False False) (?b False False) [] []"
    using null_at_start [OF assms(1)] null_at_start [OF assms(2)] by (simp add: null_start_def)
  have s1: "null_step (?p (?a False False) (?b False False) [] []) (?p (?a True False) (?b False False) [null_ready a] [])"
    using null_step.send_a [of "[]" "zap_last []" "?p (?a False False) (?b False False) [] []" undefined "null_ready a" "?a True False" undefined] n(1) by simp
  have s2: "null_step (?p (?a True False) (?b False False) [null_ready a] []) (?p (?a True False) (?b False True) [] [])"
    using null_step.recv_b [of "?p (?a True False) (?b False False) [null_ready a] []" "null_ready a" "[]"] n(3) assms(3) by simp
  have s3: "null_step (?p (?a True False) (?b False True) [] []) (?p (?a True False) (?b True True) [] [null_ready b])"
    using null_step.send_b [of "[]" "zap_last []" "?p (?a True False) (?b False True) [] []" undefined "null_ready b" "?b True True" undefined] n(2) by simp
  have s4: "null_step (?p (?a True False) (?b True True) [] [null_ready b]) (?p (?a True True) (?b True True) [] [])"
    using null_step.recv_a [of "?p (?a True False) (?b True True) [] [null_ready b]" "null_ready b" "[]"] n(4) assms(3) compatible_sym [of s t] by simp
  show ?thesis unfolding s0
    by (rule converse_rtranclp_into_rtranclp [where r = null_step], rule s1, rule converse_rtranclp_into_rtranclp [where r = null_step], rule s2,
        rule converse_rtranclp_into_rtranclp [where r = null_step], rule s3, rule converse_rtranclp_into_rtranclp [where r = null_step], rule s4,
        rule rtranclp.rtrancl_refl)
qed

theorem null_handshake_agrees_witness:
  "\<exists>(a :: unit null_mechanism_t) b p. null_step\<^sup>*\<^sup>* (null_start a b) p \<and> o_identity (mc_options a) = [1] \<and>
     null_is_handshake_complete (np_b p) \<and> mc_identity (np_b p) = [1]"
proof -
  let ?o = "options_new []"
  let ?m = "\<lambda>opts. \<lparr>mc_options = opts, mc_identity = [], n_peer_address = [], ready_command_sent = False, ready_command_received = False,
    n_zap_connected = False, n_zap_request_sent = False, n_zap_reply_received = False\<rparr>"
  let ?a = "?m (?o\<lparr>o_type := socket_type_int ZMQ_DEALER, o_identity := [1]\<rparr>) :: unit null_mechanism_t"
  let ?b = "?m (?o\<lparr>o_type := socket_type_int ZMQ_ROUTER, o_recv_identity := True\<rparr>) :: unit null_mechanism_t"
  have f: "fresh_null ZMQ_DEALER ?a" "fresh_null ZMQ_ROUTER ?b" by (simp_all add: fresh_null_def options_new_def)
  have c: "compatible ZMQ_DEALER ZMQ_ROUTER" by (simp add: compatible_def peer_types_def)
  let ?p = "\<lparr>np_a = null_at ZMQ_ROUTER (o_identity (mc_options ?b)) ?a True True,
    np_b = null_at ZMQ_DEALER (o_identity (mc_options ?a)) ?b True True, np_ab = [], np_ba = []\<rparr>"
  note run = null_run_complete [OF f c]
  have "null_is_handshake_complete (np_b ?p)" by (simp add: null_is_handshake_complete_def)
  moreover have "sends_identity ZMQ_DEALER" "o_recv_identity (mc_options ?b)" by (simp_all add: sends_identity_def)
  ultimately have "mc_identity (np_b ?p) = o_identity (mc_options ?a)" using null_handshake_agrees [OF f run] by blast
  then show ?thesis using run \<open>null_is_handshake_complete (np_b ?p)\<close>
    by (intro exI [of _ ?a] exI [of _ ?b] exI [of _ ?p]) simp
qed

definition grant :: "wire_msg list" where
  "grant = [zap_part [], zap_part (ascii ''1.0''), zap_part (ascii ''1''), zap_part (ascii ''200''), zap_part [], zap_part [], zap_last []]"

lemma granted_grant: "granted grant"
  by (auto simp: granted_def grant_def flag_more_def nth_Cons split: nat.splits)


end
