(* ===== verification/Plain.thy ===== *)
theory Plain
  imports Null
begin

text \<open>
  The mechanism PLAIN (\<^verbatim>\<open>src/plain_mechanism.cpp\<close>): the client sends \<open>HELLO\<close> with its name and password, the
  server asks the authentication handler and answers \<open>WELCOME\<close>; then both exchange their properties.
\<close>

datatype plain_state =
    Sending_hello | Waiting_for_hello | Sending_welcome | Waiting_for_welcome | Sending_initiate
  | Waiting_for_initiate | Sending_ready | Waiting_for_ready | Waiting_for_zap_reply | Plain_ready

record 'mask plain_mechanism_t = "'mask mechanism_base" +
  p_peer_address :: blob_t
  expecting_zap_reply :: bool
  plain_st :: plain_state

definition plain_new :: "blob_t \<Rightarrow> 'mask options_t \<Rightarrow> 'mask plain_mechanism_t" where
  "plain_new addr opts = \<lparr>mc_options = opts, mc_identity = [], p_peer_address = addr, expecting_zap_reply = False,
     plain_st = (if o_as_server opts \<noteq> 0 then Waiting_for_hello else Sending_hello)\<rparr>"

subsection \<open>Commands\<close>

definition produce_hello :: "'mask plain_mechanism_t \<Rightarrow> wire_msg option" where
  "produce_hello m = do {
     let username = o_plain_username (mc_options m);
     zmq_assert (length username < 256);
     let password = o_plain_password (mc_options m);
     zmq_assert (length password < 256);
     Some \<lparr>wm_flags = 0, wm_data = command_name ''HELLO'' @ of_nat (length username) # username @ of_nat (length password) # password\<rparr>
   }"

definition produce_welcome :: "'mask plain_mechanism_t \<Rightarrow> wire_msg option" where
  "produce_welcome m = Some \<lparr>wm_flags = 0, wm_data = command_name ''WELCOME''\<rparr>"

definition produce_initiate :: "'mask plain_mechanism_t \<Rightarrow> wire_msg option" where
  "produce_initiate m = do { c \<leftarrow> metadata_command ''INITIATE'' m; Some \<lparr>wm_flags = 0, wm_data = c\<rparr> }"

definition produce_ready :: "'mask plain_mechanism_t \<Rightarrow> wire_msg option" where
  "produce_ready m = do { c \<leftarrow> metadata_command ''READY'' m; Some \<lparr>wm_flags = 0, wm_data = c\<rparr> }"

text \<open>The name and the password of a \<open>HELLO\<close>, or nothing if it is malformed.\<close>

definition parse_hello :: "blob_t \<Rightarrow> (blob_t \<times> blob_t) option" where
  "parse_hello d =
     (if \<not> is_command ''HELLO'' d then None
      else let b = drop 6 d in
      if length b < 1 then None
      else let username_length = unat (b ! 0); b = drop 1 b in
      if length b < username_length then None
      else let username = take username_length b; b = drop username_length b in
      if length b < 1 then None
      else let password_length = unat (b ! 0); b = drop 1 b in
      if length b < password_length then None
      else let password = take password_length b; b = drop password_length b in
      if length b > 0 then None
      else Some (username, password))"

definition plain_zap_frames :: "blob_t \<Rightarrow> blob_t \<Rightarrow> 'mask plain_mechanism_t \<Rightarrow> wire_msg list" where
  "plain_zap_frames username password m = [zap_part [], zap_part (ascii ''1.0''), zap_part (ascii ''1''),
     zap_part (o_zap_domain (mc_options m)), zap_part (p_peer_address m), zap_part (o_identity (mc_options m)),
     zap_part (ascii ''PLAIN''), zap_part username, zap_last password]"

definition plain_send_zap_request :: "blob_t \<Rightarrow> blob_t \<Rightarrow> 'mask plain_mechanism_t \<Rightarrow> zap_t \<Rightarrow> zap_t option" where
  "plain_send_zap_request username password m z = write_zap_frames (plain_zap_frames username password m) z"

text \<open>The function has the same text as that of NULL.\<close>

definition plain_receive_and_process_zap_reply ::
  "'mask plain_mechanism_t \<Rightarrow> zap_t \<Rightarrow> errno_t option \<times> 'mask plain_mechanism_t \<times> zap_t" where
  "plain_receive_and_process_zap_reply m z = receive_and_process_zap_reply m z"

definition process_hello :: "wire_msg list \<Rightarrow> wire_msg \<Rightarrow> 'mask plain_mechanism_t \<Rightarrow> zap_t \<Rightarrow>
    (errno_t option \<times> 'mask plain_mechanism_t \<times> zap_t) option" where
  "process_hello arrived msg m z =
     (case parse_hello (wm_data msg) of
        None \<Rightarrow> Some (Some EPROTO, m, z)
      | Some (username, password) \<Rightarrow> do {
          (rc, z) \<leftarrow> zap_connect z;
          if rc = None then do {
            z \<leftarrow> plain_send_zap_request username password m z;
            let z = z\<lparr>zap_in := zap_in z @ arrived\<rparr>;
            (case plain_receive_and_process_zap_reply m z of
               (None, m, z) \<Rightarrow> Some (None, m, z)
             | (Some e, m, z) \<Rightarrow> if e \<noteq> EAGAIN then Some (Some e, m, z) else Some (None, m\<lparr>expecting_zap_reply := True\<rparr>, z))
          }
          else Some (None, m, z)
        })"

definition process_welcome :: "wire_msg \<Rightarrow> 'mask plain_mechanism_t \<Rightarrow> errno_t option \<times> 'mask plain_mechanism_t" where
  "process_welcome msg m = (if length (wm_data msg) \<noteq> 8 \<or> wm_data msg \<noteq> command_name ''WELCOME'' then Some EPROTO else None, m)"

definition process_initiate :: "wire_msg \<Rightarrow> 'mask plain_mechanism_t \<Rightarrow> errno_t option \<times> 'mask plain_mechanism_t" where
  "process_initiate msg m =
     (if \<not> is_command ''INITIATE'' (wm_data msg) then (Some EPROTO, m) else parse_metadata (drop 9 (wm_data msg)) m)"

definition process_ready :: "wire_msg \<Rightarrow> 'mask plain_mechanism_t \<Rightarrow> errno_t option \<times> 'mask plain_mechanism_t" where
  "process_ready msg m =
     (if \<not> is_command ''READY'' (wm_data msg) then (Some EPROTO, m) else parse_metadata (drop 6 (wm_data msg)) m)"

subsection \<open>The state machine\<close>

definition plain_next_handshake_command ::
  "wire_msg \<Rightarrow> 'mask plain_mechanism_t \<Rightarrow> (errno_t option \<times> wire_msg \<times> 'mask plain_mechanism_t) option" where
  "plain_next_handshake_command msg m = (case plain_st m of
       Sending_hello \<Rightarrow> do { c \<leftarrow> produce_hello m; Some (None, c, m\<lparr>plain_st := Waiting_for_welcome\<rparr>) }
     | Sending_welcome \<Rightarrow> do { c \<leftarrow> produce_welcome m; Some (None, c, m\<lparr>plain_st := Waiting_for_initiate\<rparr>) }
     | Sending_initiate \<Rightarrow> do { c \<leftarrow> produce_initiate m; Some (None, c, m\<lparr>plain_st := Waiting_for_ready\<rparr>) }
     | Sending_ready \<Rightarrow> do { c \<leftarrow> produce_ready m; Some (None, c, m\<lparr>plain_st := Plain_ready\<rparr>) }
     | _ \<Rightarrow> Some (Some EAGAIN, msg, m))"

text \<open>What a command does in the state in which it is expected.\<close>

definition plain_process :: "wire_msg list \<Rightarrow> wire_msg \<Rightarrow> 'mask plain_mechanism_t \<Rightarrow> zap_t \<Rightarrow>
    (errno_t option \<times> 'mask plain_mechanism_t \<times> zap_t) option" where
  "plain_process arrived msg m z =
     (let after = (\<lambda>st (rc, m). Some (rc, if rc = None then m\<lparr>plain_st := st\<rparr> else m, z)) in
      case plain_st m of
       Waiting_for_hello \<Rightarrow> do {
         (rc, m, z) \<leftarrow> process_hello arrived msg m z;
         Some (rc, if rc = None then m\<lparr>plain_st := (if expecting_zap_reply m then Waiting_for_zap_reply else Sending_welcome)\<rparr> else m, z)
       }
     | Waiting_for_welcome \<Rightarrow> after Sending_initiate (process_welcome msg m)
     | Waiting_for_initiate \<Rightarrow> after Sending_ready (process_initiate msg m)
     | Waiting_for_ready \<Rightarrow> after Plain_ready (process_ready msg m)
     | _ \<Rightarrow> Some (Some EPROTO, m, z))"

definition plain_process_handshake_command :: "wire_msg list \<Rightarrow> wire_msg \<Rightarrow> 'mask plain_mechanism_t \<Rightarrow> zap_t \<Rightarrow>
    (errno_t option \<times> wire_msg \<times> 'mask plain_mechanism_t \<times> zap_t) option" where
  "plain_process_handshake_command arrived msg m z = do {
     (rc, m, z) \<leftarrow> plain_process arrived msg m z;
     Some (rc, if rc = None then \<lparr>wm_flags = 0, wm_data = []\<rparr> else msg, m, z)
   }"

definition plain_is_handshake_complete :: "'mask plain_mechanism_t \<Rightarrow> bool" where
  "plain_is_handshake_complete m \<longleftrightarrow> plain_st m = Plain_ready"

definition plain_zap_msg_available :: "'mask plain_mechanism_t \<Rightarrow> zap_t \<Rightarrow> errno_t option \<times> 'mask plain_mechanism_t \<times> zap_t" where
  "plain_zap_msg_available m z =
     (if plain_st m \<noteq> Waiting_for_zap_reply then (Some EFSM, m, z)
      else (case plain_receive_and_process_zap_reply m z of
         (rc, m, z) \<Rightarrow> (rc, if rc = None then m\<lparr>plain_st := Sending_welcome\<rparr> else m, z)))"

subsection \<open>The commands are understood\<close>

lemma parse_hello_produced:
  assumes "produce_hello m = Some c"
  shows "parse_hello (wm_data c) = Some (o_plain_username (mc_options m), o_plain_password (mc_options m))"
proof -
  let ?u = "o_plain_username (mc_options m)" and ?p = "o_plain_password (mc_options m)"
  have l: "length ?u \<le> 255" "length ?p \<le> 255" and c: "wm_data c = command_name ''HELLO'' @ of_nat (length ?u) # ?u @ of_nat (length ?p) # ?p"
    using assms by (auto simp: produce_hello_def Let_def split: Option.bind_splits)
  have d: "drop 6 (command_name ''HELLO'' @ x) = x" for x by (rule drop_command_name) simp
  show ?thesis using l unfolding c parse_hello_def by (simp add: d unat_of_nat_byte)
qed

text \<open>A socket with sensible options.\<close>

definition fit_plain :: "socket_type \<Rightarrow> 'mask plain_mechanism_t \<Rightarrow> bool" where
  "fit_plain t m \<longleftrightarrow> has_type m t \<and> t \<noteq> ZMQ_STREAM \<and> length (o_identity (mc_options m)) \<le> 255"

lemma initiate_understood:
  fixes m m' :: "'mask plain_mechanism_t"
  assumes "fit_plain s m" and "has_type m' t"
  shows "\<exists>c. produce_initiate m = Some c \<and> process_initiate c m' = learn s (o_identity (mc_options m)) t m'"
proof -
  have a: "has_type m s" "s \<noteq> ZMQ_STREAM" "length (o_identity (mc_options m)) \<le> 255" using assms(1) by (simp_all add: fit_plain_def)
  obtain c where "metadata_command ''INITIATE'' m = Some (command_name ''INITIATE'' @ c)" "parse_metadata c m' = learn s (o_identity (mc_options m)) t m'"
    using metadata_command_ok [OF a, of "''INITIATE''"] assms(2) by auto
  moreover have "drop 9 (command_name ''INITIATE'' @ c) = c" by (rule drop_command_name) simp
  ultimately show ?thesis by (simp add: produce_initiate_def process_initiate_def)
qed

lemma ready_understood:
  fixes m m' :: "'mask plain_mechanism_t"
  assumes "fit_plain s m" and "has_type m' t"
  shows "\<exists>c. produce_ready m = Some c \<and> process_ready c m' = learn s (o_identity (mc_options m)) t m'"
proof -
  have a: "has_type m s" "s \<noteq> ZMQ_STREAM" "length (o_identity (mc_options m)) \<le> 255" using assms(1) by (simp_all add: fit_plain_def)
  obtain c where "metadata_command ''READY'' m = Some (command_name ''READY'' @ c)" "parse_metadata c m' = learn s (o_identity (mc_options m)) t m'"
    using metadata_command_ok [OF a, of "''READY''"] assms(2) by auto
  moreover have "drop 6 (command_name ''READY'' @ c) = c" by (rule drop_command_name) simp
  ultimately show ?thesis by (simp add: produce_ready_def process_ready_def)
qed

subsection \<open>The authentication of a client\<close>

text \<open>
  What can happen to a server: commands of any content come in and are processed, commands are sent,
  and the handler writes frames, at any time, which are read when they are reported. An error ends the
  connection and is not a step. \<open>fs\<close> are all frames that the handler has written and \<open>h\<close> the name and
  password of the \<open>HELLO\<close> that was accepted.
\<close>

inductive plain_reach :: "'mask plain_mechanism_t \<Rightarrow> zap_t \<Rightarrow> 'mask plain_mechanism_t \<Rightarrow> zap_t \<Rightarrow> wire_msg list \<Rightarrow> (blob_t \<times> blob_t) option \<Rightarrow> bool"
  for m0 z0 where
  start: "plain_reach m0 z0 m0 z0 [] None"
| hello: "plain_reach m0 z0 m z fs h \<Longrightarrow> plain_st m = Waiting_for_hello \<Longrightarrow>
    plain_process_handshake_command gs msg m z = Some (None, msg', m', z') \<Longrightarrow> plain_reach m0 z0 m' z' (fs @ gs) (parse_hello (wm_data msg))"
| command: "plain_reach m0 z0 m z fs h \<Longrightarrow> plain_st m \<noteq> Waiting_for_hello \<Longrightarrow>
    plain_process_handshake_command [] msg m z = Some (None, msg', m', z') \<Longrightarrow> plain_reach m0 z0 m' z' fs h"
| sent: "plain_reach m0 z0 m z fs h \<Longrightarrow> plain_next_handshake_command msg m = Some (None, c, m') \<Longrightarrow> plain_reach m0 z0 m' z fs h"
| frames: "plain_reach m0 z0 m z fs h \<Longrightarrow> zap_pipe z \<Longrightarrow> plain_reach m0 z0 m (z\<lparr>zap_in := zap_in z @ gs\<rparr>) (fs @ gs) h"
| reply: "plain_reach m0 z0 m z fs h \<Longrightarrow> plain_zap_msg_available m z = (None, m', z') \<Longrightarrow> plain_reach m0 z0 m' z' fs h"

text \<open>The handler was asked about the client, and its answer, among the frames \<open>fs\<close>, grants access.\<close>

definition asked :: "blob_t \<times> blob_t \<Rightarrow> 'mask plain_mechanism_t \<Rightarrow> zap_t \<Rightarrow> bool" where
  "asked up m z \<longleftrightarrow> (\<exists>pre. zap_out z = pre @ plain_zap_frames (fst up) (snd up) m) \<and> zap_flushed z = length (zap_out z)"

definition answered :: "wire_msg list \<Rightarrow> zap_t \<Rightarrow> bool" where
  "answered fs z \<longleftrightarrow> (\<exists>pre f. fs = pre @ f @ zap_in z \<and> granted f)"

definition pending_frames :: "wire_msg list \<Rightarrow> zap_t \<Rightarrow> bool" where
  "pending_frames fs z \<longleftrightarrow> (\<exists>pre. fs = pre @ zap_in z)"

definition plain_inv :: "'mask plain_mechanism_t \<Rightarrow> zap_t \<Rightarrow> 'mask plain_mechanism_t \<Rightarrow> zap_t \<Rightarrow> wire_msg list \<Rightarrow> (blob_t \<times> blob_t) option \<Rightarrow> bool" where
  "plain_inv m0 z0 m z fs h \<longleftrightarrow> zap_endpoint z = zap_endpoint z0 \<and> mc_options m = mc_options m0 \<and> p_peer_address m = p_peer_address m0 \<and>
     (case plain_st m of
        Waiting_for_hello \<Rightarrow> \<not> zap_pipe z \<and> fs = [] \<and> \<not> expecting_zap_reply m
      | Waiting_for_zap_reply \<Rightarrow> pending_frames fs z \<and> (\<exists>up. h = Some up \<and> asked up m0 z)
      | Sending_hello \<Rightarrow> False | Waiting_for_welcome \<Rightarrow> False | Sending_initiate \<Rightarrow> False | Waiting_for_ready \<Rightarrow> False
      | _ \<Rightarrow> zap_handler z0 \<longrightarrow> answered fs z \<and> (\<exists>up. h = Some up \<and> asked up m0 z))"

lemma plain_zap_frames_cong:
  "mc_options m = mc_options m' \<Longrightarrow> p_peer_address m = p_peer_address m' \<Longrightarrow> plain_zap_frames u p m = plain_zap_frames u p m'"
  by (simp add: plain_zap_frames_def)

text \<open>What a \<open>HELLO\<close> that is accepted does.\<close>

lemma process_hello_accepted:
  assumes "process_hello gs msg m z = Some (None, m', z')" and "\<not> zap_pipe z" and "\<not> expecting_zap_reply m"
  shows "\<exists>up. parse_hello (wm_data msg) = Some up \<and> zap_endpoint z' = zap_endpoint z \<and>
    m' = m\<lparr>mc_identity := mc_identity m', expecting_zap_reply := expecting_zap_reply m'\<rparr> \<and>
    (if zap_handler z
     then asked up m z' \<and> (if expecting_zap_reply m' then pending_frames gs z' else answered gs z')
     else \<not> expecting_zap_reply m')"
proof -
  obtain u p where up: "parse_hello (wm_data msg) = Some (u, p)" using assms(1) by (auto simp: process_hello_def split: option.splits)
  have "zap_connect z \<noteq> None" using assms(2) by (auto simp: zap_connect_def split: option.split)
  then obtain rc z1 where c: "zap_connect z = Some (rc, z1)" by auto
  have h: "rc = None \<longleftrightarrow> zap_handler z" "rc \<noteq> None \<Longrightarrow> z1 = z" "zap_endpoint z1 = zap_endpoint z" "rc = None \<Longrightarrow> zap_pipe z1 \<and> zap_in z1 = []"
    using c assms(2) by (auto simp: zap_connect_def zap_handler_def split: option.splits if_splits)
  show ?thesis
  proof (cases "zap_handler z")
    case False
    then have "m' = m" "z' = z1" using assms(1) up c h(1) by (auto simp: process_hello_def)
    then show ?thesis using False h(2,3) up assms(3) by simp
  next
    case True
    let ?f = "plain_zap_frames u p m" let ?z2 = "z1\<lparr>zap_out := zap_out z1 @ ?f, zap_flushed := length (zap_out z1 @ ?f)\<rparr>"
    have rc: "rc = None" "zap_pipe z1" "zap_in z1 = []" using True h by simp_all
    have w: "plain_send_zap_request u p m z1 = Some ?z2"
      unfolding plain_send_zap_request_def by (rule write_zap_frames_ok [OF rc(2)]) (simp_all add: plain_zap_frames_def)
    let ?y = "?z2\<lparr>zap_in := gs\<rparr>"
    obtain e m1 y1 where r: "receive_and_process_zap_reply m ?y = (e, m1, y1)" by (cases "receive_and_process_zap_reply m ?y")
    note t = zap_reply_takes [OF r]
    have e: "e = None \<or> e = Some EAGAIN" "z' = y1" "m' = (if e = None then m1 else m1\<lparr>expecting_zap_reply := True\<rparr>)"
      using assms(1) up c rc w r by (auto simp: process_hello_def plain_receive_and_process_zap_reply_def split: option.splits if_splits)
    have ye: "y1 = ?y\<lparr>zap_in := zap_in y1\<rparr>" and g: "\<exists>g. gs = g @ zap_in y1" and me: "m1 = m\<lparr>mc_identity := mc_identity m1\<rparr>" using t by auto
    have y: "zap_out y1 = zap_out z1 @ ?f" "zap_flushed y1 = length (zap_out y1)" "zap_endpoint y1 = zap_endpoint z1" by (subst ye, simp)+
    have as: "asked (u, p) m z'" using y(1,2) e(2) by (auto simp: asked_def)
    have ne: "\<not> expecting_zap_reply m1" using assms(3) by (subst me) simp
    have mm: "m' = m\<lparr>mc_identity := mc_identity m', expecting_zap_reply := expecting_zap_reply m'\<rparr>"
    proof -
      obtain i where i: "m1 = m\<lparr>mc_identity := i\<rparr>" using me by blast
      show ?thesis unfolding e(3) i by (cases m; cases "e = None"; simp)
    qed
    have "if expecting_zap_reply m' then pending_frames gs z' else answered gs z'"
    proof (cases "e = None")
      case True
      then obtain f where "zap_in ?y = f @ zap_in y1" "granted f" using zap_reply_accepted [of m ?y m1 y1] r by auto
      then show ?thesis using True e(2,3) ne by (auto simp: answered_def intro: exI [of _ "[]"])
    next
      case False
      then show ?thesis using e(2,3) g by (cases e) (simp_all add: pending_frames_def)
    qed
    then show ?thesis using up y(3) h(3) e(2) as True mm by simp
  qed
qed

lemma plain_process_step:
  assumes "plain_process gs msg m z = Some (None, m', z')" and "plain_st m \<noteq> Waiting_for_hello"
  shows "z' = z \<and> (\<exists>i. m' = m\<lparr>mc_identity := i, plain_st := plain_st m'\<rparr>) \<and>
    (plain_st m, plain_st m') \<in> {(Waiting_for_welcome, Sending_initiate), (Waiting_for_initiate, Sending_ready), (Waiting_for_ready, Plain_ready)}"
proof -
  have k: "\<exists>i. m1 = m\<lparr>mc_identity := i\<rparr>" if "parse_metadata b m = (None, m1)" for b m1 using parse_metadata_keeps [OF that] by blast
  have w: "\<exists>i. m1 = m\<lparr>mc_identity := i\<rparr>" if "process_welcome msg m = (None, m1)" for m1
    using that by (auto simp: process_welcome_def intro: exI [of _ "mc_identity m"])
  have i: "\<exists>i. m1 = m\<lparr>mc_identity := i\<rparr>" if "process_initiate msg m = (None, m1)" for m1
    using that k by (auto simp: process_initiate_def split: if_splits)
  have r: "\<exists>i. m1 = m\<lparr>mc_identity := i\<rparr>" if "process_ready msg m = (None, m1)" for m1
    using that k by (auto simp: process_ready_def split: if_splits)
  show ?thesis
    using assms w i r by (cases "plain_st m") (fastforce simp: plain_process_def split: prod.splits)+
qed

lemma plain_next_step:
  assumes "plain_next_handshake_command msg m = Some (None, c, m')"
  shows "m' = m\<lparr>plain_st := plain_st m'\<rparr> \<and> (plain_st m, plain_st m') \<in> {(Sending_hello, Waiting_for_welcome),
    (Sending_welcome, Waiting_for_initiate), (Sending_initiate, Waiting_for_ready), (Sending_ready, Plain_ready)}"
  using assms by (cases "plain_st m") (auto simp: plain_next_handshake_command_def split: Option.bind_splits)

definition fresh_server :: "'mask plain_mechanism_t \<Rightarrow> bool" where
  "fresh_server m \<longleftrightarrow> plain_st m = Waiting_for_hello \<and> \<not> expecting_zap_reply m"

lemma asked_in [simp]: "asked up m (z\<lparr>zap_in := x\<rparr>) = asked up m z"
  by (simp add: asked_def)

lemma plain_inv_reachable:
  assumes "plain_reach m0 z0 m z fs h" and "fresh_server m0" and "\<not> zap_pipe z0"
  shows "plain_inv m0 z0 m z fs h"
  using assms(1)
proof (induction rule: plain_reach.induct)
  case start
  show ?case using assms(2,3) by (simp add: plain_inv_def fresh_server_def)
next
  case (hello m z fs h gs msg msg' m' z')
  then have i: "zap_endpoint z = zap_endpoint z0" "mc_options m = mc_options m0" "p_peer_address m = p_peer_address m0" "\<not> zap_pipe z" "fs = []"
    "\<not> expecting_zap_reply m" by (simp_all add: plain_inv_def)
  obtain m1 where m1: "process_hello gs msg m z = Some (None, m1, z')"
    "m' = m1\<lparr>plain_st := (if expecting_zap_reply m1 then Waiting_for_zap_reply else Sending_welcome)\<rparr>"
    using hello.hyps(2,3) by (auto simp: plain_process_handshake_command_def plain_process_def split: Option.bind_splits)
  obtain up where up: "parse_hello (wm_data msg) = Some up" "zap_endpoint z' = zap_endpoint z"
    "m1 = m\<lparr>mc_identity := mc_identity m1, expecting_zap_reply := expecting_zap_reply m1\<rparr>"
    "if zap_handler z then asked up m z' \<and> (if expecting_zap_reply m1 then pending_frames gs z' else answered gs z') else \<not> expecting_zap_reply m1"
    using process_hello_accepted [OF m1(1) i(4,6)] by (elim exE conjE) (rule that, assumption+)
  have hd: "zap_handler z = zap_handler z0" using i(1) by (simp add: zap_handler_def)
  have as: "asked up m z' = asked up m0 z'" using plain_zap_frames_cong [OF i(2,3)] by (simp add: asked_def)
  have op: "mc_options m1 = mc_options m0" "p_peer_address m1 = p_peer_address m0" using i(2,3) by (subst up(3), simp)+
  show ?case using up(1,2,4) i(1,5) hd as op unfolding m1(2) plain_inv_def by (cases "expecting_zap_reply m1") (auto split: if_splits)
next
  case (command m z fs h msg msg' m' z')
  then have "plain_process [] msg m z = Some (None, m', z')" by (auto simp: plain_process_handshake_command_def split: Option.bind_splits)
  from plain_process_step [OF this command.hyps(2)] show ?case using command.IH by (auto simp: plain_inv_def split: plain_state.splits)
next
  case (sent m z fs h msg c m')
  from plain_next_step [OF sent.hyps(2)] show ?case using sent.IH by (auto simp: plain_inv_def split: plain_state.splits)
next
  case (frames m z fs h gs)
  have "pending_frames fs z \<Longrightarrow> pending_frames (fs @ gs) (z\<lparr>zap_in := zap_in z @ gs\<rparr>)" by (auto simp: pending_frames_def)
  moreover have "answered fs z \<Longrightarrow> answered (fs @ gs) (z\<lparr>zap_in := zap_in z @ gs\<rparr>)" by (auto simp: answered_def)
  ultimately show ?case using frames by (auto simp: plain_inv_def split: plain_state.splits)
next
  case (reply m z fs h m' z')
  then have st: "plain_st m = Waiting_for_zap_reply" by (auto simp: plain_zap_msg_available_def split: if_splits)
  obtain m1 where m1: "receive_and_process_zap_reply m z = (None, m1, z')" "m' = m1\<lparr>plain_st := Sending_welcome\<rparr>"
    using reply.hyps(2) st by (auto simp: plain_zap_msg_available_def plain_receive_and_process_zap_reply_def split: prod.splits if_splits)
  obtain f where f: "zap_in z = f @ zap_in z'" "granted f" using zap_reply_accepted [OF m1(1)] by blast
  obtain up pre where i: "zap_endpoint z = zap_endpoint z0" "mc_options m = mc_options m0" "p_peer_address m = p_peer_address m0"
    "fs = pre @ zap_in z" "h = Some up" "asked up m0 z" using reply.IH st by (auto simp: plain_inv_def pending_frames_def)
  obtain x i' where t: "z' = z\<lparr>zap_in := x\<rparr>" "m1 = m\<lparr>mc_identity := i'\<rparr>" using zap_reply_takes [OF m1(1)] by blast
  have "answered fs z'" using i(4) f by (auto simp: answered_def)
  then show ?case using i t unfolding m1(2) plain_inv_def by simp
qed

text \<open>
  C37: Whatever a client sends and the handler answers, and in whatever order: a server whose handshake is
  complete has, if there is a handler, asked it about the name and the password of the \<open>HELLO\<close>, and the
  handler has granted access. And no command makes the server fail an assertion.
\<close>
theorem plain_server_authenticates:
  assumes "plain_reach m0 z0 m z fs h" and "fresh_server m0" and "\<not> zap_pipe z0"
  shows "(plain_is_handshake_complete m \<longrightarrow> zap_handler z0 \<longrightarrow>
      (\<exists>username password pre f rest. h = Some (username, password) \<and> zap_out z = pre @ plain_zap_frames username password m0 \<and>
        zap_flushed z = length (zap_out z) \<and> (\<exists>before. fs = before @ f @ rest) \<and> granted f)) \<and>
    plain_process_handshake_command gs msg m z \<noteq> None"
proof -
  have i: "plain_inv m0 z0 m z fs h" by (rule plain_inv_reachable [OF assms])
  have "plain_process_handshake_command gs msg m z \<noteq> None"
  proof (cases "plain_st m = Waiting_for_hello")
    case True
    then have np: "\<not> zap_pipe z" using i by (simp add: plain_inv_def)
    have "process_hello gs msg m z \<noteq> None"
    proof (cases "parse_hello (wm_data msg)")
      case (Some up)
      obtain u p where u: "up = (u, p)" by (cases up)
      have "zap_connect z \<noteq> None" using np by (auto simp: zap_connect_def split: option.split)
      then obtain rc z1 where c: "zap_connect z = Some (rc, z1)" by auto
      have "plain_send_zap_request u p m z1 \<noteq> None" if "rc = None"
      proof -
        have "zap_pipe z1" using c np that by (auto simp: zap_connect_def split: option.splits if_splits)
        then show ?thesis unfolding plain_send_zap_request_def by (subst write_zap_frames_ok) (simp_all add: plain_zap_frames_def)
      qed
      then show ?thesis using Some u c by (auto simp: process_hello_def split: option.split prod.split)
    qed (simp add: process_hello_def)
    then show ?thesis using True by (auto simp: plain_process_handshake_command_def plain_process_def split: Option.bind_splits)
  next
    case False
    then show ?thesis by (cases "plain_st m") (auto simp: plain_process_handshake_command_def plain_process_def split: prod.split)
  qed
  moreover have "\<exists>username password pre f rest. h = Some (username, password) \<and> zap_out z = pre @ plain_zap_frames username password m0 \<and>
        zap_flushed z = length (zap_out z) \<and> (\<exists>before. fs = before @ f @ rest) \<and> granted f"
    if c: "plain_is_handshake_complete m" "zap_handler z0"
  proof -
    obtain up where "answered fs z" "h = Some up" "asked up m0 z" using i c by (auto simp: plain_inv_def plain_is_handshake_complete_def)
    then show ?thesis by (cases up) (auto simp: answered_def asked_def)
  qed
  ultimately show ?thesis by blast
qed

subsection \<open>A whole handshake\<close>

text \<open>The two ends take turns, \<open>n\<close> times at most; \<open>y\<close> is the link of the client's session, which is not used.\<close>

fun plain_dialogue :: "nat \<Rightarrow> wire_msg list \<Rightarrow> 'mask plain_mechanism_t \<Rightarrow> 'mask plain_mechanism_t \<Rightarrow> zap_t \<Rightarrow> zap_t \<Rightarrow>
    (errno_t option \<times> 'mask plain_mechanism_t \<times> 'mask plain_mechanism_t \<times> zap_t) option" where
  "plain_dialogue 0 gs c v z y = Some (None, c, v, z)"
| "plain_dialogue (Suc n) gs c v z y = do {
     (rc, cmd, c) \<leftarrow> plain_next_handshake_command (zap_last []) c;
     if rc = None then do {
       (rc, _, v, z) \<leftarrow> plain_process_handshake_command gs cmd v z;
       if rc = None then plain_dialogue n gs c v z y else Some (rc, c, v, z)
     }
     else do {
       (rc, cmd, v) \<leftarrow> plain_next_handshake_command (zap_last []) v;
       if rc = None then do {
         (rc, _, c, y) \<leftarrow> plain_process_handshake_command [] cmd c y;
         if rc = None then plain_dialogue n gs c v z y else Some (rc, c, v, z)
       }
       else Some (None, c, v, z)
     }
   }"

lemma process_hello_granted:
  assumes "parse_hello (wm_data msg) = Some (u, p)" and "\<not> zap_pipe z" and "\<not> expecting_zap_reply v"
    and "zap_handler z \<longrightarrow> (\<exists>f r. gs = f @ r \<and> granted f \<and> wm_data (f ! 6) = [])"
  shows "\<exists>z'. process_hello gs msg v z = Some (None, v, z')"
proof -
  have "zap_connect z \<noteq> None" using assms(2) by (auto simp: zap_connect_def split: option.split)
  then obtain rc z1 where c: "zap_connect z = Some (rc, z1)" by auto
  have h: "rc = None \<longleftrightarrow> zap_handler z" "rc = None \<Longrightarrow> zap_pipe z1 \<and> zap_in z1 = []"
    using c assms(2) by (auto simp: zap_connect_def zap_handler_def split: option.splits if_splits)
  show ?thesis
  proof (cases "zap_handler z")
    case False
    then show ?thesis using assms(1) c h(1) by (auto simp: process_hello_def)
  next
    case True
    then obtain f r where f: "gs = f @ r" "granted f" "wm_data (f ! 6) = []" using assms(4) by blast
    have rc: "rc = None" "zap_pipe z1" "zap_in z1 = []" using True h by simp_all
    let ?f = "plain_zap_frames u p v" let ?z2 = "z1\<lparr>zap_out := zap_out z1 @ ?f, zap_flushed := length (zap_out z1 @ ?f)\<rparr>"
    have w: "plain_send_zap_request u p v z1 = Some ?z2"
      unfolding plain_send_zap_request_def by (rule write_zap_frames_ok [OF rc(2)]) (simp_all add: plain_zap_frames_def)
    have "receive_and_process_zap_reply v (?z2\<lparr>zap_in := gs\<rparr>) = (None, v, ?z2\<lparr>zap_in := r\<rparr>)"
      using zap_reply_granted [of "?z2\<lparr>zap_in := gs\<rparr>" f r v None v] f rc(2) by simp
    then show ?thesis using assms(1) c rc w by (simp add: process_hello_def plain_receive_and_process_zap_reply_def)
  qed
qed


definition example_client :: "unit plain_mechanism_t" where
  "example_client = plain_new [] ((options_new [])\<lparr>o_type := socket_type_int ZMQ_DEALER, o_identity := [7],
     o_plain_username := [97], o_plain_password := [98]\<rparr>)"

definition example_server :: "unit plain_mechanism_t" where
  "example_server = plain_new [] ((options_new [])\<lparr>o_type := socket_type_int ZMQ_ROUTER, o_recv_identity := True, o_as_server := 1\<rparr>)"

definition example_zap :: zap_t where
  "example_zap = \<lparr>zap_endpoint = Some (socket_type_int ZMQ_REP, False), zap_pipe = False, zap_out = [], zap_flushed = 0, zap_in = []\<rparr>"

lemmas example_plain_defs = example_client_def example_server_def example_zap_def plain_new_def


theorem plain_server_authenticates_witness:
  "\<exists>m z fs h u p pre. plain_reach example_server example_zap m z fs h \<and> plain_is_handshake_complete m \<and> h = Some (u, p) \<and>
     zap_out z = pre @ plain_zap_frames u p example_server"
proof -
  obtain h where h: "produce_hello example_client = Some h" by (simp add: produce_hello_def example_plain_defs options_new_def Let_def)
  have f: "fresh_server example_server" "\<not> zap_pipe example_zap" by (simp_all add: example_plain_defs fresh_server_def)
  have g: "zap_handler example_zap \<longrightarrow> (\<exists>f r. grant = f @ r \<and> granted f \<and> wm_data (f ! 6) = [])"
    using granted_grant by (intro impI exI [of _ grant] exI [of _ "[]"]) (simp add: grant_def)
  have v: "plain_st example_server = Waiting_for_hello" "\<not> expecting_zap_reply example_server" using f(1) by (simp_all add: fresh_server_def)
  obtain z1 where z1: "process_hello grant h example_server example_zap = Some (None, example_server, z1)"
    using process_hello_granted [OF parse_hello_produced [OF h] f(2) v(2) g] by blast
  let ?m = "\<lambda>st. example_server\<lparr>plain_st := st\<rparr>"
  have "plain_process_handshake_command grant h example_server example_zap = Some (None, zap_last [], ?m Sending_welcome, z1)"
    using z1 v by (simp add: plain_process_handshake_command_def plain_process_def)
  note r1 = plain_reach.hello [OF plain_reach.start v(1) this]
  have "plain_next_handshake_command (zap_last []) (?m Sending_welcome) = Some (None, zap_last (command_name ''WELCOME''), ?m Waiting_for_initiate)"
    by (simp add: plain_next_handshake_command_def produce_welcome_def)
  note r2 = plain_reach.sent [OF r1 this]
  have fit: "fit_plain ZMQ_DEALER example_client" "has_type (?m Waiting_for_initiate) ZMQ_ROUTER" "fit_plain ZMQ_ROUTER (?m Sending_ready)"
    by (simp_all add: example_plain_defs fit_plain_def options_new_def)
  have c: "compatible ZMQ_DEALER ZMQ_ROUTER" by (simp add: compatible_def peer_types_def)
  obtain i where i: "process_initiate i (?m Waiting_for_initiate) = learn ZMQ_DEALER (o_identity (mc_options example_client)) ZMQ_ROUTER (?m Waiting_for_initiate)"
    using initiate_understood [OF fit(1,2)] by blast
  let ?n = "\<lambda>st. example_server\<lparr>mc_identity := [7], plain_st := st\<rparr>"
  have "learn ZMQ_DEALER (o_identity (mc_options example_client)) ZMQ_ROUTER (?m Waiting_for_initiate) = (None, ?n Waiting_for_initiate)"
    using c by (simp add: learn_def sends_identity_def example_plain_defs)
  with i have "plain_process_handshake_command [] i (?m Waiting_for_initiate) z1 = Some (None, zap_last [], ?n Sending_ready, z1)"
    by (simp add: plain_process_handshake_command_def plain_process_def)
  note r3 = plain_reach.command [OF r2 _ this]
  have fn: "fit_plain ZMQ_ROUTER (?n Sending_ready)" "has_type example_client ZMQ_DEALER"
    by (simp_all add: example_plain_defs fit_plain_def options_new_def)
  obtain c where "produce_ready (?n Sending_ready) = Some c" using ready_understood [OF fn] by blast
  then have "plain_next_handshake_command (zap_last []) (?n Sending_ready) = Some (None, c, ?n Plain_ready)"
    by (simp add: plain_next_handshake_command_def)
  then have r: "plain_reach example_server example_zap (?n Plain_ready) z1 ([] @ grant) (parse_hello (wm_data h))"
    by (intro plain_reach.sent [OF r3]) simp_all
  have "zap_handler example_zap" by (auto simp: zap_handler_def example_zap_def)
  then have "\<exists>u p pre. parse_hello (wm_data h) = Some (u, p) \<and> zap_out z1 = pre @ plain_zap_frames u p example_server"
    using plain_server_authenticates [OF r f, of "[]" h] by (auto simp: plain_is_handshake_complete_def)
  then obtain u p pre where "parse_hello (wm_data h) = Some (u, p)" "zap_out z1 = pre @ plain_zap_frames u p example_server" by blast
  with r show ?thesis by (intro exI conjI) (auto simp: plain_is_handshake_complete_def)
qed

end
