(* ===== verification/Encoder.thy ===== *)
theory Encoder
  imports Wire
begin

text \<open>
  The outgoing half of the codec: \<open>encoder_base_t\<close> (\<^verbatim>\<open>src/encoder.hpp\<close>) with the state machines of
  \<open>v1_encoder_t\<close>, \<open>v2_encoder_t\<close> and \<open>raw_encoder_t\<close>, and the loop of \<open>stream_engine_t::out_event\<close> that
  fills a batch with encoded messages.

  \<open>to_write\<close> is the block of bytes at \<open>write_pos\<close> that are still to be copied. \<open>unsent\<close> is the
  meaning of an encoder, the bytes of the current message it has not returned yet: every
  call of \<open>encode\<close> splits it into what it returns and what remains.
\<close>

datatype enc_kind = V1_encoder | V2_encoder | Raw_encoder

datatype enc_step = Message_ready | Size_ready

record enc_t =
  to_write :: "byte list"
  enc_next :: enc_step
  new_msg_flag :: bool
  in_progress :: "wire_msg option"

definition encoder_new :: enc_t where
  "encoder_new = \<lparr>to_write = [], enc_next = Message_ready, new_msg_flag = True, in_progress = None\<rparr>"

text \<open>The actions of the state machines; without a message they dereference a null pointer.\<close>

definition enc_action :: "enc_kind \<Rightarrow> enc_t \<Rightarrow> enc_t option" where
  "enc_action k e = do {
     m \<leftarrow> in_progress e;
     Some (case (k, enc_next e) of
         (V1_encoder, Message_ready) \<Rightarrow> e\<lparr>enc_next := Size_ready, new_msg_flag := False, to_write := v1_header m\<rparr>
       | (V2_encoder, Message_ready) \<Rightarrow> e\<lparr>enc_next := Size_ready, new_msg_flag := False, to_write := v2_header m\<rparr>
       | _ \<Rightarrow> e\<lparr>enc_next := Message_ready, new_msg_flag := True, to_write := wm_data m\<rparr>)
   }"

definition load_msg :: "enc_kind \<Rightarrow> wire_msg \<Rightarrow> enc_t \<Rightarrow> enc_t option" where
  "load_msg k m e = do {
     zmq_assert (in_progress e = None);
     enc_action k (e\<lparr>in_progress := Some m\<rparr>)
   }"

text \<open>
  The loop of \<open>encode\<close>. \<open>own\<close> says that no buffer was supplied, \<open>bs\<close> is the size of the buffer used,
  \<open>out\<close> what is in it so far. The last case but one is the zero-copy return.
\<close>

partial_function (option) encode_loop ::
  "enc_kind \<Rightarrow> bool \<Rightarrow> nat \<Rightarrow> byte list \<Rightarrow> enc_t \<Rightarrow> (byte list \<times> enc_t) option" where
  "encode_loop k own bs out e =
     (if \<not> length out < bs then Some (out, e)
      else if to_write e = [] \<and> new_msg_flag e then Some (out, e\<lparr>in_progress := None\<rparr>)
      else (case (if to_write e = [] then enc_action k e else Some e) of
          None \<Rightarrow> None
        | Some e \<Rightarrow>
            if out = [] \<and> own \<and> bs \<le> length (to_write e) then Some (to_write e, e\<lparr>to_write := []\<rparr>)
            else let n = min (length (to_write e)) (bs - length out)
                 in encode_loop k own bs (out @ take n (to_write e)) (e\<lparr>to_write := drop n (to_write e)\<rparr>)))"

text \<open>\<open>encode\<close>: whether \<open>*data_\<close> is set on return, the bytes at it, and the encoder.\<close>

definition encode :: "enc_kind \<Rightarrow> nat \<Rightarrow> bool \<Rightarrow> nat \<Rightarrow> enc_t \<Rightarrow> (bool \<times> byte list \<times> enc_t) option" where
  "encode k bufsize own sz e =
     (let bs = (if own then bufsize else sz)
      in if in_progress e = None then Some (\<not> own, [], e)
         else do { (out, e) \<leftarrow> encode_loop k own bs [] e; Some (True, out, e) })"

text \<open>
  The part of \<open>out_event\<close> that fills the batch: \<open>msgs\<close> are the messages \<open>read_msg\<close> returns before it
  fails with nothing to read, \<open>ptr\<close> says whether \<open>outpos\<close> is set. The bytes of the batch and the
  messages that were not read are returned.
\<close>

fun out_batch :: "enc_kind \<Rightarrow> nat \<Rightarrow> wire_msg list \<Rightarrow> bool \<Rightarrow> byte list \<Rightarrow> enc_t \<Rightarrow>
    (byte list \<times> wire_msg list \<times> enc_t) option" where
  "out_batch k batch [] ptr out e = Some (out, [], e)"
| "out_batch k batch (m # ms) ptr out e =
     (if \<not> length out < batch then Some (out, m # ms, e)
      else do {
        e \<leftarrow> load_msg k m e;
        (ptr', b, e) \<leftarrow> encode k batch (\<not> ptr) (batch - length out) e;
        zmq_assert (length b > 0);
        out_batch k batch ms (ptr \<or> ptr') (out @ b) e
      })"

definition out_event_fill ::
  "enc_kind \<Rightarrow> nat \<Rightarrow> wire_msg list \<Rightarrow> enc_t \<Rightarrow> (byte list \<times> wire_msg list \<times> enc_t) option" where
  "out_event_fill k batch msgs e = do {
     (ptr, out, e) \<leftarrow> encode k batch True 0 e;
     out_batch k batch msgs ptr out e
   }"

subsection \<open>What is left to send\<close>

definition frame :: "enc_kind \<Rightarrow> wire_msg \<Rightarrow> byte list" where
  "frame k m = (case k of V1_encoder \<Rightarrow> v1_header m | V2_encoder \<Rightarrow> v2_header m | Raw_encoder \<Rightarrow> []) @ wm_data m"

definition unsent :: "enc_kind \<Rightarrow> enc_t \<Rightarrow> byte list" where
  "unsent k e = (case in_progress e of
      None \<Rightarrow> []
    | Some m \<Rightarrow> to_write e @ (if new_msg_flag e then [] else wm_data m))"

text \<open>
  The states an encoder can be in: idle, in the body, or in the header with the body to
  follow. The raw encoder has no header and is never given an empty message.
\<close>

definition enc_ok :: "enc_kind \<Rightarrow> enc_t \<Rightarrow> bool" where
  "enc_ok k e \<longleftrightarrow> (in_progress e = None \<longrightarrow> enc_next e = Message_ready) \<and>
     (new_msg_flag e \<longleftrightarrow> enc_next e = Message_ready) \<and>
     (k = Raw_encoder \<longrightarrow> enc_next e = Message_ready)"

lemma encoder_new_ok: "enc_ok k encoder_new" "unsent k encoder_new = []"
  by (simp_all add: enc_ok_def encoder_new_def unsent_def)

lemma load_msg_ok:
  assumes "enc_ok k e" and "in_progress e = None"
  shows "\<exists>e'. load_msg k m e = Some e' \<and> enc_ok k e' \<and> in_progress e' = Some m \<and> unsent k e' = frame k m"
  using assms by (cases k) (auto simp: load_msg_def enc_action_def enc_ok_def unsent_def frame_def)

text \<open>
  The loop returns the first part of what is unsent and keeps the rest. If the buffer is not
  full afterwards, the message is finished and the encoder idle.
\<close>

lemma enc_action_ok:
  assumes "enc_ok k e" and "in_progress e = Some m" and "to_write e = []" and "\<not> new_msg_flag e"
  shows "enc_action k e = Some (e\<lparr>enc_next := Message_ready, new_msg_flag := True, to_write := wm_data m\<rparr>)"
  using assms by (cases k; cases "enc_next e") (auto simp: enc_action_def enc_ok_def)

lemma enc_ok_to_write [simp]: "enc_ok k (e\<lparr>to_write := x\<rparr>) = enc_ok k e"
  by (simp add: enc_ok_def)

text \<open>One round of the loop with something to copy.\<close>

lemma encode_loop_copy:
  assumes "length out < bs" and "to_write e \<noteq> []"
  shows "encode_loop k own bs out e =
    (if out = [] \<and> own \<and> bs \<le> length (to_write e) then Some (to_write e, e\<lparr>to_write := []\<rparr>)
     else let n = min (length (to_write e)) (bs - length out)
          in encode_loop k own bs (out @ take n (to_write e)) (e\<lparr>to_write := drop n (to_write e)\<rparr>))"
  using assms by (subst encode_loop.simps) simp

definition loop_ok :: "enc_kind \<Rightarrow> bool \<Rightarrow> nat \<Rightarrow> byte list \<Rightarrow> enc_t \<Rightarrow> bool" where
  "loop_ok k own bs out e \<longleftrightarrow> (\<exists>b e'. encode_loop k own bs out e = Some (out @ b, e') \<and> enc_ok k e' \<and>
     b @ unsent k e' = unsent k e \<and> (length (out @ b) < bs \<longrightarrow> in_progress e' = None) \<and>
     (length out < bs \<longrightarrow> unsent k e \<noteq> [] \<longrightarrow> b \<noteq> []))"

lemma loop_ok_end:
  assumes "enc_ok k e" and "in_progress e = Some m" and "\<not> length out < bs \<or> to_write e = [] \<and> new_msg_flag e"
  shows "loop_ok k own bs out e"
proof (cases "length out < bs")
  case True
  then have "encode_loop k own bs out e = Some (out, e\<lparr>in_progress := None\<rparr>)"
    using assms(3) by (subst encode_loop.simps) simp
  then show ?thesis using assms True by (simp add: loop_ok_def enc_ok_def unsent_def)
next
  case False
  then have "encode_loop k own bs out e = Some (out, e)" by (subst encode_loop.simps) simp
  then show ?thesis using assms(1) False by (simp add: loop_ok_def)
qed

lemma loop_ok_copy:
  assumes ok: "enc_ok k e" and m: "in_progress e = Some m" and out: "length out < bs" and tw: "to_write e \<noteq> []"
    and rec: "\<And>n. 0 < n \<Longrightarrow> n \<le> length (to_write e) \<Longrightarrow>
      loop_ok k own bs (out @ take n (to_write e)) (e\<lparr>to_write := drop n (to_write e)\<rparr>)"
  shows "loop_ok k own bs out e"
proof (cases "out = [] \<and> own \<and> bs \<le> length (to_write e)")
  case True
  then have "encode_loop k own bs out e = Some (to_write e, e\<lparr>to_write := []\<rparr>)"
    using out tw by (simp add: encode_loop_copy)
  then show ?thesis using True ok m tw by (auto simp: loop_ok_def unsent_def)
next
  case False
  define n where "n = min (length (to_write e)) (bs - length out)"
  have n: "0 < n" "n \<le> length (to_write e)" using out tw by (auto simp: n_def)
  let ?e = "e\<lparr>to_write := drop n (to_write e)\<rparr>" and ?t = "take n (to_write e)"
  obtain b e' where b: "encode_loop k own bs (out @ ?t) ?e = Some ((out @ ?t) @ b, e')" "enc_ok k e'"
    "b @ unsent k e' = unsent k ?e" "length ((out @ ?t) @ b) < bs \<longrightarrow> in_progress e' = None"
    using rec [OF n] unfolding loop_ok_def by blast
  have "encode_loop k own bs out e = Some (out @ (?t @ b), e')"
    unfolding encode_loop_copy [OF out tw] if_not_P [OF False] Let_def n_def [symmetric] using b(1) by simp
  moreover have "unsent k e = ?t @ unsent k ?e" using m by (simp add: unsent_def)
  ultimately show ?thesis unfolding loop_ok_def using b(2-4) n(1) tw
    by (intro exI [of _ "?t @ b"] exI [of _ e']) (auto simp: take_eq_Nil)
qed

text \<open>
  The loop returns the first part of what is unsent and keeps the rest. If the buffer is not
  full afterwards, the message is finished and the encoder idle.
\<close>

lemma encode_loop_body:
  assumes "enc_ok k e" and "in_progress e = Some m" and "new_msg_flag e"
  shows "loop_ok k own bs out e"
  using assms
proof (induction "length (to_write e)" arbitrary: e out rule: less_induct)
  case less
  show ?case
  proof (cases "length out < bs \<and> to_write e \<noteq> []")
    case True
    then show ?thesis using less by (intro loop_ok_copy [of k e m]) auto
  qed (use less.prems in \<open>auto intro: loop_ok_end\<close>)
qed

lemma encode_loop_ok:
  assumes "enc_ok k e" and "in_progress e = Some m"
  shows "loop_ok k own bs out e"
  using assms
proof (induction "length (to_write e)" arbitrary: e out rule: less_induct)
  case less
  consider "new_msg_flag e" | "\<not> new_msg_flag e" "length out < bs" "to_write e \<noteq> []" | "\<not> length out < bs"
    | "\<not> new_msg_flag e" "length out < bs" "to_write e = []" by blast
  then show ?case
  proof cases
    case 2
    then show ?thesis using less by (intro loop_ok_copy [of k e m]) auto
  next
    case 4
    let ?e = "e\<lparr>enc_next := Message_ready, new_msg_flag := True, to_write := wm_data m\<rparr>"
    have "enc_ok k ?e" using less.prems by (simp add: enc_ok_def)
    then have l: "loop_ok k own bs out ?e" using less.prems by (intro encode_loop_body) simp_all
    have act: "enc_action k e = Some ?e" using less.prems 4 by (intro enc_action_ok)
    have "encode_loop k own bs out e = encode_loop k own bs out ?e"
    proof (cases "wm_data m = []")
      case True
      then have "bs \<noteq> 0" "?e\<lparr>to_write := []\<rparr> = ?e" using 4(2) by auto
      then show ?thesis using 4 act True by (subst encode_loop.simps) simp
    next
      case False
      then show ?thesis using 4 act by (subst encode_loop.simps) (simp add: encode_loop_copy)
    qed
    then show ?thesis using l less.prems 4 by (simp add: loop_ok_def unsent_def)
  qed (use less.prems in \<open>auto intro: encode_loop_body loop_ok_end\<close>)
qed

lemma encode_ok:
  assumes "enc_ok k e" and "if own then 0 < bufsize else 0 < sz"
  shows "\<exists>ptr b e'. encode k bufsize own sz e = Some (ptr, b, e') \<and> enc_ok k e' \<and> b @ unsent k e' = unsent k e \<and>
    (length b < (if own then bufsize else sz) \<longrightarrow> in_progress e' = None) \<and> (unsent k e \<noteq> [] \<longrightarrow> b \<noteq> [])"
proof (cases "in_progress e")
  case None
  then show ?thesis using assms(1) by (simp add: encode_def unsent_def)
next
  case (Some m)
  let ?bs = "if own then bufsize else sz"
  have "loop_ok k own ?bs [] e" using encode_loop_ok [OF assms(1) Some] .
  then show ?thesis using Some assms(2) unfolding loop_ok_def by (auto simp: encode_def Let_def)
qed

subsection \<open>A batch of messages\<close>

lemma frame_nonempty: "k = Raw_encoder \<longrightarrow> wm_data m \<noteq> [] \<Longrightarrow> frame k m \<noteq> []"
  by (cases k) (auto simp: frame_def)

lemma out_batch_ok:
  assumes "enc_ok k e" and "0 < batch" and "length out < batch \<longrightarrow> in_progress e = None"
    and "\<forall>m \<in> set msgs. k = Raw_encoder \<longrightarrow> wm_data m \<noteq> []" and "\<not> ptr \<longrightarrow> out = []"
  shows "\<exists>b rest e'. out_batch k batch msgs ptr out e = Some (out @ b, rest, e') \<and> enc_ok k e' \<and>
    b @ unsent k e' @ concat (map (frame k) rest) = unsent k e @ concat (map (frame k) msgs) \<and>
    (length (out @ b) < batch \<longrightarrow> rest = [] \<and> in_progress e' = None)"
  using assms
proof (induction msgs arbitrary: ptr out e)
  case (Cons m ms)
  show ?case
  proof (cases "length out < batch")
    case True
    then have idle: "in_progress e = None" using Cons.prems(3) by blast
    obtain e1 where e1: "load_msg k m e = Some e1" "enc_ok k e1" "in_progress e1 = Some m" "unsent k e1 = frame k m"
      using load_msg_ok [OF Cons.prems(1) idle] by blast
    have "if \<not> ptr then 0 < batch else 0 < batch - length out" using True by auto
    from encode_ok [OF e1(2) this] obtain ptr' b e2 where b: "encode k batch (\<not> ptr) (batch - length out) e1 = Some (ptr', b, e2)"
      "enc_ok k e2" "b @ unsent k e2 = unsent k e1" "unsent k e1 \<noteq> [] \<longrightarrow> b \<noteq> []"
      "length b < (if \<not> ptr then batch else batch - length out) \<longrightarrow> in_progress e2 = None" by blast
    have "b \<noteq> []" using b(4) e1(4) frame_nonempty Cons.prems(4) by simp
    have "ptr'" using b(1) e1(3) by (auto simp: encode_def Let_def split: Option.bind_splits)
    have "length (out @ b) < batch \<longrightarrow> in_progress e2 = None"
      using b(5) True Cons.prems(5) by (cases ptr) auto
    then obtain b2 rest e3 where r: "out_batch k batch ms (ptr \<or> ptr') (out @ b) e2 = Some ((out @ b) @ b2, rest, e3)"
      "enc_ok k e3" "b2 @ unsent k e3 @ concat (map (frame k) rest) = unsent k e2 @ concat (map (frame k) ms)"
      "length ((out @ b) @ b2) < batch \<longrightarrow> rest = [] \<and> in_progress e3 = None"
      using Cons.IH [OF b(2) Cons.prems(2), of "out @ b" "ptr \<or> ptr'"] Cons.prems(4) \<open>ptr'\<close> by auto
    have "out_batch k batch (m # ms) ptr out e = Some (out @ (b @ b2), rest, e3)"
      using True e1(1) b(1) \<open>b \<noteq> []\<close> r(1) by simp
    moreover have "unsent k e = []" using idle by (simp add: unsent_def)
    moreover have "b @ b2 @ unsent k e3 @ concat (map (frame k) rest) = frame k m @ concat (map (frame k) ms)"
      unfolding r(3) e1(4) [symmetric] b(3) [symmetric] by simp
    ultimately show ?thesis using r(2,4)
      by (intro exI [of _ "b @ b2"] exI [of _ rest] exI [of _ e3]) simp
  qed (use Cons.prems in simp)
qed simp

lemma out_event_fill_ok:
  assumes "enc_ok k e" and "0 < batch" and "\<forall>m \<in> set msgs. k = Raw_encoder \<longrightarrow> wm_data m \<noteq> []"
  shows "\<exists>b rest e'. out_event_fill k batch msgs e = Some (b, rest, e') \<and> enc_ok k e' \<and>
    b @ unsent k e' @ concat (map (frame k) rest) = unsent k e @ concat (map (frame k) msgs) \<and>
    (length b < batch \<longrightarrow> rest = [] \<and> in_progress e' = None)"
proof -
  obtain ptr b e1 where b: "encode k batch True 0 e = Some (ptr, b, e1)" "enc_ok k e1" "b @ unsent k e1 = unsent k e"
    "length b < batch \<longrightarrow> in_progress e1 = None" using encode_ok [OF assms(1), of True batch 0] assms(2) by auto
  have "\<not> ptr \<longrightarrow> b = []" using b(1) by (auto simp: encode_def Let_def split: if_splits Option.bind_splits)
  from out_batch_ok [OF b(2) assms(2) b(4) assms(3) this] obtain b2 rest e2 where
    r: "out_batch k batch msgs ptr b e1 = Some (b @ b2, rest, e2)" "enc_ok k e2"
    "b2 @ unsent k e2 @ concat (map (frame k) rest) = unsent k e1 @ concat (map (frame k) msgs)"
    "length (b @ b2) < batch \<longrightarrow> rest = [] \<and> in_progress e2 = None" by blast
  have "b @ b2 @ unsent k e2 @ concat (map (frame k) rest) = unsent k e @ concat (map (frame k) msgs)"
    unfolding r(3) b(3) [symmetric] by simp
  then show ?thesis using r(1,2,4) b(1) by (simp add: out_event_fill_def)
qed

text \<open>A connection: \<open>out_event\<close> fills and writes a batch, again and again.\<close>

fun transmit :: "enc_kind \<Rightarrow> nat \<Rightarrow> nat \<Rightarrow> wire_msg list \<Rightarrow> enc_t \<Rightarrow> (byte list \<times> wire_msg list \<times> enc_t) option" where
  "transmit k batch 0 msgs e = Some ([], msgs, e)"
| "transmit k batch (Suc n) msgs e = do {
     (b, msgs, e) \<leftarrow> out_event_fill k batch msgs e;
     (c, msgs, e) \<leftarrow> transmit k batch n msgs e;
     Some (b @ c, msgs, e)
   }"

lemma out_batch_rest: "out_batch k batch msgs ptr out e = Some (b, rest, e') \<Longrightarrow> set rest \<subseteq> set msgs"
  by (induction msgs arbitrary: ptr out e) (auto split: if_splits Option.bind_splits, blast)

lemma transmit_ok:
  assumes "enc_ok k e" and "0 < batch" and "\<forall>m \<in> set msgs. k = Raw_encoder \<longrightarrow> wm_data m \<noteq> []"
  shows "\<exists>b rest e'. transmit k batch n msgs e = Some (b, rest, e') \<and> enc_ok k e' \<and>
    b @ unsent k e' @ concat (map (frame k) rest) = unsent k e @ concat (map (frame k) msgs) \<and> set rest \<subseteq> set msgs \<and>
    (length (unsent k e @ concat (map (frame k) msgs)) < n \<longrightarrow> rest = [] \<and> in_progress e' = None)"
  using assms(1,3)
proof (induction n arbitrary: msgs e)
  case (Suc n)
  obtain b rest e1 where b: "out_event_fill k batch msgs e = Some (b, rest, e1)" "enc_ok k e1"
    "b @ unsent k e1 @ concat (map (frame k) rest) = unsent k e @ concat (map (frame k) msgs)"
    "length b < batch \<longrightarrow> rest = [] \<and> in_progress e1 = None"
    using out_event_fill_ok [OF Suc.prems(1) assms(2) Suc.prems(2)] by blast
  have sub: "set rest \<subseteq> set msgs"
    using b(1) by (auto simp: out_event_fill_def split: Option.bind_splits dest: out_batch_rest)
  then have ne: "\<forall>m \<in> set rest. k = Raw_encoder \<longrightarrow> wm_data m \<noteq> []" using Suc.prems(2) by blast
  obtain c rest2 e2 where c: "transmit k batch n rest e1 = Some (c, rest2, e2)" "enc_ok k e2"
    "c @ unsent k e2 @ concat (map (frame k) rest2) = unsent k e1 @ concat (map (frame k) rest)" "set rest2 \<subseteq> set rest"
    "length (unsent k e1 @ concat (map (frame k) rest)) < n \<longrightarrow> rest2 = [] \<and> in_progress e2 = None"
    using Suc.IH [OF b(2) ne] by blast
  have "rest2 = [] \<and> in_progress e2 = None" if l: "length (unsent k e @ concat (map (frame k) msgs)) < Suc n"
  proof (cases "n = 0 \<or> length b \<ge> batch")
    case True
    have "length b + length (unsent k e1 @ concat (map (frame k) rest)) = length (unsent k e @ concat (map (frame k) msgs))"
      unfolding b(3) [symmetric] by simp
    then show ?thesis using True l c(1,5) b(4) assms(2) by auto
  next
    case False
    then show ?thesis using c(5) b(4) by (simp add: unsent_def)
  qed
  moreover have "(b @ c) @ unsent k e2 @ concat (map (frame k) rest2) = unsent k e @ concat (map (frame k) msgs)"
    using b(3) c(3) by simp
  moreover have "transmit k batch (Suc n) msgs e = Some (b @ c, rest2, e2)" using b(1) c(1) by simp
  ultimately show ?case using c(2,4) sub by blast
qed simp

lemma unsent_idle [simp]: "in_progress e = None \<Longrightarrow> unsent k e = []"
  by (simp add: unsent_def)

lemma transmit_all:
  assumes "0 < batch" and "k \<noteq> Raw_encoder" and "length (concat (map (frame k) msgs)) < n"
  shows "\<exists>e. transmit k batch n msgs encoder_new = Some (concat (map (frame k) msgs), [], e)"
  using transmit_ok [OF encoder_new_ok(1) assms(1), of msgs k n] assms(2,3) by (auto simp: encoder_new_ok(2))

text \<open>
  the batches that \<open>out_event\<close> writes, one after another, are the frames of the messages in
  order: what has been written followed by what is left of the current message and the
  frames of the unread messages is always the whole stream. None of the assertions fails, and
  more batches than bytes send everything. The raw encoder must not be given empty messages.
\<close>

theorem encoder_transmits_frames:
  assumes "0 < batch" and "\<forall>m \<in> set msgs. k = Raw_encoder \<longrightarrow> wm_data m \<noteq> []"
  shows "\<exists>b rest e. transmit k batch n msgs encoder_new = Some (b, rest, e) \<and>
    b @ unsent k e @ concat (map (frame k) rest) = concat (map (frame k) msgs) \<and>
    (length (concat (map (frame k) msgs)) < n \<longrightarrow> rest = [] \<and> in_progress e = None)"
  using transmit_ok [OF encoder_new_ok(1) assms, of n] by (auto simp: encoder_new_ok(2))

theorem encoder_transmits_frames_witness:
  "\<exists>b rest e. transmit Raw_encoder 2 2 [\<lparr>wm_flags = 0, wm_data = [1, 2, 3]\<rparr>, \<lparr>wm_flags = 1, wm_data = [4]\<rparr>] encoder_new = Some (b, rest, e) \<and>
    b @ unsent Raw_encoder e @ concat (map (frame Raw_encoder) rest) = [1, 2, 3, 4]"
proof -
  have "concat (map (frame Raw_encoder) [\<lparr>wm_flags = 0, wm_data = [1, 2, 3]\<rparr>, \<lparr>wm_flags = 1, wm_data = [4]\<rparr>]) = [1, 2, 3, 4]"
    by (simp add: frame_def)
  then show ?thesis
    using encoder_transmits_frames [of 2 "[\<lparr>wm_flags = 0, wm_data = [1, 2, 3]\<rparr>, \<lparr>wm_flags = 1, wm_data = [4]\<rparr>]" Raw_encoder 2]
    by (simp del: transmit.simps)
qed

text \<open>
  without a non-empty message to send the raw encoder makes \<open>out_event\<close> abort, since it
  produces no bytes for a loaded empty message.
\<close>

theorem raw_encoder_empty_aborts:
  assumes "0 < batch" and "wm_data m = []"
  shows "out_event_fill Raw_encoder batch (m # msgs) encoder_new = None"
  using assms by (simp add: out_event_fill_def encode_def encoder_new_def load_msg_def enc_action_def encode_loop.simps)

theorem raw_encoder_empty_aborts_witness:
  "out_event_fill Raw_encoder 8192 [\<lparr>wm_flags = 0, wm_data = []\<rparr>] encoder_new = None"
  using raw_encoder_empty_aborts [of 8192 "\<lparr>wm_flags = 0, wm_data = []\<rparr>" "[]"] by simp

end
