(* ===== verification/Decoder.thy ===== *)
theory Decoder
  imports Wire
begin

text \<open>
  The incoming half of the codec: \<open>decoder_base_t\<close> (\<^verbatim>\<open>src/decoder.hpp\<close>) with the state machines of
  \<open>v1_decoder_t\<close> and \<open>v2_decoder_t\<close>, \<open>raw_decoder_t\<close>, and the loop of \<open>stream_engine_t::in_event\<close> that
  pushes the messages of a chunk of input to the session.

  \<open>got\<close> are the bytes stored since the last \<open>next_step\<close> (in \<open>tmpbuf\<close> or in the body of the message,
  depending on the step), \<open>to_read\<close> how many more are needed. The size check of a message and
  the failure of its allocation are errors of the decoder; \<open>oom n\<close> says that allocating a body
  of \<open>n\<close> bytes fails, which small messages never do.
\<close>

datatype dec_step = Flags_ready | One_byte_size_ready | Eight_byte_size_ready | Message_ready

text \<open>
  What a step reports: 0, 1 or -1 with the error number, or that it has run into undefined
  behaviour, the block of a message body that is too small because its size wrapped around.
\<close>

datatype dec_rc = More_data | Message | Error errno_t | Overrun

record dec_t =
  dec_next :: dec_step
  got :: "byte list"
  to_read :: nat
  dec_flags :: byte
  dec_msg :: wire_msg

record dec_env =
  maxmsgsize :: int
  oom :: "nat \<Rightarrow> bool"

definition empty_msg :: wire_msg where "empty_msg = \<lparr>wm_flags = 0, wm_data = []\<rparr>"

definition next_step :: "nat \<Rightarrow> dec_step \<Rightarrow> dec_t \<Rightarrow> dec_t" where
  "next_step n s d = d\<lparr>dec_next := s, got := [], to_read := n\<rparr>"

text \<open>\<open>in_progress.init_size\<close>, and what the decoders do when it fails.\<close>

definition dec_init_size :: "dec_env \<Rightarrow> nat \<Rightarrow> (dec_t \<Rightarrow> dec_t) \<Rightarrow> dec_t \<Rightarrow> dec_rc \<times> dec_t" where
  "dec_init_size env n cont d =
     (if max_vsm_size < n \<and> oom env n then (Error ENOMEM, d\<lparr>dec_msg := empty_msg\<rparr>)
      else if max_vsm_size < n \<and> alloc_wraps n then (Overrun, d)
      else (More_data, cont (d\<lparr>dec_msg := \<lparr>wm_flags = 0, wm_data = replicate n 0\<rparr>\<rparr>)))"

subsection \<open>Version 2\<close>

definition v2_decoder_new :: dec_t where
  "v2_decoder_new = \<lparr>dec_next = Flags_ready, got = [], to_read = 1, dec_flags = 0, dec_msg = empty_msg\<rparr>"

definition v2_flags_ready :: "dec_t \<Rightarrow> dec_rc \<times> dec_t" where
  "v2_flags_ready d =
     (let b = got d ! 0;
          d = d\<lparr>dec_flags := (if b AND v2_more_flag \<noteq> 0 then flag_more else 0) OR
                            (if b AND v2_command_flag \<noteq> 0 then flag_command else 0)\<rparr>
      in (More_data, if b AND v2_large_flag \<noteq> 0 then next_step 8 Eight_byte_size_ready d
                     else next_step 1 One_byte_size_ready d))"

definition v2_start_body :: "dec_env \<Rightarrow> nat \<Rightarrow> dec_t \<Rightarrow> dec_rc \<times> dec_t" where
  "v2_start_body env n = dec_init_size env n
     (\<lambda>d. next_step n Message_ready (d\<lparr>dec_msg := (dec_msg d)\<lparr>wm_flags := dec_flags d\<rparr>\<rparr>))"

definition v2_one_byte_size_ready :: "dec_env \<Rightarrow> dec_t \<Rightarrow> dec_rc \<times> dec_t" where
  "v2_one_byte_size_ready env d =
     (let n = unat (got d ! 0)
      in if 0 \<le> maxmsgsize env \<and> int n > maxmsgsize env then (Error EMSGSIZE, d)
         else v2_start_body env n d)"

definition v2_eight_byte_size_ready :: "dec_env \<Rightarrow> dec_t \<Rightarrow> dec_rc \<times> dec_t" where
  "v2_eight_byte_size_ready env d =
     (let n = unat (get_uint64 (got d))
      in if 0 \<le> maxmsgsize env \<and> int n > maxmsgsize env then (Error EMSGSIZE, d)
         else if n > size_t_max then (Error EMSGSIZE, d)
         else v2_start_body env n d)"

definition v2_message_ready :: "dec_t \<Rightarrow> dec_rc \<times> dec_t" where
  "v2_message_ready d = (Message, next_step 1 Flags_ready (d\<lparr>dec_msg := (dec_msg d)\<lparr>wm_data := got d\<rparr>\<rparr>))"

definition v2_action :: "dec_env \<Rightarrow> dec_t \<Rightarrow> dec_rc \<times> dec_t" where
  "v2_action env d = (case dec_next d of
      Flags_ready \<Rightarrow> v2_flags_ready d
    | One_byte_size_ready \<Rightarrow> v2_one_byte_size_ready env d
    | Eight_byte_size_ready \<Rightarrow> v2_eight_byte_size_ready env d
    | Message_ready \<Rightarrow> v2_message_ready d)"

subsection \<open>Version 1\<close>

definition v1_decoder_new :: dec_t where
  "v1_decoder_new = \<lparr>dec_next = One_byte_size_ready, got = [], to_read = 1, dec_flags = 0, dec_msg = empty_msg\<rparr>"

definition v1_one_byte_size_ready :: "dec_env \<Rightarrow> dec_t \<Rightarrow> dec_rc \<times> dec_t" where
  "v1_one_byte_size_ready env d =
     (let b = got d ! 0; n = unat b - 1
      in if b = 0xff then (More_data, next_step 8 Eight_byte_size_ready d)
         else if b = 0 then (Error EPROTO, d)
         else if 0 \<le> maxmsgsize env \<and> int n > maxmsgsize env then (Error EMSGSIZE, d)
         else dec_init_size env n (next_step 1 Flags_ready) d)"

definition v1_eight_byte_size_ready :: "dec_env \<Rightarrow> dec_t \<Rightarrow> dec_rc \<times> dec_t" where
  "v1_eight_byte_size_ready env d =
     (let payload_length = get_uint64 (got d); n = unat (payload_length - 1)
      in if payload_length = 0 then (Error EPROTO, d)
         else if 0 \<le> maxmsgsize env \<and> int n > maxmsgsize env then (Error EMSGSIZE, d)
         else if n > size_t_max then (Error EMSGSIZE, d)
         else dec_init_size env n (next_step 1 Flags_ready) d)"

definition v1_flags_ready :: "dec_t \<Rightarrow> dec_rc \<times> dec_t" where
  "v1_flags_ready d =
     (let d = d\<lparr>dec_msg := (dec_msg d)\<lparr>wm_flags := wm_flags (dec_msg d) OR (got d ! 0 AND flag_more)\<rparr>\<rparr>
      in (More_data, next_step (length (wm_data (dec_msg d))) Message_ready d))"

definition v1_message_ready :: "dec_t \<Rightarrow> dec_rc \<times> dec_t" where
  "v1_message_ready d = (Message, next_step 1 One_byte_size_ready (d\<lparr>dec_msg := (dec_msg d)\<lparr>wm_data := got d\<rparr>\<rparr>))"

definition v1_action :: "dec_env \<Rightarrow> dec_t \<Rightarrow> dec_rc \<times> dec_t" where
  "v1_action env d = (case dec_next d of
      Flags_ready \<Rightarrow> v1_flags_ready d
    | One_byte_size_ready \<Rightarrow> v1_one_byte_size_ready env d
    | Eight_byte_size_ready \<Rightarrow> v1_eight_byte_size_ready env d
    | Message_ready \<Rightarrow> v1_message_ready d)"

subsection \<open>The base class\<close>

text \<open>\<open>while (!to_read) { rc = next (); if (rc != 0) return rc; }\<close>, a loop that ends if the actions let it.\<close>

partial_function (option) run_steps :: "(dec_t \<Rightarrow> dec_rc \<times> dec_t) \<Rightarrow> dec_t \<Rightarrow> (dec_rc \<times> dec_t) option" where
  "run_steps nx d =
     (if to_read d \<noteq> 0 then Some (More_data, d)
      else if fst (nx d) \<noteq> More_data then Some (nx d)
      else run_steps nx (snd (nx d)))"

definition store :: "byte list \<Rightarrow> dec_t \<Rightarrow> dec_t" where
  "store b d = d\<lparr>got := got d @ b, to_read := to_read d - length b\<rparr>"

partial_function (option) decode_loop ::
  "(dec_t \<Rightarrow> dec_rc \<times> dec_t) \<Rightarrow> byte list \<Rightarrow> nat \<Rightarrow> dec_t \<Rightarrow> (dec_rc \<times> nat \<times> dec_t) option" where
  "decode_loop nx data used d =
     (if \<not> used < length data then Some (More_data, used, d)
      else let n = min (to_read d) (length data - used)
           in (case run_steps nx (store (take n (drop used data)) d) of
                 None \<Rightarrow> None
               | Some (rc, d) \<Rightarrow>
                   if rc \<noteq> More_data then Some (rc, used + n, d) else decode_loop nx data (used + n) d))"

text \<open>
  \<open>get_buffer\<close>: whether the caller may read directly into the message, and how much.
  \<open>zc\<close> says that \<open>decode\<close> is called with that pointer.
\<close>

definition get_buffer :: "nat \<Rightarrow> dec_t \<Rightarrow> bool \<times> nat" where
  "get_buffer bufsize d = (if bufsize \<le> to_read d then (True, to_read d) else (False, bufsize))"

definition decode ::
  "(dec_t \<Rightarrow> dec_rc \<times> dec_t) \<Rightarrow> bool \<Rightarrow> byte list \<Rightarrow> dec_t \<Rightarrow> (dec_rc \<times> nat \<times> dec_t) option" where
  "decode nx zc data d =
     (if zc then do {
        zmq_assert (length data \<le> to_read d);
        (rc, d) \<leftarrow> run_steps nx (store data d);
        Some (rc, length data, d)
      }
      else decode_loop nx data 0 d)"

definition raw_decode :: "dec_env \<Rightarrow> byte list \<Rightarrow> (wire_msg \<times> nat) option" where
  "raw_decode env data =
     (if max_vsm_size < length data \<and> (oom env (length data) \<or> alloc_wraps (length data)) then None
      else Some (\<lparr>wm_flags = 0, wm_data = data\<rparr>, length data))"

text \<open>
  The loop of \<open>in_event\<close> and \<open>restart_input\<close> over the bytes of one read. \<open>wr\<close> is \<open>write_msg\<close>: it takes the
  message of the decoder and the state of the session, and returns its error, the message as
  it leaves it and the new state. Only the first call can be the zero-copy one. The result is
  the input that was not processed, the session, the decoder and the error.
\<close>

type_synonym 's write_msg = "wire_msg \<Rightarrow> 's \<Rightarrow> errno_t option \<times> wire_msg \<times> 's"

partial_function (option) in_event_loop ::
  "(dec_t \<Rightarrow> dec_rc \<times> dec_t) \<Rightarrow> 's write_msg \<Rightarrow> bool \<Rightarrow> byte list \<Rightarrow> 's \<Rightarrow> dec_t \<Rightarrow>
   (byte list \<times> 's \<times> dec_t \<times> errno_t option) option" where
  "in_event_loop nx wr zc data s d =
     (if data = [] then Some ([], s, d, None)
      else (case decode nx zc data d of
          None \<Rightarrow> None
        | Some (rc, used, d) \<Rightarrow>
            if \<not> used \<le> length data then None
            else (case rc of
                More_data \<Rightarrow> Some (drop used data, s, d, None)
              | Error err \<Rightarrow> Some (drop used data, s, d, Some err)
              | Overrun \<Rightarrow> None
              | Message \<Rightarrow> (case wr (dec_msg d) s of (err, m, s) \<Rightarrow>
                  if err \<noteq> None then Some (drop used data, s, d\<lparr>dec_msg := m\<rparr>, err)
                  else in_event_loop nx wr False (drop used data) s (d\<lparr>dec_msg := m\<rparr>)))))"

text \<open>
  A connection: the reads of the input, one after another, until an error. The \<open>i\<close>-th read
  returns \<open>ns ! i\<close> bytes, or fewer if the buffer is smaller or there are fewer.
\<close>

fun receive ::
  "(dec_t \<Rightarrow> dec_rc \<times> dec_t) \<Rightarrow> 's write_msg \<Rightarrow> nat \<Rightarrow> nat list \<Rightarrow> byte list \<Rightarrow> 's \<Rightarrow> dec_t \<Rightarrow>
   (byte list \<times> 's \<times> dec_t \<times> errno_t option) option" where
  "receive nx wr bufsize [] input s d = Some (input, s, d, None)"
| "receive nx wr bufsize (n # ns) input s d =
     (let (zc, sz) = get_buffer bufsize d; k = min n sz
      in do {
        (rest, s, d, err) \<leftarrow> in_event_loop nx wr zc (take k input) s d;
        if err = None then receive nx wr bufsize ns (drop k input) s d
        else Some (rest @ drop k input, s, d, err)
      })"

subsection \<open>The decoder on the prefix of a frame\<close>

text \<open>
  \<open>awaits nx rc P d bs\<close>: fed the bytes \<open>bs\<close>, no more and no less, the decoder reports \<open>rc\<close> in a state
  with \<open>P\<close>.
\<close>

inductive awaits :: "(dec_t \<Rightarrow> dec_rc \<times> dec_t) \<Rightarrow> dec_rc \<Rightarrow> (dec_t \<Rightarrow> bool) \<Rightarrow> dec_t \<Rightarrow> byte list \<Rightarrow> bool"
  for nx rc P where
  awaits_last: "to_read d = length r \<Longrightarrow> r \<noteq> [] \<Longrightarrow> run_steps nx (store r d) = Some (rc, d') \<Longrightarrow> P d' \<Longrightarrow>
     awaits nx rc P d r"
| awaits_more: "to_read d = length r \<Longrightarrow> r \<noteq> [] \<Longrightarrow> run_steps nx (store r d) = Some (More_data, d') \<Longrightarrow>
     awaits nx rc P d' bs \<Longrightarrow> awaits nx rc P d (r @ bs)"

lemma awaits_nonempty: "awaits nx rc P d bs \<Longrightarrow> bs \<noteq> []"
  by (induction rule: awaits.induct) auto

lemma run_steps_wait [simp]: "to_read d \<noteq> 0 \<Longrightarrow> run_steps nx d = Some (More_data, d)"
  by (subst run_steps.simps) simp

lemma run_steps_act:
  "to_read d = 0 \<Longrightarrow> run_steps nx d = (if fst (nx d) \<noteq> More_data then Some (nx d) else run_steps nx (snd (nx d)))"
  by (subst run_steps.simps) simp

lemma store_simps [simp]:
  "to_read (store b d) = to_read d - length b" "dec_next (store b d) = dec_next d" "got (store b d) = got d @ b"
  "dec_flags (store b d) = dec_flags d" "dec_msg (store b d) = dec_msg d"
  by (simp_all add: store_def)

lemma store_store [simp]: "store b (store a d) = store (a @ b) d"
  by (simp add: store_def)

lemma store_Nil [simp]: "store [] d = d"
  by (simp add: store_def)

text \<open>Part of what the current step needs only fills the buffer.\<close>

lemma awaits_store:
  assumes "awaits nx rc P d (a @ bs)" and "length a < to_read d"
  shows "awaits nx rc P (store a d) bs"
  using assms
proof cases
  case (awaits_last d')
  then show ?thesis using assms(2) by (auto intro!: awaits.awaits_last)
next
  case (awaits_more r d' bs')
  then obtain c where "r = a @ c" "bs = c @ bs'"
    using assms(2) by (auto simp: append_eq_append_conv2)
  then show ?thesis using awaits_more assms(2) by (auto intro!: awaits.awaits_more)
qed

lemma decode_loop_end [simp]: "used = length data \<Longrightarrow> decode_loop nx data used d = Some (More_data, used, d)"
  by (subst decode_loop.simps) simp

lemma decode_loop_step:
  assumes "data = pre @ x @ z" and "x \<noteq> []" and "length x \<le> to_read d" and "z = [] \<or> length x = to_read d"
  shows "decode_loop nx data (length pre) d = (case run_steps nx (store x d) of None \<Rightarrow> None
    | Some (rc, d) \<Rightarrow> if rc \<noteq> More_data then Some (rc, length pre + length x, d)
                    else decode_loop nx data (length pre + length x) d)"
proof -
  have "min (to_read d) (length data - length pre) = length x" using assms by auto
  then show ?thesis using assms(1,2) by (subst decode_loop.simps) (simp add: Let_def)
qed

lemma decode_zero_copy:
  assumes "length data \<le> to_read d" and "data \<noteq> []"
  shows "decode nx True data d = decode nx False data d"
  using assms decode_loop_step [of data "[]" data "[]" d nx]
  by (auto simp: decode_def split: option.splits)

lemma decode_loop_whole:
  assumes "awaits nx rc P d bs" and "rc \<noteq> More_data" and "data = pre @ bs @ z"
  shows "\<exists>d'. decode_loop nx data (length pre) d = Some (rc, length pre + length bs, d') \<and> P d'"
  using assms
proof (induction arbitrary: pre rule: awaits.induct)
  case (awaits_last d r d')
  then show ?case by (subst decode_loop_step [of _ pre r z]) auto
next
  case (awaits_more d r d' bs)
  then have "\<exists>d''. decode_loop nx data (length (pre @ r)) d' = Some (rc, length (pre @ r) + length bs, d'') \<and> P d''"
    by (intro awaits_more.IH) simp_all
  then show ?case using awaits_more by (subst decode_loop_step [of _ pre r "bs @ z"]) (auto simp: add.assoc)
qed

lemma decode_loop_part:
  assumes "awaits nx rc P d bs" and "data = pre @ x" and "bs = x @ y" and "y \<noteq> []"
  shows "\<exists>d'. decode_loop nx data (length pre) d = Some (More_data, length data, d') \<and> awaits nx rc P d' y"
  using assms
proof (induction arbitrary: pre x rule: awaits.induct)
  case (awaits_last d r d')
  have "awaits nx rc P d (x @ y)" using awaits.awaits_last awaits_last.hyps awaits_last.prems(2) by blast
  then have aw: "awaits nx rc P (store x d) y" using awaits_last by (intro awaits_store) auto
  show ?case
  proof (cases "x = []")
    case False
    then have "decode_loop nx data (length pre) d = Some (More_data, length data, store x d)"
      using awaits_last by (subst decode_loop_step [of _ pre x "[]"]) auto
    then show ?thesis using aw by blast
  qed (use awaits_last aw in simp)
next
  case (awaits_more d r d' bs)
  show ?case
  proof (cases "length x < length r")
    case True
    have "awaits nx rc P d (x @ y)"
      using awaits.awaits_more [of d r nx d' rc P bs] awaits_more.hyps awaits_more.prems(2) by simp
    then have aw: "awaits nx rc P (store x d) y" using awaits_more.hyps True by (intro awaits_store) auto
    show ?thesis
    proof (cases "x = []")
      case False
      then have "decode_loop nx data (length pre) d = Some (More_data, length data, store x d)"
        using awaits_more True by (subst decode_loop_step [of _ pre x "[]"]) auto
      then show ?thesis using aw by blast
    qed (use awaits_more.prems(1) aw in simp)
  next
    case False
    then obtain c where c: "x = r @ c" "bs = c @ y"
      using awaits_more.prems(2) by (auto simp: append_eq_append_conv2)
    then have "\<exists>d''. decode_loop nx data (length (pre @ r)) d' = Some (More_data, length data, d'') \<and> awaits nx rc P d'' y"
      using awaits_more.prems by (intro awaits_more.IH) simp_all
    then show ?thesis using awaits_more.hyps awaits_more.prems(1) c
      by (subst decode_loop_step [of _ pre r c]) auto
  qed
qed

subsection \<open>A framing protocol\<close>

text \<open>The session that takes every message, as a list of the messages taken.\<close>

definition collect :: "wire_msg list write_msg" where
  "collect m s = (None, empty_msg, s @ [m])"

text \<open>
  What a protocol promises: from a state between two messages, the bytes of a frame, cut in any
  way, give the message as it is seen through the wire and lead to such a state again.
\<close>

locale framing =
  fixes nx :: "dec_t \<Rightarrow> dec_rc \<times> dec_t"
    and start :: "dec_t \<Rightarrow> bool"
    and fr :: "wire_msg \<Rightarrow> byte list"
    and fits :: "wire_msg \<Rightarrow> bool"
    and view :: "wire_msg \<Rightarrow> wire_msg"
  assumes frame_awaits: "start d \<Longrightarrow> fits m \<Longrightarrow> awaits nx Message (\<lambda>d'. start d' \<and> dec_msg d' = view m) d (fr m)"
    and start_msg: "start d \<Longrightarrow> start (d\<lparr>dec_msg := m\<rparr>)"
begin

fun expects :: "dec_t \<Rightarrow> byte list \<Rightarrow> wire_msg list \<Rightarrow> bool" where
  "expects d bs [] \<longleftrightarrow> start d \<and> bs = []"
| "expects d bs (m # ms) \<longleftrightarrow>
     (\<exists>y. awaits nx Message (\<lambda>d'. start d' \<and> dec_msg d' = view m) d y \<and> bs = y @ concat (map fr ms))"

lemma start_expects: "start d \<Longrightarrow> \<forall>m \<in> set ms. fits m \<Longrightarrow> expects d (concat (map fr ms)) ms"
  by (cases ms) (auto intro: frame_awaits)

lemma expects_Nil: "expects d [] ms \<Longrightarrow> ms = []"
  by (cases ms) (auto dest: awaits_nonempty)

lemma loop_expects:
  assumes "expects d (data @ rest) ms" and "\<forall>m \<in> set ms. fits m" and "zc \<longrightarrow> length data \<le> to_read d"
  shows "\<exists>ms1 ms2 d'. ms = ms1 @ ms2 \<and> expects d' rest ms2 \<and>
    in_event_loop nx collect zc data s d = Some ([], s @ map view ms1, d', None)"
  using assms
proof (induction ms arbitrary: d data s zc)
  case (Cons m ms)
  let ?P = "\<lambda>d'. start d' \<and> dec_msg d' = view m"
  obtain y where y: "awaits nx Message ?P d y" "data @ rest = y @ concat (map fr ms)" using Cons.prems(1) by auto
  show ?case
  proof (cases "data = []")
    case True
    then show ?thesis using Cons.prems(1)
      by (intro exI [of _ "[]"] exI [of _ "m # ms"] exI [of _ d]) (subst in_event_loop.simps, simp)
  next
    case ne: False
    have dec: "decode nx zc data d = decode_loop nx data 0 d"
      using Cons.prems(3) ne decode_zero_copy [of data d nx] by (cases zc) (auto simp: decode_def)
    show ?thesis
    proof (cases "length data < length y")
      case True
      then obtain w where w: "y = data @ w" "rest = w @ concat (map fr ms)" "w \<noteq> []"
        using y(2) by (auto simp: append_eq_append_conv2)
      then obtain d' where d': "decode_loop nx data 0 d = Some (More_data, length data, d')" "awaits nx Message ?P d' w"
        using decode_loop_part [OF y(1), of data "[]" data w] by auto
      then have "in_event_loop nx collect zc data s d = Some ([], s, d', None)"
        using ne dec by (subst in_event_loop.simps) simp
      then show ?thesis using d'(2) w(2) by (intro exI [of _ "[]"] exI [of _ "m # ms"] exI [of _ d']) auto
    next
      case False
      then obtain w where w: "data = y @ w" "concat (map fr ms) = w @ rest"
        using y(2) by (auto simp: append_eq_append_conv2)
      then obtain d' where d': "decode_loop nx data 0 d = Some (Message, length y, d')" "?P d'"
        using decode_loop_whole [OF y(1), of data "[]" w] by auto
      let ?d = "d'\<lparr>dec_msg := empty_msg\<rparr>"
      have "expects ?d (w @ rest) ms"
        unfolding w(2) [symmetric] using d'(2) Cons.prems(2) by (intro start_expects start_msg) auto
      then obtain ms1 ms2 d'' where r: "ms = ms1 @ ms2" "expects d'' rest ms2"
        "in_event_loop nx collect False w (s @ [view m]) ?d = Some ([], (s @ [view m]) @ map view ms1, d'', None)"
        using Cons.IH [of ?d w False "s @ [view m]"] Cons.prems(2) by auto
      have "in_event_loop nx collect zc data s d = in_event_loop nx collect False w (s @ [view m]) ?d"
        using awaits_nonempty [OF y(1)] dec d' by (subst in_event_loop.simps) (auto simp: collect_def w(1))
      then show ?thesis using r by (intro exI [of _ "m # ms1"] exI [of _ ms2] exI [of _ d'']) simp
    qed
  qed
qed (auto simp: in_event_loop.simps)

lemma receive_expects:
  assumes "expects d input ms" and "\<forall>m \<in> set ms. fits m" and "0 < bufsize"
  shows "\<exists>rest ms1 ms2 d'. receive nx collect bufsize ns input s d = Some (rest, s @ map view ms1, d', None) \<and>
    ms = ms1 @ ms2 \<and> expects d' rest ms2 \<and>
    ((\<forall>n \<in> set ns. 0 < n) \<and> length input \<le> length ns \<longrightarrow> rest = [])"
  using assms(1,2)
proof (induction ns arbitrary: d input ms s)
  case Nil
  then show ?case by (intro exI [of _ input] exI [of _ "[]"] exI [of _ ms] exI [of _ d]) auto
next
  case (Cons n ns)
  obtain zc sz where g: "get_buffer bufsize d = (zc, sz)" by fastforce
  define k where "k = min n sz"
  have sz: "0 < sz" "zc \<longrightarrow> sz = to_read d" using g assms(3) by (auto simp: get_buffer_def split: if_splits)
  then have "zc \<longrightarrow> length (take k input) \<le> to_read d" by (auto simp: k_def)
  then obtain ms1 ms2 d1 where r1: "ms = ms1 @ ms2" "expects d1 (drop k input) ms2"
    "in_event_loop nx collect zc (take k input) s d = Some ([], s @ map view ms1, d1, None)"
    using loop_expects [of d "take k input" "drop k input" ms zc s] Cons.prems by auto
  have "\<forall>m \<in> set ms2. fits m" using Cons.prems(2) r1(1) by simp
  from Cons.IH [OF r1(2) this, of "s @ map view ms1"] obtain rest ms3 ms4 d2 where r2: "receive nx collect bufsize ns (drop k input) (s @ map view ms1) d1 =
      Some (rest, (s @ map view ms1) @ map view ms3, d2, None)" "ms2 = ms3 @ ms4" "expects d2 rest ms4"
    "(\<forall>n \<in> set ns. 0 < n) \<and> length (drop k input) \<le> length ns \<longrightarrow> rest = []"
    by (elim exE conjE) (rule that, assumption+)
  have "receive nx collect bufsize (n # ns) input s d = Some (rest, s @ map view (ms1 @ ms3), d2, None)"
    using g r1(3) r2(1) by (simp add: k_def)
  moreover have "(\<forall>n \<in> set (n # ns). 0 < n) \<and> length input \<le> length (n # ns) \<longrightarrow> rest = []"
    using r2(4) sz(1) by (auto simp: k_def min_def split: if_splits)
  ultimately show ?case using r1(1) r2(2,3)
    by (intro exI [of _ rest] exI [of _ "ms1 @ ms3"] exI [of _ ms4] exI [of _ d2]) simp
qed

text \<open>From a fresh decoder: whatever the reads, a prefix of the messages, and all of them in the end.\<close>

lemma receive_messages:
  assumes "start d" and "\<forall>m \<in> set ms. fits m" and "0 < bufsize"
  shows "\<exists>rest k d'. receive nx collect bufsize ns (concat (map fr ms)) [] d = Some (rest, map view (take k ms), d', None) \<and>
    (rest = [] \<longrightarrow> k = length ms) \<and> ((\<forall>n \<in> set ns. 0 < n) \<and> length (concat (map fr ms)) \<le> length ns \<longrightarrow> rest = [])"
proof -
  obtain rest ms1 ms2 d' where r: "receive nx collect bufsize ns (concat (map fr ms)) [] d = Some (rest, [] @ map view ms1, d', None)"
    "ms = ms1 @ ms2" "expects d' rest ms2" "(\<forall>n \<in> set ns. 0 < n) \<and> length (concat (map fr ms)) \<le> length ns \<longrightarrow> rest = []"
    using receive_expects [OF start_expects [OF assms(1,2)] assms(2,3), of ns "[]"] by (elim exE conjE) (rule that, assumption+)
  then show ?thesis using expects_Nil
    by (intro exI [of _ rest] exI [of _ "length ms1"] exI [of _ d']) auto
qed

text \<open>
  Streams that end in bytes the decoder refuses with an error \<open>e\<close>, from any state between two
  messages: the messages before are received, nothing behind is touched.
\<close>

fun expects_error :: "errno_t \<Rightarrow> byte list \<Rightarrow> byte list \<Rightarrow> dec_t \<Rightarrow> byte list \<Rightarrow> wire_msg list \<Rightarrow> bool" where
  "expects_error e bad behind d bs [] \<longleftrightarrow> (\<exists>y. awaits nx (Error e) (\<lambda>_. True) d y \<and> bs = y @ behind)"
| "expects_error e bad behind d bs (m # ms) \<longleftrightarrow>
     (\<exists>y. awaits nx Message (\<lambda>d'. start d' \<and> dec_msg d' = view m) d y \<and> bs = y @ concat (map fr ms) @ bad @ behind)"

lemma start_expects_error:
  "start d \<Longrightarrow> \<forall>m \<in> set ms. fits m \<Longrightarrow> awaits nx (Error e) (\<lambda>_. True) d bad \<Longrightarrow> expects_error e bad behind d (concat (map fr ms) @ bad @ behind) ms"
  by (cases ms) (auto intro: frame_awaits)

lemma expects_error_nonempty: "\<not> expects_error e bad behind d [] ms"
  by (cases ms) (auto dest: awaits_nonempty)

lemma loop_expects_error:
  assumes "expects_error e bad behind d (data @ rest) ms" and "\<forall>m \<in> set ms. fits m" and "zc \<longrightarrow> length data \<le> to_read d"
    and bad: "\<And>d. start d \<Longrightarrow> awaits nx (Error e) (\<lambda>_. True) d bad"
  shows "(\<exists>ms1 ms2 d'. ms = ms1 @ ms2 \<and> expects_error e bad behind d' rest ms2 \<and>
      in_event_loop nx collect zc data s d = Some ([], s @ map view ms1, d', None)) \<or>
    (\<exists>r d'. in_event_loop nx collect zc data s d = Some (r, s @ map view ms, d', Some e) \<and> r @ rest = behind)"
  using assms(1-3)
proof (induction ms arbitrary: d data s zc)
  case Nil
  obtain y where y: "awaits nx (Error e) (\<lambda>_. True) d y" "data @ rest = y @ behind" using Nil.prems(1) by auto
  show ?case
  proof (cases "data = []")
    case True
    then show ?thesis using Nil.prems(1) by (intro disjI1 exI [of _ "[]"] exI [of _ d]) (subst in_event_loop.simps, simp)
  next
    case ne: False
    have dec: "decode nx zc data d = decode_loop nx data 0 d"
      using Nil.prems(3) ne decode_zero_copy [of data d nx] by (cases zc) (auto simp: decode_def)
    show ?thesis
    proof (cases "length data < length y")
      case True
      then obtain w where w: "y = data @ w" "rest = w @ behind" "w \<noteq> []" using y(2) by (auto simp: append_eq_append_conv2)
      then obtain d' where d': "decode_loop nx data 0 d = Some (More_data, length data, d')" "awaits nx (Error e) (\<lambda>_. True) d' w"
        using decode_loop_part [OF y(1), of data "[]" data w] by auto
      then have "in_event_loop nx collect zc data s d = Some ([], s, d', None)"
        using ne dec by (subst in_event_loop.simps) simp
      then show ?thesis using d'(2) w(2) by (intro disjI1 exI [of _ "[]"] exI [of _ d']) auto
    next
      case False
      then obtain w where w: "data = y @ w" "behind = w @ rest" using y(2) by (auto simp: append_eq_append_conv2)
      then obtain d' where "decode_loop nx data 0 d = Some (Error e, length y, d')"
        using decode_loop_whole [OF y(1), of data "[]" w] by auto
      then have "in_event_loop nx collect zc data s d = Some (w, s, d', Some e)"
        using ne dec w(1) by (subst in_event_loop.simps) simp
      then show ?thesis using w(2) by auto
    qed
  qed
next
  case (Cons m ms)
  let ?P = "\<lambda>d'. start d' \<and> dec_msg d' = view m"
  obtain y where y: "awaits nx Message ?P d y" "data @ rest = y @ concat (map fr ms) @ bad @ behind" using Cons.prems(1) by auto
  show ?case
  proof (cases "data = []")
    case True
    then show ?thesis using Cons.prems(1)
      by (intro disjI1 exI [of _ "[]"] exI [of _ "m # ms"] exI [of _ d]) (subst in_event_loop.simps, simp)
  next
    case ne: False
    have dec: "decode nx zc data d = decode_loop nx data 0 d"
      using Cons.prems(3) ne decode_zero_copy [of data d nx] by (cases zc) (auto simp: decode_def)
    show ?thesis
    proof (cases "length data < length y")
      case True
      then obtain w where w: "y = data @ w" "rest = w @ concat (map fr ms) @ bad @ behind" "w \<noteq> []"
        using y(2) by (auto simp: append_eq_append_conv2)
      then obtain d' where d': "decode_loop nx data 0 d = Some (More_data, length data, d')" "awaits nx Message ?P d' w"
        using decode_loop_part [OF y(1), of data "[]" data w] by auto
      then have "in_event_loop nx collect zc data s d = Some ([], s, d', None)"
        using ne dec by (subst in_event_loop.simps) simp
      then show ?thesis using d'(2) w(2) by (intro disjI1 exI [of _ "[]"] exI [of _ "m # ms"] exI [of _ d']) auto
    next
      case False
      define X where "X = concat (map fr ms) @ bad @ behind"
      have "data @ rest = y @ X" using y(2) by (simp add: X_def)
      then obtain w where "data = y @ w" "X = w @ rest" using False by (auto simp: append_eq_append_conv2)
      then have w: "data = y @ w" "concat (map fr ms) @ bad @ behind = w @ rest" by (simp_all add: X_def)
      then obtain d' where d': "decode_loop nx data 0 d = Some (Message, length y, d')" "?P d'"
        using decode_loop_whole [OF y(1), of data "[]" w] by auto
      let ?d = "d'\<lparr>dec_msg := empty_msg\<rparr>"
      have "start ?d" using d'(2) by (intro start_msg) simp
      then have "expects_error e bad behind ?d (w @ rest) ms"
        unfolding w(2) [symmetric] using Cons.prems(2) by (intro start_expects_error bad) auto
      then have r: "(\<exists>ms1 ms2 d''. ms = ms1 @ ms2 \<and> expects_error e bad behind d'' rest ms2 \<and>
          in_event_loop nx collect False w (s @ [view m]) ?d = Some ([], (s @ [view m]) @ map view ms1, d'', None)) \<or>
        (\<exists>r d''. in_event_loop nx collect False w (s @ [view m]) ?d = Some (r, (s @ [view m]) @ map view ms, d'', Some e) \<and> r @ rest = behind)"
        using Cons.prems(2) by (intro Cons.IH) auto
      have "in_event_loop nx collect zc data s d = in_event_loop nx collect False w (s @ [view m]) ?d"
        using awaits_nonempty [OF y(1)] dec d' by (subst in_event_loop.simps) (auto simp: collect_def w(1))
      then show ?thesis using r
      proof (elim disjE exE conjE)
        fix ms1 ms2 d''
        assume "ms = ms1 @ ms2" "expects_error e bad behind d'' rest ms2"
          "in_event_loop nx collect False w (s @ [view m]) ?d = Some ([], (s @ [view m]) @ map view ms1, d'', None)"
        then show ?thesis using \<open>in_event_loop nx collect zc data s d = _\<close>
          by (intro disjI1 exI [of _ "m # ms1"] exI [of _ ms2] exI [of _ d'']) simp
      qed auto
    qed
  qed
qed

lemma receive_refuses:
  assumes "expects_error e bad behind d input ms" and "\<forall>m \<in> set ms. fits m" and "0 < bufsize"
    and bad: "\<And>d. start d \<Longrightarrow> awaits nx (Error e) (\<lambda>_. True) d bad"
  shows "\<exists>rest k d' err. receive nx collect bufsize ns input s d = Some (rest, s @ take k (map view ms), d', err) \<and>
    (err = None \<or> err = Some e \<and> k = length ms \<and> rest = behind) \<and>
    ((\<forall>n \<in> set ns. 0 < n) \<and> length input \<le> length ns \<longrightarrow> err = Some e)"
  using assms(1,2)
proof (induction ns arbitrary: d input ms s)
  case Nil
  then show ?case using expects_error_nonempty [of e bad behind d ms]
    by (intro exI [of _ input] exI [of _ 0] exI [of _ d] exI [of _ None]) auto
next
  case (Cons n ns)
  obtain zc sz where g: "get_buffer bufsize d = (zc, sz)" by fastforce
  define k where "k = min n sz"
  have sz: "0 < sz" "zc \<longrightarrow> sz = to_read d" using g assms(3) by (auto simp: get_buffer_def split: if_splits)
  then have zc: "zc \<longrightarrow> length (take k input) \<le> to_read d" by (auto simp: k_def)
  consider (go) ms1 ms2 d1 where "ms = ms1 @ ms2" "expects_error e bad behind d1 (drop k input) ms2"
      "in_event_loop nx collect zc (take k input) s d = Some ([], s @ map view ms1, d1, None)"
    | (err) r d1 where "in_event_loop nx collect zc (take k input) s d = Some (r, s @ map view ms, d1, Some e)" "r @ drop k input = behind"
    using loop_expects_error [of e bad behind d "take k input" "drop k input" ms zc s] Cons.prems zc bad by auto
  then show ?case
  proof cases
    case go
    have "\<forall>m \<in> set ms2. fits m" using Cons.prems(2) go(1) by simp
    from Cons.IH [OF go(2) this, of "s @ map view ms1"] obtain rest k' d2 err where r: "receive nx collect bufsize ns (drop k input) (s @ map view ms1) d1 =
        Some (rest, (s @ map view ms1) @ take k' (map view ms2), d2, err)" "err = None \<or> err = Some e \<and> k' = length ms2 \<and> rest = behind"
      "(\<forall>n \<in> set ns. 0 < n) \<and> length (drop k input) \<le> length ns \<longrightarrow> err = Some e"
      by (elim exE conjE) (rule that, assumption+)
    have "receive nx collect bufsize (n # ns) input s d = Some (rest, s @ take (length ms1 + k') (map view ms), d2, err)"
      using g go r(1) by (simp add: k_def)
    moreover have "(\<forall>n \<in> set (n # ns). 0 < n) \<and> length input \<le> length (n # ns) \<longrightarrow> err = Some e"
      using r(3) sz(1) by (auto simp: k_def min_def split: if_splits)
    ultimately show ?thesis using r(2) go(1)
      by (intro exI [of _ rest] exI [of _ "length ms1 + k'"] exI [of _ d2] exI [of _ err]) auto
  next
    case err
    then have "receive nx collect bufsize (n # ns) input s d = Some (behind, s @ take (length ms) (map view ms), d1, Some e)"
      using g by (simp add: k_def)
    then show ?thesis by (intro exI [of _ behind] exI [of _ "length ms"] exI [of _ d1] exI [of _ "Some e"]) simp
  qed
qed

end

subsection \<open>The two protocols\<close>

definition between_messages :: "dec_step \<Rightarrow> dec_t \<Rightarrow> bool" where
  "between_messages s d \<longleftrightarrow> dec_next d = s \<and> got d = [] \<and> to_read d = 1"

text \<open>The messages a receiver accepts: no longer than its limit, and with memory for them.\<close>

definition size_accepted :: "dec_env \<Rightarrow> nat \<Rightarrow> bool" where
  "size_accepted env n \<longleftrightarrow> (maxmsgsize env < 0 \<or> int n \<le> maxmsgsize env) \<and> (max_vsm_size < n \<longrightarrow> \<not> oom env n \<and> \<not> alloc_wraps n)"

definition msg_accepted :: "dec_env \<Rightarrow> wire_msg \<Rightarrow> bool" where
  "msg_accepted env m \<longleftrightarrow> size_accepted env (length (wm_data m)) \<and> length (wm_data m) < size_t_max"

lemma unat_small_byte: "n < 256 \<Longrightarrow> unat (of_nat n :: byte) = n"
  by (simp add: unat_of_nat take_bit_nat_eq_self)

lemma unat_size: "n \<le> size_t_max \<Longrightarrow> unat (of_nat n :: uint64) = n"
  by (simp add: unat_of_nat take_bit_nat_eq_self size_t_max_def)

lemma size_accepted_D:
  assumes "size_accepted env n"
  shows "\<not> (0 \<le> maxmsgsize env \<and> int n > maxmsgsize env)" "\<not> (max_vsm_size < n \<and> oom env n)"
    "\<not> (max_vsm_size < n \<and> alloc_wraps n)"
  using assms by (auto simp: size_accepted_def)

lemmas dec_defs = next_step_def dec_init_size_def store_def between_messages_def

text \<open>The body, which follows the header at once if it is empty.\<close>

lemma awaits_then_body:
  assumes "to_read d = length r" and "r \<noteq> []" and "run_steps nx (store r d) = run_steps nx d1" and "to_read d1 = length b"
    and "run_steps nx (store b d1) = Some (rc, d2)" and "P d2"
  shows "awaits nx rc P d (r @ b)"
proof (cases "b = []")
  case True
  then show ?thesis using assms by (auto intro: awaits_last)
next
  case False
  then have "awaits nx rc P d1 b" using assms(4-6) by (auto intro: awaits_last)
  then show ?thesis using assms False by (intro awaits_more) auto
qed

lemma v2_start_body_ok:
  assumes "size_accepted env (length b)"
  shows "v2_start_body env (length b) d = (More_data, \<lparr>dec_next = Message_ready, got = [], to_read = length b,
     dec_flags = dec_flags d, dec_msg = \<lparr>wm_flags = dec_flags d, wm_data = replicate (length b) 0\<rparr>\<rparr>)"
  using assms unfolding v2_start_body_def dec_init_size_def if_not_P [OF size_accepted_D(2) [OF assms]]
    if_not_P [OF size_accepted_D(3) [OF assms]]
  by (simp add: next_step_def)

lemma v2_body_read:
  "run_steps (v2_action env) (store b \<lparr>dec_next = Message_ready, got = [], to_read = length b,
     dec_flags = fl, dec_msg = \<lparr>wm_flags = fl, wm_data = w\<rparr>\<rparr>) =
   Some (Message, \<lparr>dec_next = Flags_ready, got = [], to_read = 1, dec_flags = fl, dec_msg = \<lparr>wm_flags = fl, wm_data = b\<rparr>\<rparr>)"
  by (subst run_steps_act) (simp_all add: v2_action_def v2_message_ready_def dec_defs)

lemma flag_masks: "(v AND 1 \<noteq> 0) = bit v 0" "(v AND 2 \<noteq> 0) = bit v 1" "(v AND 4 \<noteq> 0) = bit v 2" for v :: byte
  using bit_iff_and_push_bit_not_eq_0 [of v 0] bit_iff_and_push_bit_not_eq_0 [of v 1] bit_iff_and_push_bit_not_eq_0 [of v 2]
  by (simp_all add: push_bit_of_1)

lemma v2_protocol_flags_bits:
  "(v2_protocol_flags m AND v2_large_flag \<noteq> 0) = (length (wm_data m) > 255)"
  "(if v2_protocol_flags m AND v2_more_flag \<noteq> 0 then flag_more else 0) OR
   (if v2_protocol_flags m AND v2_command_flag \<noteq> 0 then flag_command else 0) =
   wm_flags m AND (flag_more OR flag_command)"
proof -
  have b: "bit (v2_protocol_flags m) 0 = bit (wm_flags m) 0" "bit (v2_protocol_flags m) 1 = (length (wm_data m) > 255)"
    "bit (v2_protocol_flags m) 2 = bit (wm_flags m) 1"
    unfolding v2_protocol_flags_def v2_more_flag_def v2_large_flag_def v2_command_flag_def flag_more_def flag_command_def flag_masks
    by (simp_all add: bit_or_iff bit_simps)
  have "(3 :: int) = 1 OR 2" by simp
  then have three: "bit (3 :: int) n \<longleftrightarrow> n = 0 \<or> n = 1" for n
    by (simp only: bit_or_iff) (auto simp: bit_simps)
  show "(v2_protocol_flags m AND v2_large_flag \<noteq> 0) = (length (wm_data m) > 255)"
    unfolding v2_large_flag_def flag_masks b by simp
  show "(if v2_protocol_flags m AND v2_more_flag \<noteq> 0 then flag_more else 0) OR
   (if v2_protocol_flags m AND v2_command_flag \<noteq> 0 then flag_command else 0) =
   wm_flags m AND (flag_more OR flag_command)"
    unfolding v2_more_flag_def v2_command_flag_def flag_masks b flag_more_def flag_command_def
    by (rule bit_word_eqI) (auto simp: bit_simps three, metis gr0I)
qed

lemma v2_size_ready_ok:
  assumes "size_accepted env n"
  shows "got d = [of_nat n] \<Longrightarrow> n \<le> 255 \<Longrightarrow> v2_one_byte_size_ready env d = v2_start_body env n d"
    and "got d = put_uint64 (of_nat n) \<Longrightarrow> n \<le> size_t_max \<Longrightarrow> v2_eight_byte_size_ready env d = v2_start_body env n d"
  using size_accepted_D(1) [OF assms]
  by (auto simp: v2_one_byte_size_ready_def v2_eight_byte_size_ready_def Let_def unat_small_byte get_put_uint64 unat_size)

definition v2_received :: "wire_msg \<Rightarrow> dec_t \<Rightarrow> bool" where
  "v2_received m d \<longleftrightarrow> between_messages Flags_ready d \<and> dec_msg d = m"

lemma v2_size_awaits:
  assumes "size_accepted env (length b)" and "to_read d = length r" and "r \<noteq> []"
    and "v2_action env (store r d) = v2_start_body env (length b) (store r d)"
  shows "awaits (v2_action env) Message (v2_received \<lparr>wm_flags = dec_flags d, wm_data = b\<rparr>) d (r @ b)"
proof -
  let ?d1 = "\<lparr>dec_next = Message_ready, got = [], to_read = length b, dec_flags = dec_flags d,
    dec_msg = \<lparr>wm_flags = dec_flags d, wm_data = replicate (length b) 0\<rparr>\<rparr>"
  have "run_steps (v2_action env) (store r d) = run_steps (v2_action env) ?d1"
    using assms by (subst run_steps_act) (simp_all add: v2_start_body_ok)
  then show ?thesis using assms(2,3) v2_body_read [of env b "dec_flags d"]
    by (intro awaits_then_body [of d r _ ?d1]) (auto simp: v2_received_def between_messages_def)
qed

definition v2_after_flags :: "wire_msg \<Rightarrow> dec_t \<Rightarrow> dec_t" where
  "v2_after_flags m d = (let d = d\<lparr>dec_flags := wm_flags m AND (flag_more OR flag_command)\<rparr>
     in if length (wm_data m) > 255 then next_step 8 Eight_byte_size_ready d else next_step 1 One_byte_size_ready d)"

definition v2_size_bytes :: "wire_msg \<Rightarrow> byte list" where
  "v2_size_bytes m = (if length (wm_data m) > 255 then put_uint64 (of_nat (length (wm_data m))) else [of_nat (length (wm_data m))])"

lemma v2_header_split: "v2_header m = v2_protocol_flags m # v2_size_bytes m"
  by (simp add: v2_header_def v2_size_bytes_def Let_def)

lemma v2_after_flags_simps [simp]:
  "to_read (v2_after_flags m d) = length (v2_size_bytes m)" "v2_size_bytes m \<noteq> []" "got (v2_after_flags m d) = []"
  "dec_flags (v2_after_flags m d) = wm_flags m AND (flag_more OR flag_command)"
  by (auto simp: v2_after_flags_def v2_size_bytes_def next_step_def Let_def put_uint64_def)

lemma v2_flags_step:
  assumes "between_messages Flags_ready d"
  shows "run_steps (v2_action env) (store [v2_protocol_flags m] d) = Some (More_data, v2_after_flags m d)"
proof -
  have g: "got (store [v2_protocol_flags m] d) ! 0 = v2_protocol_flags m"
    and fr: "v2_action env (store [v2_protocol_flags m] d) = v2_flags_ready (store [v2_protocol_flags m] d)"
    using assms by (simp_all add: v2_action_def between_messages_def)
  have "v2_action env (store [v2_protocol_flags m] d) = (More_data, v2_after_flags m d)"
    unfolding fr v2_flags_ready_def Let_def g v2_protocol_flags_bits v2_after_flags_def next_step_def by (simp add: store_def)
  then show ?thesis using assms by (subst run_steps_act) (simp_all add: between_messages_def)
qed

lemma v2_frame_awaits:
  assumes "between_messages Flags_ready d" and "msg_accepted env m"
  shows "awaits (v2_action env) Message (v2_received (v2_wire_view m)) d (v2_header m @ wm_data m)"
proof -
  let ?d1 = "v2_after_flags m d" and ?n = "length (wm_data m)"
  have ok: "size_accepted env ?n" "?n \<le> size_t_max" using assms(2) by (auto simp: msg_accepted_def)
  have "v2_action env (store (v2_size_bytes m) ?d1) = v2_start_body env ?n (store (v2_size_bytes m) ?d1)"
    using ok v2_size_ready_ok [OF ok(1), of "store (v2_size_bytes m) ?d1"]
    by (auto simp: v2_action_def v2_after_flags_def v2_size_bytes_def next_step_def)
  then have "awaits (v2_action env) Message (v2_received \<lparr>wm_flags = dec_flags ?d1, wm_data = wm_data m\<rparr>) ?d1 (v2_size_bytes m @ wm_data m)"
    using ok(1) by (intro v2_size_awaits) simp_all
  moreover have "\<lparr>wm_flags = dec_flags ?d1, wm_data = wm_data m\<rparr> = v2_wire_view m" by (simp add: v2_wire_view_def)
  ultimately have "awaits (v2_action env) Message (v2_received (v2_wire_view m)) d ([v2_protocol_flags m] @ v2_size_bytes m @ wm_data m)"
    using v2_flags_step [OF assms(1)] assms(1) by (intro awaits_more [of d _ _ ?d1]) (simp_all add: between_messages_def)
  then show ?thesis by (simp add: v2_header_split)
qed

interpretation v2: framing "v2_action env" "between_messages Flags_ready" "\<lambda>m. v2_header m @ wm_data m"
  "msg_accepted env" v2_wire_view
  using v2_frame_awaits by unfold_locales (auto simp: v2_received_def [abs_def] between_messages_def)

text \<open>Version 1: the flags come after the length, between it and the body.\<close>

definition v1_received :: "wire_msg \<Rightarrow> dec_t \<Rightarrow> bool" where
  "v1_received m d \<longleftrightarrow> between_messages One_byte_size_ready d \<and> dec_msg d = m"

lemma v1_flags_awaits:
  assumes "between_messages Flags_ready d" and "dec_msg d = \<lparr>wm_flags = 0, wm_data = replicate (length b) 0\<rparr>"
  shows "awaits (v1_action env) Message (v1_received \<lparr>wm_flags = f AND flag_more, wm_data = b\<rparr>) d (f # b)"
proof -
  let ?d1 = "\<lparr>dec_next = Message_ready, got = [], to_read = length b, dec_flags = dec_flags d,
    dec_msg = \<lparr>wm_flags = f AND flag_more, wm_data = replicate (length b) 0\<rparr>\<rparr>"
  let ?d2 = "\<lparr>dec_next = One_byte_size_ready, got = [], to_read = 1, dec_flags = dec_flags d,
    dec_msg = \<lparr>wm_flags = f AND flag_more, wm_data = b\<rparr>\<rparr>"
  have "v1_action env (store [f] d) = (More_data, ?d1)"
    using assms by (cases d) (simp add: v1_action_def v1_flags_ready_def dec_defs)
  then have "run_steps (v1_action env) (store [f] d) = run_steps (v1_action env) ?d1"
    using assms(1) by (subst run_steps_act) (simp_all add: between_messages_def)
  moreover have "run_steps (v1_action env) (store b ?d1) = Some (Message, ?d2)"
    by (subst run_steps_act) (simp_all add: v1_action_def v1_message_ready_def dec_defs)
  ultimately have "awaits (v1_action env) Message (v1_received \<lparr>wm_flags = f AND flag_more, wm_data = b\<rparr>) d ([f] @ b)"
    using assms(1) by (intro awaits_then_body [of d "[f]" _ ?d1 b _ ?d2]) (simp_all add: v1_received_def between_messages_def)
  then show ?thesis by simp
qed

lemma v1_size_awaits:
  assumes "size_accepted env (length b)" and "to_read d = length r" and "r \<noteq> []"
    and "v1_action env (store r d) = dec_init_size env (length b) (next_step 1 Flags_ready) (store r d)"
  shows "awaits (v1_action env) Message (v1_received \<lparr>wm_flags = f AND flag_more, wm_data = b\<rparr>) d (r @ f # b)"
proof -
  let ?d1 = "next_step 1 Flags_ready ((store r d)\<lparr>dec_msg := \<lparr>wm_flags = 0, wm_data = replicate (length b) 0\<rparr>\<rparr>)"
  have "v1_action env (store r d) = (More_data, ?d1)"
    unfolding assms(4) dec_init_size_def if_not_P [OF size_accepted_D(2) [OF assms(1)]]
      if_not_P [OF size_accepted_D(3) [OF assms(1)]] by simp
  moreover have "to_read ?d1 \<noteq> 0" by (simp add: next_step_def)
  ultimately have "run_steps (v1_action env) (store r d) = Some (More_data, ?d1)"
    using assms(2) by (subst run_steps_act) simp_all
  moreover have "awaits (v1_action env) Message (v1_received \<lparr>wm_flags = f AND flag_more, wm_data = b\<rparr>) ?d1 (f # b)"
    by (rule v1_flags_awaits) (simp_all add: between_messages_def next_step_def)
  ultimately show ?thesis using assms(2,3) by (intro awaits_more [of d r _ ?d1])
qed

text \<open>The two forms of the length, which counts the byte of the flags.\<close>

lemma v1_one_byte_size_ok:
  assumes "size_accepted env n" and "n < 254" and "dec_next d = One_byte_size_ready" and "got d = [of_nat (n + 1)]"
  shows "v1_action env d = dec_init_size env n (next_step 1 Flags_ready) d"
proof -
  have u: "unat (of_nat (n + 1) :: byte) = n + 1" using assms(2) by (intro unat_small_byte) simp
  then have "(of_nat (n + 1) :: byte) \<noteq> 0xff" "(of_nat (n + 1) :: byte) \<noteq> 0" using assms(2) by (auto simp del: of_nat_add of_nat_Suc)
  then show ?thesis using u assms(3,4) size_accepted_D(1) [OF assms(1)]
    unfolding v1_action_def v1_one_byte_size_ready_def Let_def by (auto simp del: of_nat_add of_nat_Suc)
qed

lemma v1_eight_byte_size_ok:
  assumes "size_accepted env n" and "n < size_t_max" and "dec_next d = Eight_byte_size_ready" and "got d = put_uint64 (of_nat (n + 1))"
  shows "v1_action env d = dec_init_size env n (next_step 1 Flags_ready) d"
proof -
  have u: "unat (of_nat (n + 1) :: uint64) = n + 1" "unat (of_nat (n + 1) - 1 :: uint64) = n"
    using assms(2) unat_size [of "n + 1"] unat_size [of n] by simp_all
  then have "(of_nat (n + 1) :: uint64) \<noteq> 0" by (auto simp del: of_nat_add of_nat_Suc)
  then show ?thesis using u assms(2-4) size_accepted_D(1) [OF assms(1)]
    unfolding v1_action_def v1_eight_byte_size_ready_def Let_def by (auto simp: get_put_uint64 simp del: of_nat_add of_nat_Suc)
qed

lemma v1_frame_awaits:
  assumes "between_messages One_byte_size_ready d" and "msg_accepted env m"
  shows "awaits (v1_action env) Message (v1_received (v1_wire_view m)) d (v1_header m @ wm_data m)"
proof -
  let ?b = "wm_data m" and ?f = "wm_flags m AND flag_more"
  let ?n = "length ?b"
  have ok: "size_accepted env ?n" "?n < size_t_max" using assms(2) by (auto simp: msg_accepted_def)
  have view: "v1_wire_view m = \<lparr>wm_flags = ?f AND flag_more, wm_data = ?b\<rparr>" by (simp add: v1_wire_view_def and.assoc)
  show ?thesis
  proof (cases "?n < 254")
    case True
    then have "awaits (v1_action env) Message (v1_received (v1_wire_view m)) d ([of_nat (?n + 1)] @ ?f # ?b)"
      unfolding view using ok(1) assms(1)
      by (intro v1_size_awaits [OF ok(1) _ _ v1_one_byte_size_ok]) (simp_all add: between_messages_def)
    then show ?thesis using True by (simp add: v1_header_def)
  next
    case False
    let ?d1 = "next_step 8 Eight_byte_size_ready (store [0xff] d)" and ?r = "put_uint64 (of_nat (?n + 1))"
    have "awaits (v1_action env) Message (v1_received (v1_wire_view m)) ?d1 (?r @ ?f # ?b)"
      unfolding view using ok(1) length_put_uint64 [of "of_nat (?n + 1)"]
      by (intro v1_size_awaits [OF ok(1) _ _ v1_eight_byte_size_ok [OF ok]]) (auto simp: next_step_def put_uint64_def)
    moreover have "run_steps (v1_action env) (store [0xff] d) = Some (More_data, ?d1)"
      using assms(1) by (subst run_steps_act)
        (simp_all add: between_messages_def v1_action_def v1_one_byte_size_ready_def next_step_def)
    ultimately have "awaits (v1_action env) Message (v1_received (v1_wire_view m)) d ([0xff] @ ?r @ ?f # ?b)"
      using assms(1) by (intro awaits_more [of d _ _ ?d1]) (simp_all add: between_messages_def)
    then show ?thesis using False by (simp add: v1_header_def)
  qed
qed

interpretation v1: framing "v1_action env" "between_messages One_byte_size_ready" "\<lambda>m. v1_header m @ wm_data m"
  "msg_accepted env" v1_wire_view
  using v1_frame_awaits by unfold_locales (auto simp: v1_received_def [abs_def] between_messages_def)

subsection \<open>Arbitrary input\<close>

text \<open>
  What a decoder promises on bytes that need not be frames at all: an invariant under which
  running the actions ends, and a limit on the messages it lets through.
\<close>

locale total_decoder =
  fixes nx :: "dec_t \<Rightarrow> dec_rc \<times> dec_t"
    and inv :: "dec_t \<Rightarrow> bool"
    and limit :: "wire_msg \<Rightarrow> bool"
  assumes run_total: "inv d \<Longrightarrow> \<exists>rc d'. run_steps nx d = Some (rc, d') \<and> rc \<noteq> Overrun \<and> (rc = More_data \<longrightarrow> inv d' \<and> 0 < to_read d') \<and>
      (rc = Message \<longrightarrow> limit (dec_msg d') \<and> (\<forall>m. inv (d'\<lparr>dec_msg := m\<rparr>) \<and> 0 < to_read d'))"
    and inv_store: "inv d \<Longrightarrow> length b \<le> to_read d \<Longrightarrow> inv (store b d)"
begin

lemma decode_loop_total:
  assumes "inv d" and "0 < to_read d" and "used \<le> length data"
  shows "\<exists>rc used' d'. decode_loop nx data used d = Some (rc, used', d') \<and> rc \<noteq> Overrun \<and> used \<le> used' \<and> used' \<le> length data \<and>
    (used < length data \<longrightarrow> used < used') \<and> (rc = More_data \<longrightarrow> used' = length data \<and> inv d' \<and> 0 < to_read d') \<and>
    (rc = Message \<longrightarrow> limit (dec_msg d') \<and> (\<forall>m. inv (d'\<lparr>dec_msg := m\<rparr>) \<and> 0 < to_read d'))"
  using assms
proof (induction "length data - used" arbitrary: used d rule: less_induct)
  case less
  show ?case
  proof (cases "used < length data")
    case True
    define n where "n = min (to_read d) (length data - used)"
    have n: "0 < n" "used + n \<le> length data" using True less.prems by (auto simp: n_def)
    let ?d = "store (take n (drop used data)) d"
    have "inv ?d" using less.prems by (intro inv_store) (auto simp: n_def)
    then obtain rc d' where r: "run_steps nx ?d = Some (rc, d')" "rc = More_data \<longrightarrow> inv d' \<and> 0 < to_read d'" "rc \<noteq> Overrun"
      "rc = Message \<longrightarrow> limit (dec_msg d') \<and> (\<forall>m. inv (d'\<lparr>dec_msg := m\<rparr>) \<and> 0 < to_read d')"
      using run_total by blast
    have step: "decode_loop nx data used d = (if rc \<noteq> More_data then Some (rc, used + n, d') else decode_loop nx data (used + n) d')"
      using True r(1) by (subst decode_loop.simps) (simp add: n_def [symmetric])
    show ?thesis
    proof (cases "rc = More_data")
      case True
      then show ?thesis using less.hyps [of "used + n" d'] n r(2) step by fastforce
    next
      case False
      then show ?thesis using step r(3,4) n by auto
    qed
  next
    case False
    then show ?thesis using less.prems by auto
  qed
qed

lemma loop_total:
  assumes "inv d" and "0 < to_read d" and "zc \<longrightarrow> length data \<le> to_read d"
  shows "\<exists>rest ms d' err. in_event_loop nx collect zc data s d = Some (rest, s @ ms, d', err) \<and> (\<forall>m \<in> set ms. limit m) \<and>
    (err = None \<longrightarrow> rest = [] \<and> inv d' \<and> 0 < to_read d')"
  using assms
proof (induction "length data" arbitrary: data d s zc rule: less_induct)
  case less
  show ?case
  proof (cases "data = []")
    case True
    then show ?thesis using less.prems by (subst in_event_loop.simps) auto
  next
    case False
    have dec: "decode nx zc data d = decode_loop nx data 0 d"
      using less.prems(3) False decode_zero_copy [of data d nx] by (cases zc) (auto simp: decode_def)
    obtain rc used d' where r: "decode_loop nx data 0 d = Some (rc, used, d')" "0 < used" "used \<le> length data" "rc \<noteq> Overrun"
      "rc = More_data \<longrightarrow> used = length data \<and> inv d' \<and> 0 < to_read d'"
      "rc = Message \<longrightarrow> limit (dec_msg d') \<and> (\<forall>m. inv (d'\<lparr>dec_msg := m\<rparr>) \<and> 0 < to_read d')"
      using decode_loop_total [OF less.prems(1,2), of 0 data] False by auto
    show ?thesis
    proof (cases rc)
      case Message
      let ?d = "d'\<lparr>dec_msg := empty_msg\<rparr>"
      have "length (drop used data) < length data" using r(2) False by simp
      from less.hyps [OF this, of ?d False "s @ [dec_msg d']"] obtain rest ms d'' err where
        r2: "in_event_loop nx collect False (drop used data) (s @ [dec_msg d']) ?d = Some (rest, (s @ [dec_msg d']) @ ms, d'', err)"
          "\<forall>m \<in> set ms. limit m" "err = None \<longrightarrow> rest = [] \<and> inv d'' \<and> 0 < to_read d''"
        using Message r(6) by auto
      have "in_event_loop nx collect zc data s d = Some (rest, s @ dec_msg d' # ms, d'', err)"
        using False Message dec r(1,3) r2(1) by (subst in_event_loop.simps) (simp add: collect_def)
      then show ?thesis using r2(2,3) r(6) Message by (intro exI [of _ rest] exI [of _ "dec_msg d' # ms"]) auto
    qed (use False dec r in \<open>subst in_event_loop.simps; simp\<close>)+
  qed
qed

lemma receive_total:
  assumes "inv d" and "0 < to_read d" and "0 < bufsize"
  shows "\<exists>rest ms d' err. receive nx collect bufsize ns input s d = Some (rest, s @ ms, d', err) \<and> (\<forall>m \<in> set ms. limit m)"
  using assms(1,2)
proof (induction ns arbitrary: d input s)
  case Nil
  then show ?case by auto
next
  case (Cons n ns)
  obtain zc sz where g: "get_buffer bufsize d = (zc, sz)" by fastforce
  define k where "k = min n sz"
  have "zc \<longrightarrow> length (take k input) \<le> to_read d" using g by (auto simp: k_def get_buffer_def split: if_splits)
  from loop_total [OF Cons.prems this, of s] obtain rest ms d' err where
    r: "in_event_loop nx collect zc (take k input) s d = Some (rest, s @ ms, d', err)" "\<forall>m \<in> set ms. limit m"
      "err = None \<longrightarrow> rest = [] \<and> inv d' \<and> 0 < to_read d'" by blast
  show ?case
  proof (cases err)
    case None
    then obtain rest2 ms2 d2 err2 where
      "receive nx collect bufsize ns (drop k input) (s @ ms) d' = Some (rest2, (s @ ms) @ ms2, d2, err2)" "\<forall>m \<in> set ms2. limit m"
      using Cons.IH [of d' "drop k input" "s @ ms"] r(3) by blast
    then show ?thesis using g r(1,2) None by (intro exI [of _ rest2] exI [of _ "ms @ ms2"]) (auto simp: k_def)
  next
    case (Some e)
    then show ?thesis using g r(1,2) by (auto simp: k_def)
  qed
qed

end

text \<open>The invariant of the two decoders: what has been read and what is to be read make up the step's need.\<close>

definition within_limit :: "dec_env \<Rightarrow> wire_msg \<Rightarrow> bool" where
  "within_limit env m \<longleftrightarrow> size_accepted env (length (wm_data m)) \<and> wm_flags m AND (flag_more OR flag_command) = wm_flags m"

definition limited :: "dec_env \<Rightarrow> bool" where
  "limited env \<longleftrightarrow> 0 \<le> maxmsgsize env \<and> maxmsgsize env < 2 ^ 63"

definition v2_dec_ok :: "dec_env \<Rightarrow> dec_t \<Rightarrow> bool" where
  "v2_dec_ok env d \<longleftrightarrow> limited env \<and> length (got d) + to_read d = (case dec_next d of Flags_ready \<Rightarrow> 1 | One_byte_size_ready \<Rightarrow> 1
     | Eight_byte_size_ready \<Rightarrow> 8 | Message_ready \<Rightarrow> length (wm_data (dec_msg d))) \<and>
   dec_flags d AND (flag_more OR flag_command) = dec_flags d \<and>
   (dec_next d = Message_ready \<longrightarrow> within_limit env (dec_msg d))"

definition v1_dec_ok :: "dec_env \<Rightarrow> dec_t \<Rightarrow> bool" where
  "v1_dec_ok env d \<longleftrightarrow> limited env \<and> length (got d) + to_read d = (case dec_next d of Flags_ready \<Rightarrow> 1 | One_byte_size_ready \<Rightarrow> 1
     | Eight_byte_size_ready \<Rightarrow> 8 | Message_ready \<Rightarrow> length (wm_data (dec_msg d))) \<and>
   (dec_next d = Message_ready \<or> dec_next d = Flags_ready \<longrightarrow> within_limit env (dec_msg d))"

lemma decoder_new_ok: "limited env \<Longrightarrow> v2_dec_ok env v2_decoder_new" "limited env \<Longrightarrow> v1_dec_ok env v1_decoder_new"
  by (simp_all add: v2_dec_ok_def v1_dec_ok_def v2_decoder_new_def v1_decoder_new_def)

text \<open>
  One action. It moves to the body at the latest in the second step without input, and the
  action for the body ends the run.
\<close>

definition act_ok :: "(dec_env \<Rightarrow> dec_t \<Rightarrow> bool) \<Rightarrow> dec_env \<Rightarrow> dec_step \<Rightarrow> dec_rc \<times> dec_t \<Rightarrow> bool" where
  "act_ok ok env s r \<longleftrightarrow> fst r \<noteq> Overrun \<and>
     (fst r = More_data \<longrightarrow> s \<noteq> Message_ready \<and> ok env (snd r) \<and> (0 < to_read (snd r) \<or> dec_next (snd r) = Message_ready)) \<and>
     (fst r = Message \<longrightarrow> within_limit env (dec_msg (snd r)) \<and> (\<forall>m. ok env ((snd r)\<lparr>dec_msg := m\<rparr>)) \<and> 0 < to_read (snd r))"

lemma act_ok_error [simp]: "act_ok ok env s (Error e, d)"
  by (simp add: act_ok_def)

lemma run_total_of_act:
  assumes "\<And>d. ok env d \<Longrightarrow> to_read d = 0 \<Longrightarrow> act_ok ok env (dec_next d) (nx d)" and "ok env d"
  shows "\<exists>rc d'. run_steps nx d = Some (rc, d') \<and> rc \<noteq> Overrun \<and> (rc = More_data \<longrightarrow> ok env d' \<and> 0 < to_read d') \<and>
      (rc = Message \<longrightarrow> within_limit env (dec_msg d') \<and> (\<forall>m. ok env (d'\<lparr>dec_msg := m\<rparr>) \<and> 0 < to_read d'))"
proof -
  let ?R = "\<lambda>d. \<exists>rc d'. run_steps nx d = Some (rc, d') \<and> rc \<noteq> Overrun \<and> (rc = More_data \<longrightarrow> ok env d' \<and> 0 < to_read d') \<and>
      (rc = Message \<longrightarrow> within_limit env (dec_msg d') \<and> (\<forall>m. ok env (d'\<lparr>dec_msg := m\<rparr>) \<and> 0 < to_read d'))"
  have stop: "?R d" if "ok env d" "0 < to_read d \<or> fst (nx d) \<noteq> More_data" for d
    using that assms(1) [of d] by (cases "to_read d = 0"; cases "nx d") (auto simp: run_steps_act act_ok_def)
  have body: "?R d" if "ok env d" "0 < to_read d \<or> dec_next d = Message_ready" for d
    using that stop [of d] assms(1) [of d] by (auto simp: act_ok_def)
  show ?thesis
  proof (cases "0 < to_read d \<or> fst (nx d) \<noteq> More_data")
    case False
    then show ?thesis using body [of "snd (nx d)"] assms(1) [OF assms(2)] by (simp add: run_steps_act act_ok_def)
  qed (use assms(2) stop in blast)
qed

lemma v2_flags_masked:
  "((if x then flag_more else 0) OR (if y then flag_command else 0)) AND (flag_more OR flag_command) =
   (if x then flag_more else 0) OR (if y then flag_command else 0)"
  by (auto simp: flag_more_def flag_command_def)

text \<open>A size that passed a limit of 63 bits does not wrap around.\<close>

lemma limited_no_wrap:
  assumes "limited env" and "\<not> (0 \<le> maxmsgsize env \<and> int n > maxmsgsize env)"
  shows "\<not> alloc_wraps n" "size_accepted env n \<longleftrightarrow> (max_vsm_size < n \<longrightarrow> \<not> oom env n)"
proof -
  have "int n < 2 ^ 63" "0 \<le> maxmsgsize env" "int n \<le> maxmsgsize env" using assms by (auto simp: limited_def)
  then show "\<not> alloc_wraps n" by (subst alloc_wraps_iff) (simp_all add: size_t_max_def sizeof_content_def)
  then show "size_accepted env n \<longleftrightarrow> (max_vsm_size < n \<longrightarrow> \<not> oom env n)"
    using \<open>int n \<le> maxmsgsize env\<close> by (simp add: size_accepted_def)
qed

lemma init_size_act:
  assumes "limited env" and "\<not> (0 \<le> maxmsgsize env \<and> int n > maxmsgsize env)"
    and "size_accepted env n \<Longrightarrow> act_ok ok env s (More_data, cont (d\<lparr>dec_msg := \<lparr>wm_flags = 0, wm_data = replicate n 0\<rparr>\<rparr>))"
  shows "act_ok ok env s (dec_init_size env n cont d)"
  using assms limited_no_wrap [OF assms(1,2)] by (auto simp: dec_init_size_def)

lemma v2_start_body_act:
  assumes "limited env" and "dec_flags d AND (flag_more OR flag_command) = dec_flags d"
    and "\<not> (0 \<le> maxmsgsize env \<and> int n > maxmsgsize env)" and "s \<noteq> Message_ready"
  shows "act_ok v2_dec_ok env s (v2_start_body env n d)"
  unfolding v2_start_body_def using assms
  by (intro init_size_act) (auto simp: act_ok_def next_step_def v2_dec_ok_def within_limit_def)

lemma v1_start_flags_act:
  assumes "limited env" and "\<not> (0 \<le> maxmsgsize env \<and> int n > maxmsgsize env)" and "s \<noteq> Message_ready"
  shows "act_ok v1_dec_ok env s (dec_init_size env n (next_step 1 Flags_ready) d)"
  using assms by (intro init_size_act) (auto simp: act_ok_def next_step_def v1_dec_ok_def within_limit_def)

lemma v2_act:
  assumes "v2_dec_ok env d" and "to_read d = 0"
  shows "act_ok v2_dec_ok env (dec_next d) (v2_action env d)"
proof -
  have fl: "dec_flags d AND (flag_more OR flag_command) = dec_flags d" and lim: "limited env"
    using assms(1) by (simp_all add: v2_dec_ok_def)
  show ?thesis
  proof (cases "dec_next d")
    case Flags_ready
    then show ?thesis using v2_flags_masked lim
      by (simp add: act_ok_def v2_action_def v2_flags_ready_def Let_def next_step_def v2_dec_ok_def)
  next
    case Message_ready
    then show ?thesis using assms
      by (auto simp: act_ok_def v2_action_def v2_message_ready_def next_step_def v2_dec_ok_def within_limit_def)
  qed (use v2_start_body_act [of env d] fl lim in \<open>auto simp: v2_action_def v2_one_byte_size_ready_def
    v2_eight_byte_size_ready_def Let_def\<close>)
qed

lemma v1_act:
  assumes "v1_dec_ok env d" and "to_read d = 0"
  shows "act_ok v1_dec_ok env (dec_next d) (v1_action env d)"
proof (cases "dec_next d")
  case Flags_ready
  have "(x OR (y AND flag_more)) AND (flag_more OR flag_command) = x OR (y AND flag_more)"
    if "x AND (flag_more OR flag_command) = x" for x y :: byte
    using that by (simp add: bit.conj_disj_distrib2 and.assoc flag_more_def flag_command_def)
  then show ?thesis using assms Flags_ready
    by (simp add: act_ok_def v1_action_def v1_flags_ready_def Let_def next_step_def v1_dec_ok_def within_limit_def)
next
  case Message_ready
  then show ?thesis using assms
    by (auto simp: act_ok_def v1_action_def v1_message_ready_def next_step_def v1_dec_ok_def within_limit_def)
next
  case One_byte_size_ready
  have lim: "limited env" using assms(1) by (simp add: v1_dec_ok_def)
  then have "act_ok v1_dec_ok env One_byte_size_ready (More_data, next_step 8 Eight_byte_size_ready d)"
    by (simp add: act_ok_def next_step_def v1_dec_ok_def)
  then show ?thesis using lim One_byte_size_ready v1_start_flags_act [of env]
    by (auto simp: v1_action_def v1_one_byte_size_ready_def Let_def)
next
  case Eight_byte_size_ready
  have "limited env" using assms(1) by (simp add: v1_dec_ok_def)
  then show ?thesis using Eight_byte_size_ready v1_start_flags_act [of env]
    by (auto simp: v1_action_def v1_eight_byte_size_ready_def Let_def)
qed

lemma dec_ok_store:
  assumes "length b \<le> to_read d"
  shows "v2_dec_ok env d \<Longrightarrow> v2_dec_ok env (store b d)" "v1_dec_ok env d \<Longrightarrow> v1_dec_ok env (store b d)"
  using assms by (auto simp: v2_dec_ok_def v1_dec_ok_def split: dec_step.splits)

interpretation v2_any: total_decoder "v2_action env" "v2_dec_ok env" "within_limit env"
  by (unfold_locales; (rule run_total_of_act [of v2_dec_ok, OF v2_act]; assumption)?) (rule dec_ok_store)

interpretation v1_any: total_decoder "v1_action env" "v1_dec_ok env" "within_limit env"
  by (unfold_locales; (rule run_total_of_act [of v1_dec_ok, OF v1_act]; assumption)?) (rule dec_ok_store)

subsection \<open>Frames that are refused\<close>

text \<open>
  The headers that announce a body of \<open>n\<close> bytes, in the short and in the long form, whatever the
  other flags of the frame are and whether or not the short form would do; and the two forms of a frame
  of version 1 of length zero, which has no room for its flags.
\<close>

definition v2_announces :: "nat \<Rightarrow> byte list \<Rightarrow> bool" where
  "v2_announces n h \<longleftrightarrow> (\<exists>f. if f AND v2_large_flag \<noteq> 0 then n \<le> size_t_max \<and> h = f # put_uint64 (of_nat n) else n < 256 \<and> h = [f, of_nat n])"

definition v1_announces :: "nat \<Rightarrow> byte list \<Rightarrow> bool" where
  "v1_announces n h \<longleftrightarrow> n < 254 \<and> h = [of_nat (n + 1)] \<or> n < size_t_max \<and> h = 0xff # put_uint64 (of_nat (n + 1))"

definition v1_zero :: "byte list \<Rightarrow> bool" where
  "v1_zero h \<longleftrightarrow> h = [0] \<or> h = 0xff # put_uint64 0"

text \<open>
  The reads \<open>ns\<close> of \<open>input\<close> give the session a prefix of \<open>ms\<close>; an error can only be \<open>e\<close>, after all of them and with \<open>body\<close>
  not looked at, and with as many reads as bytes it is reported.
\<close>

definition refuses_after ::
  "(dec_t \<Rightarrow> dec_rc \<times> dec_t) \<Rightarrow> nat \<Rightarrow> nat list \<Rightarrow> byte list \<Rightarrow> dec_t \<Rightarrow> wire_msg list \<Rightarrow> errno_t \<Rightarrow> byte list \<Rightarrow> bool" where
  "refuses_after nx bufsize ns input d ms e body \<longleftrightarrow> (\<exists>rest k d' err. receive nx collect bufsize ns input [] d = Some (rest, take k ms, d', err) \<and>
     (err = None \<or> err = Some e \<and> k = length ms \<and> rest = body) \<and>
     ((\<forall>n \<in> set ns. 0 < n) \<and> length input \<le> length ns \<longrightarrow> err = Some e))"

lemma awaits_size:
  assumes "to_read d = 1" and "run_steps nx (store [f] d) = Some (More_data, d1)" and "to_read d1 = length r" and "r \<noteq> []"
    and "nx (store r d1) = (Error e, d2)"
  shows "awaits nx (Error e) (\<lambda>_. True) d (f # r)"
proof -
  have "awaits nx (Error e) (\<lambda>_. True) d1 r" using assms(3-5) by (intro awaits_last [of d1 r _ _ d2]) (simp_all add: run_steps_act)
  then have "awaits nx (Error e) (\<lambda>_. True) d ([f] @ r)" using assms(1,2) by (intro awaits_more) simp_all
  then show ?thesis by simp
qed

lemma put_uint64_nonempty [simp]: "put_uint64 v \<noteq> []" "length (put_uint64 v) = 8"
  using length_put_uint64 [of v] by (auto simp: put_uint64_def)

lemma v2_oversize_awaits:
  assumes "between_messages Flags_ready d" and "0 \<le> maxmsgsize env" and "maxmsgsize env < int n" and "v2_announces n h"
  shows "awaits (v2_action env) (Error EMSGSIZE) (\<lambda>_. True) d h"
proof -
  obtain f where f: "if f AND v2_large_flag \<noteq> 0 then n \<le> size_t_max \<and> h = f # put_uint64 (of_nat n) else n < 256 \<and> h = [f, of_nat n]"
    using assms(4) by (auto simp: v2_announces_def)
  define d0 where "d0 = (store [f] d)\<lparr>dec_flags := (if f AND v2_more_flag \<noteq> 0 then flag_more else 0) OR (if f AND v2_command_flag \<noteq> 0 then flag_command else 0)\<rparr>"
  define d1 where "d1 = (if f AND v2_large_flag \<noteq> 0 then next_step 8 Eight_byte_size_ready d0 else next_step 1 One_byte_size_ready d0)"
  have rd: "to_read d = 1" using assms(1) by (simp add: between_messages_def)
  have "v2_action env (store [f] d) = (More_data, d1)"
    using assms(1) by (simp add: v2_action_def v2_flags_ready_def Let_def between_messages_def d1_def d0_def)
  moreover have "to_read d1 \<noteq> 0" by (simp add: d1_def next_step_def)
  ultimately have step: "run_steps (v2_action env) (store [f] d) = Some (More_data, d1)"
    using rd by (subst run_steps_act) simp_all
  show ?thesis
  proof (cases "f AND v2_large_flag \<noteq> 0")
    case True
    then have h: "n \<le> size_t_max" "h = f # put_uint64 (of_nat n)" and d1: "d1 = next_step 8 Eight_byte_size_ready d0" using f by (simp_all add: d1_def)
    have "v2_action env (store (put_uint64 (of_nat n)) d1) = (Error EMSGSIZE, store (put_uint64 (of_nat n)) d1)"
      using assms(2,3) h(1) by (simp add: d1 v2_action_def next_step_def v2_eight_byte_size_ready_def Let_def get_put_uint64 unat_size)
    then show ?thesis unfolding h(2) by (intro awaits_size [OF rd step]) (simp_all add: d1 next_step_def)
  next
    case False
    then have h: "n < 256" "h = [f, of_nat n]" and d1: "d1 = next_step 1 One_byte_size_ready d0" using f by (simp_all add: d1_def)
    have "v2_action env (store [of_nat n] d1) = (Error EMSGSIZE, store [of_nat n] d1)"
      using assms(2,3) h(1) by (simp add: d1 v2_action_def next_step_def v2_one_byte_size_ready_def Let_def unat_small_byte)
    then show ?thesis unfolding h(2) by (intro awaits_size [OF rd step]) (simp_all add: d1 next_step_def)
  qed
qed

lemma v1_long_size_awaits:
  assumes "between_messages One_byte_size_ready d"
    and "\<And>d. got d = put_uint64 v \<Longrightarrow> v1_eight_byte_size_ready env d = (Error e, d)"
  shows "awaits (v1_action env) (Error e) (\<lambda>_. True) d (0xff # put_uint64 v)"
proof -
  let ?d1 = "next_step 8 Eight_byte_size_ready (store [0xff] d)"
  have "run_steps (v1_action env) (store [0xff] d) = Some (More_data, ?d1)"
    using assms(1) by (subst run_steps_act) (simp_all add: between_messages_def v1_action_def v1_one_byte_size_ready_def next_step_def)
  moreover have "v1_action env (store (put_uint64 v) ?d1) = (Error e, store (put_uint64 v) ?d1)"
    using assms(2) [of "store (put_uint64 v) ?d1"] by (simp add: v1_action_def next_step_def)
  ultimately show ?thesis using assms(1) by (intro awaits_size [of d _ _ ?d1]) (simp_all add: between_messages_def next_step_def)
qed

lemma v1_oversize_awaits:
  assumes "between_messages One_byte_size_ready d" and "0 \<le> maxmsgsize env" and "maxmsgsize env < int n" and "v1_announces n h"
  shows "awaits (v1_action env) (Error EMSGSIZE) (\<lambda>_. True) d h"
  using assms(4) unfolding v1_announces_def
proof (elim disjE conjE)
  assume n: "n < 254" and h: "h = [of_nat (n + 1)]"
  have u: "unat (of_nat (n + 1) :: byte) = n + 1" using n by (intro unat_small_byte) simp
  then have "(of_nat (n + 1) :: byte) \<noteq> 0xff" "(of_nat (n + 1) :: byte) \<noteq> 0" using n by (auto simp del: of_nat_add of_nat_Suc)
  then have "v1_action env (store [of_nat (n + 1)] d) = (Error EMSGSIZE, store [of_nat (n + 1)] d)"
    using u assms(1-3) unfolding v1_action_def v1_one_byte_size_ready_def Let_def by (simp add: between_messages_def del: of_nat_add of_nat_Suc)
  then show ?thesis unfolding h using assms(1) by (intro awaits_last) (simp_all add: run_steps_act between_messages_def)
next
  assume n: "n < size_t_max" and h: "h = 0xff # put_uint64 (of_nat (n + 1))"
  have u: "unat (of_nat (n + 1) :: uint64) = n + 1" "unat (of_nat (n + 1) - 1 :: uint64) = n"
    using n unat_size [of "n + 1"] unat_size [of n] by simp_all
  then have "(of_nat (n + 1) :: uint64) \<noteq> 0" by (auto simp del: of_nat_add of_nat_Suc)
  then show ?thesis unfolding h using u assms(2,3)
    by (intro v1_long_size_awaits [OF assms(1)]) (simp add: v1_eight_byte_size_ready_def Let_def get_put_uint64 del: of_nat_add of_nat_Suc)
qed

lemma v1_zero_awaits:
  assumes "between_messages One_byte_size_ready d" and "v1_zero h"
  shows "awaits (v1_action env) (Error EPROTO) (\<lambda>_. True) d h"
  using assms(2) unfolding v1_zero_def
proof
  assume "h = [0]"
  then show ?thesis using assms(1) by (intro awaits_last) (simp_all add: run_steps_act v1_action_def v1_one_byte_size_ready_def between_messages_def)
next
  assume h: "h = 0xff # put_uint64 0"
  show ?thesis unfolding h by (rule v1_long_size_awaits [OF assms(1)]) (simp add: v1_eight_byte_size_ready_def Let_def get_put_uint64)
qed

text \<open>
  taking the bytes where they were read, without copying them, has the same effect as
  copying them from the buffer, for any state machine; the number of bytes used is the same too.
\<close>

theorem decoder_zero_copy_equivalent:
  assumes "length data \<le> to_read d" and "data \<noteq> []"
  shows "decode nx True data d = decode nx False data d"
  using assms by (rule decode_zero_copy)

theorem decoder_zero_copy_equivalent_witness:
  "length [1, 2, 3 :: byte] \<le> to_read (next_step 5 Message_ready v2_decoder_new) \<and>
   decode (v2_action \<lparr>maxmsgsize = 10, oom = (\<lambda>_. False)\<rparr>) True [1, 2, 3] (next_step 5 Message_ready v2_decoder_new) =
   decode (v2_action \<lparr>maxmsgsize = 10, oom = (\<lambda>_. False)\<rparr>) False [1, 2, 3] (next_step 5 Message_ready v2_decoder_new)"
  using decoder_zero_copy_equivalent [of "[1, 2, 3]" "next_step 5 Message_ready v2_decoder_new"
      "v2_action \<lparr>maxmsgsize = 10, oom = (\<lambda>_. False)\<rparr>"] by (simp add: next_step_def)

text \<open>
  C16: with a limit on the size of messages, whatever bytes a peer sends and however they are cut
  into reads, the receiving loop of either protocol version returns, its assertions hold, no
  body overruns its block, and no message that it hands to the session is longer than
  \<open>maxmsgsize\<close> or carries flags other than \<open>more\<close> and \<open>command\<close>.
\<close>

theorem decoder_any_input_safe:
  assumes "0 < bufsize" and "limited env"
  shows "(\<exists>rest ms d err. receive (v2_action env) collect bufsize ns input [] v2_decoder_new = Some (rest, ms, d, err) \<and>
            (\<forall>m \<in> set ms. within_limit env m)) \<and>
         (\<exists>rest ms d err. receive (v1_action env) collect bufsize ns input [] v1_decoder_new = Some (rest, ms, d, err) \<and>
            (\<forall>m \<in> set ms. within_limit env m))"
  using v2_any.receive_total [OF decoder_new_ok(1) [OF assms(2)] _ assms(1), where s = "[]" and ns = ns and input = input]
    v1_any.receive_total [OF decoder_new_ok(2) [OF assms(2)] _ assms(1), where s = "[]" and ns = ns and input = input]
  by (simp add: v2_decoder_new_def v1_decoder_new_def)

theorem decoder_any_input_safe_witness:
  "\<exists>rest ms d err. receive (v2_action \<lparr>maxmsgsize = 2, oom = (\<lambda>_. False)\<rparr>) collect 8192 [3, 1] [0, 1, 7, 0, 3, 9] [] v2_decoder_new =
     Some (rest, ms, d, err) \<and> (\<forall>m \<in> set ms. within_limit \<lparr>maxmsgsize = 2, oom = (\<lambda>_. False)\<rparr> m)"
  using decoder_any_input_safe [of 8192 "\<lparr>maxmsgsize = 2, oom = (\<lambda>_. False)\<rparr>" "[3, 1]" "[0, 1, 7, 0, 3, 9]"]
  by (simp add: limited_def del: receive.simps)

text \<open>
  C17: without a limit, the default, a header that announces one of the 40 largest sizes makes the
  size of the allocated block wrap around, and the decoder writes past the block.
\<close>

theorem decoder_unlimited_overrun:
  assumes "maxmsgsize env < 0" and "\<not> oom env n" and "size_t_max - sizeof_content < n" and "n \<le> size_t_max"
  shows "in_event_loop (v2_action env) wr False (2 # put_uint64 (of_nat n) @ rest) s v2_decoder_new = None"
proof -
  let ?r = "put_uint64 (of_nat n)" and ?d = "next_step 8 Eight_byte_size_ready v2_decoder_new"
  have big: "max_vsm_size < n" "alloc_wraps n"
    using assms(3,4) by (simp_all add: alloc_wraps_iff size_t_max_def sizeof_content_def max_vsm_size_def)
  have "v2_action env (store [2] v2_decoder_new) = (More_data, ?d)"
    by (simp add: v2_action_def v2_flags_ready_def v2_decoder_new_def dec_defs v2_more_flag_def v2_command_flag_def v2_large_flag_def)
  then have "run_steps (v2_action env) (store [2] v2_decoder_new) = Some (More_data, ?d)"
    by (subst run_steps_act) (simp_all add: v2_decoder_new_def next_step_def)
  moreover have "v2_action env (store ?r ?d) = (Overrun, store ?r ?d)"
    using assms big by (simp add: v2_action_def v2_eight_byte_size_ready_def v2_start_body_def dec_init_size_def next_step_def
        get_put_uint64 unat_size)
  then have "awaits (v2_action env) Overrun (\<lambda>_. True) ?d ?r"
    by (intro awaits_last) (simp_all add: run_steps_act next_step_def)
  ultimately have "awaits (v2_action env) Overrun (\<lambda>_. True) v2_decoder_new ([2] @ ?r)"
    by (intro awaits_more [of _ _ _ ?d]) (simp_all add: v2_decoder_new_def)
  from decode_loop_whole [OF this, of "2 # ?r @ rest" "[]" rest] show ?thesis
    by (subst in_event_loop.simps) (auto simp: decode_def)
qed

theorem decoder_unlimited_overrun_witness:
  "in_event_loop (v2_action \<lparr>maxmsgsize = -1, oom = (\<lambda>_. False)\<rparr>) collect False (2 # put_uint64 (of_nat size_t_max) @ []) [] v2_decoder_new = None"
  using decoder_unlimited_overrun [of "\<lparr>maxmsgsize = -1, oom = (\<lambda>_. False)\<rparr>" size_t_max collect "[]" "[]"]
  by (simp add: size_t_max_def sizeof_content_def)

lemma decoder_refuses_each:
  assumes "0 < bufsize" and "\<forall>m \<in> set ms. msg_accepted env m"
  shows "0 \<le> maxmsgsize env \<Longrightarrow> maxmsgsize env < int n \<Longrightarrow> v2_announces n h \<Longrightarrow>
      refuses_after (v2_action env) bufsize ns (concat (map (\<lambda>m. v2_header m @ wm_data m) ms) @ h @ body) v2_decoder_new
        (map v2_wire_view ms) EMSGSIZE body"
    and "0 \<le> maxmsgsize env \<Longrightarrow> maxmsgsize env < int n \<Longrightarrow> v1_announces n h \<Longrightarrow>
      refuses_after (v1_action env) bufsize ns (concat (map (\<lambda>m. v1_header m @ wm_data m) ms) @ h @ body) v1_decoder_new
        (map v1_wire_view ms) EMSGSIZE body"
    and "v1_zero h \<Longrightarrow>
      refuses_after (v1_action env) bufsize ns (concat (map (\<lambda>m. v1_header m @ wm_data m) ms) @ h @ body) v1_decoder_new
        (map v1_wire_view ms) EPROTO body"
proof -
  have st: "between_messages Flags_ready v2_decoder_new" "between_messages One_byte_size_ready v1_decoder_new"
    by (simp_all add: between_messages_def v2_decoder_new_def v1_decoder_new_def)
  note r2 = v2.receive_refuses [OF v2.start_expects_error [OF st(1) assms(2)] assms(2,1), where s = "[]" and ns = ns and bad = h and behind = body]
    and r1 = v1.receive_refuses [OF v1.start_expects_error [OF st(2) assms(2)] assms(2,1), where s = "[]" and ns = ns and bad = h and behind = body]
  show "refuses_after (v2_action env) bufsize ns (concat (map (\<lambda>m. v2_header m @ wm_data m) ms) @ h @ body) v2_decoder_new
        (map v2_wire_view ms) EMSGSIZE body" if "0 \<le> maxmsgsize env" "maxmsgsize env < int n" "v2_announces n h"
    using r2 [OF v2_oversize_awaits [OF st(1) that] v2_oversize_awaits [OF _ that]] by (simp add: refuses_after_def)
  show "refuses_after (v1_action env) bufsize ns (concat (map (\<lambda>m. v1_header m @ wm_data m) ms) @ h @ body) v1_decoder_new
        (map v1_wire_view ms) EMSGSIZE body" if "0 \<le> maxmsgsize env" "maxmsgsize env < int n" "v1_announces n h"
    using r1 [OF v1_oversize_awaits [OF st(2) that] v1_oversize_awaits [OF _ that]] by (simp add: refuses_after_def)
  show "refuses_after (v1_action env) bufsize ns (concat (map (\<lambda>m. v1_header m @ wm_data m) ms) @ h @ body) v1_decoder_new
        (map v1_wire_view ms) EPROTO body" if "v1_zero h"
    using r1 [OF v1_zero_awaits [OF st(2) that] v1_zero_awaits [OF _ that]] by (simp add: refuses_after_def)
qed

text \<open>
  C18: after any messages that the receiver accepts, a header that announces more than \<open>maxmsgsize\<close> bytes is
  refused with \<open>EMSGSIZE\<close>, in both protocol versions and both forms of the length, and a frame of
  version 1 of length zero with \<open>EPROTO\<close>, in both forms. However the stream is cut into reads, the
  session gets the messages before and nothing else, no byte behind the header is looked
  at, and with enough reads the error is reported.
\<close>

theorem decoder_refuses:
  assumes "0 < bufsize" and "\<forall>m \<in> set ms. msg_accepted env m"
  shows "(0 \<le> maxmsgsize env \<and> maxmsgsize env < int n \<and> v2_announces n h \<longrightarrow>
      refuses_after (v2_action env) bufsize ns (concat (map (\<lambda>m. v2_header m @ wm_data m) ms) @ h @ body) v2_decoder_new
        (map v2_wire_view ms) EMSGSIZE body) \<and>
    (0 \<le> maxmsgsize env \<and> maxmsgsize env < int n \<and> v1_announces n h \<longrightarrow>
      refuses_after (v1_action env) bufsize ns (concat (map (\<lambda>m. v1_header m @ wm_data m) ms) @ h @ body) v1_decoder_new
        (map v1_wire_view ms) EMSGSIZE body) \<and>
    (v1_zero h \<longrightarrow>
      refuses_after (v1_action env) bufsize ns (concat (map (\<lambda>m. v1_header m @ wm_data m) ms) @ h @ body) v1_decoder_new
        (map v1_wire_view ms) EPROTO body)"
  using decoder_refuses_each [OF assms] by (intro conjI impI) blast+

theorem decoder_refuses_witness:
  "refuses_after (v1_action \<lparr>maxmsgsize = 2, oom = (\<lambda>_. False)\<rparr>) 8192 [3, 1, 9]
     (concat (map (\<lambda>m. v1_header m @ wm_data m) [\<lparr>wm_flags = 1, wm_data = [7]\<rparr>]) @ [4] @ [0, 1, 2, 3]) v1_decoder_new
     (map v1_wire_view [\<lparr>wm_flags = 1, wm_data = [7]\<rparr>]) EMSGSIZE [0, 1, 2, 3]"
proof -
  have "\<forall>m \<in> set [\<lparr>wm_flags = 1, wm_data = [7]\<rparr>]. msg_accepted \<lparr>maxmsgsize = 2, oom = (\<lambda>_. False)\<rparr> m"
    by (simp add: msg_accepted_def size_accepted_def size_t_max_def max_vsm_size_def)
  moreover have "0 \<le> maxmsgsize \<lparr>maxmsgsize = 2, oom = (\<lambda>_. False)\<rparr> \<and> maxmsgsize \<lparr>maxmsgsize = 2, oom = (\<lambda>_. False)\<rparr> < int 3 \<and>
    v1_announces 3 [4]" by (simp add: v1_announces_def)
  moreover have "(0 :: nat) < 8192" by simp
  ultimately show ?thesis
    using decoder_refuses [of 8192 "[\<lparr>wm_flags = 1, wm_data = [7]\<rparr>]" "\<lparr>maxmsgsize = 2, oom = (\<lambda>_. False)\<rparr>" 3 "[4]" "[3, 1, 9]" "[0, 1, 2, 3]"]
    by blast
qed

text \<open>
  the frames of any messages that the receiver accepts, cut into reads in any way, give a
  prefix of these messages in order, with the flags that the protocol carries; with as many
  reads as bytes nothing is left and all the messages have been received.
\<close>

theorem decoder_receives_frames:
  assumes "\<forall>m \<in> set ms. msg_accepted env m" and "0 < bufsize"
  shows "(\<exists>rest k d. receive (v2_action env) collect bufsize ns (concat (map (\<lambda>m. v2_header m @ wm_data m) ms)) [] v2_decoder_new =
              Some (rest, map v2_wire_view (take k ms), d, None) \<and> (rest = [] \<longrightarrow> k = length ms) \<and>
            ((\<forall>n \<in> set ns. 0 < n) \<and> length (concat (map (\<lambda>m. v2_header m @ wm_data m) ms)) \<le> length ns \<longrightarrow> rest = [])) \<and>
         (\<exists>rest k d. receive (v1_action env) collect bufsize ns (concat (map (\<lambda>m. v1_header m @ wm_data m) ms)) [] v1_decoder_new =
              Some (rest, map v1_wire_view (take k ms), d, None) \<and> (rest = [] \<longrightarrow> k = length ms) \<and>
            ((\<forall>n \<in> set ns. 0 < n) \<and> length (concat (map (\<lambda>m. v1_header m @ wm_data m) ms)) \<le> length ns \<longrightarrow> rest = []))"
proof -
  have "between_messages Flags_ready v2_decoder_new" "between_messages One_byte_size_ready v1_decoder_new"
    by (simp_all add: between_messages_def v2_decoder_new_def v1_decoder_new_def)
  then show ?thesis using v2.receive_messages [OF _ assms] v1.receive_messages [OF _ assms] by blast
qed

theorem decoder_receives_frames_witness:
  "\<exists>rest k d. receive (v2_action \<lparr>maxmsgsize = 2, oom = (\<lambda>_. False)\<rparr>) collect 8192 [1, 2, 1]
     (concat (map (\<lambda>m. v2_header m @ wm_data m) [\<lparr>wm_flags = 1, wm_data = [7]\<rparr>, \<lparr>wm_flags = 0, wm_data = []\<rparr>])) [] v2_decoder_new =
   Some (rest, map v2_wire_view (take k [\<lparr>wm_flags = 1, wm_data = [7]\<rparr>, \<lparr>wm_flags = 0, wm_data = []\<rparr>]), d, None)"
proof -
  have "\<forall>m \<in> set [\<lparr>wm_flags = 1, wm_data = [7]\<rparr>, \<lparr>wm_flags = 0, wm_data = []\<rparr>]. msg_accepted \<lparr>maxmsgsize = 2, oom = (\<lambda>_. False)\<rparr> m"
    by (simp add: msg_accepted_def size_accepted_def size_t_max_def max_vsm_size_def)
  from decoder_receives_frames [OF this, of 8192 "[1, 2, 1]"] show ?thesis by (simp only: zero_less_numeral simp_thms) blast
qed

end
