(* ===== verification/Greeting.thy ===== *)
theory Greeting
  imports Plain Encoder Decoder
begin

text \<open>
  How a stream engine finds out which protocol its peer speaks (\<open>handshake\<close>, \<open>plug\<close> and the writing half
  of \<open>out_event\<close> of \<^verbatim>\<open>src/stream_engine.cpp\<close>).

  The buffers \<open>greeting_recv\<close> and \<open>greeting_send\<close> are the lists of the bytes stored in them so far, and
  \<open>gr_outsize\<close> is \<open>outsize\<close>, the bytes at the end of \<open>greeting_send\<close> that were not written yet; \<open>outpos\<close>
  points to the first of them.
\<close>

record greeting_t =
  greeting_recv :: "byte list"
  greeting_size :: nat
  greeting_send :: "byte list"
  gr_outsize :: nat

abbreviation signature_size :: nat where "signature_size \<equiv> 10"
abbreviation v2_greeting_size :: nat where "v2_greeting_size \<equiv> 12"
abbreviation v3_greeting_size :: nat where "v3_greeting_size \<equiv> 64"
abbreviation ZMTP_1_0 :: byte where "ZMTP_1_0 \<equiv> 0"
abbreviation ZMTP_2_0 :: byte where "ZMTP_2_0 \<equiv> 1"

text \<open>Bytes that are appended at \<open>outpos + outsize\<close>; the buffer has 64 bytes.\<close>

definition greeting_append :: "byte list \<Rightarrow> greeting_t \<Rightarrow> greeting_t option" where
  "greeting_append b g = do {
     zmq_assert (length (greeting_send g @ b) \<le> v3_greeting_size);
     Some (g\<lparr>greeting_send := greeting_send g @ b, gr_outsize := gr_outsize g + length b\<rparr>)
   }"

definition greeting_new :: "'mask options_t \<Rightarrow> greeting_t option" where
  "greeting_new opts = greeting_append (0xff # put_uint64 (of_nat (length (o_identity opts)) + 1) @ [0x7f])
     \<lparr>greeting_recv = [], greeting_size = v2_greeting_size, greeting_send = [], gr_outsize = 0\<rparr>"

text \<open>The name of a mechanism, padded to 20 bytes.\<close>

definition mechanism_name :: "mechanism_t \<Rightarrow> byte list" where
  "mechanism_name m = (let n = ascii (case m of ZMQ_NULL \<Rightarrow> ''NULL'' | ZMQ_PLAIN \<Rightarrow> ''PLAIN'' | ZMQ_CURVE \<Rightarrow> ''CURVE'')
     in n @ replicate (20 - length n) 0)"

text \<open>What the loop does with the bytes \<open>d\<close> of one \<open>read\<close>; the result says whether the loop is left.\<close>

definition greeting_received :: "'mask options_t \<Rightarrow> byte list \<Rightarrow> greeting_t \<Rightarrow> (bool \<times> greeting_t) option" where
  "greeting_received opts d g = do {
     zmq_assert (length (greeting_recv g @ d) \<le> v3_greeting_size);
     let g = g\<lparr>greeting_recv := greeting_recv g @ d\<rparr>;
     if greeting_recv g ! 0 \<noteq> 0xff then Some (True, g)
     else if length (greeting_recv g) < signature_size then Some (False, g)
     else if greeting_recv g ! 9 AND 1 = 0 then Some (True, g)
     else do {
       g \<leftarrow> (if length (greeting_send g) = signature_size then greeting_append [3] g else Some g);
       g \<leftarrow> (if length (greeting_recv g) > signature_size \<and> length (greeting_send g) = signature_size + 1
            then if greeting_recv g ! 10 = ZMTP_1_0 \<or> greeting_recv g ! 10 = ZMTP_2_0
                 then greeting_append [of_int (o_type opts)] g
                 else map_option (\<lambda>g. g\<lparr>greeting_size := v3_greeting_size\<rparr>)
                   (greeting_append (0 # mechanism_name (o_mechanism opts) @ replicate 32 0) g)
            else Some g);
       Some (False, g)
     }
   }"

datatype protocol_t = Unversioned | Version_1 | Version_2 | Version_3 mechanism_t

datatype greeting_result = Waiting | Refused | Speaks protocol_t

text \<open>\<open>session_base_t::zap_enabled\<close>\<close>

definition zap_enabled :: "'mask options_t \<Rightarrow> bool" where
  "zap_enabled opts \<longleftrightarrow> o_mechanism opts \<noteq> ZMQ_NULL \<or> (o_mechanism opts = ZMQ_NULL \<and> length (o_zap_domain opts) > 0)"

text \<open>The choice of encoder, decoder and mechanism; \<open>sodium\<close> says whether CURVE is compiled in.\<close>

definition select_protocol :: "bool \<Rightarrow> 'mask options_t \<Rightarrow> byte list \<Rightarrow> greeting_result" where
  "select_protocol sodium opts b =
     (if b ! 0 \<noteq> 0xff \<or> b ! 9 AND 1 = 0 then if zap_enabled opts then Refused else Speaks Unversioned
      else if b ! 10 = ZMTP_1_0 then if zap_enabled opts then Refused else Speaks Version_1
      else if b ! 10 = ZMTP_2_0 then if zap_enabled opts then Refused else Speaks Version_2
      else let name = take 20 (drop 12 b) in
        if o_mechanism opts = ZMQ_NULL \<and> name = mechanism_name ZMQ_NULL then Speaks (Version_3 ZMQ_NULL)
        else if o_mechanism opts = ZMQ_PLAIN \<and> name = mechanism_name ZMQ_PLAIN then Speaks (Version_3 ZMQ_PLAIN)
        else if sodium \<and> o_mechanism opts = ZMQ_CURVE \<and> name = mechanism_name ZMQ_CURVE then Speaks (Version_3 ZMQ_CURVE)
        else Refused)"

text \<open>
  \<open>handshake\<close>, called as often as there is something to read: \<open>bs\<close> is what the peer has sent and \<open>ns\<close>
  how much of it each \<open>read\<close> finds. What is left of \<open>bs\<close> is returned, too.
\<close>

fun handshake :: "bool \<Rightarrow> 'mask options_t \<Rightarrow> nat list \<Rightarrow> byte list \<Rightarrow> greeting_t \<Rightarrow>
    (greeting_result \<times> greeting_t \<times> byte list) option" where
  "handshake sodium opts [] bs g = Some (Waiting, g, bs)"
| "handshake sodium opts (n # ns) bs g = do {
     zmq_assert (length (greeting_recv g) < greeting_size g);
     let k = min n (greeting_size g - length (greeting_recv g));
     if take k bs = [] then handshake sodium opts ns bs g
     else do {
       (stop, g) \<leftarrow> greeting_received opts (take k bs) g;
       let bs = drop k bs;
       if \<not> stop \<and> length (greeting_recv g) < greeting_size g then handshake sodium opts ns bs g
       else Some (select_protocol sodium opts (greeting_recv g), g, bs)
     }
   }"

text \<open>
  With an unversioned peer the engine has already sent a header for its identity. The identity is
  loaded into the encoder, and the header that the encoder makes is thrown away.
\<close>

definition skip_identity_header :: "'mask options_t \<Rightarrow> enc_t option" where
  "skip_identity_header opts = do {
     let header_size = (if length (o_identity opts) + 1 \<ge> 255 then 10 else 2);
     e \<leftarrow> load_msg V1_encoder \<lparr>wm_flags = 0, wm_data = o_identity opts\<rparr> encoder_new;
     (_, b, e) \<leftarrow> encode V1_encoder 8192 False header_size e;
     zmq_assert (length b = header_size);
     Some e
   }"

text \<open>The writing half of \<open>out_event\<close>, where the transport takes \<open>n\<close> bytes: these bytes, and the state.\<close>

definition greeting_written :: "nat \<Rightarrow> greeting_t \<Rightarrow> byte list \<times> greeting_t" where
  "greeting_written n g = (let k = min n (gr_outsize g); outpos = length (greeting_send g) - gr_outsize g
     in (take k (drop outpos (greeting_send g)), g\<lparr>gr_outsize := gr_outsize g - k\<rparr>))"

subsection \<open>The protocol as a function of the bytes\<close>

text \<open>
  What the greeting of the peer says, as far as it has come in, and what is sent in answer: both
  depend on the bytes only.
\<close>

definition detect :: "bool \<Rightarrow> 'mask options_t \<Rightarrow> byte list \<Rightarrow> greeting_result" where
  "detect sodium opts b =
     (if b = [] \<or> b ! 0 = 0xff \<and> (length b < 10 \<or> b ! 9 AND 1 \<noteq> 0 \<and>
        (length b < 11 \<or> length b < (if b ! 10 = ZMTP_1_0 \<or> b ! 10 = ZMTP_2_0 then 12 else 64)))
      then Waiting else select_protocol sodium opts b)"

definition signature :: "'mask options_t \<Rightarrow> byte list" where
  "signature opts = 0xff # put_uint64 (of_nat (length (o_identity opts)) + 1) @ [0x7f]"

definition answer :: "'mask options_t \<Rightarrow> byte list \<Rightarrow> byte list" where
  "answer opts b = signature opts @
     (if b = [] \<or> b ! 0 \<noteq> 0xff \<or> length b < 10 \<or> b ! 9 AND 1 = 0 then []
      else 3 # (if length b < 11 then []
                else if b ! 10 = ZMTP_1_0 \<or> b ! 10 = ZMTP_2_0 then [of_int (o_type opts)]
                else 0 # mechanism_name (o_mechanism opts) @ replicate 32 0))"

lemma length_signature [simp]: "length (signature opts) = 10"
  by (simp add: signature_def)

lemma length_mechanism_name [simp]: "length (mechanism_name m) = 20"
  by (cases m) (simp_all add: mechanism_name_def Let_def)

lemma length_answer: "length (answer opts b) \<in> {10, 11, 12, 64}"
  by (simp add: answer_def)


lemma put_uint64_length [simp]: "length (put_uint64 v) = 8"
  by (simp add: put_uint64_def)

lemma answer_Nil [simp]: "answer opts [] = signature opts"
  by (simp add: answer_def)

text \<open>The state of an engine that has not decided yet.\<close>

definition greeting_ok :: "'mask options_t \<Rightarrow> greeting_t \<Rightarrow> bool" where
  "greeting_ok opts g \<longleftrightarrow> (let b = greeting_recv g in greeting_send g = answer opts b \<and> gr_outsize g \<le> length (answer opts b) \<and>
     greeting_size g = (if length b < 11 \<or> b ! 10 = ZMTP_1_0 \<or> b ! 10 = ZMTP_2_0 then 12 else 64))"

lemma greeting_new_ok: "\<exists>g. greeting_new opts = Some g \<and> greeting_ok opts g \<and> greeting_recv g = [] \<and> gr_outsize g = 10"
  by (simp add: greeting_new_def greeting_append_def greeting_ok_def signature_def)

lemma select_protocol_decides [simp]: "select_protocol sodium opts b \<noteq> Waiting"
  by (simp add: select_protocol_def Let_def)

lemma if_eq_then: "y \<noteq> x \<Longrightarrow> (if c then x else y) = x \<longleftrightarrow> c"
  by simp

lemma detect_waiting_iff:
  "detect sodium opts b = Waiting \<longleftrightarrow> b = [] \<or> b ! 0 = 0xff \<and> (length b < 10 \<or> b ! 9 AND 1 \<noteq> 0 \<and>
     (length b < 11 \<or> length b < (if b ! 10 = ZMTP_1_0 \<or> b ! 10 = ZMTP_2_0 then 12 else 64)))"
  unfolding detect_def by (rule if_eq_then) simp

lemma detect_select: "detect sodium opts b \<noteq> Waiting \<Longrightarrow> detect sodium opts b = select_protocol sodium opts b"
  unfolding detect_def by (rule if_not_P) metis

lemma detect_decided:
  assumes dec: "detect sodium opts b \<noteq> Waiting"
  shows "detect sodium opts (b @ c) = detect sodium opts b"
proof -
  have b: "b \<noteq> []" using dec by (auto simp: detect_def)
  have n: "(b @ c) ! i = b ! i" if "i < length b" for i using that by (simp add: nth_append)
  have "select_protocol sodium opts (b @ c) = select_protocol sodium opts b"
  proof (cases "b ! 0 = 0xff \<and> b ! 9 AND 1 \<noteq> 0 \<and> 10 \<le> length b")
    case False
    then show ?thesis using dec b n [of 0] n [of 9] unfolding detect_waiting_iff by (auto simp: select_protocol_def)
  next
    case True
    then have l: "11 \<le> length b" "(if b ! 10 = ZMTP_1_0 \<or> b ! 10 = ZMTP_2_0 then 12 else 64) \<le> length b"
      using dec b unfolding detect_waiting_iff by linarith+
    show ?thesis
    proof (cases "b ! 10 = ZMTP_1_0 \<or> b ! 10 = ZMTP_2_0")
      case t: True
      have "(b @ c) ! 0 = b ! 0" "(b @ c) ! 9 = b ! 9" "(b @ c) ! 10 = b ! 10" using l(1) by (auto intro!: n)
      then show ?thesis using t True by (elim disjE) (simp_all add: select_protocol_def)
    next
      case f: False
      then have "64 \<le> length b" using l(2) by (simp only: if_False)
      then have "take 20 (drop 12 (b @ c)) = take 20 (drop 12 b)" by simp
      moreover have "(b @ c) ! 0 = b ! 0" "(b @ c) ! 9 = b ! 9" "(b @ c) ! 10 = b ! 10" using l(1) by (auto intro!: n)
      ultimately show ?thesis by (simp only: select_protocol_def)
    qed
  qed
  moreover have "detect sodium opts (b @ c) \<noteq> Waiting"
    using dec b n [of 0] n [of 9] n [of 10] unfolding detect_waiting_iff
    by (cases "length b < 10"; cases "length b < 11"; auto simp del: if_split)
  ultimately show ?thesis using detect_select dec by metis
qed

text \<open>One read.\<close>

lemma greeting_received_ok:
  assumes ok: "greeting_ok opts g" and w: "detect sodium opts (greeting_recv g) = Waiting" and d: "d \<noteq> []"
    and size: "length (greeting_recv g) + length d \<le> greeting_size g"
  shows "\<exists>stop g' e. greeting_received opts d g = Some (stop, g') \<and> greeting_recv g' = greeting_recv g @ d \<and>
    greeting_send g' = answer opts (greeting_recv g') \<and> greeting_send g' = greeting_send g @ e \<and> gr_outsize g' = gr_outsize g + length e \<and>
    (if stop \<or> greeting_size g' \<le> length (greeting_recv g')
     then detect sodium opts (greeting_recv g') \<noteq> Waiting
     else greeting_ok opts g' \<and> detect sodium opts (greeting_recv g') = Waiting)"
    (is "\<exists>stop g' e. ?P stop g' e")
proof -
  define b where "b = greeting_recv g"
  define B where "B = b @ d"
  have g: "greeting_recv g = b" "greeting_send g = answer opts b" "gr_outsize g \<le> length (answer opts b)"
    "greeting_size g = (if length b < 11 \<or> b ! 10 = ZMTP_1_0 \<or> b ! 10 = ZMTP_2_0 then 12 else 64)"
    using ok unfolding greeting_ok_def Let_def b_def by simp_all
  have B: "B \<noteq> []" "length B = length b + length d" "length B > 0" using d by (simp_all add: B_def)
  have sz: "length b + length d \<le> (if length b < 11 \<or> b ! 10 = ZMTP_1_0 \<or> b ! 10 = ZMTP_2_0 then 12 else 64)"
    using size g by (simp split del: if_split)
  then have B64: "length B \<le> 64" using B by (simp split: if_splits)
  have n: "B ! i = b ! i" if "i < length b" for i using that by (simp add: B_def nth_append)
  have n0: "b = [] \<or> B ! 0 = b ! 0" using n [of 0] by (cases b) simp_all
  have n9: "length b < 10 \<or> B ! 9 = b ! 9" using n [of 9] by linarith
  have n10: "length b < 11 \<or> B ! 10 = b ! 10" using n [of 10] by linarith
  have wb: "b = [] \<or> B ! 0 = 0xff \<and> (length b < 10 \<or> B ! 9 AND 1 \<noteq> 0 \<and>
      (length b < 11 \<or> length b < (if B ! 10 = ZMTP_1_0 \<or> B ! 10 = ZMTP_2_0 then 12 else 64)))"
    using w n0 n9 n10 unfolding g(1) detect_waiting_iff by metis
  let ?g = "g\<lparr>greeting_recv := B\<rparr>"
  consider "B ! 0 \<noteq> 0xff" | "B ! 0 = 0xff" "length B < 10" | "B ! 0 = 0xff" "10 \<le> length B" "B ! 9 AND 1 = 0"
    | "B ! 0 = 0xff" "10 \<le> length B" "B ! 9 AND 1 \<noteq> 0" by linarith
  then show ?thesis
  proof cases
    case 1
    then have "b = []" using wb by blast
    then have "?P True ?g []" using 1 B g B64 by (simp add: greeting_received_def B_def answer_def detect_waiting_iff)
    then show ?thesis by blast
  next
    case 2
    then have "answer opts b = signature opts" "answer opts B = signature opts" using B by (simp_all add: answer_def)
    then have "?P False ?g []" using 2 B g by (simp add: greeting_received_def B_def detect_waiting_iff greeting_ok_def Let_def)
    then show ?thesis by blast
  next
    case 3
    then have "length b < 10" using wb by auto
    then have "answer opts b = signature opts" "answer opts B = signature opts" using B 3 by (simp_all add: answer_def)
    then have "?P True ?g []" using 3 B g B64 by (simp add: greeting_received_def B_def detect_waiting_iff)
    then show ?thesis by blast
  next
    case 4
    show ?thesis
    proof (cases "length b < 11")
      case False
      then have b: "b \<noteq> []" "b ! 0 = B ! 0" "b ! 9 = B ! 9" "b ! 10 = B ! 10" "11 \<le> length b" using False n0 n9 n10 by auto
      have e: "answer opts B = answer opts b" using b 4 B by (simp add: answer_def)
      have l: "length (answer opts b) \<noteq> 10" "length (answer opts b) \<noteq> 11" using b 4 by (simp_all add: answer_def)
      have r: "greeting_received opts d g = Some (False, ?g)" using 4 B g l B64 b by (simp add: greeting_received_def B_def Let_def)
      have "?P False ?g []" unfolding r using 4 B g e b by (simp add: B_def [symmetric] detect_waiting_iff greeting_ok_def Let_def)
      then show ?thesis by blast
    next
      case True
      define e1 where "e1 = (if length b < 10 then [3 :: byte] else [])"
      let ?g1 = "?g\<lparr>greeting_send := signature opts @ [3], gr_outsize := gr_outsize g + length e1\<rparr>"
      have s: "answer opts b @ e1 = signature opts @ [3]" using True wb 4 n0 n9 by (cases "b = []"; cases "length b < 10"; auto simp: answer_def e1_def)
      have s1: "(if length (greeting_send ?g) = signature_size then greeting_append [3] ?g else Some ?g) = Some ?g1"
      proof (cases "length b < 10")
        case True
        then have "answer opts b = signature opts" by (simp add: answer_def)
        then show ?thesis using True g by (simp add: greeting_append_def e1_def)
      next
        case False
        then have "answer opts b = signature opts @ [3]" using s by (simp add: e1_def)
        then show ?thesis using False g by (simp add: e1_def)
      qed
      have gs: "greeting_size ?g1 = 12" using g True by simp
      have out: "gr_outsize g + length e1 \<le> 11" using g(3) arg_cong [OF s, of length] by simp
      show ?thesis
      proof (cases "length B = 10")
        case 5: True
        then have "greeting_received opts d g = Some (False, ?g1)" 
          using 4 B B64 s1 unfolding greeting_received_def Let_def g(1) B_def [symmetric] by simp
        moreover have "answer opts B = signature opts @ [3]" using 4 5 B by (simp add: answer_def)
        ultimately have "?P False ?g1 e1" using 4 5 s g gs out B by (simp add: B_def [symmetric] detect_waiting_iff greeting_ok_def Let_def)
        then show ?thesis by blast
      next
        case 5: False
        then have l: "11 \<le> length B" using 4 by simp
        show ?thesis
        proof (cases "B ! 10 = ZMTP_1_0 \<or> B ! 10 = ZMTP_2_0")
          case 6: True
          let ?g2 = "?g1\<lparr>greeting_send := signature opts @ [3, of_int (o_type opts)], gr_outsize := gr_outsize g + length e1 + 1\<rparr>"
          have "greeting_received opts d g = Some (False, ?g2)"
            using 4 6 l B B64 s1 unfolding greeting_received_def Let_def g(1) B_def [symmetric] by (simp add: greeting_append_def)
          moreover have "answer opts B = signature opts @ [3, of_int (o_type opts)]" using 4 6 l B by (simp add: answer_def)
          moreover have "signature opts @ [3, of_int (o_type opts)] = answer opts b @ e1 @ [of_int (o_type opts)]"
            unfolding append_assoc [symmetric] s by simp
          moreover have "detect sodium opts B = Waiting \<longleftrightarrow> length B < 12" using 4 6 l B by (auto simp: detect_waiting_iff)
          ultimately have "?P False ?g2 (e1 @ [of_int (o_type opts)])"
            using 6 l g gs out by (simp add: B_def [symmetric] greeting_ok_def Let_def)
          then show ?thesis by blast
        next
          case 6: False
          let ?x = "0 # mechanism_name (o_mechanism opts) @ replicate 32 (0 :: byte)"
          let ?g2 = "?g1\<lparr>greeting_send := signature opts @ 3 # ?x, gr_outsize := gr_outsize g + length e1 + 53, greeting_size := 64\<rparr>"
          have "greeting_received opts d g = Some (False, ?g2)"
            using 4 6 l B B64 s1 unfolding greeting_received_def Let_def g(1) B_def [symmetric] by (simp add: greeting_append_def)
          moreover have "answer opts B = signature opts @ 3 # ?x" using 4 6 l B by (simp add: answer_def)
          moreover have "signature opts @ 3 # ?x = answer opts b @ e1 @ ?x"
            unfolding append_assoc [symmetric] s by simp
          moreover have "length B \<le> 12" using sz True B by simp
          moreover have "detect sodium opts B = Waiting \<longleftrightarrow> length B < 64" using 4 6 l B by (auto simp: detect_waiting_iff)
          ultimately have "?P False ?g2 (e1 @ ?x)"
            using 6 l g gs out by (simp add: B_def [symmetric] greeting_ok_def Let_def)
          then show ?thesis by blast
        qed
      qed
    qed
  qed
qed

subsection \<open>Any way of reading\<close>

lemma waiting_room:
  assumes "greeting_ok opts g" and "detect sodium opts (greeting_recv g) = Waiting"
  shows "length (greeting_recv g) < greeting_size g" and "greeting_size g \<le> 64"
  using assms unfolding greeting_ok_def detect_waiting_iff Let_def by (auto split: if_splits)

lemma handshake_ok:
  assumes "greeting_ok opts g" and "detect sodium opts (greeting_recv g) = Waiting"
  shows "\<exists>r g' rest e. handshake sodium opts ns bs g = Some (r, g', rest) \<and> greeting_recv g @ bs = greeting_recv g' @ rest \<and>
    length (greeting_recv g') \<le> 64 \<and> r = detect sodium opts (greeting_recv g') \<and> greeting_send g' = answer opts (greeting_recv g') \<and>
    greeting_send g' = greeting_send g @ e \<and> gr_outsize g' = gr_outsize g + length e \<and> (r = Waiting \<longrightarrow> greeting_ok opts g') \<and>
    (r = Waiting \<and> (\<forall>n\<in>set ns. 0 < n) \<longrightarrow> rest = [] \<or> length (greeting_recv g) + length ns \<le> length (greeting_recv g'))"
  using assms
proof (induction ns arbitrary: bs g)
  case Nil
  have "length (greeting_recv g) \<le> 64" using waiting_room [OF Nil] by simp
  then show ?case using Nil by (simp add: greeting_ok_def Let_def)
next
  case (Cons n ns)
  note room = waiting_room [OF Cons.prems]
  define d where "d = take (min n (greeting_size g - length (greeting_recv g))) bs"
  define bs' where "bs' = drop (min n (greeting_size g - length (greeting_recv g))) bs"
  have bs: "bs = d @ bs'" by (simp add: d_def bs'_def)
  show ?case
  proof (cases "d = []")
    case True
    then have e: "handshake sodium opts (n # ns) bs g = handshake sodium opts ns bs g" using room unfolding d_def by simp
    have none: "n = 0 \<or> bs = []" using True room unfolding d_def by auto
    obtain r g' rest e' where "handshake sodium opts ns bs g = Some (r, g', rest)" "greeting_recv g @ bs = greeting_recv g' @ rest"
      "length (greeting_recv g') \<le> 64" "r = detect sodium opts (greeting_recv g')" "greeting_send g' = answer opts (greeting_recv g')"
      "greeting_send g' = greeting_send g @ e'" "gr_outsize g' = gr_outsize g + length e'" "r = Waiting \<longrightarrow> greeting_ok opts g'"
      "r = Waiting \<and> (\<forall>n\<in>set ns. 0 < n) \<longrightarrow> rest = [] \<or> length (greeting_recv g) + length ns \<le> length (greeting_recv g')"
      using Cons.IH [OF Cons.prems, of bs] by blast
    note h = this
    have "length (greeting_recv g) + length bs = length (greeting_recv g') + length rest" using arg_cong [OF h(2), of length] by simp
    then have f: "r = Waiting \<and> (\<forall>n\<in>set (n # ns). 0 < n) \<longrightarrow> rest = [] \<or> length (greeting_recv g) + length (n # ns) \<le> length (greeting_recv g')"
      using none h(9) by auto
    show ?thesis unfolding e
      by (rule exI [of _ r], rule exI [of _ g'], rule exI [of _ rest], rule exI [of _ e'], intro conjI; rule h f)
  next
    case False
    have len: "length (greeting_recv g) + length d \<le> greeting_size g" using room by (simp add: d_def)
    obtain stop g1 e1 where r1: "greeting_received opts d g = Some (stop, g1)" "greeting_recv g1 = greeting_recv g @ d"
      "greeting_send g1 = answer opts (greeting_recv g1)" "greeting_send g1 = greeting_send g @ e1" "gr_outsize g1 = gr_outsize g + length e1"
      and i: "if stop \<or> greeting_size g1 \<le> length (greeting_recv g1) then detect sodium opts (greeting_recv g1) \<noteq> Waiting
        else greeting_ok opts g1 \<and> detect sodium opts (greeting_recv g1) = Waiting"
      using greeting_received_ok [OF Cons.prems False len] by blast
    have step: "handshake sodium opts (n # ns) bs g = (if \<not> (stop \<or> greeting_size g1 \<le> length (greeting_recv g1))
        then handshake sodium opts ns bs' g1 else Some (select_protocol sodium opts (greeting_recv g1), g1, bs'))"
      using room(1) False r1(1) by (auto simp: d_def [symmetric] bs'_def [symmetric] Let_def simp del: take_eq_Nil take_eq_Nil2)
    show ?thesis
    proof (cases "stop \<or> greeting_size g1 \<le> length (greeting_recv g1)")
      case True
      then have dec: "detect sodium opts (greeting_recv g1) \<noteq> Waiting" using i by simp
      have "length (greeting_recv g1) \<le> 64" using r1(2) len room by simp
      moreover have "handshake sodium opts (n # ns) bs g = Some (detect sodium opts (greeting_recv g1), g1, bs')"
        using step True detect_select [OF dec] by simp
      moreover have "greeting_recv g @ bs = greeting_recv g1 @ bs'" using r1(2) bs by simp
      ultimately show ?thesis using r1 dec by blast
    next
      case False
      then have ok: "greeting_ok opts g1" "detect sodium opts (greeting_recv g1) = Waiting" using i by simp_all
      obtain r g' rest e' where "handshake sodium opts ns bs' g1 = Some (r, g', rest)" "greeting_recv g1 @ bs' = greeting_recv g' @ rest"
        "length (greeting_recv g') \<le> 64" "r = detect sodium opts (greeting_recv g')" "greeting_send g' = answer opts (greeting_recv g')"
        "greeting_send g' = greeting_send g1 @ e'" "gr_outsize g' = gr_outsize g1 + length e'" "r = Waiting \<longrightarrow> greeting_ok opts g'"
        "r = Waiting \<and> (\<forall>n\<in>set ns. 0 < n) \<longrightarrow> rest = [] \<or> length (greeting_recv g1) + length ns \<le> length (greeting_recv g')"
        using Cons.IH [OF ok, of bs'] by blast
      note h = this
      have "1 \<le> length d" using \<open>d \<noteq> []\<close> by (cases d) simp_all
      then have f: "r = Waiting \<and> (\<forall>n\<in>set (n # ns). 0 < n) \<longrightarrow> rest = [] \<or> length (greeting_recv g) + length (n # ns) \<le> length (greeting_recv g')"
        using h(9) r1(2) by auto
      have f2: "handshake sodium opts (n # ns) bs g = Some (r, g', rest)" using step False h(1) by simp
      have f3: "greeting_recv g @ bs = greeting_recv g' @ rest" using h(2) r1(2) bs by simp
      have f4: "greeting_send g' = greeting_send g @ e1 @ e'" using h(6) r1(4) by simp
      have f5: "gr_outsize g' = gr_outsize g + length (e1 @ e')" using h(7) r1(5) by simp
      show ?thesis
        by (rule exI [of _ r], rule exI [of _ g'], rule exI [of _ rest], rule exI [of _ "e1 @ e'"], intro conjI; rule f2 f3 f4 f5 h(3-5,8) f)
    qed
  qed
qed

text \<open>
  C33: The engine recognises the protocol of its peer from the bytes that it receives, however the transport
  cuts them: no read fails an assertion or writes behind the buffers, whatever the peer sends. At
  most 64 bytes are consumed and what is answered depends on these bytes only. A decision is the
  one that the bytes of the peer call for, and with enough reads it is made as soon as they do.
\<close>
theorem handshake_detects:
  "\<exists>g r g' rest. greeting_new opts = Some g \<and> handshake sodium opts ns bs g = Some (r, g', rest) \<and>
     bs = greeting_recv g' @ rest \<and> length (greeting_recv g') \<le> 64 \<and> greeting_send g' = answer opts (greeting_recv g') \<and>
     (r \<noteq> Waiting \<longrightarrow> r = detect sodium opts bs) \<and>
     (64 \<le> length ns \<and> (\<forall>n\<in>set ns. 0 < n) \<longrightarrow> r = detect sodium opts bs)"
proof -
  obtain g where g: "greeting_new opts = Some g" "greeting_ok opts g" "greeting_recv g = []" using greeting_new_ok by blast
  have w: "detect sodium opts (greeting_recv g) = Waiting" by (simp add: g(3) detect_def)
  obtain r g' rest where h: "handshake sodium opts ns bs g = Some (r, g', rest)" "bs = greeting_recv g' @ rest"
    "length (greeting_recv g') \<le> 64" "r = detect sodium opts (greeting_recv g')" "greeting_send g' = answer opts (greeting_recv g')"
    "r = Waiting \<longrightarrow> greeting_ok opts g'"
    "r = Waiting \<and> (\<forall>n\<in>set ns. 0 < n) \<longrightarrow> rest = [] \<or> length ns \<le> length (greeting_recv g')"
    using handshake_ok [OF g(2) w, of ns bs] unfolding g(3) by auto
  have d: "r = detect sodium opts bs" if "r \<noteq> Waiting" using that h(2,4) detect_decided [of sodium opts "greeting_recv g'" rest] by simp
  have "r = detect sodium opts bs" if n: "64 \<le> length ns" "\<forall>n\<in>set ns. 0 < n"
  proof (cases "r = Waiting")
    case True
    then have "length (greeting_recv g') < 64" using h(4,6) waiting_room [of opts g' sodium] by simp
    then have "rest = []" using h(7) True n by auto
    then show ?thesis using h(2,4) by simp
  qed (rule d)
  then show ?thesis using g(1) h d by blast
qed

theorem handshake_detects_witness:
  "\<exists>g g' rest. greeting_new (options_new [] :: unit options_t) = Some g \<and>
     handshake False (options_new [] :: unit options_t) (replicate 64 3) (signature (options_new [] :: unit options_t) @ [1, 8, 42]) g
       = Some (Speaks Version_2, g', rest)"
proof -
  let ?o = "options_new [] :: unit options_t"
  have "detect False ?o (signature ?o @ [1, 8, 42]) = Speaks Version_2"
    by (simp add: detect_def select_protocol_def zap_enabled_def options_new_def signature_def put_uint64_def)
  moreover have "64 \<le> length (replicate 64 (3 :: nat)) \<and> (\<forall>n\<in>set (replicate 64 (3 :: nat)). 0 < n)" by simp
  ultimately show ?thesis using handshake_detects [of ?o False "replicate 64 3" "signature ?o @ [1, 8, 42]"] by metis
qed

subsection \<open>Two engines\<close>

text \<open>
  Two engines of this version, joined by two streams of bytes. Each side writes what it can when the
  transport takes it (\<open>out_event\<close>) and reads when something has come in (\<open>in_event\<close>); an engine that
  refuses its peer is closed.
\<close>

record side =
  side_greeting :: greeting_t
  side_result :: greeting_result
  side_in :: "byte list"

inductive meeting :: "bool \<Rightarrow> bool \<Rightarrow> 'mask options_t \<Rightarrow> 'mask options_t \<Rightarrow> side \<Rightarrow> side \<Rightarrow> bool" where
  start: "\<lbrakk>greeting_new a = Some g; greeting_new b = Some h\<rbrakk> \<Longrightarrow>
    meeting sa sb a b \<lparr>side_greeting = g, side_result = Waiting, side_in = []\<rparr> \<lparr>side_greeting = h, side_result = Waiting, side_in = []\<rparr>"
| writes: "\<lbrakk>meeting sa sb a b s t; side_result s \<noteq> Refused; greeting_written n (side_greeting s) = (w, g)\<rbrakk> \<Longrightarrow>
    meeting sa sb a b (s\<lparr>side_greeting := g\<rparr>) (t\<lparr>side_in := side_in t @ w\<rparr>)"
| reads: "\<lbrakk>meeting sa sb a b s t; side_result s = Waiting; handshake sa a ns (side_in s) (side_greeting s) = Some (r, g, rest)\<rbrakk> \<Longrightarrow>
    meeting sa sb a b \<lparr>side_greeting = g, side_result = r, side_in = rest\<rparr> t"
| swap: "meeting sa sb a b s t \<Longrightarrow> meeting sb sa b a t s"

text \<open>The greeting of version 3, and what a pair of engines with such greetings agrees on.\<close>

definition full_greeting :: "'mask options_t \<Rightarrow> byte list" where
  "full_greeting opts = signature opts @ 3 # 0 # mechanism_name (o_mechanism opts) @ replicate 32 0"

definition agreed :: "bool \<Rightarrow> mechanism_t \<Rightarrow> mechanism_t \<Rightarrow> greeting_result" where
  "agreed sodium m m' = (if m = m' \<and> (m = ZMQ_CURVE \<longrightarrow> sodium) then Speaks (Version_3 m) else Refused)"

lemma full_greeting_bytes [simp]:
  "length (full_greeting opts) = 64" "full_greeting opts ! 0 = 0xff" "full_greeting opts ! 9 = 0x7f" "full_greeting opts ! 10 = 3"
  "take 20 (drop 12 (full_greeting opts)) = mechanism_name (o_mechanism opts)"
  by (simp_all add: full_greeting_def signature_def nth_append)

lemma mechanism_name_inj [simp]: "mechanism_name m = mechanism_name m' \<longleftrightarrow> m = m'"
proof -
  have h: "mechanism_name x ! 0 = (case x of ZMQ_NULL \<Rightarrow> 78 | ZMQ_PLAIN \<Rightarrow> 80 | ZMQ_CURVE \<Rightarrow> 67)" for x
    by (cases x) (simp_all add: mechanism_name_def ascii_def)
  then have "m = m'" if "mechanism_name m = mechanism_name m'"
    using arg_cong [OF that, of "\<lambda>l. l ! 0"] by (cases m; cases m') simp_all
  then show ?thesis by blast
qed

text \<open>With a part of such a greeting.\<close>

lemma detect_full:
  assumes "take k (full_greeting b) = p" and "k \<le> 64"
  shows "detect sodium a p = (if k < 64 then Waiting else agreed sodium (o_mechanism a) (o_mechanism b))"
proof (cases "k < 64")
  case True
  have "length p = k" using assms by auto
  moreover have "p ! 0 = 0xff" if "p \<noteq> []" using assms that by (auto simp: nth_take)
  moreover have "p ! 9 = 0x7f" if "10 \<le> length p" using assms that by (auto simp: nth_take)
  moreover have "p ! 10 = 3" if "11 \<le> length p" using assms that by (auto simp: nth_take)
  ultimately have "detect sodium a p = Waiting" using True unfolding detect_waiting_iff by (auto simp: not_less)
  then show ?thesis using True by simp
next
  case False
  then have p: "p = full_greeting b" using assms by auto
  have "p \<noteq> []" using p by (auto dest: arg_cong [of _ _ length])
  then have "detect sodium a p \<noteq> Waiting" unfolding detect_waiting_iff by (simp add: p)
  then have "detect sodium a p = select_protocol sodium a p" by (rule detect_select)
  also have "\<dots> = agreed sodium (o_mechanism a) (o_mechanism b)"
    by (cases "o_mechanism a"; cases "o_mechanism b"; simp add: select_protocol_def agreed_def p)
  finally show ?thesis using False by simp
qed

lemma answer_full:
  assumes "take k (full_greeting b) = p" and "k \<le> 64"
  shows "answer a p = take (if k < 10 then 10 else if k = 10 then 11 else 64) (full_greeting a)"
proof -
  have l: "length p = k" using assms by auto
  have n: "p ! i = full_greeting b ! i" if "i < k" for i using that assms by auto
  show ?thesis
  proof (cases "k < 10")
    case True
    then show ?thesis using l by (simp add: answer_def full_greeting_def)
  next
    case False
    then have "p \<noteq> []" "p ! 0 = 0xff" "p ! 9 AND 1 \<noteq> 0" using l n [of 0] n [of 9] by auto
    moreover have "p ! 10 = 3" if "k \<noteq> 10" using False that n [of 10] by simp
    ultimately show ?thesis using False l by (auto simp: answer_def full_greeting_def)
  qed
qed

text \<open>What holds of one side, which reads what the other one has written.\<close>

definition side_ok :: "bool \<Rightarrow> 'mask options_t \<Rightarrow> 'mask options_t \<Rightarrow> side \<Rightarrow> side \<Rightarrow> bool" where
  "side_ok sa a b s t \<longleftrightarrow> (let g = side_greeting s; h = side_greeting t; k = length (greeting_recv g) in
     k \<le> 64 \<and> greeting_recv g = take k (full_greeting b) \<and>
     side_result s = (if k < 64 then Waiting else agreed sa (o_mechanism a) (o_mechanism b)) \<and>
     (side_result s = Waiting \<longrightarrow> greeting_ok a g) \<and>
     greeting_send g = answer a (greeting_recv g) \<and> gr_outsize g \<le> length (greeting_send g) \<and>
     take (length (greeting_send h) - gr_outsize h) (greeting_send h) = greeting_recv g @ side_in s)"

lemma agreed_decides [simp]: "agreed sa m m' \<noteq> Waiting" "Waiting \<noteq> agreed sa m m'"
  by (simp_all add: agreed_def)

lemma side_okD:
  assumes "side_ok sa a b s t"
  shows "length (greeting_recv (side_greeting s)) \<le> 64"
    and "take (length (greeting_recv (side_greeting s))) (full_greeting b) = greeting_recv (side_greeting s)"
    and "side_result s = (if length (greeting_recv (side_greeting s)) < 64 then Waiting else agreed sa (o_mechanism a) (o_mechanism b))"
    and "side_result s = Waiting \<Longrightarrow> greeting_ok a (side_greeting s)"
    and "greeting_send (side_greeting s) = answer a (greeting_recv (side_greeting s))"
    and "gr_outsize (side_greeting s) \<le> length (greeting_send (side_greeting s))"
    and "take (length (greeting_send (side_greeting t)) - gr_outsize (side_greeting t)) (greeting_send (side_greeting t))
      = greeting_recv (side_greeting s) @ side_in s"
  using assms unfolding side_ok_def Let_def by (elim conjE, simp)+

text \<open>What the sent bytes of a side are a part of.\<close>

lemma side_ok_sends:
  assumes "side_ok sa a b s t"
  shows "take k (greeting_send (side_greeting s)) = take (min k (length (greeting_send (side_greeting s)))) (full_greeting a)"
proof -
  have "greeting_send (side_greeting s) = answer a (greeting_recv (side_greeting s))" "length (greeting_recv (side_greeting s)) \<le> 64"
    "greeting_recv (side_greeting s) = take (length (greeting_recv (side_greeting s))) (full_greeting b)"
    using assms by (simp_all add: side_ok_def Let_def)
  then obtain l where "greeting_send (side_greeting s) = take l (full_greeting a)" using answer_full by metis
  then show ?thesis by (auto simp: min_def)
qed

lemma side_ok_waiting:
  assumes "side_ok sa a b s t" and "side_result s = Waiting"
  shows "greeting_ok a (side_greeting s)" and "detect sa a (greeting_recv (side_greeting s)) = Waiting"
proof -
  show "greeting_ok a (side_greeting s)" using assms by (simp add: side_ok_def Let_def)
  have "length (greeting_recv (side_greeting s)) < 64" using side_okD(3) [OF assms(1)] assms(2) by (simp split: if_splits)
  then show "detect sa a (greeting_recv (side_greeting s)) = Waiting"
    using detect_full [OF side_okD(2,1) [OF assms(1)], of sa a] by simp
qed

lemma side_okI:
  assumes "length (greeting_recv g) \<le> 64" and "take (length (greeting_recv g)) (full_greeting b) = greeting_recv g"
    and "r = (if length (greeting_recv g) < 64 then Waiting else agreed sa (o_mechanism a) (o_mechanism b))"
    and "r = Waiting \<Longrightarrow> greeting_ok a g" and "greeting_send g = answer a (greeting_recv g)"
    and "gr_outsize g \<le> length (greeting_send g)"
    and "take (length (greeting_send (side_greeting t)) - gr_outsize (side_greeting t)) (greeting_send (side_greeting t)) = greeting_recv g @ i"
  shows "side_ok sa a b \<lparr>side_greeting = g, side_result = r, side_in = i\<rparr> t"
  unfolding side_ok_def Let_def side.simps using assms(2) by (intro conjI impI assms) simp_all

lemma meeting_ok: "meeting sa sb a b s t \<Longrightarrow> side_ok sa a b s t \<and> side_ok sb b a t s"
proof (induction rule: meeting.induct)
  case (start a g b h sa sb)
  then have "greeting_ok a g \<and> greeting_recv g = [] \<and> gr_outsize g = 10" "greeting_ok b h \<and> greeting_recv h = [] \<and> gr_outsize h = 10"
    using greeting_new_ok [of a] greeting_new_ok [of b] by auto
  then show ?case by (simp add: side_ok_def greeting_ok_def Let_def)
next
  case (writes sa sb a b s t n w g)
  define h where "h = side_greeting s"
  have w: "w = take (min n (gr_outsize h)) (drop (length (greeting_send h) - gr_outsize h) (greeting_send h))"
    "g = h\<lparr>gr_outsize := gr_outsize h - min n (gr_outsize h)\<rparr>"
    using writes by (simp_all add: greeting_written_def h_def Let_def)
  have ok: "side_ok sa a b s t" "side_ok sb b a t s" using writes.IH by simp_all
  have g: "greeting_recv g = greeting_recv h" "greeting_send g = greeting_send h" "greeting_ok a h \<Longrightarrow> greeting_ok a g" "gr_outsize g \<le> gr_outsize h"
    by (simp_all add: w(2)) (auto simp: greeting_ok_def Let_def)
  have s: "side_ok sa a b \<lparr>side_greeting = g, side_result = side_result s, side_in = side_in s\<rparr> (t\<lparr>side_in := side_in t @ w\<rparr>)"
    using side_okD [OF ok(1), folded h_def] g by (intro side_okI) (simp_all only: side.simps, simp)
  have "length (greeting_send g) - gr_outsize g = length (greeting_send h) - gr_outsize h + min n (gr_outsize h)"
    using side_okD(6) [OF ok(1)] unfolding w(2) h_def by simp
  then have "take (length (greeting_send g) - gr_outsize g) (greeting_send g)
      = take (length (greeting_send h) - gr_outsize h) (greeting_send h) @ w"
    unfolding w by (simp add: take_add)
  then have "side_ok sb b a \<lparr>side_greeting = side_greeting t, side_result = side_result t, side_in = side_in t @ w\<rparr> (s\<lparr>side_greeting := g\<rparr>)"
    using side_okD [OF ok(2)] by (intro side_okI) (simp_all add: h_def)
  with s show ?case by (cases s; cases t) simp
next
  case (reads sa sb a b s t ns r g rest)
  let ?g = "side_greeting s"
  have ok: "side_ok sa a b s t" "side_ok sb b a t s" using reads.IH by simp_all
  obtain r' g' rest' e where "handshake sa a ns (side_in s) ?g = Some (r', g', rest')" "greeting_recv ?g @ side_in s = greeting_recv g' @ rest'"
    "length (greeting_recv g') \<le> 64" "r' = detect sa a (greeting_recv g')" "greeting_send g' = answer a (greeting_recv g')"
    "greeting_send g' = greeting_send ?g @ e" "gr_outsize g' = gr_outsize ?g + length e" "r' = Waiting \<longrightarrow> greeting_ok a g'"
    using handshake_ok [OF side_ok_waiting [OF ok(1) reads.hyps(2)], of ns "side_in s"] by (elim exE conjE) (rule that, assumption+)
  moreover from this(1) reads.hyps(3) have "r' = r" "g' = g" "rest' = rest" by simp_all
  ultimately have h: "greeting_recv ?g @ side_in s = greeting_recv g @ rest" "length (greeting_recv g) \<le> 64"
    "r = detect sa a (greeting_recv g)" "greeting_send g = answer a (greeting_recv g)" "greeting_send g = greeting_send ?g @ e"
    "gr_outsize g = gr_outsize ?g + length e" "r = Waiting \<longrightarrow> greeting_ok a g" by simp_all
  let ?h = "side_greeting t"
  have t: "take (length (greeting_send ?h) - gr_outsize ?h) (greeting_send ?h) = greeting_recv g @ rest"
    using ok(1) h(1) by (simp add: side_ok_def Let_def)
  obtain m where "greeting_recv g @ rest = take m (full_greeting b)" using side_ok_sends [OF ok(2)] t by metis
  then have "take (length (greeting_recv g)) (take m (full_greeting b)) = greeting_recv g" by (metis append_eq_conv_conj)
  moreover have "length (greeting_recv g) \<le> m \<or> 64 \<le> m"
    using arg_cong [OF \<open>greeting_recv g @ rest = take m (full_greeting b)\<close>, of length] by auto
  ultimately have p: "take (length (greeting_recv g)) (full_greeting b) = greeting_recv g" using h(2) by (auto simp: min_def)
  have out: "gr_outsize g \<le> length (greeting_send g)" using side_okD(6) [OF ok(1)] unfolding h(5,6) by simp
  have "side_ok sa a b \<lparr>side_greeting = g, side_result = r, side_in = rest\<rparr> t"
    using detect_full [OF p h(2), of sa a] h(3) out by (intro side_okI h(2) p t h(4)) (use h(7) in simp_all)
  moreover have "take (length (greeting_send g) - gr_outsize g) (greeting_send g) = greeting_recv ?h @ side_in t"
    using side_okD(7) [OF ok(2)] side_okD(6) [OF ok(1)] unfolding h(5,6) by simp
  then have "side_ok sb b a t \<lparr>side_greeting = g, side_result = r, side_in = rest\<rparr>"
    using side_okD [OF ok(2)] by (cases t) (auto intro!: side_okI)
  ultimately show ?case by blast
qed simp

text \<open>
  C34: Two engines of this version come to the same conclusion, whatever the order of reads and writes
  and the sizes of the chunks: both speak version 3 with the mechanism that both are configured
  for, or refuse each other if the mechanisms differ (or it is CURVE and not compiled in). No read
  fails, and they do not wait for each other for ever: when all that was made for sending has been
  sent and read, both have decided.
\<close>
theorem meeting_agrees:
  assumes "meeting sa sb a b s t"
  shows "(side_result s \<noteq> Waiting \<longrightarrow> side_result s = agreed sa (o_mechanism a) (o_mechanism b)) \<and>
    (side_result s = Waiting \<longrightarrow> handshake sa a ns (side_in s) (side_greeting s) \<noteq> None) \<and>
    (gr_outsize (side_greeting s) = 0 \<and> gr_outsize (side_greeting t) = 0 \<and> side_in s = [] \<and> side_in t = [] \<longrightarrow>
      side_result s \<noteq> Waiting \<and> side_result t \<noteq> Waiting)"
proof (intro conjI)
  have ok: "side_ok sa a b s t" "side_ok sb b a t s" using meeting_ok [OF assms] by simp_all
  show "side_result s \<noteq> Waiting \<longrightarrow> side_result s = agreed sa (o_mechanism a) (o_mechanism b)"
    using ok(1) by (simp add: side_ok_def Let_def split: if_splits)
  show "side_result s = Waiting \<longrightarrow> handshake sa a ns (side_in s) (side_greeting s) \<noteq> None"
    using handshake_ok [OF side_ok_waiting [OF ok(1)], of ns "side_in s"] by auto
  show "gr_outsize (side_greeting s) = 0 \<and> gr_outsize (side_greeting t) = 0 \<and> side_in s = [] \<and> side_in t = [] \<longrightarrow>
      side_result s \<noteq> Waiting \<and> side_result t \<noteq> Waiting"
  proof
    assume q: "gr_outsize (side_greeting s) = 0 \<and> gr_outsize (side_greeting t) = 0 \<and> side_in s = [] \<and> side_in t = []"
    define p where "p = greeting_recv (side_greeting s)"
    define r where "r = greeting_recv (side_greeting t)"
    have "greeting_send (side_greeting t) = p" using side_okD(7) [OF ok(1)] q by (simp add: p_def)
    then have pr1: "answer b r = p" using side_okD(5) [OF ok(2)] by (simp add: r_def)
    have "greeting_send (side_greeting s) = r" using side_okD(7) [OF ok(2)] q by (simp add: r_def)
    then have pr2: "answer a p = r" using side_okD(5) [OF ok(1)] by (simp add: p_def)
    note p = side_okD(1,2) [OF ok(1), folded p_def] and r = side_okD(1,2) [OF ok(2), folded r_def]
    have lp: "length p = (if length r < 10 then 10 else if length r = 10 then 11 else 64)"
      using arg_cong [OF answer_full [OF r(2,1), of b], of length] unfolding pr1 by simp
    have lr: "length r = (if length p < 10 then 10 else if length p = 10 then 11 else 64)"
      using arg_cong [OF answer_full [OF p(2,1), of a], of length] unfolding pr2 by simp
    have "10 \<le> length p" unfolding lp by simp
    then have "11 \<le> length r" unfolding lr by simp
    then have "length p = 64" unfolding lp by simp
    then have "length p = 64 \<and> length r = 64" unfolding lr by simp
    then show "side_result s \<noteq> Waiting \<and> side_result t \<noteq> Waiting" using side_okD(3) [OF ok(1)] side_okD(3) [OF ok(2)] by (simp add: p_def r_def)
  qed
qed

theorem meeting_agrees_witness:
  "\<exists>g h. meeting False False (options_new [] :: unit options_t) (options_new [])
       \<lparr>side_greeting = g, side_result = Waiting, side_in = signature (options_new [] :: unit options_t)\<rparr>
       \<lparr>side_greeting = h, side_result = Waiting, side_in = []\<rparr> \<and> gr_outsize h = 0 \<and>
     handshake False (options_new [] :: unit options_t) [7, 8] (signature (options_new [] :: unit options_t)) g \<noteq> None"
proof -
  let ?o = "options_new [] :: unit options_t"
  obtain g where g: "greeting_new ?o = Some g" "greeting_ok ?o g" "greeting_recv g = []" "gr_outsize g = 10" using greeting_new_ok by blast
  let ?s = "\<lparr>side_greeting = g, side_result = Waiting, side_in = []\<rparr>"
  let ?t = "\<lparr>side_greeting = g, side_result = Waiting, side_in = signature ?o\<rparr>"
  define h where "h = g\<lparr>gr_outsize := 0\<rparr>"
  have w: "greeting_written 10 (side_greeting ?s) = (signature ?o, h)"
    using g by (simp add: greeting_written_def greeting_ok_def h_def Let_def)
  have "meeting False False ?o ?o (?s\<lparr>side_greeting := h\<rparr>) (?s\<lparr>side_in := side_in ?s @ signature ?o\<rparr>)"
    by (rule meeting.writes [OF meeting.start [OF g(1) g(1)] _ w]) simp
  then have r: "meeting False False ?o ?o ?t \<lparr>side_greeting = h, side_result = Waiting, side_in = []\<rparr>"
    using meeting.swap by fastforce
  have "handshake False ?o [7, 8] (signature ?o) g \<noteq> None" using meeting_agrees [OF r, of "[7, 8]"] by simp
  moreover have "gr_outsize h = 0" by (simp add: h_def)
  ultimately show ?thesis using r by blast
qed

subsection \<open>Peers without a version\<close>

text \<open>
  Such a peer has been sent the ten bytes of the signature, which it takes for the header of the
  identity; what the encoder still holds is the identity itself.
\<close>

lemma skip_identity_ok:
  "\<exists>e. skip_identity_header opts = Some e \<and> enc_ok V1_encoder e \<and> unsent V1_encoder e = o_identity opts"
proof -
  let ?m = "\<lparr>wm_flags = 0, wm_data = o_identity opts\<rparr>" and ?h = "if length (o_identity opts) + 1 \<ge> 255 then 10 else 2 :: nat"
  have l: "length (v1_header ?m) = ?h" by (simp add: v1_header_def Let_def)
  let ?e = "\<lparr>to_write = v1_header ?m, enc_next = Size_ready, new_msg_flag = False, in_progress = Some ?m\<rparr>"
  have load: "load_msg V1_encoder ?m encoder_new = Some ?e" by (simp add: load_msg_def enc_action_def encoder_new_def)
  have "encode_loop V1_encoder False ?h [] ?e = encode_loop V1_encoder False ?h (v1_header ?m) (?e\<lparr>to_write := []\<rparr>)"
    using l by (subst encode_loop_copy) (auto simp del: length_greater_0_conv)
  also have "\<dots> = Some (v1_header ?m, ?e\<lparr>to_write := []\<rparr>)" using l by (subst encode_loop.simps) simp
  finally have "skip_identity_header opts = Some (?e\<lparr>to_write := []\<rparr>)"
    using load l by (simp add: skip_identity_header_def encode_def Let_def split del: if_split)
  then show ?thesis by (simp add: enc_ok_def unsent_def)
qed

lemma unversioned_answer:
  assumes "detect sodium opts b = Speaks Unversioned"
  shows "answer opts b = signature opts"
  using assms by (auto simp: detect_def select_protocol_def answer_def Let_def split: if_splits)

end
