(* ===== verification/Spec2Isabelle.thy ===== *)
theory Spec2Isabelle
  imports Mailbox Pipe_Term Pubsub Rep Greeting
begin

text \<open>
  \<^bold>\<open>libzmq in Isabelle/HOL.\<close>
  A model of the core of ZeroMQ 4.0.7, the messaging library under \<^verbatim>\<open>src/zeromq/zeromq4-x-4.0.7\<close>, which
  the C++ wrapper of \<^verbatim>\<open>src/zmq\<close> builds on. File names below are relative to its directory \<^verbatim>\<open>src\<close>.

  \<^bold>\<open>Parts and how they interact.\<close>
  A socket keeps a set of pipes, one for each peer. A pipe (\<^verbatim>\<open>pipe.cpp\<close>) is a pair of one-way queues
  (\<^verbatim>\<open>ypipe.hpp\<close> on \<^verbatim>\<open>yqueue.hpp\<close>) between two threads, with commands in both directions for wake-ups, flow
  control and termination. Messages (\<^verbatim>\<open>msg.cpp\<close>) share their bodies by counted references. A socket
  reads from its pipes by fair queueing (\<^verbatim>\<open>fq.cpp\<close>) and writes by load balancing (\<^verbatim>\<open>lb.cpp\<close>) or by
  distribution (\<^verbatim>\<open>dist.cpp\<close>); subscribers count their subscriptions in a trie (\<^verbatim>\<open>trie.cpp\<close>) and publishers
  keep those of their peers in a multi-trie (\<^verbatim>\<open>mtrie.cpp\<close>). On the wire messages become frames
  (\<^verbatim>\<open>encoder.hpp\<close>, \<^verbatim>\<open>decoder.hpp\<close> and the protocol versions).

  \<^bold>\<open>Theories.\<close>
  \<^item> \<open>Zmq_Prelude\<close>: machine types, error numbers, assertions, lists.
  \<^item> \<open>Yqueue\<close> (\<^verbatim>\<open>yqueue.hpp\<close>), \<open>Ypipe\<close> (\<^verbatim>\<open>ypipe.hpp\<close>, \<^verbatim>\<open>atomic_ptr.hpp\<close>): the chunked queue refines a list; in
    all interleavings of the two threads the reader gets the completed items in order, nothing
    fails, and no wake-up is lost.
  \<^item> \<open>Msg\<close> (\<^verbatim>\<open>msg.cpp\<close>): message types and the reference counts of bodies, on an explicit heap.
  \<^item> \<open>Pipe\<close>, \<open>Pipe_Flow\<close> (\<^verbatim>\<open>pipe.cpp\<close>): the two ends, their commands, high and low water marks, also with
    wrapped counters; all reachable states of a connection.
  \<^item> \<open>Pipe_Array\<close> (\<^verbatim>\<open>array.hpp\<close>), \<open>Round_Robin\<close>, \<open>Pipe_Interface\<close>: the array of pipes with indices, the part
    that fair queue and load balancer share, and locales for what they need of a pipe, with
    their interpretations on the pipes of the model.
  \<^item> \<open>Fq\<close>, \<open>Feeds\<close>, \<open>Lb\<close>, \<open>Dist\<close>: fairness, completeness and atomicity of multipart messages.
  \<^item> \<open>Trie_Table\<close>, \<open>Trie\<close>, \<open>Mtrie\<close>: both tries against their meaning as functions of prefixes.
  \<^item> \<open>Wire\<close>, \<open>Encoder\<close>, \<open>Decoder\<close>: frames, the encoder and decoder state machines with the zero-copy
    paths, and arbitrary input.
  \<^item> \<open>Z85\<close> (\<^verbatim>\<open>zmq_utils.cpp\<close>), \<open>Options\<close> (\<^verbatim>\<open>options.cpp\<close>): the text form of keys, the options of a socket.
  \<^item> \<open>Socket_Common\<close>, \<open>Xpub\<close>, \<open>Xsub\<close>, \<open>Pubsub\<close>: publisher and subscriber sockets and the agreement between
    the two ends.
  \<^item> \<open>Mechanism\<close>, \<open>Null\<close>, \<open>Plain\<close> (\<^verbatim>\<open>mechanism.cpp\<close>, \<^verbatim>\<open>null_mechanism.cpp\<close>, \<^verbatim>\<open>plain_mechanism.cpp\<close>): the handshakes of two
    mechanisms and the dialogue with the authentication handler; nobody is let in without its leave.
  \<^item> \<open>Greeting\<close> (\<^verbatim>\<open>stream_engine.cpp\<close>): which protocol the peer speaks, independent of how the transport cuts
    its bytes; two engines come to the same conclusion.
  \<^item> \<open>Duplex\<close>, \<open>Router\<close> (\<^verbatim>\<open>router.cpp\<close>), \<open>Rep\<close> (\<^verbatim>\<open>rep.cpp\<close>): reading and writing on the same pipes; routing by
    identity; replies go where the request came from.

  \<^bold>\<open>Conventions.\<close>
  An operation that can fail an assertion or run into undefined behaviour is a function into
  \<open>option\<close>; error numbers are values of type \<open>errno_t\<close>. Objects that are shared (pipes, message
  bodies) live in a \<open>world\<close> that the operations pass on. Loops whose number of rounds is not known
  are \<open>partial_function (option)\<close>, where not returning is \<open>None\<close> like any other failure, and their
  theorems show that they return. The loops over the input of an engine take the lengths of the
  reads as an argument.

  \<^bold>\<open>Not modelled.\<close>
  The operating system (polling, sockets, threads, clocks), third-party code (OpenPGM, libsodium) and
  the glue to them; addresses; the parts listed as such in the manifest.
\<close>

section \<open>From encoder to decoder\<close>

text \<open>
  C15: the two halves of the codec fit together. The batches that the sending engine writes, cut
  into arbitrary reads by the transport, give the receiving session exactly the messages that
  were sent, in order, with the flags that the protocol version carries.
\<close>

theorem wire_end_to_end:
  assumes "\<forall>m \<in> set msgs. msg_accepted env m" and "0 < batch" and "0 < bufsize"
    and "length (concat (map (frame V2_encoder) msgs)) < n" and "length (concat (map (frame V1_encoder) msgs)) < n"
    and "length ns = n" and "\<forall>k \<in> set ns. 0 < k"
  shows "(\<exists>b e d. transmit V2_encoder batch n msgs encoder_new = Some (b, [], e) \<and>
            receive (v2_action env) collect bufsize ns b [] v2_decoder_new = Some ([], map v2_wire_view msgs, d, None)) \<and>
         (\<exists>b e d. transmit V1_encoder batch n msgs encoder_new = Some (b, [], e) \<and>
            receive (v1_action env) collect bufsize ns b [] v1_decoder_new = Some ([], map v1_wire_view msgs, d, None))"
proof -
  have new: "between_messages Flags_ready v2_decoder_new" "between_messages One_byte_size_ready v1_decoder_new"
    by (simp_all add: between_messages_def v2_decoder_new_def v1_decoder_new_def)
  have fr: "frame V2_encoder = (\<lambda>m. v2_header m @ wm_data m)" "frame V1_encoder = (\<lambda>m. v1_header m @ wm_data m)"
    by (auto simp: frame_def)
  from v2.receive_messages [OF new(1) assms(1,3), of ns] v1.receive_messages [OF new(2) assms(1,3), of ns]
    transmit_all [OF assms(2), of V2_encoder msgs n] transmit_all [OF assms(2), of V1_encoder msgs n] show ?thesis
    using assms(4-7) unfolding fr by (fastforce simp del: length_concat)
qed

theorem wire_end_to_end_witness:
  "\<exists>b e d. transmit V2_encoder 2 9 [\<lparr>wm_flags = 1, wm_data = [7]\<rparr>, \<lparr>wm_flags = 0, wm_data = []\<rparr>] encoder_new = Some (b, [], e) \<and>
     receive (v2_action \<lparr>maxmsgsize = 4, oom = (\<lambda>_. False)\<rparr>) collect 8192 (replicate 9 1) b [] v2_decoder_new =
     Some ([], map v2_wire_view [\<lparr>wm_flags = 1, wm_data = [7]\<rparr>, \<lparr>wm_flags = 0, wm_data = []\<rparr>], d, None)"
proof -
  let ?ms = "[\<lparr>wm_flags = 1, wm_data = [7]\<rparr>, \<lparr>wm_flags = 0, wm_data = []\<rparr>]" and ?env = "\<lparr>maxmsgsize = 4, oom = (\<lambda>_. False)\<rparr>"
  have "\<forall>m \<in> set ?ms. msg_accepted ?env m"
    by (simp add: msg_accepted_def size_accepted_def size_t_max_def max_vsm_size_def)
  moreover have "length (concat (map (frame V2_encoder) ?ms)) < 9" "length (concat (map (frame V1_encoder) ?ms)) < 9"
    by (simp_all add: frame_def v2_header_def v1_header_def)
  ultimately show ?thesis
    using wire_end_to_end [of ?ms ?env 2 8192 9 "replicate 9 1"] by (simp del: transmit.simps receive.simps list.map concat.simps length_concat)
qed

end
